(* ===== verification/Cajeta_Prelude.thy ===== *)
theory Cajeta_Prelude
  imports Main "HOL-Library.Char_ord" "HOL-Library.List_Lexorder" "HOL-Library.Monad_Syntax"
    "HOL-Library.Multiset"
begin

text \<open>
  The generic part of the development: results that may be errors
  (\<open>llvm::Expected\<close>), the C library's character classes, the string helpers that the
  sources define again and again (\<open>splitDots\<close>, \<open>splitCommas\<close>, \<open>trim\<close>), and
  insertion into an ordered list by a comparison that may throw.

  A \<open>std::string\<close> is a \<^typ>\<open>string\<close>, one \<^typ>\<open>char\<close> for a byte; the
  order of the libraries \<open>Char_ord\<close> and \<open>List_Lexorder\<close> is that of
  \<open>std::string::compare\<close>, which compares unsigned bytes.
\<close>

named_theorems err_simps "equations of results that may be errors"

subsection \<open>Results that may be errors\<close>

text \<open>\<open>Expected<T>\<close>: \<open>Inl\<close> of the error or \<open>Inr\<close> of the value;
  \<open>bindE\<close> is the early return \<open>if (!x) return x.takeError();\<close>.\<close>

definition bindE :: "'e + 'a \<Rightarrow> ('a \<Rightarrow> 'e + 'b) \<Rightarrow> 'e + 'b" where
  "bindE m f = (case m of Inl e \<Rightarrow> Inl e | Inr x \<Rightarrow> f x)"

lemma bindE_simps [simp, err_simps]:
  "bindE (Inl e) f = Inl e"
  "bindE (Inr x) f = f x"
  by (simp_all add: bindE_def)

lemma bindE_eq_Inr [err_simps]: "bindE m f = Inr y \<longleftrightarrow> (\<exists>x. m = Inr x \<and> f x = Inr y)"
  by (cases m) simp_all

lemma bindE_eq_Inl [err_simps]:
  "bindE m f = Inl e \<longleftrightarrow> m = Inl e \<or> (\<exists>x. m = Inr x \<and> f x = Inl e)"
  by (cases m) simp_all

lemma bindE_cong [fundef_cong]:
  "m = m' \<Longrightarrow> (\<And>x. m' = Inr x \<Longrightarrow> f x = f' x) \<Longrightarrow> bindE m f = bindE m' f'"
  by (cases m') simp_all

lemma bindE_Inr_cases:
  assumes "bindE m f = Inr y"
  obtains x where "m = Inr x" and "f x = Inr y"
  using assms by (auto simp: bindE_eq_Inr)

lemma case_InrE:
  assumes "case m of Inl _ \<Rightarrow> False | Inr x \<Rightarrow> P x"
  obtains x where "m = Inr x" "P x"
  using assms by (cases m) simp_all

text \<open>A loop that stops at the first error and threads a state.\<close>

fun foldE :: "('a \<Rightarrow> 's \<Rightarrow> 'e + 's) \<Rightarrow> 'a list \<Rightarrow> 's \<Rightarrow> 'e + 's" where
  "foldE f [] s = Inr s"
| "foldE f (x # xs) s = bindE (f x s) (foldE f xs)"

lemma foldE_append: "foldE f (xs @ ys) s = bindE (foldE f xs s) (foldE f ys)"
proof (induction xs arbitrary: s)
  case (Cons x xs)
  then show ?case by (cases "f x s") simp_all
qed simp

lemma foldE_invariant:
  assumes "foldE f xs s = Inr s'" and "P s"
    and "\<And>x s s'. x \<in> set xs \<Longrightarrow> P s \<Longrightarrow> f x s = Inr s' \<Longrightarrow> P s'"
  shows "P s'"
  using assms
proof (induction xs arbitrary: s)
  case (Cons x xs)
  from Cons.prems(1) obtain t where t: "f x s = Inr t" and rest: "foldE f xs t = Inr s'"
    by (auto elim: bindE_Inr_cases)
  have "P t" using Cons.prems(3) [OF _ Cons.prems(2) t] by simp
  with rest show ?case using Cons.IH Cons.prems(3) by (meson list.set_intros(2))
qed simp

subsection \<open>Character classes of the C locale\<close>

definition isdigit :: "char \<Rightarrow> bool" where
  "isdigit c = (CHR ''0'' \<le> c \<and> c \<le> CHR ''9'')"

definition isspace :: "char \<Rightarrow> bool" where
  "isspace c = (c = CHR '' '' \<or> (CHR 0x09 \<le> c \<and> c \<le> CHR 0x0D))"

definition isalpha :: "char \<Rightarrow> bool" where
  "isalpha c = ((CHR ''a'' \<le> c \<and> c \<le> CHR ''z'') \<or> (CHR ''A'' \<le> c \<and> c \<le> CHR ''Z''))"

definition isalnum :: "char \<Rightarrow> bool" where
  "isalnum c = (isalpha c \<or> isdigit c)"

definition digit_val :: "char \<Rightarrow> int" where
  "digit_val c = of_char c - 48"

text \<open>The value of a decimal digit string, before any bound is checked.\<close>

definition digits_val :: "string \<Rightarrow> int" where
  "digits_val s = foldl (\<lambda>n c. n * 10 + digit_val c) 0 s"

lemma isdigit_of_char: "isdigit c \<longleftrightarrow> 48 \<le> (of_char c :: nat) \<and> (of_char c :: nat) \<le> 57"
  by (simp add: isdigit_def less_eq_char_def)

lemma of_char_int: "(of_char c :: int) = int (of_char c)"
  by (simp add: of_char_def)

lemma digit_val_bounds: "isdigit c \<Longrightarrow> 0 \<le> digit_val c \<and> digit_val c < 10"
  by (auto simp: isdigit_of_char digit_val_def of_char_int)

subsection \<open>Splitting and trimming\<close>

text \<open>The loop \<open>for (char c : s) if (c == sep) { out.push_back(cur); cur.clear(); }
  else cur += c; out.push_back(cur);\<close> of \<open>splitDots\<close> and \<open>splitCommas\<close>.\<close>

fun split_from :: "char \<Rightarrow> string \<Rightarrow> string \<Rightarrow> string list" where
  "split_from sep cur [] = [cur]"
| "split_from sep cur (c # cs) =
     (if c = sep then cur # split_from sep [] cs else split_from sep (cur @ [c]) cs)"

definition split_on :: "char \<Rightarrow> string \<Rightarrow> string list" where
  "split_on sep s = split_from sep [] s"

lemma split_from_not_Nil [simp]: "split_from sep cur s \<noteq> []"
  by (induction sep cur s rule: split_from.induct) auto

lemma split_on_not_Nil [simp]: "split_on sep s \<noteq> []"
  by (simp add: split_on_def)

lemma split_from_no_sep: "sep \<notin> set s \<Longrightarrow> split_from sep cur s = [cur @ s]"
  by (induction s arbitrary: cur) auto

lemma split_from_append:
  "sep \<notin> set s \<Longrightarrow> split_from sep cur (s @ sep # t) = (cur @ s) # split_from sep [] t"
  by (induction s arbitrary: cur) auto

lemma split_on_no_sep [simp]: "sep \<notin> set s \<Longrightarrow> split_on sep s = [s]"
  by (simp add: split_on_def split_from_no_sep)

lemma split_on_sep [simp]: "sep \<notin> set s \<Longrightarrow> split_on sep (s @ sep # t) = s # split_on sep t"
  by (simp add: split_on_def split_from_append)

lemma split_from_join:
  "split_from sep cur (s @ sep # t) = split_from sep cur s @ split_from sep [] t"
  by (induction s arbitrary: cur) auto

lemma split_on_join: "split_on sep (s @ sep # t) = split_on sep s @ split_on sep t"
  by (simp add: split_on_def split_from_join)

definition rtrim :: "string \<Rightarrow> string" where
  "rtrim s = rev (dropWhile isspace (rev s))"

definition trim :: "string \<Rightarrow> string" where
  "trim s = rtrim (dropWhile isspace s)"

lemma trim_id:
  assumes "\<forall>c \<in> set s. \<not> isspace c"
  shows "trim s = s"
proof -
  have "dropWhile isspace s = s" and "dropWhile isspace (rev s) = rev s"
    using assms by (auto simp: dropWhile_eq_self_iff hd_rev)
  then show ?thesis by (simp add: trim_def rtrim_def)
qed

lemma set_trim: "set (trim s) \<subseteq> set s"
proof
  fix c assume "c \<in> set (trim s)"
  then have "c \<in> set (dropWhile isspace s)"
    by (auto simp: trim_def rtrim_def dest: set_dropWhileD)
  then show "c \<in> set s" by (auto dest: set_dropWhileD)
qed

text \<open>Joining with a separator, as the loops that build a message do.\<close>

fun join_with :: "string \<Rightarrow> string list \<Rightarrow> string" where
  "join_with sep [] = []"
| "join_with sep [x] = x"
| "join_with sep (x # y # ys) = x @ sep @ join_with sep (y # ys)"

text \<open>\<open>std::to_string\<close> of an unsigned number.\<close>

fun show_nat :: "nat \<Rightarrow> string" where
  "show_nat n =
     (if n < 10 then [char_of (48 + n)] else show_nat (n div 10) @ [char_of (48 + n mod 10)])"

declare show_nat.simps [simp del]

subsection \<open>Programs over a world\<close>

text \<open>Code that reads and writes outside of itself (files, registries, a cache) takes the
  state of that world and returns it changed, with an error or a value. \<^term>\<open>None\<close> is
  no return: an exception that nothing catches, or a loop that does not end.\<close>

type_synonym ('w, 'e, 'a) prog = "'w \<Rightarrow> (('e + 'a) \<times> 'w) option"

definition retP :: "'a \<Rightarrow> ('w, 'e, 'a) prog" where
  "retP x w = Some (Inr x, w)"

definition failP :: "'e \<Rightarrow> ('w, 'e, 'a) prog" where
  "failP e w = Some (Inl e, w)"

definition liftE :: "'e + 'a \<Rightarrow> ('w, 'e, 'a) prog" where
  "liftE r w = Some (r, w)"

definition liftO :: "'a option \<Rightarrow> ('w, 'e, 'a) prog" where
  "liftO r w = (case r of None \<Rightarrow> None | Some x \<Rightarrow> Some (Inr x, w))"

definition readP :: "('w \<Rightarrow> 'a) \<Rightarrow> ('w, 'e, 'a) prog" where
  "readP f w = Some (Inr (f w), w)"

definition bindP :: "('w, 'e, 'a) prog \<Rightarrow> ('a \<Rightarrow> ('w, 'e, 'b) prog) \<Rightarrow> ('w, 'e, 'b) prog" where
  "bindP m f w = Option.bind (m w) (\<lambda>(r, w'). case r of Inl e \<Rightarrow> Some (Inl e, w') | Inr x \<Rightarrow> f x w')"

text \<open>A guard: the error unless the condition holds.\<close>

definition checkP :: "bool \<Rightarrow> 'e \<Rightarrow> ('w, 'e, unit) prog" where
  "checkP b e = (if b then retP () else failP e)"

lemma prog_simps [simp]:
  "retP x w = Some (Inr y, w') \<longleftrightarrow> x = y \<and> w = w'" "retP x w \<noteq> Some (Inl e, w')" "retP x w \<noteq> None"
  "failP e w \<noteq> Some (Inr y, w')" "failP e w \<noteq> None"
  "liftE r w = Some (r', w') \<longleftrightarrow> r = r' \<and> w = w'" "liftE r w \<noteq> None"
  "liftO o1 w = Some (Inr y, w') \<longleftrightarrow> o1 = Some y \<and> w = w'" "liftO o1 w = None \<longleftrightarrow> o1 = None"
  "readP f w = Some (Inr y, w') \<longleftrightarrow> y = f w \<and> w = w'" "readP f w \<noteq> None"
  "checkP b e w = Some (Inr u, w') \<longleftrightarrow> b \<and> w = w'" "checkP b e w \<noteq> None"
  by (auto simp: retP_def failP_def liftE_def liftO_def readP_def checkP_def split: option.splits)

lemma bindP_eq_Inr:
  "bindP m f w = Some (Inr y, w') \<longleftrightarrow> (\<exists>x w1. m w = Some (Inr x, w1) \<and> f x w1 = Some (Inr y, w'))"
proof (cases "m w")
  case (Some p)
  then show ?thesis by (cases p; cases "fst p") (auto simp: bindP_def)
qed (simp add: bindP_def)

lemma bindP_Inr:
  assumes "bindP m f w = Some (Inr y, w')"
  obtains x w1 where "m w = Some (Inr x, w1)" "f x w1 = Some (Inr y, w')"
  using assms by (auto simp: bindP_eq_Inr)

lemma bindP_total:
  "m w \<noteq> None \<Longrightarrow> (\<And>x w1. m w = Some (Inr x, w1) \<Longrightarrow> f x w1 \<noteq> None) \<Longrightarrow> bindP m f w \<noteq> None"
  by (auto simp: bindP_def split: sum.splits Option.bind_splits)

lemma bindP_mono [partial_function_mono]:
  assumes "\<And>x w. mono_option (\<lambda>g. C g x w)"
  shows "mono_option (\<lambda>g. bindP m (\<lambda>x. C g x) w)"
proof -
  have "mono_option (\<lambda>g. case r of Inl e \<Rightarrow> Some (Inl e, b) | Inr x \<Rightarrow> C g x b)" for r b
    by (cases r) (simp_all add: assms option.const_mono)
  then have "mono_option (\<lambda>g. case p of (r, b) \<Rightarrow>
      case r of Inl e \<Rightarrow> Some (Inl e, b) | Inr x \<Rightarrow> C g x b)" for p
    by (cases p) simp
  then show ?thesis unfolding bindP_def by (intro bind_mono option.const_mono)
qed

subsection \<open>Sorting by a comparison that may throw\<close>

text \<open>\<open>std::sort\<close> with a comparison: insertion in order, each element going
  before the first one it is less than. The standard leaves the order of equivalent
  elements open; this is the stable choice. \<open>None\<close> is an exception out of the
  comparison.\<close>

fun insert_by :: "('a \<Rightarrow> 'a \<Rightarrow> bool option) \<Rightarrow> 'a \<Rightarrow> 'a list \<Rightarrow> 'a list option" where
  "insert_by lt x [] = Some [x]"
| "insert_by lt x (y # ys) =
     do { b \<leftarrow> lt x y;
          if b then Some (x # y # ys)
          else do { zs \<leftarrow> insert_by lt x ys; Some (y # zs) } }"

fun sort_from :: "('a \<Rightarrow> 'a \<Rightarrow> bool option) \<Rightarrow> 'a list \<Rightarrow> 'a list \<Rightarrow> 'a list option" where
  "sort_from lt acc [] = Some acc"
| "sort_from lt acc (x # xs) = do { acc' \<leftarrow> insert_by lt x acc; sort_from lt acc' xs }"

definition sort_by :: "('a \<Rightarrow> 'a \<Rightarrow> bool option) \<Rightarrow> 'a list \<Rightarrow> 'a list option" where
  "sort_by lt xs = sort_from lt [] xs"

lemma insert_by_mset: "insert_by lt x ys = Some zs \<Longrightarrow> mset zs = add_mset x (mset ys)"
  by (induction lt x ys arbitrary: zs rule: insert_by.induct)
    (auto split: if_splits Option.bind_splits)

lemma sort_from_mset: "sort_from lt acc xs = Some ys \<Longrightarrow> mset ys = mset acc + mset xs"
  by (induction xs arbitrary: acc) (auto dest: insert_by_mset split: Option.bind_splits)

lemma sort_by_mset: "sort_by lt xs = Some ys \<Longrightarrow> mset ys = mset xs"
  by (simp add: sort_by_def sort_from_mset)

lemma sort_by_set: "sort_by lt xs = Some ys \<Longrightarrow> set ys = set xs"
  by (metis sort_by_mset set_mset_mset)

end
