(* ===== verification/Version_Order.thy ===== *)
theory Version_Order
  imports Cajeta_Prelude
begin

text \<open>
  Version strings and version constraints (\<open>buildtool/Resolver.cpp\<close>): comparison of
  semver-shaped strings, the constraint language (\<open>"1.2.3"\<close>, \<open>"=1.2.3"\<close>,
  \<open>"1.2.*"\<close>, \<open>">=1.2.0,<2"\<close>) and the selection of a candidate.

  \<open>std::stoull\<close> throws \<open>std::out_of_range\<close> for a component of \<open>2^64\<close>
  or more, and nothing between the comparison and the caller of the resolver catches it:
  \<^term>\<open>None\<close> is that exception.
\<close>

subsection \<open>Comparison\<close>

definition splitDots :: "string \<Rightarrow> string list" where
  "splitDots s = split_on (CHR ''.'') s"

text \<open>The numeric core: everything before the first \<open>-\<close> or \<open>+\<close>.\<close>

definition semverCore :: "string \<Rightarrow> string" where
  "semverCore v = takeWhile (\<lambda>c. c \<noteq> CHR ''-'' \<and> c \<noteq> CHR ''+'') v"

definition isAllDigits :: "string \<Rightarrow> bool" where
  "isAllDigits s = (s \<noteq> [] \<and> list_all isdigit s)"

definition stoull :: "string \<Rightarrow> int option" where
  "stoull s = (if digits_val s < 2 ^ 64 then Some (digits_val s) else None)"

text \<open>One round of the loop of \<open>compareVersions\<close>: 0 is \<open>go on\<close>.\<close>

definition cmp_component :: "string \<Rightarrow> string \<Rightarrow> int option" where
  "cmp_component av bv =
     (if isAllDigits av \<and> isAllDigits bv
      then do { ai \<leftarrow> stoull av; bi \<leftarrow> stoull bv;
                Some (if ai \<noteq> bi then (if ai < bi then -1 else 1) else 0) }
      else Some (if av = bv then 0 else if av < bv then -1 else 1))"

text \<open>The loop over \<open>max(aParts.size(), bParts.size())\<close>, a missing component being
  \<open>"0"\<close>.\<close>

fun cmp_parts :: "string list \<Rightarrow> string list \<Rightarrow> int option" where
  "cmp_parts [] [] = Some 0"
| "cmp_parts (a # as) [] =
     do { c \<leftarrow> cmp_component a ''0''; if c \<noteq> 0 then Some c else cmp_parts as [] }"
| "cmp_parts [] (b # bs) =
     do { c \<leftarrow> cmp_component ''0'' b; if c \<noteq> 0 then Some c else cmp_parts [] bs }"
| "cmp_parts (a # as) (b # bs) =
     do { c \<leftarrow> cmp_component a b; if c \<noteq> 0 then Some c else cmp_parts as bs }"

definition compareVersions :: "string \<Rightarrow> string \<Rightarrow> int option" where
  "compareVersions a b = cmp_parts (splitDots (semverCore a)) (splitDots (semverCore b))"

definition compareMajor :: "string \<Rightarrow> string \<Rightarrow> int option" where
  "compareMajor a b =
     (let aParts = splitDots (semverCore a); bParts = splitDots (semverCore b);
          aMaj = (if aParts = [] then ''0'' else hd aParts);
          bMaj = (if bParts = [] then ''0'' else hd bParts)
      in if isAllDigits aMaj \<and> isAllDigits bMaj
         then do { ai \<leftarrow> stoull aMaj; bi \<leftarrow> stoull bMaj;
                   Some (if ai = bi then 0 else if ai < bi then -1 else 1) }
         else Some (if aMaj = bMaj then 0 else if aMaj < bMaj then -1 else 1))"

subsection \<open>Constraints\<close>

datatype cop = OpEq | OpMin | OpWild | OpGe | OpGt | OpLe | OpLt

record atom =
  a_op :: cop
  operand :: string

datatype atom_error = EmptyAtom | NoVersion string

definition starts :: "string \<Rightarrow> string \<Rightarrow> bool" where
  "starts p s = (take (length p) s = p)"

definition parseAtom :: "string \<Rightarrow> atom_error + atom" where
  "parseAtom raw =
     (let s = trim raw in
      if s = [] then Inl EmptyAtom
      else let (op, consume) =
                 (if starts ''>='' s then (OpGe, 2)
                  else if starts ''<='' s then (OpLe, 2)
                  else if starts ''>'' s then (OpGt, 1)
                  else if starts ''<'' s then (OpLt, 1)
                  else if starts ''='' s then (OpEq, 1)
                  else (OpMin, 0::nat));
               operand = trim (drop consume s)
           in if operand = [] then Inl (NoVersion raw)
              else if op = OpMin \<and> CHR ''*'' \<in> set operand
              then let cut = takeWhile (\<lambda>c. c \<noteq> CHR ''*'') operand
                   in Inr \<lparr>a_op = OpWild,
                           operand = (if cut \<noteq> [] \<and> last cut = CHR ''.'' then butlast cut else cut)\<rparr>
              else Inr \<lparr>a_op = op, operand = operand\<rparr>)"

text \<open>The \<open>Wild\<close> case's loop: every segment of the prefix equals the version's.\<close>

definition wild_matches :: "string \<Rightarrow> string \<Rightarrow> bool" where
  "wild_matches prefix version =
     (let pParts = splitDots prefix; vParts = splitDots (semverCore version)
      in \<not> length vParts < length pParts \<and> take (length pParts) vParts = pParts)"

definition atomMatches :: "atom \<Rightarrow> string \<Rightarrow> bool option" where
  "atomMatches a version =
     (case a_op a of
        OpEq \<Rightarrow> Some (version = operand a)
      | OpMin \<Rightarrow>
          do { m \<leftarrow> compareMajor version (operand a);
               if m \<noteq> 0 then Some False
               else if CHR ''-'' \<notin> set (operand a) \<and> CHR ''-'' \<in> set version then Some False
               else do { c \<leftarrow> compareVersions version (operand a); Some (c \<ge> 0) } }
      | OpWild \<Rightarrow> Some (operand a = [] \<or> wild_matches (operand a) version)
      | OpGe \<Rightarrow> do { c \<leftarrow> compareVersions version (operand a); Some (c \<ge> 0) }
      | OpGt \<Rightarrow> do { c \<leftarrow> compareVersions version (operand a); Some (c > 0) }
      | OpLe \<Rightarrow> do { c \<leftarrow> compareVersions version (operand a); Some (c \<le> 0) }
      | OpLt \<Rightarrow> do { c \<leftarrow> compareVersions version (operand a); Some (c < 0) })"

definition splitCommas :: "string \<Rightarrow> string list" where
  "splitCommas s = split_on (CHR '','') s"

definition exactIfBare :: "string \<Rightarrow> string" where
  "exactIfBare constraint =
     (let c = trim constraint
      in if c = [] \<or> (\<exists>x \<in> set c. x \<in> set ''<>=*,'') then c else CHR ''='' # c)"

text \<open>The loop of \<open>versionSatisfies\<close> over the comma-separated pieces.\<close>

fun satisfies_pieces :: "string \<Rightarrow> string list \<Rightarrow> bool option" where
  "satisfies_pieces version [] = Some True"
| "satisfies_pieces version (piece # pieces) =
     (case parseAtom piece of
        Inl e \<Rightarrow> Some False
      | Inr a \<Rightarrow> do { m \<leftarrow> atomMatches a version;
                     if \<not> m then Some False else satisfies_pieces version pieces })"

definition versionSatisfies :: "string \<Rightarrow> string \<Rightarrow> bool option" where
  "versionSatisfies version constraint =
     (if constraint = ''*'' then Some True
      else if constraint = [] then Some False
      else satisfies_pieces version (splitCommas constraint))"

subsection \<open>Selection\<close>

fun highest_from :: "string \<Rightarrow> string list \<Rightarrow> string \<Rightarrow> string option" where
  "highest_from constraint [] best = Some best"
| "highest_from constraint (v # vs) best =
     do { sat \<leftarrow> versionSatisfies v (exactIfBare constraint);
          if \<not> sat then highest_from constraint vs best
          else if best = [] then highest_from constraint vs v
          else do { c \<leftarrow> compareVersions v best;
                    highest_from constraint vs (if c > 0 then v else best) } }"

definition highestSatisfying :: "string list \<Rightarrow> string \<Rightarrow> string option" where
  "highestSatisfying candidates constraint = highest_from constraint candidates []"

fun satisfies_all :: "string \<Rightarrow> string list \<Rightarrow> bool option" where
  "satisfies_all v [] = Some True"
| "satisfies_all v (c # cs) =
     do { sat \<leftarrow> versionSatisfies v c; if \<not> sat then Some False else satisfies_all v cs }"

fun first_satisfying :: "string list \<Rightarrow> string list \<Rightarrow> string option" where
  "first_satisfying [] constraints = Some []"
| "first_satisfying (v # vs) constraints =
     do { ok \<leftarrow> satisfies_all v constraints;
          if ok then Some v else first_satisfying vs constraints }"

definition version_less :: "string \<Rightarrow> string \<Rightarrow> bool option" where
  "version_less a b = do { c \<leftarrow> compareVersions a b; Some (c < 0) }"

definition lowestSatisfyingAll :: "string list \<Rightarrow> string list \<Rightarrow> string option" where
  "lowestSatisfyingAll candidates constraints =
     do { sorted \<leftarrow> sort_by version_less candidates; first_satisfying sorted constraints }"

text \<open>The modules embedded in the compiler, which a project satisfies implicitly.\<close>

definition stdlibRoots :: "string list" where
  "stdlibRoots = [''cajeta.codec'', ''cajeta.collection'', ''cajeta.error'', ''cajeta.hash'',
     ''cajeta.io'', ''cajeta.lang'', ''cajeta.concurrent'', ''cajeta.reflect'', ''cajeta.time'',
     ''cajeta.wire'']"

definition isBuiltinStdlibDep :: "string \<Rightarrow> bool" where
  "isBuiltinStdlibDep name =
     (\<exists>r \<in> set stdlibRoots. name = r \<or> starts (r @ ''.'') name)"


subsection \<open>The order on numeric versions\<close>

text \<open>A version whose core is made of decimal components below \<open>2^64\<close>, and the
  list of their values.\<close>

definition numeric_version :: "string \<Rightarrow> bool" where
  "numeric_version v = list_all (\<lambda>p. isAllDigits p \<and> stoull p \<noteq> None) (splitDots (semverCore v))"

definition vnums :: "string \<Rightarrow> int list" where
  "vnums v = map digits_val (splitDots (semverCore v))"

text \<open>The specification of the comparison: lexicographic, the shorter list padded with
  zeros.\<close>

fun pad_cmp :: "int list \<Rightarrow> int list \<Rightarrow> int" where
  "pad_cmp [] [] = 0"
| "pad_cmp (x # xs) [] = (if x \<noteq> 0 then (if x < 0 then -1 else 1) else pad_cmp xs [])"
| "pad_cmp [] (y # ys) = (if y \<noteq> 0 then (if 0 < y then -1 else 1) else pad_cmp [] ys)"
| "pad_cmp (x # xs) (y # ys) = (if x \<noteq> y then (if x < y then -1 else 1) else pad_cmp xs ys)"

definition nth0 :: "int list \<Rightarrow> nat \<Rightarrow> int" where
  "nth0 xs i = (if i < length xs then xs ! i else 0)"

lemma nth0_simps [simp]: "nth0 [] i = 0" "nth0 (x # xs) 0 = x" "nth0 (x # xs) (Suc i) = nth0 xs i"
  by (simp_all add: nth0_def)

definition pad_less :: "int list \<Rightarrow> int list \<Rightarrow> bool" where
  "pad_less xs ys = (\<exists>i. nth0 xs i < nth0 ys i \<and> (\<forall>j<i. nth0 xs j = nth0 ys j))"

lemma pad_less_step: "pad_less xs ys \<longleftrightarrow> nth0 xs 0 < nth0 ys 0 \<or> nth0 xs 0 = nth0 ys 0 \<and>
    (\<exists>i. nth0 xs (Suc i) < nth0 ys (Suc i) \<and> (\<forall>j<i. nth0 xs (Suc j) = nth0 ys (Suc j)))"
    (is "_ \<longleftrightarrow> _ \<or> _ \<and> ?rest")
proof
  assume "pad_less xs ys"
  then obtain i where i: "nth0 xs i < nth0 ys i" "\<forall>j<i. nth0 xs j = nth0 ys j"
    by (auto simp: pad_less_def)
  then show "nth0 xs 0 < nth0 ys 0 \<or> nth0 xs 0 = nth0 ys 0 \<and> ?rest"
    by (cases i) auto
next
  assume "nth0 xs 0 < nth0 ys 0 \<or> nth0 xs 0 = nth0 ys 0 \<and> ?rest"
  then show "pad_less xs ys"
  proof
    assume "nth0 xs 0 = nth0 ys 0 \<and> ?rest"
    then obtain i where "nth0 xs (Suc i) < nth0 ys (Suc i)"
      and "\<forall>j<Suc i. nth0 xs j = nth0 ys j"
      by (auto simp: less_Suc_eq_0_disj)
    then show ?thesis unfolding pad_less_def by blast
  qed (auto simp: pad_less_def)
qed

lemma pad_less_simps [simp]:
  "pad_less [] [] \<longleftrightarrow> False"
  "pad_less (x # xs) [] \<longleftrightarrow> x < 0 \<or> x = 0 \<and> pad_less xs []"
  "pad_less [] (y # ys) \<longleftrightarrow> 0 < y \<or> y = 0 \<and> pad_less [] ys"
  "pad_less (x # xs) (y # ys) \<longleftrightarrow> x < y \<or> x = y \<and> pad_less xs ys"
  by (simp add: pad_less_def) (subst pad_less_step, simp add: pad_less_def)+

lemma pad_cmp_less: "pad_cmp xs ys < 0 \<longleftrightarrow> pad_less xs ys"
  by (induction xs ys rule: pad_cmp.induct) auto

lemma pad_cmp_refl [simp]: "pad_cmp xs xs = 0"
  by (induction xs) auto

lemma pad_cmp_anti: "pad_cmp ys xs = - pad_cmp xs ys"
  by (induction xs ys rule: pad_cmp.induct) auto

lemma pad_less_trans: "pad_less xs ys \<Longrightarrow> pad_less ys zs \<Longrightarrow> pad_less xs zs"
  unfolding pad_less_def
proof (elim exE conjE)
  fix i j
  assume i: "nth0 xs i < nth0 ys i" "\<forall>k<i. nth0 xs k = nth0 ys k"
    and j: "nth0 ys j < nth0 zs j" "\<forall>k<j. nth0 ys k = nth0 zs k"
  show "\<exists>k. nth0 xs k < nth0 zs k \<and> (\<forall>l<k. nth0 xs l = nth0 zs l)"
    using i j by (intro exI [of _ "min i j"]) (cases i j rule: linorder_cases; force simp: min_def)
qed

lemma pad_cmp_eq0_nth0: "pad_cmp xs ys = 0 \<longleftrightarrow> (\<forall>i. nth0 xs i = nth0 ys i)"
proof -
  have "pad_cmp xs ys = 0 \<longleftrightarrow> \<not> pad_less xs ys \<and> \<not> pad_less ys xs"
    using pad_cmp_less [of xs ys] pad_cmp_less [of ys xs] pad_cmp_anti [of ys xs] by linarith
  also have "\<dots> \<longleftrightarrow> (\<forall>i. nth0 xs i = nth0 ys i)"
  proof (rule iffI; (rule allI)?)
    fix i assume n: "\<not> pad_less xs ys \<and> \<not> pad_less ys xs"
    show "nth0 xs i = nth0 ys i"
    proof (induction i rule: less_induct)
      case (less i)
      with n show ?case unfolding pad_less_def by (metis linorder_neqE_linordered_idom)
    qed
  qed (auto simp: pad_less_def)
  finally show ?thesis .
qed

lemma pad_cmp_trans:
  assumes "pad_cmp xs ys \<le> 0" and "pad_cmp ys zs \<le> 0"
  shows "pad_cmp xs zs \<le> 0"
proof (cases "pad_cmp xs ys = 0 \<or> pad_cmp ys zs = 0")
  case True
  then consider "\<forall>i. nth0 xs i = nth0 ys i" | "\<forall>i. nth0 ys i = nth0 zs i"
    by (auto simp: pad_cmp_eq0_nth0)
  then have "pad_less xs zs \<longleftrightarrow> pad_less xs ys \<or> pad_less ys zs"
    and "pad_less zs xs \<longleftrightarrow> pad_less ys xs \<or> pad_less zs ys"
    by (cases; auto simp: pad_less_def)+
  moreover have "\<not> pad_less ys xs" "\<not> pad_less zs ys"
    using assms pad_cmp_less pad_cmp_anti by (metis linorder_not_less minus_less_iff minus_zero neg_0_less_iff_less)+
  ultimately have "\<not> pad_less zs xs" by blast
  then show ?thesis using pad_cmp_less [of zs xs] pad_cmp_anti [of zs xs] by linarith
next
  case False
  with assms have "pad_less xs zs"
    using pad_less_trans pad_cmp_less by (metis order_le_imp_less_or_eq)
  then show ?thesis using pad_cmp_less [of xs zs] by linarith
qed

lemma digits_val_0 [simp]: "digits_val ''0'' = 0"
  by (simp add: digits_val_def digit_val_def)

lemma isAllDigits_0 [simp]: "isAllDigits ''0''" and stoull_0 [simp]: "stoull ''0'' = Some 0"
  by (simp_all add: isAllDigits_def isdigit_def stoull_def)

lemma cmp_component_numeric:
  assumes "isAllDigits a" "stoull a \<noteq> None" "isAllDigits b" "stoull b \<noteq> None"
  shows "cmp_component a b =
    Some (if digits_val a \<noteq> digits_val b then (if digits_val a < digits_val b then -1 else 1) else 0)"
  using assms by (auto simp: cmp_component_def stoull_def split: if_splits)

lemma cmp_parts_numeric:
  assumes "list_all (\<lambda>p. isAllDigits p \<and> stoull p \<noteq> None) as"
    and "list_all (\<lambda>p. isAllDigits p \<and> stoull p \<noteq> None) bs"
  shows "cmp_parts as bs = Some (pad_cmp (map digits_val as) (map digits_val bs))"
  using assms
  by (induction as bs rule: cmp_parts.induct) (auto simp: cmp_component_numeric)

lemma compareVersions_pad_cmp:
  "numeric_version a \<Longrightarrow> numeric_version b \<Longrightarrow>
   compareVersions a b = Some (pad_cmp (vnums a) (vnums b))"
  by (simp add: numeric_version_def compareVersions_def vnums_def cmp_parts_numeric)


subsection \<open>Sorting by a comparison: the interface of \<open>std::sort\<close>\<close>

text \<open>What \<open>lowestSatisfyingAll\<close> needs of the comparison it sorts by: on the valid
  elements it never throws and is a total preorder.\<close>

locale throwing_order =
  fixes valid :: "'a \<Rightarrow> bool" and cmp :: "'a \<Rightarrow> 'a \<Rightarrow> int option"
  assumes cmp_total: "valid a \<Longrightarrow> valid b \<Longrightarrow> \<exists>c. cmp a b = Some c"
    and cmp_anti: "valid a \<Longrightarrow> valid b \<Longrightarrow> cmp a b = Some c \<Longrightarrow> cmp b a = Some (- c)"
    and cmp_trans: "valid a \<Longrightarrow> valid b \<Longrightarrow> valid d \<Longrightarrow> cmp a b = Some x \<Longrightarrow> x \<le> 0 \<Longrightarrow>
      cmp b d = Some y \<Longrightarrow> y \<le> 0 \<Longrightarrow> \<exists>z\<le>0. cmp a d = Some z"
begin

definition cmp_le :: "'a \<Rightarrow> 'a \<Rightarrow> bool" where
  "cmp_le a b = (\<exists>c\<le>0. cmp a b = Some c)"

definition cmp_lt :: "'a \<Rightarrow> 'a \<Rightarrow> bool option" where
  "cmp_lt a b = do { c \<leftarrow> cmp a b; Some (c < 0) }"

lemma cmp_le_trans:
  "valid a \<Longrightarrow> valid b \<Longrightarrow> valid d \<Longrightarrow> cmp_le a b \<Longrightarrow> cmp_le b d \<Longrightarrow> cmp_le a d"
  unfolding cmp_le_def using cmp_trans by blast

lemma cmp_lt_cases:
  assumes "valid a" "valid b"
  obtains "cmp_lt a b = Some True" "cmp_le a b" | "cmp_lt a b = Some False" "cmp_le b a"
proof -
  obtain c where c: "cmp a b = Some c" using cmp_total assms by blast
  from cmp_anti [OF assms c] have "cmp b a = Some (- c)" .
  with c that show thesis by (cases "c < 0") (auto simp: cmp_lt_def cmp_le_def)
qed

lemma insert_by_sorted:
  assumes "valid x" and "\<forall>y \<in> set ys. valid y" and "sorted_wrt cmp_le ys"
  shows "\<exists>zs. insert_by cmp_lt x ys = Some zs \<and> sorted_wrt cmp_le zs"
  using assms
proof (induction ys)
  case (Cons y ys)
  then have v: "valid x" "valid y" by auto
  from v show ?case
  proof (cases rule: cmp_lt_cases)
    case 1
    have "cmp_le x z" if z: "z \<in> set ys" for z
      using cmp_le_trans [OF v _ 1(2), of z] Cons.prems z by auto
    with 1 Cons.prems show ?thesis by auto
  next
    case 2
    obtain zs where zs: "insert_by cmp_lt x ys = Some zs" "sorted_wrt cmp_le zs"
      using Cons by auto
    then have "set zs = insert x (set ys)" by (metis insert_by_mset set_mset_add_mset_insert set_mset_mset)
    with 2 zs Cons.prems show ?thesis by auto
  qed
qed simp

lemma sort_from_sorted:
  assumes "\<forall>x \<in> set xs \<union> set acc. valid x" and "sorted_wrt cmp_le acc"
  shows "\<exists>ys. sort_from cmp_lt acc xs = Some ys \<and> sorted_wrt cmp_le ys"
  using assms
proof (induction xs arbitrary: acc)
  case (Cons x xs)
  then obtain zs where zs: "insert_by cmp_lt x acc = Some zs" "sorted_wrt cmp_le zs"
    using insert_by_sorted [of x acc] by auto
  then have "set zs = insert x (set acc)" by (metis insert_by_mset set_mset_add_mset_insert set_mset_mset)
  with zs Cons show ?case by simp
qed simp

lemma sort_by_sorted:
  assumes "\<forall>x \<in> set xs. valid x"
  shows "\<exists>ys. sort_by cmp_lt xs = Some ys \<and> sorted_wrt cmp_le ys \<and> set ys = set xs"
  using sort_from_sorted [of xs "[]"] assms by (auto simp: sort_by_def dest: sort_by_set [unfolded sort_by_def])

end

interpretation numeric_order: throwing_order numeric_version compareVersions
proof unfold_locales
  fix a b d x y
  assume v: "numeric_version a" "numeric_version b"
  show "\<exists>c. compareVersions a b = Some c" by (simp add: compareVersions_pad_cmp v)
  show "compareVersions b a = Some (- x)" if "compareVersions a b = Some x"
    using that v pad_cmp_anti [of "vnums b" "vnums a"] by (simp add: compareVersions_pad_cmp)
  show "\<exists>z\<le>0. compareVersions a d = Some z"
    if "numeric_version d" "compareVersions a b = Some x" "x \<le> 0" "compareVersions b d = Some y" "y \<le> 0"
    using that v pad_cmp_trans [of "vnums a" "vnums b" "vnums d"] by (simp add: compareVersions_pad_cmp)
qed

lemma version_less_cmp_lt: "version_less = numeric_order.cmp_lt"
  by (intro ext) (simp add: version_less_def numeric_order.cmp_lt_def)

subsection \<open>Selection: what the chosen version satisfies\<close>

lemma first_satisfying_Some:
  assumes "first_satisfying vs cs = Some v" and "v \<noteq> []"
  shows "v \<in> set vs \<and> satisfies_all v cs = Some True"
  using assms
  by (induction vs) (auto split: Option.bind_splits if_splits)

lemma satisfies_all_iff:
  "satisfies_all v cs = Some True \<longleftrightarrow> (\<forall>c \<in> set cs. versionSatisfies v c = Some True)"
  by (induction cs) (auto split: Option.bind_splits)

lemma lowest_sound:
  assumes "lowestSatisfyingAll vs cs = Some v" and "v \<noteq> []"
  shows "v \<in> set vs" and "c \<in> set cs \<Longrightarrow> versionSatisfies v c = Some True"
proof -
  obtain ys where ys: "sort_by version_less vs = Some ys" "first_satisfying ys cs = Some v"
    using assms(1) by (auto simp: lowestSatisfyingAll_def split: Option.bind_splits)
  from first_satisfying_Some [OF ys(2) assms(2)]
  show "v \<in> set vs" and "c \<in> set cs \<Longrightarrow> versionSatisfies v c = Some True"
    using sort_by_set [OF ys(1)] by (auto simp: satisfies_all_iff)
qed

lemma first_satisfying_split:
  assumes "first_satisfying vs cs = Some v" and "[] \<notin> set vs"
  shows "(v = [] \<and> (\<forall>w \<in> set vs. satisfies_all w cs = Some False)) \<or>
    (\<exists>us ws. vs = us @ v # ws \<and> satisfies_all v cs = Some True \<and>
       (\<forall>w \<in> set us. satisfies_all w cs = Some False))"
  using assms
proof (induction vs)
  case (Cons u vs)
  then obtain b where b: "satisfies_all u cs = Some b" by (auto split: Option.bind_splits)
  show ?case
  proof (cases b)
    case True
    with Cons.prems b have "v = u" by simp
    with True b have "u # vs = [] @ v # vs \<and> satisfies_all v cs = Some True" by simp
    then show ?thesis by (metis empty_iff list.set(1))
  next
    case False
    with Cons.prems b have "first_satisfying vs cs = Some v" "[] \<notin> set vs" by auto
    from Cons.IH [OF this] show ?thesis
    proof (elim disjE exE conjE)
      fix us ws
      assume "vs = us @ v # ws" "satisfies_all v cs = Some True"
        "\<forall>w \<in> set us. satisfies_all w cs = Some False"
      then have "u # vs = (u # us) @ v # ws \<and> satisfies_all v cs = Some True \<and>
        (\<forall>w \<in> set (u # us). satisfies_all w cs = Some False)" using b False by simp
      then show ?thesis by blast
    qed (use b False in auto)
  qed
qed simp

lemma numeric_not_Nil: "numeric_version v \<Longrightarrow> v \<noteq> []"
  by (auto simp: numeric_version_def semverCore_def splitDots_def isAllDigits_def)


subsection \<open>Parsing of single pieces\<close>

lemma trim_Nil [simp]: "trim [] = []"
  by (simp add: trim_def rtrim_def)

lemma dropWhile_last:
  assumes "xs \<noteq> []" and "\<not> P (hd xs)" and "\<not> P (last xs)"
  shows "dropWhile P xs = xs" and "rev (dropWhile P (rev xs)) = xs"
proof -
  have "rev xs \<noteq> []" "\<not> P (hd (rev xs))" using assms by (simp_all add: hd_rev)
  then have "dropWhile P (rev xs) = rev xs" by (cases "rev xs") simp_all
  then show "rev (dropWhile P (rev xs)) = xs" by simp
  show "dropWhile P xs = xs" using assms by (cases xs) simp_all
qed

lemma trim_self: "s \<noteq> [] \<Longrightarrow> \<not> isspace (hd s) \<Longrightarrow> \<not> isspace (last s) \<Longrightarrow> trim s = s"
  by (simp add: trim_def rtrim_def dropWhile_last)

lemma trim_ends:
  assumes "trim s \<noteq> []"
  shows "\<not> isspace (hd (trim s))" and "\<not> isspace (last (trim s))"
proof -
  define t where "t = dropWhile isspace s"
  have ne: "dropWhile isspace (rev t) \<noteq> []" using assms by (auto simp: trim_def rtrim_def t_def)
  then have l: "last (trim s) = hd (dropWhile isspace (rev t))"
    by (simp add: trim_def rtrim_def t_def last_rev)
  show "\<not> isspace (last (trim s))" using ne by (simp add: l hd_dropWhile)
  have "t \<noteq> []" using ne by auto
  obtain us where us: "rev t = us @ dropWhile isspace (rev t)" by (metis takeWhile_dropWhile_id)
  then have "t = trim s @ rev us"
    by (metis rev_append rev_rev_ident rtrim_def t_def trim_def)
  then have "hd (trim s) = hd t" using assms by (metis hd_append2)
  then show "\<not> isspace (hd (trim s))" using \<open>t \<noteq> []\<close> by (simp add: t_def hd_dropWhile)
qed

lemma trim_idem [simp]: "trim (trim s) = trim s"
  by (cases "trim s = []") (simp_all add: trim_self trim_ends)

lemma not_isspace_ops [simp]:
  "\<not> isspace (CHR ''='')" "\<not> isspace (CHR ''>'')" "\<not> isspace (CHR ''<'')" "\<not> isspace (CHR ''*'')"
  by (simp_all add: isspace_def)

text \<open>A bare operand: nothing in it reads as an operator or a separator.\<close>

definition bare :: "string \<Rightarrow> bool" where
  "bare c = (c \<noteq> [] \<and> \<not> isspace (hd c) \<and> \<not> isspace (last c) \<and>
     (\<forall>x \<in> set c. x \<notin> set ''<>=*,''))"

lemma bareD:
  assumes "bare c"
  shows "c \<noteq> []" and "trim c = c" and "\<not> isspace (last c)"
    and "x \<in> set c \<Longrightarrow> x \<notin> {CHR ''<'', CHR ''>'', CHR ''='', CHR ''*'', CHR '','' }"
  using assms by (simp_all add: bare_def trim_self)

lemma parseAtom_bare:
  assumes "bare c"
  shows "parseAtom c = Inr \<lparr>a_op = OpMin, operand = c\<rparr>"
proof -
  obtain x xs where c: "c = x # xs" using bareD(1) [OF assms] by (cases c) auto
  then have "x \<noteq> CHR ''<''" "x \<noteq> CHR ''>''" "x \<noteq> CHR ''=''" using bareD(4) [OF assms, of x] by auto
  then have "\<not> starts ''>='' c" "\<not> starts ''<='' c" "\<not> starts ''>'' c" "\<not> starts ''<'' c" "\<not> starts ''='' c"
    by (simp_all add: starts_def c)
  moreover have "CHR ''*'' \<notin> set c" using bareD(4) [OF assms] by auto
  ultimately show ?thesis using bareD(1,2) [OF assms] by (simp add: parseAtom_def)
qed

lemma parseAtom_prefix:
  assumes "bare c"
  shows "parseAtom (CHR ''='' # c) = Inr \<lparr>a_op = OpEq, operand = c\<rparr>"
    and "parseAtom (''>='' @ c) = Inr \<lparr>a_op = OpGe, operand = c\<rparr>"
    and "parseAtom (CHR ''<'' # c) = Inr \<lparr>a_op = OpLt, operand = c\<rparr>"
proof -
  obtain x xs where c: "c = x # xs" using bareD(1) [OF assms] by (cases c) auto
  then have x: "x \<noteq> CHR ''=''" using bareD(4) [OF assms, of x] by auto
  have l: "\<not> isspace (last c)" using bareD [OF assms] by simp
  then have t: "trim (CHR ''='' # c) = CHR ''='' # c" "trim (''>='' @ c) = ''>='' @ c"
    "trim (CHR ''<'' # c) = CHR ''<'' # c"
    by (simp_all add: trim_self c)
  note tc = bareD(2) [OF assms]
  show "parseAtom (CHR ''='' # c) = Inr \<lparr>a_op = OpEq, operand = c\<rparr>"
    and "parseAtom (''>='' @ c) = Inr \<lparr>a_op = OpGe, operand = c\<rparr>"
    and "parseAtom (CHR ''<'' # c) = Inr \<lparr>a_op = OpLt, operand = c\<rparr>"
    using t tc by (simp_all add: parseAtom_def starts_def c x)
qed

lemma bare_no_comma: "bare c \<Longrightarrow> CHR '','' \<notin> set c"
  using bareD(4) by blast

lemma satisfies_pieces_append:
  "satisfies_pieces v (ps @ qs) =
     do { b \<leftarrow> satisfies_pieces v ps; if \<not> b then Some False else satisfies_pieces v qs }"
  by (induction ps) (auto split: sum.splits Option.bind_splits)

lemma versionSatisfies_pieces: "versionSatisfies v c = satisfies_pieces v (splitCommas c)"
proof -
  have "parseAtom ''*'' = Inr \<lparr>a_op = OpWild, operand = []\<rparr>" and "parseAtom [] = Inl EmptyAtom"
    by (simp_all add: parseAtom_def starts_def trim_id isspace_def Let_def)
  then show ?thesis
    by (auto simp: versionSatisfies_def splitCommas_def atomMatches_def)
qed

lemma versionSatisfies_pin:
  assumes "bare c"
  shows "versionSatisfies v (CHR ''='' # c) = Some (v = c)"
  using parseAtom_prefix(1) [OF assms] bare_no_comma [OF assms]
  by (simp add: versionSatisfies_pieces splitCommas_def atomMatches_def)

lemma exactIfBare_bare: "bare c \<Longrightarrow> exactIfBare c = CHR ''='' # c"
  using bareD(1,2) by (auto simp: exactIfBare_def bare_def Let_def)

subsection \<open>Bare constraints are a floor within their major version\<close>

lemma vnums_nonneg:
  assumes "numeric_version v" shows "\<forall>x \<in> set (vnums v). 0 \<le> x"
proof -
  have nn: "0 \<le> foldl (\<lambda>n c. n * 10 + digit_val c) k s" if "0 \<le> k" "list_all isdigit s" for k s
    using that by (induction s arbitrary: k) (auto simp: digit_val_bounds)
  show ?thesis
    using assms by (auto simp: numeric_version_def vnums_def list_all_iff isAllDigits_def digits_val_def intro!: nn)
qed

lemma vnums_not_Nil [simp]: "vnums v \<noteq> []"
  by (simp add: vnums_def splitDots_def)

lemma pad_less_zeros: "\<forall>x \<in> set xs. 0 \<le> x \<Longrightarrow> \<forall>y \<in> set ys. y = 0 \<Longrightarrow> \<not> pad_less xs ys"
proof -
  assume nn: "\<forall>x \<in> set xs. 0 \<le> x" and z: "\<forall>y \<in> set ys. y = 0"
  then have "0 \<le> nth0 xs i" "nth0 ys i = 0" for i by (simp_all add: nth0_def)
  then show ?thesis by (simp add: pad_less_def not_less)
qed

lemma stoull_hd:
  assumes "numeric_version x"
  shows "isAllDigits (hd (splitDots (semverCore x)))"
    and "stoull (hd (splitDots (semverCore x))) = Some (hd (vnums x))"
proof -
  have "hd (splitDots (semverCore x)) \<in> set (splitDots (semverCore x))" by (simp add: splitDots_def)
  with assms have d: "isAllDigits (hd (splitDots (semverCore x)))"
    and "stoull (hd (splitDots (semverCore x))) \<noteq> None"
    by (auto simp: numeric_version_def list_all_iff)
  then have "stoull (hd (splitDots (semverCore x))) = Some (digits_val (hd (splitDots (semverCore x))))"
    by (simp add: stoull_def split: if_splits)
  then show "stoull (hd (splitDots (semverCore x))) = Some (hd (vnums x))"
    by (simp add: vnums_def hd_map splitDots_def)
  show "isAllDigits (hd (splitDots (semverCore x)))" by (rule d)
qed

lemma compareMajor_numeric:
  assumes "numeric_version a" "numeric_version b"
  shows "compareMajor a b = Some (if hd (vnums a) = hd (vnums b) then 0
    else if hd (vnums a) < hd (vnums b) then -1 else 1)"
proof -
  have "splitDots s \<noteq> []" for s by (simp add: splitDots_def)
  with assms show ?thesis
    by (simp add: compareMajor_def Let_def stoull_hd)
qed

lemma floor_in_range:
  assumes "numeric_version v" "numeric_version c" "numeric_version n"
    and n: "vnums n = [hd (vnums c) + 1, 0, 0]"
  shows "pad_cmp (vnums v) (vnums c) \<ge> 0 \<and> hd (vnums v) = hd (vnums c) \<longleftrightarrow>
    pad_cmp (vnums v) (vnums c) \<ge> 0 \<and> pad_cmp (vnums v) (vnums n) < 0"
proof -
  obtain x xs y ys where xy: "vnums v = x # xs" "vnums c = y # ys"
    by (metis neq_Nil_conv vnums_not_Nil)
  have "\<not> pad_less xs [0, 0]" using vnums_nonneg [OF assms(1)] by (intro pad_less_zeros) (auto simp: xy)
  then have "pad_cmp (vnums v) (vnums n) < 0 \<longleftrightarrow> x < y + 1"
    by (simp add: pad_cmp_less n xy)
  moreover have "pad_cmp (x # xs) (y # ys) \<ge> 0 \<Longrightarrow> y \<le> x" by (auto split: if_splits)
  ultimately show ?thesis by (auto simp: xy)
qed


subsection \<open>The properties of the constraint language\<close>

lemma lowest_of_sorted:
  assumes "sort_by version_less vs = Some ys" and "sorted_wrt numeric_order.cmp_le ys"
    and "\<forall>v \<in> set vs. \<forall>c \<in> set cs. versionSatisfies v c \<noteq> None"
  shows "\<exists>v. first_satisfying ys cs = Some v"
proof -
  have tot: "satisfies_all v ds \<noteq> None" if "\<forall>c \<in> set ds. versionSatisfies v c \<noteq> None" for v ds
    using that by (induction ds) auto
  have "set ys = set vs" using assms(1) by (rule sort_by_set)
  with assms(3) tot have "\<forall>v \<in> set ys. satisfies_all v cs \<noteq> None" by blast
  then show ?thesis by (induction ys) auto
qed

text \<open>C19: For numeric candidates and constraints that no candidate makes throw,
  \<open>lowestSatisfyingAll\<close> returns; it returns the empty string exactly when no candidate
  satisfies every constraint, and otherwise a candidate that satisfies them all and is no
  higher than any other that does: minimal version selection takes the minimum.\<close>

theorem lowestSatisfyingAll_minimal:
  assumes "\<forall>v \<in> set vs. numeric_version v"
    and "\<forall>v \<in> set vs. \<forall>c \<in> set cs. versionSatisfies v c \<noteq> None"
  shows "\<exists>v. lowestSatisfyingAll vs cs = Some v \<and>
    (if \<exists>w \<in> set vs. \<forall>c \<in> set cs. versionSatisfies w c = Some True
     then v \<in> set vs \<and> (\<forall>c \<in> set cs. versionSatisfies v c = Some True) \<and>
       (\<forall>w \<in> set vs. (\<forall>c \<in> set cs. versionSatisfies w c = Some True) \<longrightarrow>
          (\<exists>k\<le>0. compareVersions v w = Some k))
     else v = [])"
proof -
  obtain ys where ys: "sort_by version_less vs = Some ys" "sorted_wrt numeric_order.cmp_le ys"
    using numeric_order.sort_by_sorted [OF assms(1)] by (auto simp: version_less_cmp_lt)
  from lowest_of_sorted [OF ys assms(2)] obtain v where v: "first_satisfying ys cs = Some v" ..
  then have l: "lowestSatisfyingAll vs cs = Some v" by (simp add: lowestSatisfyingAll_def ys)
  have set: "set ys = set vs" using ys(1) by (rule sort_by_set)
  with assms(1) have ne: "[] \<notin> set ys" using numeric_not_Nil by blast
  show ?thesis
  proof (rule exI [of _ v], rule conjI [OF l], cases "v = []")
    case True
    with first_satisfying_split [OF v ne] set ne
    show "if \<exists>w \<in> set vs. \<forall>c \<in> set cs. versionSatisfies w c = Some True then
        v \<in> set vs \<and> (\<forall>c \<in> set cs. versionSatisfies v c = Some True) \<and>
       (\<forall>w \<in> set vs. (\<forall>c \<in> set cs. versionSatisfies w c = Some True) \<longrightarrow>
          (\<exists>k\<le>0. compareVersions v w = Some k)) else v = []"
      by (auto simp flip: satisfies_all_iff)
  next
    case False
    with first_satisfying_split [OF v ne] obtain us ws where u: "ys = us @ v # ws"
      "satisfies_all v cs = Some True" "\<forall>w \<in> set us. satisfies_all w cs = Some False" by blast
    have "\<exists>k\<le>0. compareVersions v w = Some k" if "w \<in> set vs" "satisfies_all w cs = Some True" for w
    proof -
      from that u set have w: "w = v \<or> w \<in> set ws" by auto
      have n: "numeric_version v" "numeric_version w" using that assms(1) u(1) set by auto
      from w show ?thesis
      proof
        assume "w = v" with n show ?thesis by (simp add: compareVersions_pad_cmp)
      next
        assume "w \<in> set ws"
        with ys(2) u(1) show ?thesis by (simp add: sorted_wrt_append numeric_order.cmp_le_def)
      qed
    qed
    moreover have "v \<in> set vs" using u(1) set by auto
    ultimately show "if \<exists>w \<in> set vs. \<forall>c \<in> set cs. versionSatisfies w c = Some True then
        v \<in> set vs \<and> (\<forall>c \<in> set cs. versionSatisfies v c = Some True) \<and>
       (\<forall>w \<in> set vs. (\<forall>c \<in> set cs. versionSatisfies w c = Some True) \<longrightarrow>
          (\<exists>k\<le>0. compareVersions v w = Some k)) else v = []"
      using u(2) by (auto simp: satisfies_all_iff)
  qed
qed

lemma minimal_inputs:
  "\<forall>v \<in> set [''1.10.0'', ''1.2.0'', ''1.9.0'']. numeric_version v"
  "\<forall>v \<in> set [''1.10.0'', ''1.2.0'', ''1.9.0'']. \<forall>c \<in> set [''1.3'', ''<2'']. versionSatisfies v c \<noteq> None"
  by code_simp+

theorem lowestSatisfyingAll_minimal_witness:
  "\<exists>v. lowestSatisfyingAll [''1.10.0'', ''1.2.0'', ''1.9.0''] [''1.3'', ''<2''] = Some v \<and>
    v \<in> {''1.10.0'', ''1.2.0'', ''1.9.0''} \<and> (\<exists>k\<le>0. compareVersions v ''1.9.0'' = Some k)"
proof -
  have s: "\<forall>c \<in> set [''1.3'', ''<2'']. versionSatisfies ''1.9.0'' c = Some True" by code_simp
  from lowestSatisfyingAll_minimal [OF minimal_inputs] s show ?thesis by auto
qed

text \<open>A bare constraint is the documented range: a version matches \<open>"c"\<close> exactly
  when it matches \<open>">=c,<n"\<close> where \<open>n\<close> is the next major version, and is not a
  pre-release unless the floor is one.\<close>

theorem bare_constraint_is_major_range:
  assumes "numeric_version v" "numeric_version c" "numeric_version n"
    and "vnums n = [hd (vnums c) + 1, 0, 0]" and "bare c" "bare n"
  shows "versionSatisfies v c =
    do { b \<leftarrow> versionSatisfies v (''>='' @ c @ CHR '','' # CHR ''<'' # n);
         Some (b \<and> (CHR ''-'' \<in> set c \<or> CHR ''-'' \<notin> set v)) }"
proof -
  have nc: "CHR '','' \<notin> set c" "CHR '','' \<notin> set n" using assms(5,6) bare_no_comma by auto
  let ?r = "''>='' @ c @ CHR '','' # CHR ''<'' # n"
  have sc: "splitCommas c = [c]" using nc by (simp add: splitCommas_def)
  have sr: "splitCommas ?r = [''>='' @ c, CHR ''<'' # n]"
    using split_on_sep [of "CHR '',''" "''>='' @ c" "CHR ''<'' # n"] nc by (simp add: splitCommas_def)
  note cmp = compareVersions_pad_cmp [OF assms(1,2)] compareVersions_pad_cmp [OF assms(1,3)]
    compareMajor_numeric [OF assms(1,2)]
  have l: "satisfies_pieces v [c] = Some (pad_cmp (vnums v) (vnums c) \<ge> 0 \<and>
      hd (vnums v) = hd (vnums c) \<and> (CHR ''-'' \<in> set c \<or> CHR ''-'' \<notin> set v))"
    using parseAtom_bare [OF assms(5)] by (simp add: atomMatches_def cmp)
  have r: "satisfies_pieces v [''>='' @ c, CHR ''<'' # n] =
      Some (pad_cmp (vnums v) (vnums c) \<ge> 0 \<and> pad_cmp (vnums v) (vnums n) < 0)"
    using parseAtom_prefix(2) [OF assms(5)] parseAtom_prefix(3) [OF assms(6)]
    by (simp add: atomMatches_def cmp)
  show ?thesis
    unfolding versionSatisfies_pieces sc sr l r using floor_in_range [OF assms(1-4)]
    by (simp only: bind.bind_lunit) blast
qed

lemma range_inputs:
  "numeric_version ''1.9.0''" "numeric_version ''1.2.3''" "numeric_version ''2.0.0''"
  "vnums ''2.0.0'' = [hd (vnums ''1.2.3'') + 1, 0, 0]" "bare ''1.2.3''" "bare ''2.0.0''"
  by code_simp+

theorem bare_constraint_is_major_range_witness:
  "versionSatisfies ''1.9.0'' ''1.2.3'' =
     do { b \<leftarrow> versionSatisfies ''1.9.0'' (''>='' @ ''1.2.3'' @ CHR '','' # CHR ''<'' # ''2.0.0'');
          Some (b \<and> (CHR ''-'' \<in> set ''1.2.3'' \<or> CHR ''-'' \<notin> set ''1.9.0'')) }"
  using bare_constraint_is_major_range [of "''1.9.0''" "''1.2.3''" "''2.0.0''", OF range_inputs] .

text \<open>A comma is a conjunction, evaluated from the left with the early return of the
  loop: an unsatisfied, or unparsable, left side hides what the right side throws.\<close>

theorem comma_is_conjunction:
  "versionSatisfies v (c @ CHR '','' # d) =
     do { b \<leftarrow> versionSatisfies v c; if b then versionSatisfies v d else Some False }"
proof -
  have s: "splitCommas (c @ CHR '','' # d) = splitCommas c @ splitCommas d"
    by (simp add: splitCommas_def split_on_join)
  show ?thesis
    unfolding versionSatisfies_pieces s satisfies_pieces_append
    by (cases "satisfies_pieces v (splitCommas c)") simp_all
qed

lemma highest_from_pin:
  assumes "bare c" and "distinct vs" and "best = c \<longrightarrow> c \<notin> set vs" and "best = [] \<or> best = c"
  shows "highest_from c vs best = Some (if c \<in> set vs then c else best)"
  using assms
  by (induction vs arbitrary: best)
    (auto simp: exactIfBare_bare versionSatisfies_pin bareD(1))

text \<open>Where a dependency is resolved on its own, a bare constraint is an exact pin: the
  answer is that very string when it is among the candidates and nothing otherwise.\<close>

theorem highestSatisfying_bare_is_pin:
  assumes "bare c" and "distinct vs"
  shows "highestSatisfying vs c = Some (if c \<in> set vs then c else [])"
  using highest_from_pin [OF assms, of "[]"] bareD(1) [OF assms(1)] by (simp add: highestSatisfying_def)

theorem highestSatisfying_bare_is_pin_witness:
  "highestSatisfying [''1.2.0'', ''1.3.0''] ''1.2.0'' = Some ''1.2.0''"
  using highestSatisfying_bare_is_pin [of "''1.2.0''" "[''1.2.0'', ''1.3.0'']"]
  by (simp add: bare_def isspace_def)

text \<open>The comparison is not an order once a component is not a number: it is decided
  as text against a number and as a number against a number, which makes a cycle, so that
  \<open>std::sort\<close> is called with a comparison that is not a strict weak ordering.\<close>

theorem compareVersions_not_transitive:
  "compareVersions ''1a'' ''9'' = Some (-1) \<and> compareVersions ''9'' ''10'' = Some (-1) \<and>
   compareVersions ''10'' ''1a'' = Some (-1)"
  by code_simp

text \<open>The predicate is not total at the resolver boundary: a component of \<open>2^64\<close>
  is an exception, which the constraint's error handling does not see.\<close>

theorem versionSatisfies_throws:
  "versionSatisfies ''18446744073709551616.0.0'' ''>=1'' = None \<and>
   versionSatisfies ''18446744073709551615.0.0'' ''>=1'' = Some True"
  by code_simp

end
