(* ===== verification/Json_C.thy ===== *)
theory Json_C
  imports Cajeta_Prelude
begin

text \<open>
  JSON with comments (\<open>buildtool/JsonC.cpp\<close>) and the JSON library as the build tool
  sees it. \<open>preprocessJsonC\<close> blanks comments and trailing commas in place before
  \<open>llvm::json::parse\<close> reads the text. The library itself is not part of the
  repository: the record \<open>json\<close> holds the functions of it that are called.
\<close>

subsection \<open>The JSON library's interface\<close>

text \<open>\<open>'v\<close> is \<open>llvm::json::Value\<close> and \<open>'o\<close> is
  \<open>llvm::json::Object\<close>. \<open>members\<close> lists an object in its iteration order,
  which is that of a hash table; \<open>get\<close> finds the entry of a key.\<close>

record ('v, 'o) json =
  asString :: "'v \<Rightarrow> string option"
  asBoolean :: "'v \<Rightarrow> bool option"
  asInteger :: "'v \<Rightarrow> int option"
  asArray :: "'v \<Rightarrow> 'v list option"
  asObject :: "'v \<Rightarrow> 'o option"
  members :: "'o \<Rightarrow> (string \<times> 'v) list"
  parseJson :: "string \<Rightarrow> string + 'v"
  ofString :: "string \<Rightarrow> 'v"
  ofBool :: "bool \<Rightarrow> 'v"

text \<open>What the library documents of the values that it makes.\<close>

definition json_values_ok :: "('v, 'o) json \<Rightarrow> bool" where
  "json_values_ok J \<longleftrightarrow> (\<forall>s. asString J (ofString J s) = Some s) \<and>
     (\<forall>b. asBoolean J (ofBool J b) = Some b) \<and> (\<forall>s. asBoolean J (ofString J s) = None) \<and>
     (\<forall>b. asString J (ofBool J b) = None)"

text \<open>The keys of an object, each of which occurs once.\<close>

definition keys :: "('v, 'o) json \<Rightarrow> 'o \<Rightarrow> string set" where
  "keys J ob = set (map fst (members J ob))"

definition get :: "('v, 'o) json \<Rightarrow> 'o \<Rightarrow> string \<Rightarrow> 'v option" where
  "get J ob k = map_of (members J ob) k"

definition getString :: "('v, 'o) json \<Rightarrow> 'o \<Rightarrow> string \<Rightarrow> string option" where
  "getString J ob k = Option.bind (get J ob k) (asString J)"

definition getBoolean :: "('v, 'o) json \<Rightarrow> 'o \<Rightarrow> string \<Rightarrow> bool option" where
  "getBoolean J ob k = Option.bind (get J ob k) (asBoolean J)"

definition getInteger :: "('v, 'o) json \<Rightarrow> 'o \<Rightarrow> string \<Rightarrow> int option" where
  "getInteger J ob k = Option.bind (get J ob k) (asInteger J)"

definition getArray :: "('v, 'o) json \<Rightarrow> 'o \<Rightarrow> string \<Rightarrow> 'v list option" where
  "getArray J ob k = Option.bind (get J ob k) (asArray J)"

definition getObject :: "('v, 'o) json \<Rightarrow> 'o \<Rightarrow> string \<Rightarrow> 'o option" where
  "getObject J ob k = Option.bind (get J ob k) (asObject J)"

text \<open>An instance of the interface, for evaluating the models on concrete documents;
  its parser is a table, as no text is parsed there.\<close>

datatype jtree =
    JNull
  | JBool bool
  | JInt int
  | JStr string
  | JArr "jtree list"
  | JObj "(string \<times> jtree) list"

definition tree_json :: "(string \<rightharpoonup> jtree) \<Rightarrow> (jtree, (string \<times> jtree) list) json" where
  "tree_json docs =
     \<lparr>asString = (\<lambda>v. case v of JStr s \<Rightarrow> Some s | _ \<Rightarrow> None),
      asBoolean = (\<lambda>v. case v of JBool b \<Rightarrow> Some b | _ \<Rightarrow> None),
      asInteger = (\<lambda>v. case v of JInt i \<Rightarrow> Some i | _ \<Rightarrow> None),
      asArray = (\<lambda>v. case v of JArr xs \<Rightarrow> Some xs | _ \<Rightarrow> None),
      asObject = (\<lambda>v. case v of JObj ms \<Rightarrow> Some ms | _ \<Rightarrow> None),
      members = (\<lambda>ms. ms),
      parseJson = (\<lambda>s. case docs s of None \<Rightarrow> Inl ''parse error'' | Some v \<Rightarrow> Inr v),
      ofString = JStr, ofBool = JBool\<rparr>"

lemma tree_json_simps [simp]:
  "asString (tree_json docs) (JStr s) = Some s" "asString (tree_json docs) (JBool b) = None"
  "asString (tree_json docs) (JObj ms) = None" "asString (tree_json docs) (JArr xs) = None"
  "asObject (tree_json docs) (JObj ms) = Some ms" "asObject (tree_json docs) (JStr s) = None"
  "asBoolean (tree_json docs) (JBool b) = Some b" "asBoolean (tree_json docs) (JStr s) = None"
  "asArray (tree_json docs) (JArr xs) = Some xs" "members (tree_json docs) ms = ms"
  "asInteger (tree_json docs) (JInt i) = Some i"
  "ofString (tree_json docs) = JStr" "ofBool (tree_json docs) = JBool"
  "parseJson (tree_json docs) s = (case docs s of None \<Rightarrow> Inl ''parse error'' | Some v \<Rightarrow> Inr v)"
  by (simp_all add: tree_json_def)

lemma tree_json_values_ok: "json_values_ok (tree_json docs)"
  by (simp add: json_values_ok_def)

lemma get_keys: "get J ob k = Some v \<Longrightarrow> k \<in> keys J ob"
  by (auto simp: get_def keys_def dest: map_of_SomeD intro: rev_image_eqI)

lemma finite_keys [simp]: "finite (keys J ob)"
  by (simp add: keys_def)

text \<open>The library's constructors of objects and arrays, used where a document is built or
  changed: the empty object, assignment to a key, and a value that holds an object, an array or
  an integer.\<close>

record ('v, 'o) builder =
  emptyObject :: 'o
  objSet :: "'o \<Rightarrow> string \<Rightarrow> 'v \<Rightarrow> 'o"
  ofObject :: "'o \<Rightarrow> 'v"
  ofArray :: "'v list \<Rightarrow> 'v"
  ofInteger :: "int \<Rightarrow> 'v"

text \<open>What the library documents of them.\<close>

definition builder_ok :: "('v, 'o) json \<Rightarrow> ('v, 'o) builder \<Rightarrow> bool" where
  "builder_ok J B \<longleftrightarrow> json_values_ok J \<and> members J (emptyObject B) = [] \<and>
     (\<forall>ob k v k'. get J (objSet B ob k v) k' = (if k' = k then Some v else get J ob k')) \<and>
     (\<forall>ob. asObject J (ofObject B ob) = Some ob) \<and> (\<forall>vs. asArray J (ofArray B vs) = Some vs) \<and>
     (\<forall>i. asInteger J (ofInteger B i) = Some i)"

lemma builder_ok_simps:
  assumes "builder_ok J B"
  shows "get J (objSet B ob k v) k' = (if k' = k then Some v else get J ob k')"
    and "asObject J (ofObject B ob) = Some ob" and "members J (emptyObject B) = []"
    and "asString J (ofString J s) = Some s" and "get J (emptyObject B) k = None"
  using assms by (simp_all add: builder_ok_def json_values_ok_def get_def)

definition tree_builder :: "(jtree, (string \<times> jtree) list) builder" where
  "tree_builder =
     \<lparr>emptyObject = [],
      objSet = (\<lambda>ob k v. if k \<in> set (map fst ob) then map (\<lambda>(k', v'). (k', if k' = k then v else v')) ob
                         else ob @ [(k, v)]),
      ofObject = JObj, ofArray = JArr, ofInteger = JInt\<rparr>"

lemma tree_builder_ok: "builder_ok (tree_json docs) tree_builder"
proof -
  have upd: "map_of (map (\<lambda>(k', v'). (k', if k' = k then v else v')) ob) k' =
      (if k' = k \<and> k \<in> set (map fst ob) then Some v else map_of ob k')" for ob :: "(string \<times> jtree) list" and k k' v
  proof (induction ob)
    case (Cons p ob)
    then show ?case by (cases p; cases "fst p = k"; cases "k' = k"; cases "fst p = k'") simp_all
  qed simp
  have new: "map_of (ob @ [(k, v)]) k' = (if k' = k then Some v else map_of ob k')"
    if "k \<notin> set (map fst ob)" for ob :: "(string \<times> jtree) list" and k k' v
  proof -
    have "map_of ob k = None" using that by (simp add: map_of_eq_None_iff)
    then show ?thesis by (simp add: map_add_def split: option.splits)
  qed
  have "get (tree_json docs) (objSet tree_builder ob k v) k' =
      (if k' = k then Some v else get (tree_json docs) ob k')" for ob k v k'
    using upd [of k v ob k'] new [of k ob v k']
    by (cases "k \<in> set (map fst ob)") (simp_all add: get_def tree_builder_def del: set_map)
  then show ?thesis
    by (simp add: builder_ok_def tree_json_values_ok) (simp add: tree_builder_def)
qed

subsection \<open>Blanking comments and trailing commas\<close>

definition isStringStart :: "char \<Rightarrow> bool" where
  "isStringStart c = (c = CHR 0x22)"

definition blank :: "char \<Rightarrow> char" where
  "blank c = (if c = CHR 0x0A then CHR 0x0A else CHR '' '')"

text \<open>Where the loop of the first pass stands: in plain text, in a string literal, in a
  line comment or in a block comment.\<close>

datatype scan = Code | Str | Line | Block

function pass1 :: "scan \<Rightarrow> string \<Rightarrow> string" where
  "pass1 m [] = []"
| "pass1 Code (c # cs) =
     (if isStringStart c then c # pass1 Str cs
      else if c = CHR ''/'' \<and> cs \<noteq> [] \<and> hd cs = CHR ''/'' then CHR '' '' # CHR '' '' # pass1 Line (tl cs)
      else if c = CHR ''/'' \<and> cs \<noteq> [] \<and> hd cs = CHR ''*'' then CHR '' '' # CHR '' '' # pass1 Block (tl cs)
      else c # pass1 Code cs)"
| "pass1 Str (d # ds) =
     (if d = CHR 0x5C \<and> ds \<noteq> [] then d # hd ds # pass1 Str (tl ds)
      else if d = CHR 0x22 then d # pass1 Code ds
      else d # pass1 Str ds)"
| "pass1 Line (c # cs) =
     (if c = CHR 0x0A then c # pass1 Code cs else CHR '' '' # pass1 Line cs)"
| "pass1 Block (c # cs) =
     (if cs = [] then [blank c]
      else if c = CHR ''*'' \<and> hd cs = CHR ''/'' then CHR '' '' # CHR '' '' # pass1 Code (tl cs)
      else blank c # pass1 Block cs)"
  by pat_completeness auto
termination by (relation "measure (\<lambda>(m, s). length s)") auto

definition json_ws :: "char \<Rightarrow> bool" where
  "json_ws c = (c = CHR '' '' \<or> c = CHR 0x09 \<or> c = CHR 0x0A \<or> c = CHR 0x0D)"

definition before_closer :: "string \<Rightarrow> bool" where
  "before_closer cs =
     (case dropWhile json_ws cs of [] \<Rightarrow> False | d # _ \<Rightarrow> d = CHR ''}'' \<or> d = CHR '']'')"

fun pass2 :: "string \<Rightarrow> string" where
  "pass2 [] = []"
| "pass2 (c # cs) =
     (if c \<noteq> CHR '','' then c else if before_closer cs then CHR '' '' else c) # pass2 cs"

definition preprocessJsonC :: "string \<Rightarrow> string" where
  "preprocessJsonC source = pass2 (pass1 Code source)"

definition parseJsonC :: "('v, 'o) json \<Rightarrow> string \<Rightarrow> string + 'v" where
  "parseJsonC J source = parseJson J (preprocessJsonC source)"

subsection \<open>Positions and literals survive\<close>

lemma blank_nl [simp]: "blank c = CHR 0x0A \<longleftrightarrow> c = CHR 0x0A"
  by (simp add: blank_def)

lemma map_nl_cons: "c = CHR 0x0A \<longleftrightarrow> d = CHR 0x0A \<Longrightarrow>
  map (\<lambda>c. c = CHR 0x0A) (c # s) = map (\<lambda>c. c = CHR 0x0A) (d # t) \<longleftrightarrow>
  map (\<lambda>c. c = CHR 0x0A) s = map (\<lambda>c. c = CHR 0x0A) t"
  by simp

lemma pass1_lines: "map (\<lambda>c. c = CHR 0x0A) (pass1 m s) = map (\<lambda>c. c = CHR 0x0A) s"
proof (induction m s rule: pass1.induct)
  case (2 c cs) then show ?case by (cases cs) (auto simp: isStringStart_def)
next
  case (3 d ds) then show ?case by (cases ds) auto
next
  case (5 c cs) then show ?case by (cases cs) auto
qed auto

lemma pass2_lines: "map (\<lambda>c. c = CHR 0x0A) (pass2 s) = map (\<lambda>c. c = CHR 0x0A) s"
  by (induction s) auto

text \<open>The body of a string literal: an escape takes the next character with it.\<close>

fun literal_body :: "string \<Rightarrow> bool" where
  "literal_body [] = True"
| "literal_body (c # cs) =
     (if c = CHR 0x5C then cs \<noteq> [] \<and> literal_body (tl cs) else c \<noteq> CHR 0x22 \<and> literal_body cs)"

lemma pass1_literal_body:
  "literal_body b \<Longrightarrow> pass1 Str (b @ CHR 0x22 # r) = b @ CHR 0x22 # pass1 Code r"
proof (induction b rule: literal_body.induct)
  case (2 c cs) then show ?case by (cases cs) (auto split: if_splits)
qed simp

text \<open>Preprocessing keeps every character at its place in the file and every line at
  its number: the text has the same length and its newlines are at the same positions.\<close>

theorem preprocessJsonC_positions:
  "length (preprocessJsonC s) = length s \<and>
   {i. i < length s \<and> preprocessJsonC s ! i = CHR 0x0A} = {i. i < length s \<and> s ! i = CHR 0x0A}"
proof -
  have m: "map (\<lambda>c. c = CHR 0x0A) (preprocessJsonC s) = map (\<lambda>c. c = CHR 0x0A) s"
    by (simp add: preprocessJsonC_def pass2_lines pass1_lines)
  then have l: "length (preprocessJsonC s) = length s" by (rule map_eq_imp_length_eq)
  have "preprocessJsonC s ! i = CHR 0x0A \<longleftrightarrow> s ! i = CHR 0x0A" if "i < length s" for i
    using arg_cong [OF m, of "\<lambda>xs. xs ! i"] that l by simp
  with l show ?thesis by blast
qed

text \<open>The comment pass copies a string literal verbatim, whatever looks like a comment
  inside it (as the \<open>//\<close> of a URL does), and goes on after its closing quote.\<close>

theorem pass1_keeps_literals:
  assumes "literal_body b"
  shows "pass1 Code (CHR 0x22 # b @ CHR 0x22 # r) = CHR 0x22 # b @ CHR 0x22 # pass1 Code r"
  using pass1_literal_body [OF assms] by (simp add: isStringStart_def)

theorem pass1_keeps_literals_witness:
  "pass1 Code (CHR 0x22 # ''http://x'' @ CHR 0x22 # ''//c'') =
   CHR 0x22 # ''http://x'' @ CHR 0x22 # ''   ''"
  using pass1_keeps_literals [of "''http://x''" "''//c''"] by (simp add: isStringStart_def)

text \<open>The comma pass does not know about string literals: a comma before a bracket
  inside one, as in the value \<open>"x{1,}"\<close>, is replaced by a blank, so that the
  manifest is read with a different string than it holds.\<close>

theorem preprocessJsonC_corrupts_literal:
  "literal_body ''x{1,}'' \<and>
   preprocessJsonC (CHR 0x22 # ''x{1,}'' @ [CHR 0x22]) = CHR 0x22 # ''x{1 }'' @ [CHR 0x22]"
  by code_simp

end
