(* ===== verification/Flavor_Resolver.thy ===== *)
theory Flavor_Resolver
  imports Json_C
begin

text \<open>
  Build flavors (\<open>buildtool/Flavor.h\<close>, \<open>buildtool/Flavor.cpp\<close>): the property
  vocabulary, the validation of \<open>settings.build.custom-flavors\<close>, the resolution of a
  \<open>flavor:\<close> value along its chain of bases, and the compiler flags it lowers to.
\<close>

subsection \<open>Vocabulary\<close>

datatype kind = KBoolean | KEnumString | KEnumStringCsv | KFreeString

record FlavorPropertySpec =
  fp_key :: string
  fp_kind :: kind
  fp_allowed :: "string list"
  fp_flag :: string

definition builtinFlavors :: "string list" where
  "builtinFlavors = [''release'', ''debug'']"

definition spec_of :: "string \<Rightarrow> kind \<Rightarrow> string list \<Rightarrow> string \<Rightarrow> FlavorPropertySpec" where
  "spec_of k ki al fl = \<lparr>fp_key = k, fp_kind = ki, fp_allowed = al, fp_flag = fl\<rparr>"

definition flavorPropertyVocab :: "FlavorPropertySpec list" where
  "flavorPropertyVocab =
     [spec_of ''opt'' KEnumString [''O0'', ''O1'', ''O2'', ''O3'', ''Oz''] ''opt'',
      spec_of ''cpu'' KEnumString [''native'', ''generic'', ''portable''] ''cpu'',
      spec_of ''xpu-backend'' KEnumStringCsv
        [''none'', ''cpu'', ''vulkan'', ''nvptx'', ''amdgpu''] ''xpu-backend'',
      spec_of ''xpu-arch'' KFreeString [] ''xpu-arch'',
      spec_of ''lto'' KEnumString [''off'', ''thin'', ''full''] ''lto'',
      spec_of ''debug-info'' KEnumString [''off'', ''line'', ''full''] ''debug-info'',
      spec_of ''strip-symbols'' KBoolean [] [],
      spec_of ''bounds-check'' KEnumString [''on'', ''off'', ''trap''] ''bounds'',
      spec_of ''null-checks'' KEnumString [''on'', ''off'', ''trap''] ''null-checks'',
      spec_of ''overflow-checks'' KEnumString [''on'', ''off'', ''wrapping''] ''overflow-checks'',
      spec_of ''live-set'' KEnumString [''strict'', ''bounded'', ''off''] ''live-set'',
      spec_of ''asan'' KBoolean [] [], spec_of ''tsan'' KBoolean [] [],
      spec_of ''msan'' KBoolean [] [], spec_of ''ubsan'' KBoolean [] [],
      spec_of ''analytics'' KBoolean [] [], spec_of ''source-tags'' KBoolean [] ''source-tags'']"

definition findFlavorPropertySpec :: "string \<Rightarrow> FlavorPropertySpec option" where
  "findFlavorPropertySpec k = find (\<lambda>s. fp_key s = k) flavorPropertyVocab"

datatype flavor_error =
    FlavorCycle "string list" string
  | UnknownFlavor string
  | MissingBase string
  | NotABuiltin string
  | UnknownProperty string string
  | MustBeBoolean string string
  | MustBeString string string
  | NotAllowed string string string
  | TokenNotAllowed string string string
  | MustBeNonEmpty string string
  | EntryNotObject string
  | BaseNotString string
  | InlineMissingBase
  | BadFlavorValue

definition builtinFlavorProperties :: "('v, 'o) json \<Rightarrow> string \<Rightarrow> flavor_error + (string \<rightharpoonup> 'v)" where
  "builtinFlavorProperties J name =
     (if name = ''release''
      then Inr [''opt'' \<mapsto> ofString J ''O2'', ''lto'' \<mapsto> ofString J ''thin'',
                ''strip-symbols'' \<mapsto> ofBool J True, ''debug-info'' \<mapsto> ofString J ''line'',
                ''bounds-check'' \<mapsto> ofString J ''off'']
      else if name = ''debug''
      then Inr [''opt'' \<mapsto> ofString J ''O0'', ''lto'' \<mapsto> ofString J ''off'',
                ''strip-symbols'' \<mapsto> ofBool J False, ''debug-info'' \<mapsto> ofString J ''full'',
                ''bounds-check'' \<mapsto> ofString J ''on'']
      else Inl (NotABuiltin name))"

subsection \<open>Validation\<close>

text \<open>The loop over the tokens of a comma-separated property: the first one that is not
  allowed is the error.\<close>

fun check_tokens :: "string \<Rightarrow> string \<Rightarrow> string list \<Rightarrow> string list \<Rightarrow> flavor_error + unit" where
  "check_tokens site k allowed [] = Inr ()"
| "check_tokens site k allowed (t # ts) =
     (if t \<in> set allowed then check_tokens site k allowed ts
      else Inl (TokenNotAllowed site k t))"

definition validateFlavorProperty ::
    "('v, 'o) json \<Rightarrow> string \<Rightarrow> 'v \<Rightarrow> string \<Rightarrow> flavor_error + unit" where
  "validateFlavorProperty J k v site =
     (case findFlavorPropertySpec k of
        None \<Rightarrow> Inl (UnknownProperty site k)
      | Some spec \<Rightarrow>
          (case fp_kind spec of
             KBoolean \<Rightarrow>
               (case asBoolean J v of None \<Rightarrow> Inl (MustBeBoolean site k) | Some _ \<Rightarrow> Inr ())
           | KEnumString \<Rightarrow>
               (case asString J v of
                  None \<Rightarrow> Inl (MustBeString site k)
                | Some sv \<Rightarrow>
                    if sv \<in> set (fp_allowed spec) then Inr () else Inl (NotAllowed site k sv))
           | KEnumStringCsv \<Rightarrow>
               (case asString J v of
                  None \<Rightarrow> Inl (MustBeString site k)
                | Some sv \<Rightarrow> check_tokens site k (fp_allowed spec) (split_on (CHR '','') sv))
           | KFreeString \<Rightarrow>
               (case asString J v of
                  None \<Rightarrow> Inl (MustBeString site k)
                | Some sv \<Rightarrow> if sv = [] then Inl (MustBeNonEmpty site k) else Inr ())))"

text \<open>The entries of one level that are not its \<open>base\<close>, written over what the deeper
  levels left.\<close>

definition apply_entries :: "('v, 'o) json \<Rightarrow> 'o \<Rightarrow> (string \<rightharpoonup> 'v) \<Rightarrow> (string \<rightharpoonup> 'v)" where
  "apply_entries J spec m =
     fold (\<lambda>(k, v) m. if k = ''base'' then m else m(k \<mapsto> v)) (members J spec) m"

text \<open>\<open>inlineChain\<close>: \<open>chain\<close> is the set of names being visited, which the error
  shows in its own (sorted) order.\<close>

function inlineChain ::
    "('v, 'o) json \<Rightarrow> 'o \<Rightarrow> string list \<Rightarrow> string \<Rightarrow> flavor_error + string \<times> (string \<rightharpoonup> 'v)" where
  "inlineChain J cf chain name =
     (if name \<in> set chain then Inl (FlavorCycle (sort chain) name)
      else (case getObject J cf name of
              None \<Rightarrow> Inl (UnknownFlavor name)
            | Some spec \<Rightarrow>
                (case getString J spec ''base'' of
                   None \<Rightarrow> Inl (MissingBase name)
                 | Some base \<Rightarrow>
                     bindE (if base \<in> set builtinFlavors then Inr (base, Map.empty)
                            else inlineChain J cf (name # chain) base)
                       (\<lambda>(b, ov). Inr (b, apply_entries J spec ov)))))"
  by pat_completeness auto

termination
proof (relation "measure (\<lambda>(J, cf, chain, name). card (keys J cf - set chain))", goal_cases)
  case (2 J cf chain name spec base)
  then have "name \<in> keys J cf - set chain"
    by (auto simp: getObject_def bind_eq_Some_conv dest: get_keys)
  then have "keys J cf - set (name # chain) \<subset> keys J cf - set chain" by auto
  then have "card (keys J cf - set (name # chain)) < card (keys J cf - set chain)"
    by (intro psubset_card_mono) auto
  then show ?case by simp
qed simp

declare inlineChain.simps [simp del]

text \<open>The two loops of \<open>validateCustomFlavors\<close>.\<close>

fun validate_entry_props ::
    "('v, 'o) json \<Rightarrow> string \<Rightarrow> (string \<times> 'v) list \<Rightarrow> flavor_error + unit" where
  "validate_entry_props J name [] = Inr ()"
| "validate_entry_props J name ((pk, pv) # rest) =
     (if pk = ''base''
      then (case asString J pv of
              None \<Rightarrow> Inl (BaseNotString name)
            | Some _ \<Rightarrow> validate_entry_props J name rest)
      else bindE (validateFlavorProperty J pk pv (''settings.build.custom-flavors.'' @ name))
             (\<lambda>_. validate_entry_props J name rest))"

fun validate_entries :: "('v, 'o) json \<Rightarrow> (string \<times> 'v) list \<Rightarrow> flavor_error + unit" where
  "validate_entries J [] = Inr ()"
| "validate_entries J ((name, v) # rest) =
     (case asObject J v of
        None \<Rightarrow> Inl (EntryNotObject name)
      | Some spec \<Rightarrow>
          bindE (validate_entry_props J name (members J spec)) (\<lambda>_. validate_entries J rest))"

fun dry_chains :: "('v, 'o) json \<Rightarrow> 'o \<Rightarrow> (string \<times> 'v) list \<Rightarrow> flavor_error + unit" where
  "dry_chains J cf [] = Inr ()"
| "dry_chains J cf ((name, v) # rest) =
     bindE (inlineChain J cf [] name) (\<lambda>_. dry_chains J cf rest)"

definition validateCustomFlavors :: "('v, 'o) json \<Rightarrow> 'o \<Rightarrow> flavor_error + unit" where
  "validateCustomFlavors J customFlavors =
     bindE (validate_entries J (members J customFlavors))
       (\<lambda>_. dry_chains J customFlavors (members J customFlavors))"

subsection \<open>Resolution and lowering\<close>

record 'v ResolvedFlavor =
  rf_base :: string
  rf_overrides :: "string \<rightharpoonup> 'v"

fun inline_entries ::
    "('v, 'o) json \<Rightarrow> (string \<times> 'v) list \<Rightarrow> (string \<rightharpoonup> 'v) \<Rightarrow> flavor_error + (string \<rightharpoonup> 'v)" where
  "inline_entries J [] ov = Inr ov"
| "inline_entries J ((k, v) # rest) ov =
     (if k = ''base'' then inline_entries J rest ov
      else bindE (validateFlavorProperty J k v ''inline flavor'')
             (\<lambda>_. inline_entries J rest (ov(k \<mapsto> v))))"

definition resolveFlavor :: "('v, 'o) json \<Rightarrow> 'v \<Rightarrow> 'o \<Rightarrow> flavor_error + 'v ResolvedFlavor" where
  "resolveFlavor J flavorRef customFlavors =
     (case asString J flavorRef of
        Some name \<Rightarrow>
          if name \<in> set builtinFlavors then Inr \<lparr>rf_base = name, rf_overrides = Map.empty\<rparr>
          else bindE (inlineChain J customFlavors [] name)
                 (\<lambda>(b, ov). Inr \<lparr>rf_base = b, rf_overrides = ov\<rparr>)
      | None \<Rightarrow>
          (case asObject J flavorRef of
             Some ob \<Rightarrow>
               (case getString J ob ''base'' of
                  None \<Rightarrow> Inl InlineMissingBase
                | Some base \<Rightarrow>
                    bindE (if base \<in> set builtinFlavors then Inr (base, Map.empty)
                           else inlineChain J customFlavors [] base)
                      (\<lambda>(b, ov). bindE (inline_entries J (members J ob) ov)
                         (\<lambda>ov'. Inr \<lparr>rf_base = b, rf_overrides = ov'\<rparr>)))
           | None \<Rightarrow> Inl BadFlavorValue))"

definition effectiveProperties :: "('v, 'o) json \<Rightarrow> 'v ResolvedFlavor \<Rightarrow> flavor_error + (string \<rightharpoonup> 'v)" where
  "effectiveProperties J r =
     bindE (builtinFlavorProperties J (rf_base r)) (\<lambda>base. Inr (base ++ rf_overrides r))"

definition render_property :: "('v, 'o) json \<Rightarrow> kind \<Rightarrow> 'v \<Rightarrow> string option" where
  "render_property J ki v =
     (case ki of
        KBoolean \<Rightarrow> map_option (\<lambda>b. if b then ''on'' else ''off'') (asBoolean J v)
      | _ \<Rightarrow> asString J v)"

fun flags_from :: "('v, 'o) json \<Rightarrow> (string \<rightharpoonup> 'v) \<Rightarrow> FlavorPropertySpec list \<Rightarrow> string list" where
  "flags_from J props [] = []"
| "flags_from J props (spec # specs) =
     (if fp_flag spec = [] then flags_from J props specs
      else (case props (fp_key spec) of
              None \<Rightarrow> flags_from J props specs
            | Some v \<Rightarrow>
                (case render_property J (fp_kind spec) v of
                   None \<Rightarrow> flags_from J props specs
                 | Some rendered \<Rightarrow>
                     (''--'' @ fp_flag spec @ ''='' @ rendered) # flags_from J props specs)))"

definition toCompilerFlags :: "('v, 'o) json \<Rightarrow> (string \<rightharpoonup> 'v) \<Rightarrow> string list" where
  "toCompilerFlags J props = flags_from J props flavorPropertyVocab"


subsection \<open>What validation gives\<close>

definition valid_property :: "('v, 'o) json \<Rightarrow> string \<Rightarrow> 'v \<Rightarrow> bool" where
  "valid_property J k v = (\<exists>site. validateFlavorProperty J k v site = Inr ())"

lemma validated_iff: "(\<exists>u. validateFlavorProperty J k v site = Inr u) \<longleftrightarrow> valid_property J k v"
proof -
  have t: "check_tokens s k al ts = Inr () \<longleftrightarrow> set ts \<subseteq> set al" for s k al ts
    by (induction ts) auto
  have "validateFlavorProperty J k v s = Inr () \<longleftrightarrow> validateFlavorProperty J k v s' = Inr ()" for s s'
    by (auto simp: validateFlavorProperty_def t split: option.splits kind.splits if_splits)
  then show ?thesis by (auto simp: valid_property_def)
qed

lemma validD: "validateFlavorProperty J k v site = Inr u \<Longrightarrow> valid_property J k v"
  by (metis validated_iff)

definition valid_props :: "('v, 'o) json \<Rightarrow> (string \<rightharpoonup> 'v) \<Rightarrow> bool" where
  "valid_props J m = (\<forall>k v. m k = Some v \<longrightarrow> valid_property J k v)"

lemma valid_props_simps [simp]:
  "valid_props J Map.empty"
  "valid_props J m \<Longrightarrow> valid_property J k v \<Longrightarrow> valid_props J (m(k \<mapsto> v))"
  by (auto simp: valid_props_def)

lemma valid_props_add: "valid_props J m \<Longrightarrow> valid_props J n \<Longrightarrow> valid_props J (m ++ n)"
  by (auto simp: valid_props_def map_add_Some_iff)

definition valid_entries :: "('v, 'o) json \<Rightarrow> 'o \<Rightarrow> bool" where
  "valid_entries J spec = (\<forall>(k, v) \<in> set (members J spec). k = ''base'' \<or> valid_property J k v)"

lemma apply_entries_valid:
  assumes "valid_entries J spec" and "valid_props J m"
  shows "valid_props J (apply_entries J spec m)"
proof -
  have "valid_props J (fold (\<lambda>(k, v) m. if k = ''base'' then m else m(k \<mapsto> v)) ms m)"
    if "\<forall>(k, v) \<in> set ms. k = ''base'' \<or> valid_property J k v" for ms
    using that assms(2) by (induction ms arbitrary: m) auto
  with assms show ?thesis by (simp add: apply_entries_def valid_entries_def)
qed

lemma inlineChain_valid:
  assumes "inlineChain J cf chain name = Inr (b, ov)"
    and "\<forall>n spec. getObject J cf n = Some spec \<longrightarrow> valid_entries J spec"
  shows "b \<in> set builtinFlavors \<and> valid_props J ov"
  using assms
proof (induction J cf chain name arbitrary: b ov rule: inlineChain.induct)
  case (1 J cf chain name)
  from 1(2) obtain spec base b' ov' where n: "name \<notin> set chain"
    and s: "getObject J cf name = Some spec" "getString J spec ''base'' = Some base"
    and r: "(if base \<in> set builtinFlavors then Inr (base, Map.empty)
      else inlineChain J cf (name # chain) base) = Inr (b', ov')"
    and o: "b = b'" "ov = apply_entries J spec ov'"
    by (subst (asm) inlineChain.simps)
      (auto split: if_splits option.splits elim!: bindE_Inr_cases)
  have "b' \<in> set builtinFlavors \<and> valid_props J ov'"
    using r 1(1) [OF n s] 1(3) by (auto split: if_splits)
  with o s 1(3) show ?case by (auto intro: apply_entries_valid)
qed

lemma validate_entry_props_ok:
  "validate_entry_props J n ms = Inr u \<Longrightarrow> \<forall>(k, v) \<in> set ms. k = ''base'' \<or> valid_property J k v"
  by (induction J n ms rule: validate_entry_props.induct)
    (auto split: if_splits option.splits elim!: bindE_Inr_cases intro: validD)

lemma validate_entries_ok:
  "validate_entries J ms = Inr u \<Longrightarrow> (n, v) \<in> set ms \<Longrightarrow> asObject J v = Some spec \<Longrightarrow>
   valid_entries J spec"
proof (induction J ms rule: validate_entries.induct)
  case (2 J name w rest)
  then obtain sp where "asObject J w = Some sp" "validate_entry_props J name (members J sp) = Inr ()"
    and "validate_entries J rest = Inr u"
    by (auto split: option.splits elim!: bindE_Inr_cases)
  then have "valid_entries J sp" by (simp add: valid_entries_def validate_entry_props_ok)
  moreover have "(n, v) \<in> set rest \<Longrightarrow> valid_entries J spec"
    using 2(1) 2(4) \<open>asObject J w = Some sp\<close> \<open>validate_entries J rest = Inr u\<close>
      \<open>validate_entry_props J name (members J sp) = Inr ()\<close> by blast
  ultimately show ?case using 2(3,4) \<open>asObject J w = Some sp\<close> by auto
qed simp

lemma dry_chains_ok:
  "dry_chains J cf ms = Inr u \<Longrightarrow> (n, v) \<in> set ms \<Longrightarrow> \<exists>r. inlineChain J cf [] n = Inr r"
  by (induction J cf ms rule: dry_chains.induct) (auto elim!: bindE_Inr_cases)

lemma getObject_member: "getObject J ob n = Some spec \<Longrightarrow> \<exists>v. (n, v) \<in> set (members J ob) \<and> asObject J v = Some spec"
  by (auto simp: getObject_def get_def bind_eq_Some_conv dest: map_of_SomeD)

lemma validated_resolve:
  assumes "validateCustomFlavors J cf = Inr ()" and "n \<in> keys J cf" and "asString J v = Some n"
  shows "\<exists>r. resolveFlavor J v cf = Inr r \<and> rf_base r \<in> set builtinFlavors \<and>
    (\<forall>k w. rf_overrides r k = Some w \<longrightarrow> validateFlavorProperty J k w site = Inr ())"
proof (cases "n \<in> set builtinFlavors")
  case True
  with assms(3) show ?thesis by (simp add: resolveFlavor_def)
next
  case False
  obtain x where x: "(n, x) \<in> set (members J cf)" using assms(2) by (auto simp: keys_def)
  from assms(1) have ve: "validate_entries J (members J cf) = Inr ()"
    and dc: "dry_chains J cf (members J cf) = Inr ()"
    by (auto simp: validateCustomFlavors_def elim: bindE_Inr_cases)
  obtain b ov where i: "inlineChain J cf [] n = Inr (b, ov)" using dry_chains_ok [OF dc x] by auto
  have "\<forall>n spec. getObject J cf n = Some spec \<longrightarrow> valid_entries J spec"
  proof (intro allI impI)
    fix m spec assume "getObject J cf m = Some spec"
    then obtain w where "(m, w) \<in> set (members J cf)" "asObject J w = Some spec"
      by (auto dest: getObject_member)
    then show "valid_entries J spec" by (rule validate_entries_ok [OF ve])
  qed
  from inlineChain_valid [OF i this] have "b \<in> set builtinFlavors" "valid_props J ov" by auto
  moreover have "validateFlavorProperty J k w site = Inr ()" if "valid_property J k w" for k w
    using that validated_iff [of J k w site] by simp
  ultimately show ?thesis using i False assms(3) by (auto simp: resolveFlavor_def valid_props_def)
qed

text \<open>After \<open>validateCustomFlavors\<close> has accepted the registry, resolving the name of
  any declared flavor succeeds: its chain of bases ends in a built-in and every property it
  collects on the way is in the vocabulary with an allowed value.\<close>

theorem validated_flavors_resolve:
  assumes "validateCustomFlavors J cf = Inr ()" and "n \<in> keys J cf" and "asString J v = Some n"
  shows "\<exists>r. resolveFlavor J v cf = Inr r \<and> rf_base r \<in> set builtinFlavors \<and>
    (\<forall>k w. rf_overrides r k = Some w \<longrightarrow> validateFlavorProperty J k w site = Inr ())"
  using assms by (rule validated_resolve)

definition flavors_doc :: "(string \<times> jtree) list" where
  "flavors_doc =
     [(''fast'', JObj [(''base'', JStr ''tuned''), (''opt'', JStr ''O3'')]),
      (''tuned'', JObj [(''base'', JStr ''release''), (''xpu-backend'', JStr ''cpu,vulkan'')])]"

theorem validated_flavors_resolve_witness:
  "\<exists>r. resolveFlavor (tree_json Map.empty) (JStr ''fast'') flavors_doc = Inr r \<and>
     rf_base r \<in> set builtinFlavors"
proof -
  have "validateCustomFlavors (tree_json Map.empty) flavors_doc = Inr ()" by code_simp
  from validated_flavors_resolve [OF this, of "''fast''" "JStr ''fast''" "[]"] show ?thesis
    by (simp add: keys_def flavors_doc_def) blast
qed

text \<open>The cycle check: a set of declared flavors whose bases stay in the set never reaches
  a built-in, and inlining any of them reports a cycle instead of looping.\<close>

theorem flavor_cycle_reported:
  assumes "\<forall>m \<in> S. m \<notin> set builtinFlavors \<and> (\<exists>spec b. getObject J cf m = Some spec \<and>
      getString J spec ''base'' = Some b \<and> b \<in> S)"
    and "name \<in> S"
  shows "\<exists>c n. inlineChain J cf chain name = Inl (FlavorCycle c n)"
  using assms
proof (induction J cf chain name rule: inlineChain.induct)
  case (1 J cf chain name)
  obtain spec b where s: "getObject J cf name = Some spec" "getString J spec ''base'' = Some b" "b \<in> S"
    using 1(2,3) by blast
  with 1(2) have "b \<notin> set builtinFlavors" by blast
  then show ?case
    using 1(1) [OF _ s(1,2) _ 1(2) s(3)] s by (subst inlineChain.simps) auto
qed

definition cyclic_flavors_doc :: "(string \<times> jtree) list" where
  "cyclic_flavors_doc =
     [(''b'', JObj [(''base'', JStr ''a'')]), (''a'', JObj [(''base'', JStr ''b'')])]"

theorem flavor_cycle_reported_witness:
  "\<exists>c n. inlineChain (tree_json Map.empty) cyclic_flavors_doc [] ''b'' = Inl (FlavorCycle c n)"
  by (rule flavor_cycle_reported [of "{''a'', ''b''}"])
    (auto simp: builtinFlavors_def getObject_def getString_def get_def cyclic_flavors_doc_def)

lemma vocab_found: "s \<in> set flavorPropertyVocab \<Longrightarrow> findFlavorPropertySpec (fp_key s) = Some s"
proof -
  have "list_all (\<lambda>s. findFlavorPropertySpec (fp_key s) = Some s) flavorPropertyVocab" by code_simp
  then show "s \<in> set flavorPropertyVocab \<Longrightarrow> findFlavorPropertySpec (fp_key s) = Some s"
    by (simp add: list_all_iff)
qed

lemma valid_property_renders:
  assumes "valid_property J (fp_key s) v" and "s \<in> set flavorPropertyVocab"
  shows "\<exists>r. render_property J (fp_kind s) v = Some r"
  using assms vocab_found [OF assms(2)]
  by (auto simp: valid_property_def validateFlavorProperty_def render_property_def
      split: kind.splits option.splits)

lemma flags_from_eq:
  assumes "\<forall>s \<in> set specs. \<forall>v. props (fp_key s) = Some v \<longrightarrow> render_property J (fp_kind s) v \<noteq> None"
  shows "flags_from J props specs =
    map (\<lambda>s. ''--'' @ fp_flag s @ ''='' @ the (render_property J (fp_kind s) (the (props (fp_key s)))))
      (filter (\<lambda>s. fp_flag s \<noteq> [] \<and> props (fp_key s) \<noteq> None) specs)"
  using assms by (induction specs) (auto split: option.splits)

text \<open>Lowering loses nothing: for properties that validation accepts, each one that has a
  compiler flag gives exactly one argument, in the order of the vocabulary, and the silent
  skip of a malformed value is never taken.\<close>

theorem toCompilerFlags_complete:
  assumes "\<forall>k v. props k = Some v \<longrightarrow> validateFlavorProperty J k v site = Inr ()"
  shows "toCompilerFlags J props =
    map (\<lambda>s. ''--'' @ fp_flag s @ ''='' @ the (render_property J (fp_kind s) (the (props (fp_key s)))))
      (filter (\<lambda>s. fp_flag s \<noteq> [] \<and> props (fp_key s) \<noteq> None) flavorPropertyVocab) \<and>
    (\<forall>s \<in> set flavorPropertyVocab. \<forall>v. props (fp_key s) = Some v \<longrightarrow>
       render_property J (fp_kind s) v \<noteq> None)"
proof -
  have "\<forall>s \<in> set flavorPropertyVocab. \<forall>v. props (fp_key s) = Some v \<longrightarrow>
      render_property J (fp_kind s) v \<noteq> None"
    using valid_property_renders assms by (fastforce simp: valid_property_def)
  with flags_from_eq [OF this] show ?thesis by (simp add: toCompilerFlags_def)
qed

theorem toCompilerFlags_complete_witness:
  "toCompilerFlags (tree_json Map.empty) [''opt'' \<mapsto> JStr ''O3'', ''asan'' \<mapsto> JBool True] =
   [''--opt=O3'']"
proof -
  have v: "\<forall>k v. [''opt'' \<mapsto> JStr ''O3'', ''asan'' \<mapsto> JBool True] k = Some v \<longrightarrow>
      validateFlavorProperty (tree_json Map.empty) k v [] = Inr ()"
    by (auto simp: validateFlavorProperty_def findFlavorPropertySpec_def flavorPropertyVocab_def spec_of_def)
  from toCompilerFlags_complete [OF v, THEN conjunct1] show ?thesis
    by (simp add: flavorPropertyVocab_def spec_of_def render_property_def fun_upd_def)
qed

end
