(* ===== verification/Manifest_Loader.thy ===== *)
theory Manifest_Loader
  imports Flavor_Resolver
begin

text \<open>
  The manifest \<open>cajeta.json\<close> (\<open>buildtool/Manifest.h\<close>, \<open>Manifest.cpp\<close>):
  the loader's checks on the document and the typed readers of its \<open>settings\<close> blocks.
  A \<open>std::map\<close> that a reader fills is a partial map.
\<close>

subsection \<open>Paths\<close>

text \<open>The part of \<open>std::filesystem::path\<close> that the manifest code uses, on POSIX.\<close>

definition is_absolute :: "string \<Rightarrow> bool" where
  "is_absolute p = (p \<noteq> [] \<and> hd p = CHR ''/'')"

definition path_comps :: "string \<Rightarrow> string list" where
  "path_comps p = filter (\<lambda>c. c \<noteq> []) (split_on (CHR ''/'') p)"

text \<open>\<open>lexically_normal\<close> of a relative path, the components kept so far in reverse.\<close>

fun norm_from :: "string list \<Rightarrow> string list \<Rightarrow> string list" where
  "norm_from acc [] = rev acc"
| "norm_from acc (c # cs) =
     (if c = ''.'' then norm_from acc cs
      else if c = ''..'' \<and> acc \<noteq> [] \<and> hd acc \<noteq> ''..'' then norm_from (tl acc) cs
      else norm_from (c # acc) cs)"

definition lexically_normal :: "string \<Rightarrow> string list" where
  "lexically_normal p = norm_from [] (path_comps p)"

definition parent_path :: "string \<Rightarrow> string" where
  "parent_path p =
     (let d = dropWhile (\<lambda>c. c \<noteq> CHR ''/'') (rev p);
          t = rev (dropWhile (\<lambda>c. c = CHR ''/'') d)
      in if d = [] then [] else if t = [] then ''/'' else t)"

text \<open>\<open>operator/\<close> of a path.\<close>

definition fs_join :: "string \<Rightarrow> string \<Rightarrow> string" where
  "fs_join a b =
     (if is_absolute b then b else if a = [] \<or> last a = CHR ''/'' then a @ b else a @ ''/'' @ b)"

text \<open>\<open>filename()\<close>: what follows the last separator, empty after a trailing one.\<close>

definition filename_of :: "string \<Rightarrow> string" where
  "filename_of p = rev (takeWhile (\<lambda>c. c \<noteq> CHR ''/'') (rev p))"

lemma parent_path_shorter: "parent_path p \<noteq> p \<Longrightarrow> length (parent_path p) < length p"
proof -
  assume ne: "parent_path p \<noteq> p"
  let ?d = "dropWhile (\<lambda>c. c \<noteq> CHR ''/'') (rev p)"
  let ?t = "dropWhile (\<lambda>c. c = CHR ''/'') ?d"
  have d: "length ?d \<le> length p" by (metis length_dropWhile_le length_rev)
  show ?thesis
  proof (cases ?d)
    case Nil
    then show ?thesis using ne by (auto simp: parent_path_def)
  next
    case (Cons c ds)
    then have c: "c = CHR ''/''" by (metis (full_types) dropWhile_eq_Cons_conv)
    have t: "length ?t \<le> length ds" using Cons c by (simp add: length_dropWhile_le)
    show ?thesis
    proof (cases "?t = []")
      case True
      have "length p > 1"
      proof (rule ccontr)
        assume "\<not> length p > 1"
        with d Cons have "length p = 1" by simp
        then obtain x where "p = [x]" by (cases p) auto
        with Cons c ne show False by (auto simp: parent_path_def split: if_splits)
      qed
      then show ?thesis using True Cons by (simp add: parent_path_def)
    next
      case False
      then show ?thesis using t d Cons by (simp add: parent_path_def)
    qed
  qed
qed

subsection \<open>Data\<close>

record 'o ManifestDetails =
  md_name :: string
  md_version :: string
  md_description :: "string option"
  md_license :: "string option"
  md_authors :: "string list"
  md_repositoryUrl :: "string option"
  md_cajetaLangVersion :: "string option"
  md_pluginRaw :: "'o option"

record BinarySpec =
  bs_name :: string
  bs_entryMethod :: string
  bs_description :: "string option"

record 'o SettingsBuild =
  sb_entryMethod :: "string option"
  sb_target :: "string option"
  sb_sourceRoot :: "string option"
  sb_outputDir :: "string option"
  sb_binaries :: "string \<rightharpoonup> BinarySpec"
  sb_customFlavorsRaw :: "'o option"
  sb_cacheMaxBytes :: int
  sb_cacheMaxAgeSeconds :: int

record SettingsOutput =
  so_root :: "string option"
  so_intermediates :: "string option"
  so_artifacts :: "string option"
  so_binaries :: "string option"

record NativeArtifact =
  na_platform :: string
  na_url :: "string option"
  na_sha256 :: "string option"

record NativeLibrary =
  nl_id :: string
  nl_version :: string
  nl_license :: string
  nl_redistributable :: bool
  nl_link :: string
  nl_platforms :: "string list"
  nl_artifacts :: "string \<rightharpoonup> NativeArtifact"
  nl_acquire :: "string option"

record NativeOverride =
  no_version :: "string option"
  no_path :: "string option"

text \<open>A raw block is \<^term>\<open>None\<close> for the empty object that an absent one defaults to.\<close>

record 'o Manifest =
  m_details :: "'o ManifestDetails"
  m_propertiesRaw :: "'o option"
  m_settingsRaw :: "'o option"
  m_actionsRaw :: "'o option"
  m_pluginsRaw :: "'o option"
  m_tasksRaw :: "'o option"
  m_meltRaw :: "'o option"
  m_workspaceRaw :: "'o option"
  m_hasMelt :: bool
  m_hasWorkspace :: bool
  m_sourcePath :: string

text \<open>What is wrong about the key that a \<open>ManifestError\<close> cites.\<close>

datatype complaint =
    MissingField string
  | FieldNotString string
  | BlockNotObject string
  | UnknownBlock string
  | UnknownField string
  | MissingDetails
  | RootNotObject
  | AuthorsNotArray
  | AuthorNotString nat
  | PluginNotObject
  | BadCustomFlavors flavor_error
  | MeltWithTasks
  | MeltWithWorkspace

datatype manifest_error =
    ManifestError string string complaint
  | NotJson string string
  | MustBePath string
  | EmptyPath string
  | EscapesRoot string string
  | BinaryNotObject string
  | BinaryNoEntry string
  | NativeNotObject string
  | NativeMissing string string
  | NativeBadLink string string
  | NativePlatformNotString string
  | NativeArtifactNotObject string string
  | OverrideNeedsVersionOrPath string

definition kTopLevelBlocks :: "string list" where
  "kTopLevelBlocks = [''details'', ''properties'', ''settings'', ''actions'', ''plugins'',
     ''tasks'', ''workspace'', ''melt'']"

definition kDetailsFields :: "string list" where
  "kDetailsFields = [''name'', ''version'', ''description'', ''license'', ''authors'',
     ''repository-url'', ''cajeta-lang-version'', ''plugin'']"

subsection \<open>Loading\<close>

definition requireString ::
    "('v, 'o) json \<Rightarrow> string \<Rightarrow> string \<Rightarrow> string \<Rightarrow> 'v option \<Rightarrow> manifest_error + string" where
  "requireString J site block field v =
     (case v of
        None \<Rightarrow> Inl (ManifestError site (block @ ''.'' @ field) (MissingField field))
      | Some x \<Rightarrow>
          (case asString J x of
             None \<Rightarrow> Inl (ManifestError site (block @ ''.'' @ field) (FieldNotString field))
           | Some s \<Rightarrow> Inr s))"

definition requireObject ::
    "('v, 'o) json \<Rightarrow> string \<Rightarrow> string \<Rightarrow> 'v option \<Rightarrow> manifest_error + 'o option" where
  "requireObject J site block v =
     (case v of
        None \<Rightarrow> Inr None
      | Some x \<Rightarrow>
          (case asObject J x of
             None \<Rightarrow> Inl (ManifestError site block (BlockNotObject block))
           | Some ob \<Rightarrow> Inr (Some ob)))"

definition getOptionalString ::
    "('v, 'o) json \<Rightarrow> string \<Rightarrow> 'o \<Rightarrow> string \<Rightarrow> manifest_error + string option" where
  "getOptionalString J site d field =
     (case get J d field of
        None \<Rightarrow> Inr None
      | Some x \<Rightarrow>
          (case asString J x of
             None \<Rightarrow> Inl (ManifestError site (''details.'' @ field) (FieldNotString field))
           | Some s \<Rightarrow> Inr (Some s)))"

fun load_authors :: "('v, 'o) json \<Rightarrow> string \<Rightarrow> nat \<Rightarrow> 'v list \<Rightarrow> manifest_error + string list" where
  "load_authors J site i [] = Inr []"
| "load_authors J site i (v # vs) =
     (case asString J v of
        None \<Rightarrow>
          Inl (ManifestError site (''details.authors['' @ show_nat i @ '']'') (AuthorNotString i))
      | Some s \<Rightarrow> bindE (load_authors J site (i + 1) vs) (\<lambda>rest. Inr (s # rest)))"

definition loadDetails :: "('v, 'o) json \<Rightarrow> string \<Rightarrow> 'o \<Rightarrow> manifest_error + 'o ManifestDetails" where
  "loadDetails J site root =
     (case get J root ''details'' of
        None \<Rightarrow> Inl (ManifestError site ''details'' MissingDetails)
      | Some detailsV \<Rightarrow>
     (case asObject J detailsV of
        None \<Rightarrow> Inl (ManifestError site ''details'' (BlockNotObject ''details''))
      | Some d \<Rightarrow>
     (case find (\<lambda>(k, v). k \<notin> set kDetailsFields) (members J d) of
        Some (k, v) \<Rightarrow> Inl (ManifestError site (''details.'' @ k) (UnknownField k))
      | None \<Rightarrow>
     bindE (requireString J site ''details'' ''name'' (get J d ''name'')) (\<lambda>name.
     bindE (requireString J site ''details'' ''version'' (get J d ''version'')) (\<lambda>version.
     bindE (getOptionalString J site d ''description'') (\<lambda>description.
     bindE (getOptionalString J site d ''license'') (\<lambda>license.
     bindE (getOptionalString J site d ''repository-url'') (\<lambda>repositoryUrl.
     bindE (getOptionalString J site d ''cajeta-lang-version'') (\<lambda>lang.
     bindE (case get J d ''authors'' of
              None \<Rightarrow> Inr []
            | Some a \<Rightarrow>
                (case asArray J a of
                   None \<Rightarrow> Inl (ManifestError site ''details.authors'' AuthorsNotArray)
                 | Some vs \<Rightarrow> load_authors J site 0 vs)) (\<lambda>authors.
     bindE (case get J d ''plugin'' of
              None \<Rightarrow> Inr None
            | Some p \<Rightarrow>
                (case asObject J p of
                   None \<Rightarrow> Inl (ManifestError site ''details.plugin'' PluginNotObject)
                 | Some ob \<Rightarrow> Inr (Some ob))) (\<lambda>plugin.
     Inr \<lparr>md_name = name, md_version = version, md_description = description,
          md_license = license, md_authors = authors, md_repositoryUrl = repositoryUrl,
          md_cajetaLangVersion = lang, md_pluginRaw = plugin\<rparr>)))))))))))"

definition after_last_dot :: "string \<Rightarrow> string" where
  "after_last_dot s = rev (takeWhile (\<lambda>c. c \<noteq> CHR ''.'') (rev s))"

definition before_last_dot :: "string \<Rightarrow> string" where
  "before_last_dot s = rev (tl (dropWhile (\<lambda>c. c \<noteq> CHR ''.'') (rev s)))"

definition md_group :: "'o ManifestDetails \<Rightarrow> string" where
  "md_group d = (if CHR ''.'' \<in> set (md_name d) then before_last_dot (md_name d) else [])"

definition md_library :: "'o ManifestDetails \<Rightarrow> string" where
  "md_library d = (if CHR ''.'' \<in> set (md_name d) then after_last_dot (md_name d) else md_name d)"

definition empty_object :: "('v, 'o) json \<Rightarrow> 'o option \<Rightarrow> bool" where
  "empty_object J ob = (case ob of None \<Rightarrow> True | Some x \<Rightarrow> members J x = [])"

text \<open>\<open>getObject\<close> on a raw block.\<close>

definition block_get :: "('v, 'o) json \<Rightarrow> 'o option \<Rightarrow> string \<Rightarrow> 'v option" where
  "block_get J ob k = Option.bind ob (\<lambda>x. get J x k)"

definition block_object :: "('v, 'o) json \<Rightarrow> 'o option \<Rightarrow> string \<Rightarrow> 'o option" where
  "block_object J ob k = Option.bind ob (\<lambda>x. getObject J x k)"

definition check_custom_flavors :: "('v, 'o) json \<Rightarrow> string \<Rightarrow> 'o \<Rightarrow> manifest_error + unit" where
  "check_custom_flavors J site root =
     (case block_object J (block_object J (getObject J root ''settings'') ''build'') ''custom-flavors'' of
        None \<Rightarrow> Inr ()
      | Some cf \<Rightarrow>
          (case validateCustomFlavors J cf of
             Inl e \<Rightarrow> Inl (ManifestError site ''settings.build.custom-flavors'' (BadCustomFlavors e))
           | Inr _ \<Rightarrow> Inr ()))"

definition loadManifestString :: "('v, 'o) json \<Rightarrow> string \<Rightarrow> string \<Rightarrow> manifest_error + 'o Manifest" where
  "loadManifestString J source sourceLabel =
     (case parseJsonC J source of
        Inl e \<Rightarrow> Inl (NotJson sourceLabel e)
      | Inr val \<Rightarrow>
     (case asObject J val of
        None \<Rightarrow> Inl (ManifestError sourceLabel [] RootNotObject)
      | Some root \<Rightarrow>
     (case find (\<lambda>(k, v). k \<notin> set kTopLevelBlocks) (members J root) of
        Some (k, v) \<Rightarrow> Inl (ManifestError sourceLabel k (UnknownBlock k))
      | None \<Rightarrow>
     bindE (loadDetails J sourceLabel root) (\<lambda>details.
     bindE (requireObject J sourceLabel ''properties'' (get J root ''properties'')) (\<lambda>properties.
     bindE (requireObject J sourceLabel ''settings'' (get J root ''settings'')) (\<lambda>settings.
     bindE (requireObject J sourceLabel ''actions'' (get J root ''actions'')) (\<lambda>actions.
     bindE (requireObject J sourceLabel ''plugins'' (get J root ''plugins'')) (\<lambda>plugins.
     bindE (requireObject J sourceLabel ''tasks'' (get J root ''tasks'')) (\<lambda>tasks.
     bindE (requireObject J sourceLabel ''melt'' (get J root ''melt'')) (\<lambda>melt.
     bindE (requireObject J sourceLabel ''workspace'' (get J root ''workspace'')) (\<lambda>workspace.
     bindE (check_custom_flavors J sourceLabel root) (\<lambda>_.
     let hasMelt = (get J root ''melt'' \<noteq> None);
         hasWorkspace = (get J root ''workspace'' \<noteq> None)
     in if hasMelt \<and> \<not> empty_object J tasks
        then Inl (ManifestError sourceLabel ''melt'' MeltWithTasks)
        else if hasMelt \<and> hasWorkspace
        then Inl (ManifestError sourceLabel ''workspace'' MeltWithWorkspace)
        else Inr \<lparr>m_details = details, m_propertiesRaw = properties, m_settingsRaw = settings,
                  m_actionsRaw = actions, m_pluginsRaw = plugins, m_tasksRaw = tasks,
                  m_meltRaw = melt, m_workspaceRaw = workspace, m_hasMelt = hasMelt,
                  m_hasWorkspace = hasWorkspace, m_sourcePath = sourceLabel\<rparr>))))))))))))"

definition projectRootFromManifest :: "'o Manifest \<Rightarrow> string" where
  "projectRootFromManifest m =
     (if m_sourcePath m = [] then ''.''
      else let parent = parent_path (m_sourcePath m) in if parent = [] then ''.'' else parent)"


subsection \<open>The typed readers of \<open>settings\<close>\<close>

text \<open>The validator that \<open>parseSettingsOutput\<close> runs over each of its four keys.\<close>

definition read_output :: "('v, 'o) json \<Rightarrow> 'o \<Rightarrow> string \<Rightarrow> manifest_error + string option" where
  "read_output J output k =
     (case get J output k of
        None \<Rightarrow> Inr None
      | Some v \<Rightarrow>
          (case asString J v of
             None \<Rightarrow> Inl (MustBePath k)
           | Some s \<Rightarrow>
               if s = [] then Inl (EmptyPath k)
               else if \<not> is_absolute s \<and> lexically_normal s \<noteq> [] \<and> hd (lexically_normal s) = ''..''
               then Inl (EscapesRoot k s)
               else Inr (Some s)))"

definition parseSettingsOutput :: "('v, 'o) json \<Rightarrow> 'o Manifest \<Rightarrow> manifest_error + SettingsOutput" where
  "parseSettingsOutput J m =
     (case block_object J (m_settingsRaw m) ''output'' of
        None \<Rightarrow> Inr \<lparr>so_root = None, so_intermediates = None, so_artifacts = None, so_binaries = None\<rparr>
      | Some output \<Rightarrow>
          bindE (read_output J output ''root'') (\<lambda>r.
          bindE (read_output J output ''intermediates'') (\<lambda>i.
          bindE (read_output J output ''artifacts'') (\<lambda>a.
          bindE (read_output J output ''binaries'') (\<lambda>b.
          Inr \<lparr>so_root = r, so_intermediates = i, so_artifacts = a, so_binaries = b\<rparr>)))))"

definition positive_or_zero :: "int option \<Rightarrow> int" where
  "positive_or_zero v = (case v of None \<Rightarrow> 0 | Some i \<Rightarrow> if i > 0 then i else 0)"

fun read_binaries ::
    "('v, 'o) json \<Rightarrow> (string \<times> 'v) list \<Rightarrow> (string \<rightharpoonup> BinarySpec) \<Rightarrow>
     manifest_error + (string \<rightharpoonup> BinarySpec)" where
  "read_binaries J [] m = Inr m"
| "read_binaries J ((name, v) # rest) m =
     (case asObject J v of
        None \<Rightarrow> Inl (BinaryNotObject name)
      | Some spec \<Rightarrow>
          (case getString J spec ''entry-method'' of
             None \<Rightarrow> Inl (BinaryNoEntry name)
           | Some em \<Rightarrow>
               read_binaries J rest
                 (m(name \<mapsto> \<lparr>bs_name = name, bs_entryMethod = em,
                            bs_description = getString J spec ''description''\<rparr>))))"

definition parseSettingsBuild :: "('v, 'o) json \<Rightarrow> 'o Manifest \<Rightarrow> manifest_error + 'o SettingsBuild" where
  "parseSettingsBuild J m =
     (case block_object J (m_settingsRaw m) ''build'' of
        None \<Rightarrow> Inr \<lparr>sb_entryMethod = None, sb_target = None, sb_sourceRoot = None, sb_outputDir = None,
                     sb_binaries = Map.empty, sb_customFlavorsRaw = None, sb_cacheMaxBytes = 0,
                     sb_cacheMaxAgeSeconds = 0\<rparr>
      | Some build \<Rightarrow>
          bindE (case getObject J build ''binaries'' of
                   None \<Rightarrow> Inr Map.empty
                 | Some bs \<Rightarrow> read_binaries J (members J bs) Map.empty)
            (\<lambda>binaries.
               let cache = getObject J build ''cache''
               in Inr \<lparr>sb_entryMethod = getString J build ''entry-method'',
                       sb_target = getString J build ''target'',
                       sb_sourceRoot = getString J build ''source-root'',
                       sb_outputDir = getString J build ''output-dir'',
                       sb_binaries = binaries,
                       sb_customFlavorsRaw = getObject J build ''custom-flavors'',
                       sb_cacheMaxBytes =
                         positive_or_zero (Option.bind cache (\<lambda>c. getInteger J c ''max-bytes'')),
                       sb_cacheMaxAgeSeconds =
                         positive_or_zero (Option.bind cache (\<lambda>c. getInteger J c ''max-age-seconds''))\<rparr>))"

fun read_platforms :: "('v, 'o) json \<Rightarrow> string \<Rightarrow> 'v list \<Rightarrow> manifest_error + string list" where
  "read_platforms J site [] = Inr []"
| "read_platforms J site (v # vs) =
     (case asString J v of
        None \<Rightarrow> Inl (NativePlatformNotString site)
      | Some s \<Rightarrow> bindE (read_platforms J site vs) (\<lambda>rest. Inr (s # rest)))"

fun read_artifacts ::
    "('v, 'o) json \<Rightarrow> string \<Rightarrow> (string \<times> 'v) list \<Rightarrow> (string \<rightharpoonup> NativeArtifact) \<Rightarrow>
     manifest_error + (string \<rightharpoonup> NativeArtifact)" where
  "read_artifacts J site [] m = Inr m"
| "read_artifacts J site ((platform, v) # rest) m =
     (case asObject J v of
        None \<Rightarrow> Inl (NativeArtifactNotObject site platform)
      | Some ao \<Rightarrow>
          read_artifacts J site rest
            (m(platform \<mapsto> \<lparr>na_platform = platform, na_url = getString J ao ''url'',
                           na_sha256 = getString J ao ''sha256''\<rparr>)))"

definition parseNativeLibraryEntry ::
    "('v, 'o) json \<Rightarrow> string \<Rightarrow> 'o \<Rightarrow> string \<Rightarrow> manifest_error + NativeLibrary" where
  "parseNativeLibraryEntry J lid ob site =
     (case getString J ob ''version'' of
        None \<Rightarrow> Inl (NativeMissing site ''version'')
      | Some ver \<Rightarrow>
     (case getString J ob ''license'' of
        None \<Rightarrow> Inl (NativeMissing site ''license'')
      | Some lic \<Rightarrow>
     bindE (case getString J ob ''link'' of
              None \<Rightarrow> Inr ''static''
            | Some lk \<Rightarrow>
                if lk \<noteq> ''static'' \<and> lk \<noteq> ''dynamic'' then Inl (NativeBadLink site lk) else Inr lk)
       (\<lambda>link.
     bindE (case getArray J ob ''platforms'' of None \<Rightarrow> Inr [] | Some ps \<Rightarrow> read_platforms J site ps)
       (\<lambda>platforms.
     bindE (case getObject J ob ''artifacts'' of
              None \<Rightarrow> Inr Map.empty
            | Some arts \<Rightarrow> read_artifacts J site (members J arts) Map.empty)
       (\<lambda>artifacts.
     Inr \<lparr>nl_id = lid, nl_version = ver, nl_license = lic,
          nl_redistributable = (case getBoolean J ob ''redistributable'' of None \<Rightarrow> False | Some b \<Rightarrow> b),
          nl_link = link, nl_platforms = platforms, nl_artifacts = artifacts,
          nl_acquire = getString J ob ''acquire''\<rparr>)))))"

fun read_natives ::
    "('v, 'o) json \<Rightarrow> (string \<times> 'v) list \<Rightarrow> (string \<rightharpoonup> NativeLibrary) \<Rightarrow>
     manifest_error + (string \<rightharpoonup> NativeLibrary)" where
  "read_natives J [] m = Inr m"
| "read_natives J ((lid, v) # rest) m =
     (let site = ''settings.native-libraries.'' @ lid in
      case asObject J v of
        None \<Rightarrow> Inl (NativeNotObject site)
      | Some ob \<Rightarrow>
          bindE (parseNativeLibraryEntry J lid ob site)
            (\<lambda>lib. read_natives J rest (m(lid \<mapsto> lib))))"

definition parseNativeLibraries ::
    "('v, 'o) json \<Rightarrow> 'o Manifest \<Rightarrow> manifest_error + (string \<rightharpoonup> NativeLibrary)" where
  "parseNativeLibraries J m =
     (case block_object J (m_settingsRaw m) ''native-libraries'' of
        None \<Rightarrow> Inr Map.empty
      | Some nl \<Rightarrow> read_natives J (members J nl) Map.empty)"

fun read_native_overrides ::
    "('v, 'o) json \<Rightarrow> (string \<times> 'v) list \<Rightarrow> (string \<rightharpoonup> NativeOverride) \<Rightarrow>
     manifest_error + (string \<rightharpoonup> NativeOverride)" where
  "read_native_overrides J [] m = Inr m"
| "read_native_overrides J ((lid, v) # rest) m =
     (let site = ''settings.native-overrides.'' @ lid in
      case asObject J v of
        None \<Rightarrow> Inl (NativeNotObject site)
      | Some ob \<Rightarrow>
          let ov = \<lparr>no_version = getString J ob ''version'', no_path = getString J ob ''path''\<rparr>
          in if no_version ov = None \<and> no_path ov = None then Inl (OverrideNeedsVersionOrPath site)
             else read_native_overrides J rest (m(lid \<mapsto> ov)))"

definition parseNativeOverrides ::
    "('v, 'o) json \<Rightarrow> 'o Manifest \<Rightarrow> manifest_error + (string \<rightharpoonup> NativeOverride)" where
  "parseNativeOverrides J m =
     (case block_object J (m_settingsRaw m) ''native-overrides'' of
        None \<Rightarrow> Inr Map.empty
      | Some no \<Rightarrow> read_native_overrides J (members J no) Map.empty)"

subsection \<open>Output paths stay inside the project\<close>

text \<open>Following the components of a path from a directory, given as the names from it up to
  the file system's root.\<close>

fun walk_path :: "string list \<Rightarrow> string list \<Rightarrow> string list" where
  "walk_path dir [] = dir"
| "walk_path dir (c # cs) =
     walk_path (if c = ''.'' then dir else if c = ''..'' then tl dir else c # dir) cs"

lemma norm_from_keeps_dotdot:
  "acc \<noteq> [] \<Longrightarrow> last acc = ''..'' \<Longrightarrow> norm_from acc cs \<noteq> [] \<and> hd (norm_from acc cs) = ''..''"
proof (induction acc cs rule: norm_from.induct)
  case (1 acc) then show ?case by (simp add: hd_rev)
next
  case (2 acc c cs)
  have "tl acc \<noteq> [] \<and> last (tl acc) = ''..''" if "hd acc \<noteq> ''..''"
    using that 2(4,5) by (cases acc) (auto split: if_splits)
  then show ?case using 2 by (cases "c = ''.''"; cases "c = ''..''"; cases "hd acc = ''..''") simp_all
qed

lemma walk_norm:
  assumes "norm_from acc cs = [] \<or> hd (norm_from acc cs) \<noteq> ''..''" and "''..'' \<notin> set acc"
  shows "walk_path (acc @ dir) cs = rev (norm_from acc cs) @ dir"
  using assms
proof (induction acc cs rule: norm_from.induct)
  case (2 acc c cs)
  consider "c = ''.''" | "c = ''..''" "acc \<noteq> []" | "c = ''..''" "acc = []"
    | "c \<noteq> ''.''" "c \<noteq> ''..''" by auto
  then show ?case
  proof cases
    case 2
    then have "hd acc \<noteq> ''..''" using \<open>''..'' \<notin> set acc\<close> by (cases acc) auto
    moreover have "''..'' \<notin> set (tl acc)" using 2 \<open>''..'' \<notin> set acc\<close> by (cases acc) auto
    ultimately show ?thesis using 2 "2.prems" "2.IH"(2) by simp
  next
    case 3
    then show ?thesis using norm_from_keeps_dotdot [of "[''..'']" cs] "2.prems" by simp
  qed (use "2.prems" "2.IH" in simp_all)
qed simp

lemma read_output_inside:
  assumes "read_output J ob k = Inr (Some p)" and "\<not> is_absolute p"
  shows "\<exists>sub. walk_path dir (path_comps p) = sub @ dir"
proof -
  have "lexically_normal p = [] \<or> hd (lexically_normal p) \<noteq> ''..''"
    using assms by (auto simp: read_output_def split: option.splits if_splits)
  then have "walk_path ([] @ dir) (path_comps p) = rev (lexically_normal p) @ dir"
    unfolding lexically_normal_def by (intro walk_norm) auto
  then show ?thesis by auto
qed

text \<open>C35: Whatever \<open>parseSettingsOutput\<close> accepts as a relative output path leads, followed
  from the project's directory, to that directory or below it.\<close>

theorem output_paths_stay_inside:
  assumes "parseSettingsOutput J m = Inr so"
    and "p \<in> {p. so_root so = Some p \<or> so_intermediates so = Some p \<or> so_artifacts so = Some p \<or>
      so_binaries so = Some p}"
    and "\<not> is_absolute p"
  shows "\<exists>sub. walk_path dir (path_comps p) = sub @ dir"
proof -
  from assms(1,2) obtain ob k where "read_output J ob k = Inr (Some p)"
    by (auto simp: parseSettingsOutput_def split: option.splits elim!: bindE_Inr_cases)
  from this assms(3) show ?thesis by (rule read_output_inside)
qed

definition output_manifest :: "string \<Rightarrow> (string \<times> jtree) list Manifest" where
  "output_manifest p =
     \<lparr>m_details = \<lparr>md_name = ''a'', md_version = ''1.0.0'', md_description = None, md_license = None,
        md_authors = [], md_repositoryUrl = None, md_cajetaLangVersion = None, md_pluginRaw = None\<rparr>,
      m_propertiesRaw = None, m_settingsRaw = Some [(''output'', JObj [(''root'', JStr p)])],
      m_actionsRaw = None, m_pluginsRaw = None, m_tasksRaw = None, m_meltRaw = None,
      m_workspaceRaw = None, m_hasMelt = False, m_hasWorkspace = False, m_sourcePath = []\<rparr>"

theorem output_paths_stay_inside_witness:
  "\<exists>sub. walk_path [''proj'', ''home''] (path_comps ''out/../build'') = sub @ [''proj'', ''home'']"
proof -
  have p: "parseSettingsOutput (tree_json Map.empty) (output_manifest ''out/../build'') =
      Inr \<lparr>so_root = Some ''out/../build'', so_intermediates = None, so_artifacts = None, so_binaries = None\<rparr>"
    by code_simp
  show ?thesis
    by (rule output_paths_stay_inside [OF p]) (auto simp: is_absolute_def)
qed


subsection \<open>What a loaded manifest is\<close>

lemma requireObject_block:
  assumes "requireObject J site b (get J root b) = Inr r"
  shows "block_object J r k = block_object J (getObject J root b) k" and "r = getObject J root b"
  using assms by (auto simp: requireObject_def getObject_def block_object_def split: option.splits)

lemma loaded_parts:
  assumes "loadManifestString J src label = Inr m"
  obtains root where "m_settingsRaw m = getObject J root ''settings''"
    and "check_custom_flavors J label root = Inr ()"
    and "\<forall>k \<in> keys J root. k \<in> set kTopLevelBlocks" and "loadDetails J label root = Inr (m_details m)"
    and "m_hasMelt m \<longrightarrow> empty_object J (m_tasksRaw m) \<and> \<not> m_hasWorkspace m"
    and "m_hasMelt m \<longleftrightarrow> m_meltRaw m \<noteq> None" and "m_hasWorkspace m \<longleftrightarrow> m_workspaceRaw m \<noteq> None"
    and "m_sourcePath m = label"
proof -
  from assms obtain val root details properties settings actions plugins tasks melt workspace
    where "asObject J val = Some root" and f: "find (\<lambda>(k, v). k \<notin> set kTopLevelBlocks) (members J root) = None"
    and d: "loadDetails J label root = Inr details"
    and s: "requireObject J label ''settings'' (get J root ''settings'') = Inr settings"
    and me: "requireObject J label ''melt'' (get J root ''melt'') = Inr melt"
    and w: "requireObject J label ''workspace'' (get J root ''workspace'') = Inr workspace"
    and c: "check_custom_flavors J label root = Inr ()"
    and x: "\<not> (get J root ''melt'' \<noteq> None \<and> \<not> empty_object J tasks)"
      "\<not> (get J root ''melt'' \<noteq> None \<and> get J root ''workspace'' \<noteq> None)"
    and m: "m = \<lparr>m_details = details, m_propertiesRaw = properties, m_settingsRaw = settings,
      m_actionsRaw = actions, m_pluginsRaw = plugins, m_tasksRaw = tasks, m_meltRaw = melt,
      m_workspaceRaw = workspace, m_hasMelt = (get J root ''melt'' \<noteq> None),
      m_hasWorkspace = (get J root ''workspace'' \<noteq> None), m_sourcePath = label\<rparr>"
    unfolding loadManifestString_def Let_def
    by (auto split: sum.splits option.splits if_splits elim!: bindE_Inr_cases)
  from f have k: "\<forall>k \<in> keys J root. k \<in> set kTopLevelBlocks"
    by (force simp: find_None_iff keys_def)
  have p: "get J root b \<noteq> None \<longleftrightarrow> r \<noteq> None" if "requireObject J label b (get J root b) = Inr r" for b r
    using that by (auto simp: requireObject_def split: option.splits) metis
  show thesis
    by (rule that [of root]) (use k d s c x m p [OF me] p [OF w] requireObject_block(2) [OF s] in auto)
qed

text \<open>A manifest that loads is consistent: a melt defines no tasks and no workspace, and
  whatever flavor its \<open>settings.build.custom-flavors\<close> declares resolves to a built-in base
  with valid properties, so that a build never fails on a declared flavor.\<close>

theorem loaded_manifest_flavors_resolve:
  assumes "loadManifestString J src label = Inr m" and "parseSettingsBuild J m = Inr sb"
  shows "(m_hasMelt m \<longrightarrow> empty_object J (m_tasksRaw m) \<and> m_workspaceRaw m = None) \<and>
    (\<forall>cf n v. sb_customFlavorsRaw sb = Some cf \<longrightarrow> n \<in> keys J cf \<longrightarrow> asString J v = Some n \<longrightarrow>
       (\<exists>r. resolveFlavor J v cf = Inr r \<and> rf_base r \<in> set builtinFlavors \<and>
          (\<forall>k w. rf_overrides r k = Some w \<longrightarrow> validateFlavorProperty J k w site = Inr ())))"
proof -
  obtain root where s: "m_settingsRaw m = getObject J root ''settings''"
    and c: "check_custom_flavors J label root = Inr ()"
    and x: "m_hasMelt m \<longrightarrow> empty_object J (m_tasksRaw m) \<and> \<not> m_hasWorkspace m"
    and w: "m_hasWorkspace m \<longleftrightarrow> m_workspaceRaw m \<noteq> None"
    using loaded_parts [OF assms(1)] by metis
  have "validateCustomFlavors J cf = Inr ()" if "sb_customFlavorsRaw sb = Some cf" for cf
  proof -
    from assms(2) that obtain build where "block_object J (m_settingsRaw m) ''build'' = Some build"
      and "getObject J build ''custom-flavors'' = Some cf"
      by (auto simp: parseSettingsBuild_def Let_def split: option.splits elim!: bindE_Inr_cases)
    then show ?thesis
      using c by (auto simp: check_custom_flavors_def s block_object_def split: sum.splits)
  qed
  then show ?thesis using x w validated_resolve [of J] by blast
qed

definition manifest_doc :: jtree where
  "manifest_doc = JObj
     [(''details'', JObj [(''name'', JStr ''org.app''), (''version'', JStr ''1.0.0'')]),
      (''settings'', JObj [(''build'', JObj [(''custom-flavors'', JObj flavors_doc)])])]"

theorem loaded_manifest_flavors_resolve_witness:
  "\<exists>m sb. loadManifestString (tree_json [''{}'' \<mapsto> manifest_doc]) ''{}'' ''cajeta.json'' = Inr m \<and>
     parseSettingsBuild (tree_json [''{}'' \<mapsto> manifest_doc]) m = Inr sb \<and>
     (\<exists>r. resolveFlavor (tree_json [''{}'' \<mapsto> manifest_doc]) (JStr ''fast'') flavors_doc = Inr r \<and>
        rf_base r \<in> set builtinFlavors)"
proof -
  let ?J = "tree_json [''{}'' \<mapsto> manifest_doc]"
  have "case loadManifestString ?J ''{}'' ''cajeta.json'' of Inl e \<Rightarrow> False | Inr m \<Rightarrow>
      (case parseSettingsBuild ?J m of Inl e \<Rightarrow> False | Inr sb \<Rightarrow> sb_customFlavorsRaw sb = Some flavors_doc)"
    by code_simp
  then obtain m sb where m: "loadManifestString ?J ''{}'' ''cajeta.json'' = Inr m"
    and sb: "parseSettingsBuild ?J m = Inr sb" "sb_customFlavorsRaw sb = Some flavors_doc"
    by (auto split: sum.splits)
  have "''fast'' \<in> keys ?J flavors_doc" by (simp add: keys_def flavors_doc_def)
  with loaded_manifest_flavors_resolve [OF m sb(1), of "[]"] sb(2)
  have "\<exists>r. resolveFlavor ?J (JStr ''fast'') flavors_doc = Inr r \<and> rf_base r \<in> set builtinFlavors"
    by (metis tree_json_simps(1))
  with m sb show ?thesis by blast
qed

end
