(* ===== verification/Dependency_Specs.thy ===== *)
theory Dependency_Specs
  imports Manifest_Loader
begin

text \<open>
  The typed forms of \<open>settings.repositories\<close>, \<open>settings.dependencies\<close> and
  \<open>settings.overrides\<close> (\<open>buildtool/Dependency.h\<close>, \<open>Dependency.cpp\<close>).
  \<open>weakly_canonical\<close> asks the file system about symbolic links and is a parameter.
\<close>

subsection \<open>Data\<close>

datatype Verification = Publisher | Checksum

record RepositoryAuth =
  ra_type :: string
  ra_tokenEnv :: string
  ra_tokenLiteral :: string
  ra_clientCertPath :: string
  ra_clientKeyPath :: string
  ra_caCertPath :: string

record RepositorySpec =
  rs_name :: string
  rs_type :: string
  rs_url :: string
  rs_path :: string
  rs_priority :: int
  rs_auth :: RepositoryAuth
  rs_gitRef :: string
  rs_gitSubdir :: string
  rs_verification :: Verification

record DependencySpec =
  ds_name :: string
  versionConstraint :: string
  fromRepo :: "string option"

record OverrideSpec =
  os_name :: string
  os_versionConstraint :: string
  os_path :: "string option"
  os_git :: "string option"
  os_rev :: "string option"
  os_allowMajorDowngrade :: bool

datatype dep_error =
    RepoNotObject nat
  | RepoNoName nat
  | RepoNoType string
  | RepoBadVerification string string
  | RepoNeedsPath string
  | RepoNeedsUrl string string
  | RepoNeedsRef string
  | AuthBearerNeedsToken string
  | AuthMtlsNeedsPair string
  | AuthBadType string string
  | DepNeedsSource string
  | DepBadValue string
  | OverrideNeedsSource string
  | OverrideBadValue string

subsection \<open>Repositories\<close>

text \<open>\<open>static_cast<int>\<close> of a 64-bit value.\<close>

definition cast_int32 :: "int \<Rightarrow> int" where
  "cast_int32 i = (i + 2 ^ 31) mod 2 ^ 32 - 2 ^ 31"

definition str_or :: "string option \<Rightarrow> string \<Rightarrow> string" where
  "str_or v d = (case v of Some s \<Rightarrow> s | None \<Rightarrow> d)"

definition infer_type :: "('v, 'o) json \<Rightarrow> 'o \<Rightarrow> string option" where
  "infer_type J ob =
     (case getString J ob ''type'' of
        Some t \<Rightarrow> Some t
      | None \<Rightarrow> if getString J ob ''path'' \<noteq> None then Some ''filesystem''
                else if getString J ob ''url'' \<noteq> None then Some ''http'' else None)"

text \<open>The last of \<open>ref\<close>, \<open>tag\<close>, \<open>branch\<close> and \<open>rev\<close> that is given wins.\<close>

definition git_ref :: "('v, 'o) json \<Rightarrow> 'o \<Rightarrow> string" where
  "git_ref J ob =
     str_or (getString J ob ''rev'') (str_or (getString J ob ''branch'')
       (str_or (getString J ob ''tag'') (str_or (getString J ob ''ref'') [])))"

definition parse_verification :: "('v, 'o) json \<Rightarrow> string \<Rightarrow> 'o \<Rightarrow> dep_error + Verification" where
  "parse_verification J name ob =
     (case getString J ob ''verification'' of
        None \<Rightarrow> Inr Publisher
      | Some v \<Rightarrow> if v = ''publisher'' then Inr Publisher
                  else if v = ''checksum'' then Inr Checksum
                  else Inl (RepoBadVerification name v))"

definition no_auth :: RepositoryAuth where
  "no_auth = \<lparr>ra_type = [], ra_tokenEnv = [], ra_tokenLiteral = [], ra_clientCertPath = [],
     ra_clientKeyPath = [], ra_caCertPath = []\<rparr>"

definition parse_auth :: "('v, 'o) json \<Rightarrow> string \<Rightarrow> 'o \<Rightarrow> dep_error + RepositoryAuth" where
  "parse_auth J name ob =
     (case getObject J ob ''auth'' of
        None \<Rightarrow> Inr no_auth
      | Some a \<Rightarrow>
          let auth = \<lparr>ra_type = str_or (getString J a ''type'') [],
                      ra_tokenEnv = str_or (getString J a ''token-env'') [],
                      ra_tokenLiteral = str_or (getString J a ''token'') [],
                      ra_clientCertPath = str_or (getString J a ''client-cert'') [],
                      ra_clientKeyPath = str_or (getString J a ''client-key'') [],
                      ra_caCertPath = str_or (getString J a ''ca-cert'') []\<rparr>
          in if ra_type auth = ''bearer'' \<and> ra_tokenEnv auth = [] \<and> ra_tokenLiteral auth = []
             then Inl (AuthBearerNeedsToken name)
             else if ra_type auth = ''mtls'' \<and> (ra_clientCertPath auth = [] \<or> ra_clientKeyPath auth = [])
             then Inl (AuthMtlsNeedsPair name)
             else if ra_type auth \<noteq> [] \<and> ra_type auth \<noteq> ''bearer'' \<and> ra_type auth \<noteq> ''mtls''
             then Inl (AuthBadType name (ra_type auth))
             else Inr auth)"

text \<open>What each type of repository requires.\<close>

definition check_source :: "string \<Rightarrow> string \<Rightarrow> string \<Rightarrow> string \<Rightarrow> string \<Rightarrow> dep_error + unit" where
  "check_source name ty path url gitRef =
     (if ty = ''filesystem'' \<and> path = [] then Inl (RepoNeedsPath name)
      else if (ty = ''http'' \<or> ty = ''maven-compat'') \<and> url = [] then Inl (RepoNeedsUrl name ty)
      else if ty = ''git'' \<and> url = [] then Inl (RepoNeedsUrl name ty)
      else if ty = ''git'' \<and> gitRef = [] then Inl (RepoNeedsRef name)
      else Inr ())"

definition parse_repo :: "('v, 'o) json \<Rightarrow> nat \<Rightarrow> 'v \<Rightarrow> dep_error + RepositorySpec" where
  "parse_repo J i v =
     (case asObject J v of
        None \<Rightarrow> Inl (RepoNotObject i)
      | Some ob \<Rightarrow>
     (case getString J ob ''name'' of
        None \<Rightarrow> Inl (RepoNoName i)
      | Some name \<Rightarrow>
     (case infer_type J ob of
        None \<Rightarrow> Inl (RepoNoType name)
      | Some ty \<Rightarrow>
     bindE (parse_verification J name ob) (\<lambda>ver.
       let path = str_or (getString J ob ''path'') [];
           url = str_or (getString J ob ''url'') [];
           priority = (case getInteger J ob ''priority'' of None \<Rightarrow> 0 | Some p \<Rightarrow> cast_int32 p);
           gitRef = git_ref J ob
       in bindE (check_source name ty path url gitRef) (\<lambda>_.
          bindE (parse_auth J name ob) (\<lambda>auth.
            Inr \<lparr>rs_name = name, rs_type = ty, rs_url = url, rs_path = path, rs_priority = priority,
                 rs_auth = auth, rs_gitRef = gitRef,
                 rs_gitSubdir = str_or (getString J ob ''subdir'') [], rs_verification = ver\<rparr>))))))"

fun parse_repos :: "('v, 'o) json \<Rightarrow> nat \<Rightarrow> 'v list \<Rightarrow> dep_error + RepositorySpec list" where
  "parse_repos J i [] = Inr []"
| "parse_repos J i (v # vs) =
     bindE (parse_repo J i v) (\<lambda>r. bindE (parse_repos J (i + 1) vs) (\<lambda>rs. Inr (r # rs)))"

text \<open>The path of a filesystem repository is anchored at the manifest's directory.\<close>

definition anchor :: "(string \<Rightarrow> string \<Rightarrow> string) \<Rightarrow> string \<Rightarrow> RepositorySpec \<Rightarrow> RepositorySpec" where
  "anchor weakly_canonical sourcePath r =
     (if sourcePath = [] \<or> rs_type r \<noteq> ''filesystem'' \<or> rs_path r = [] \<or> is_absolute (rs_path r)
      then r
      else r\<lparr>rs_path := weakly_canonical (parent_path sourcePath) (rs_path r)\<rparr>)"

definition parseRepositories ::
    "('v, 'o) json \<Rightarrow> (string \<Rightarrow> string \<Rightarrow> string) \<Rightarrow> 'o Manifest \<Rightarrow> dep_error + RepositorySpec list" where
  "parseRepositories J weakly_canonical m =
     (case Option.bind (m_settingsRaw m) (\<lambda>s. getArray J s ''repositories'') of
        None \<Rightarrow> Inr []
      | Some arr \<Rightarrow>
          bindE (parse_repos J 0 arr) (\<lambda>out.
            Inr (sort_key (\<lambda>r. - rs_priority r)
                   (map (anchor weakly_canonical (m_sourcePath m)) out))))"

subsection \<open>Dependencies and overrides\<close>

definition parse_dep :: "('v, 'o) json \<Rightarrow> string \<Rightarrow> 'v \<Rightarrow> dep_error + DependencySpec" where
  "parse_dep J name v =
     (case asString J v of
        Some s \<Rightarrow> Inr \<lparr>ds_name = name, versionConstraint = s, fromRepo = None\<rparr>
      | None \<Rightarrow>
          (case asObject J v of
             Some ob \<Rightarrow>
               bindE (case getString J ob ''version'' of
                        Some c \<Rightarrow> Inr c
                      | None \<Rightarrow> if get J ob ''path'' \<noteq> None \<or> get J ob ''git'' \<noteq> None then Inr []
                                else Inl (DepNeedsSource name))
                 (\<lambda>c. Inr \<lparr>ds_name = name, versionConstraint = c, fromRepo = getString J ob ''from''\<rparr>)
           | None \<Rightarrow> Inl (DepBadValue name)))"

fun parse_deps :: "('v, 'o) json \<Rightarrow> (string \<times> 'v) list \<Rightarrow> dep_error + DependencySpec list" where
  "parse_deps J [] = Inr []"
| "parse_deps J ((name, v) # rest) =
     bindE (parse_dep J name v) (\<lambda>d. bindE (parse_deps J rest) (\<lambda>ds. Inr (d # ds)))"

definition parseDependencies :: "('v, 'o) json \<Rightarrow> 'o Manifest \<Rightarrow> dep_error + DependencySpec list" where
  "parseDependencies J m =
     (case block_object J (m_settingsRaw m) ''dependencies'' of
        None \<Rightarrow> Inr []
      | Some deps \<Rightarrow> parse_deps J (members J deps))"

definition parse_override :: "('v, 'o) json \<Rightarrow> string \<Rightarrow> 'v \<Rightarrow> dep_error + OverrideSpec" where
  "parse_override J name v =
     (let o0 = \<lparr>os_name = name, os_versionConstraint = [], os_path = None, os_git = None,
                os_rev = None, os_allowMajorDowngrade = False\<rparr> in
      case asString J v of
        Some s \<Rightarrow> Inr (o0\<lparr>os_versionConstraint := s\<rparr>)
      | None \<Rightarrow>
          (case asObject J v of
             Some ob \<Rightarrow>
               bindE (case getString J ob ''version'' of
                        Some c \<Rightarrow> Inr (o0\<lparr>os_versionConstraint := c\<rparr>)
                      | None \<Rightarrow>
                     (case getString J ob ''path'' of
                        Some p \<Rightarrow> Inr (o0\<lparr>os_path := Some p\<rparr>)
                      | None \<Rightarrow>
                     (case getString J ob ''git'' of
                        Some g \<Rightarrow> Inr (o0\<lparr>os_git := Some g, os_rev := getString J ob ''rev''\<rparr>)
                      | None \<Rightarrow> Inl (OverrideNeedsSource name))))
                 (\<lambda>ov. Inr (case getBoolean J ob ''allow-major-downgrade'' of
                              Some b \<Rightarrow> ov\<lparr>os_allowMajorDowngrade := b\<rparr>
                            | None \<Rightarrow> ov))
           | None \<Rightarrow> Inl (OverrideBadValue name)))"

fun parse_overrides :: "('v, 'o) json \<Rightarrow> (string \<times> 'v) list \<Rightarrow> dep_error + OverrideSpec list" where
  "parse_overrides J [] = Inr []"
| "parse_overrides J ((name, v) # rest) =
     bindE (parse_override J name v) (\<lambda>d. bindE (parse_overrides J rest) (\<lambda>ds. Inr (d # ds)))"

definition parseOverrides :: "('v, 'o) json \<Rightarrow> 'o Manifest \<Rightarrow> dep_error + OverrideSpec list" where
  "parseOverrides J m =
     (case block_object J (m_settingsRaw m) ''overrides'' of
        None \<Rightarrow> Inr []
      | Some ovs \<Rightarrow> parse_overrides J (members J ovs))"

subsection \<open>What the parsers accept\<close>

text \<open>What the drivers rely on in a parsed repository.\<close>

definition auth_wf :: "RepositoryAuth \<Rightarrow> bool" where
  "auth_wf a \<longleftrightarrow> ra_type a \<in> {[], ''bearer'', ''mtls''} \<and>
     (ra_type a = ''bearer'' \<longrightarrow> ra_tokenEnv a \<noteq> [] \<or> ra_tokenLiteral a \<noteq> []) \<and>
     (ra_type a = ''mtls'' \<longrightarrow> ra_clientCertPath a \<noteq> [] \<and> ra_clientKeyPath a \<noteq> [])"

definition repo_wf :: "RepositorySpec \<Rightarrow> bool" where
  "repo_wf r \<longleftrightarrow>
     (rs_type r = ''filesystem'' \<longrightarrow> rs_path r \<noteq> []) \<and>
     (rs_type r \<in> {''http'', ''maven-compat'', ''git''} \<longrightarrow> rs_url r \<noteq> []) \<and>
     (rs_type r = ''git'' \<longrightarrow> rs_gitRef r \<noteq> []) \<and> auth_wf (rs_auth r)"

lemma parse_auth_wf: "parse_auth J name ob = Inr a \<Longrightarrow> auth_wf a"
  by (auto simp: auth_wf_def parse_auth_def no_auth_def Let_def split: option.splits if_splits)

lemma parse_repo_wf:
  assumes "parse_repo J i v = Inr r" shows "repo_wf r"
proof -
  have "(\<exists>name. check_source name (rs_type r) (rs_path r) (rs_url r) (rs_gitRef r) = Inr ()) \<and>
      auth_wf (rs_auth r)"
    using assms unfolding parse_repo_def Let_def
    by (auto split: option.splits elim!: bindE_Inr_cases dest: parse_auth_wf)
  then show ?thesis
    by (auto simp: repo_wf_def check_source_def split: if_splits)
qed

lemma parse_repos_wf: "parse_repos J i vs = Inr rs \<Longrightarrow> \<forall>r \<in> set rs. repo_wf r"
  by (induction vs arbitrary: i rs) (auto elim!: bindE_Inr_cases dest: parse_repo_wf)

lemma anchor_fields [simp]:
  "rs_type (anchor wc sp r) = rs_type r" "rs_url (anchor wc sp r) = rs_url r"
  "rs_gitRef (anchor wc sp r) = rs_gitRef r" "rs_auth (anchor wc sp r) = rs_auth r"
  "rs_priority (anchor wc sp r) = rs_priority r"
  by (simp_all add: anchor_def)

lemma anchor_wf: "repo_wf r \<Longrightarrow> (\<And>b p. wc b p \<noteq> []) \<Longrightarrow> repo_wf (anchor wc sp r)"
  by (auto simp: repo_wf_def anchor_def)

text \<open>The repositories come out complete for their driver (a path, a URL, a reference,
  consistent credentials), in descending priority with the order of declaration among equals.
  The hypothesis is that canonicalising a path gives a path.\<close>

theorem parseRepositories_ok:
  assumes "parseRepositories J wc m = Inr rs" and "\<And>b p. wc b p \<noteq> []"
  shows "(\<forall>r \<in> set rs. repo_wf r) \<and> sorted_wrt (\<lambda>a b. rs_priority a \<ge> rs_priority b) rs \<and>
    (\<exists>declared.
       (case Option.bind (m_settingsRaw m) (\<lambda>s. getArray J s ''repositories'') of
          None \<Rightarrow> declared = [] | Some vs \<Rightarrow> parse_repos J 0 vs = Inr declared) \<and>
       (\<forall>p. filter (\<lambda>r. rs_priority r = p) rs =
          map (anchor wc (m_sourcePath m)) (filter (\<lambda>r. rs_priority r = p) declared)))"
proof (cases "Option.bind (m_settingsRaw m) (\<lambda>s. getArray J s ''repositories'')")
  case None
  with assms(1) have "rs = []" by (simp add: parseRepositories_def)
  then show ?thesis using None by simp
next
  case (Some arr)
  with assms(1) obtain out where o: "parse_repos J 0 arr = Inr out"
    and rs: "rs = sort_key (\<lambda>r. - rs_priority r) (map (anchor wc (m_sourcePath m)) out)"
    by (auto simp: parseRepositories_def elim!: bindE_Inr_cases)
  have "sorted (map (\<lambda>r. - rs_priority r) rs)" by (simp add: rs)
  then have "sorted_wrt (\<lambda>a b. rs_priority a \<ge> rs_priority b) rs"
    by (simp add: sorted_map sorted_wrt_iff_nth_less)
  moreover have "\<forall>r \<in> set rs. repo_wf r"
    using parse_repos_wf [OF o] assms(2) by (auto simp: rs intro!: anchor_wf)
  moreover have "filter (\<lambda>r. rs_priority r = p) rs =
      map (anchor wc (m_sourcePath m)) (filter (\<lambda>r. rs_priority r = p) out)" for p
    using sort_key_stable [of "\<lambda>r. - rs_priority r" "- p" "map (anchor wc (m_sourcePath m)) out"]
    by (simp add: rs filter_map comp_def)
  ultimately show ?thesis using Some o by auto
qed

definition repos_manifest :: "(string \<times> jtree) list Manifest" where
  "repos_manifest = (output_manifest ''x'')\<lparr>m_settingsRaw := Some [(''repositories'', JArr
     [JObj [(''name'', JStr ''low''), (''path'', JStr ''/r'')],
      JObj [(''name'', JStr ''high''), (''url'', JStr ''https://r''), (''priority'', JInt 5)]])]\<rparr>"

theorem parseRepositories_ok_witness:
  "\<exists>rs. parseRepositories (tree_json Map.empty) (\<lambda>b p. ''/'' @ p) repos_manifest = Inr rs \<and>
     map rs_name rs = [''high'', ''low''] \<and> (\<forall>r \<in> set rs. repo_wf r)"
proof -
  let ?p = "parseRepositories (tree_json Map.empty) (\<lambda>b p. ''/'' @ p) repos_manifest"
  have "case ?p of Inl e \<Rightarrow> False | Inr rs \<Rightarrow> map rs_name rs = [''high'', ''low'']" by code_simp
  then obtain rs where r: "?p = Inr rs" "map rs_name rs = [''high'', ''low'']"
    by (auto split: sum.splits)
  from parseRepositories_ok [OF r(1)] r show ?thesis by auto
qed

lemma parse_deps_names: "parse_deps J ms = Inr ds \<Longrightarrow> map ds_name ds = map fst ms"
proof (induction J ms arbitrary: ds rule: parse_deps.induct)
  case (2 J name v rest)
  have "ds_name d = name" if "parse_dep J name v = Inr d" for d
    using that by (auto simp: parse_dep_def split: option.splits if_splits elim!: bindE_Inr_cases)
  with 2 show ?case by (auto elim!: bindE_Inr_cases)
qed simp

text \<open>Dependencies come out in the iteration order of the JSON object, one for each key and
  none for any other: two objects with the same entries in another order, which the library's
  hash table may well iterate so, give another list. The order of declaration is not known
  here.\<close>

theorem parseDependencies_iteration_order:
  assumes "parseDependencies J m = Inr ds"
  shows "map ds_name ds =
    (case block_object J (m_settingsRaw m) ''dependencies'' of None \<Rightarrow> [] | Some ob \<Rightarrow> map fst (members J ob))"
  using assms parse_deps_names by (auto simp: parseDependencies_def split: option.splits)

definition deps_manifest :: "(string \<times> jtree) list Manifest" where
  "deps_manifest = (output_manifest ''x'')\<lparr>m_settingsRaw := Some [(''dependencies'', JObj
     [(''b'', JStr ''1.0.0''), (''a'', JObj [(''path'', JStr ''../a'')])])]\<rparr>"

theorem parseDependencies_iteration_order_witness:
  "\<exists>ds. parseDependencies (tree_json Map.empty) deps_manifest = Inr ds \<and> map ds_name ds = [''b'', ''a'']"
proof -
  let ?p = "parseDependencies (tree_json Map.empty) deps_manifest"
  have "case ?p of Inl e \<Rightarrow> False | Inr rs \<Rightarrow> True" by code_simp
  then obtain ds where r: "?p = Inr ds" by (auto split: sum.splits)
  from parseDependencies_iteration_order [OF r] r show ?thesis
    by (simp add: deps_manifest_def block_object_def getObject_def get_def)
qed

end
