(* ===== verification/Mvs_Resolver.thy ===== *)
theory Mvs_Resolver
  imports Version_Order Dependency_Specs
begin

text \<open>
  The dependency solver (\<open>buildtool/Resolver.cpp\<close>): direct resolution, the picks from
  repositories and from path and git overrides, and the fixed-point iteration of minimal
  version selection with its audit of downgrading overrides.

  Repositories, the artifact cache, the file system and the store behind
  \<open>ollaWriteThroughRoot\<close> are the solver's environment: fields of a record, programs over
  a world \<open>'w\<close> that any of them may change, so that what a repository lists may differ
  from one call to the next.
\<close>

subsection \<open>Data\<close>

datatype error =
    External string
  | InManifest manifest_error
  | InDependencies dep_error
  | NotSatisfied string string "string list"
  | NotADirectory string string
  | NoSidecar string string
  | CannotOpen string string
  | NotValidJson string string
  | NotAnObject string string
  | NoDetails string string
  | NoNameOrVersion string string
  | NameMismatch string string string
  | NoArtifact string string string
  | NoStageDir string
  | DifferentPackage string string string
  | NoVersionSatisfies string "string list" "string list"
  | GitNeedsRev string
  | EmptyOverride string
  | FromConflict string string string
  | MajorDowngrade string string "string list" string
  | CannotWrite string

record ResolvedDependency =
  rd_name :: string
  rd_version :: string
  rd_resolvedFromRepo :: string
  rd_artifactPath :: string
  rd_sha256 :: string

record ResolvedGraph =
  packages :: "ResolvedDependency list"
  roots :: "DependencySpec list"
  children :: "string \<rightharpoonup> DependencySpec list"
  opaque :: "string set"

text \<open>The virtual operations of \<open>Repository\<close> that the solver calls.\<close>

record 'w repository =
  r_name :: string
  listVersions :: "string \<Rightarrow> ('w, error, string list) prog"
  fetch :: "string \<Rightarrow> string \<Rightarrow> ('w, error, string) prog"
  fetchManifestJson :: "string \<Rightarrow> string \<Rightarrow> ('w, error, string option) prog"
  releaseMetadataJson :: "string \<Rightarrow> string \<Rightarrow> ('w, error, string option) prog"

text \<open>The solver's arguments and environment. \<open>gitRepository\<close> constructs the repository
  of a clone from its name, URL, reference and stage directory.\<close>

record ('w, 'v, 'o) env =
  js :: "('v, 'o) json"
  repos :: "'w repository list"
  cacheInsert :: "string \<Rightarrow> ('w, error, string) prog"
  sha256OfFile :: "string \<Rightarrow> 'w \<Rightarrow> string"
  isDirectory :: "string \<Rightarrow> 'w \<Rightarrow> bool"
  isRegularFile :: "string \<Rightarrow> 'w \<Rightarrow> bool"
  readBinary :: "string \<Rightarrow> 'w \<Rightarrow> string option"
  gitRepository :: "string \<Rightarrow> string \<Rightarrow> string \<Rightarrow> string \<Rightarrow> 'w repository"
  ollaWriteVerified :: "string \<Rightarrow> string \<Rightarrow> string \<Rightarrow> string \<Rightarrow> string \<Rightarrow> ('w, error, string) prog"
  writeBinary :: "string \<Rightarrow> string \<Rightarrow> 'w \<Rightarrow> bool \<times> 'w"
  stageDir :: string
  ollaRoot :: string

definition writeFile :: "('w, 'v, 'o) env \<Rightarrow> string \<Rightarrow> string \<Rightarrow> ('w, error, unit) prog" where
  "writeFile E path bytes w =
     (let (ok, w') = writeBinary E path bytes w
      in Some (if ok then Inr () else Inl (CannotWrite path), w'))"

definition tried :: "'w repository list \<Rightarrow> string option \<Rightarrow> string list" where
  "tried rs pin = map r_name (filter (\<lambda>r. \<not> (pin \<noteq> None \<and> Some (r_name r) \<noteq> pin)) rs)"

subsection \<open>Direct resolution\<close>

fun resolve_in ::
    "('w, 'v, 'o) env \<Rightarrow> DependencySpec \<Rightarrow> 'w repository list \<Rightarrow>
     ('w, error, ResolvedDependency \<times> string) prog" where
  "resolve_in E dep [] =
     failP (NotSatisfied (ds_name dep) (versionConstraint dep) (tried (repos E) (fromRepo dep)))"
| "resolve_in E dep (repo # rs) =
     (if fromRepo dep \<noteq> None \<and> Some (r_name repo) \<noteq> fromRepo dep then resolve_in E dep rs
      else bindP (listVersions repo (ds_name dep)) (\<lambda>versions.
        bindP (liftO (highestSatisfying versions (versionConstraint dep))) (\<lambda>version.
        if version = [] then resolve_in E dep rs
        else bindP (fetch repo (ds_name dep) version) (\<lambda>path.
          bindP (cacheInsert E path) (\<lambda>cached.
          bindP (fetchManifestJson repo (ds_name dep) version) (\<lambda>sidecar.
          bindP (readP (sha256OfFile E cached)) (\<lambda>sha.
          retP (\<lparr>rd_name = ds_name dep, rd_version = version, rd_resolvedFromRepo = r_name repo,
                 rd_artifactPath = cached, rd_sha256 = sha\<rparr>, str_or sidecar []))))))))"

definition resolveOne ::
    "('w, 'v, 'o) env \<Rightarrow> DependencySpec \<Rightarrow> ('w, error, ResolvedDependency \<times> string) prog" where
  "resolveOne E dep = resolve_in E dep (repos E)"

fun resolveDirect ::
    "('w, 'v, 'o) env \<Rightarrow> DependencySpec list \<Rightarrow> ('w, error, ResolvedDependency list) prog" where
  "resolveDirect E [] = retP []"
| "resolveDirect E (dep # deps) =
     (if versionConstraint dep = [] then resolveDirect E deps
      else bindP (resolveOne E dep) (\<lambda>r.
        bindP (resolveDirect E deps) (\<lambda>out. retP (fst r # out))))"

subsection \<open>Picks\<close>

record MvsPick =
  pk_version :: string
  pk_resolvedFromRepo :: string
  pk_artifactPath :: string
  pk_sha256 :: string
  pk_manifestJson :: string

definition declared_identity ::
    "('w, 'v, 'o) env \<Rightarrow> string \<Rightarrow> string \<Rightarrow> string \<Rightarrow> error + string" where
  "declared_identity E name sidecar bytes =
     (case parseJson (js E) bytes of
        Inl _ \<Rightarrow> Inl (NotValidJson name sidecar)
      | Inr parsed \<Rightarrow>
     (case asObject (js E) parsed of
        None \<Rightarrow> Inl (NotAnObject name sidecar)
      | Some ob \<Rightarrow>
     (case getObject (js E) ob ''details'' of
        None \<Rightarrow> Inl (NoDetails name sidecar)
      | Some details \<Rightarrow>
     (case (getString (js E) details ''name'', getString (js E) details ''version'') of
        (Some declName, Some declVer) \<Rightarrow>
          if declName \<noteq> name then Inl (NameMismatch name sidecar declName) else Inr declVer
      | _ \<Rightarrow> Inl (NoNameOrVersion name sidecar)))))"

definition pickFromPathOverride ::
    "('w, 'v, 'o) env \<Rightarrow> string \<Rightarrow> string \<Rightarrow> ('w, error, MvsPick) prog" where
  "pickFromPathOverride E name root =
     (let sidecar = fs_join root ''cajeta.json'' in
      bindP (readP (isDirectory E root)) (\<lambda>d.
      bindP (checkP d (NotADirectory name root)) (\<lambda>_.
      bindP (readP (isRegularFile E sidecar)) (\<lambda>r.
      bindP (checkP r (NoSidecar name sidecar)) (\<lambda>_.
      bindP (readP (readBinary E sidecar)) (\<lambda>bytes.
      case bytes of
        None \<Rightarrow> failP (CannotOpen name sidecar)
      | Some sidecarBytes \<Rightarrow>
          bindP (liftE (declared_identity E name sidecar sidecarBytes)) (\<lambda>version.
          let artifact = fs_join (fs_join (fs_join root ''build'') ''archive'')
                           (name @ ''-'' @ version @ ''.cja'') in
          bindP (readP (isRegularFile E artifact)) (\<lambda>a.
          bindP (checkP a (NoArtifact name artifact root)) (\<lambda>_.
          bindP (cacheInsert E artifact) (\<lambda>cached.
          bindP (readP (sha256OfFile E cached)) (\<lambda>sha.
          retP \<lparr>pk_version = version, pk_resolvedFromRepo = ''<path-override>'',
                pk_artifactPath = cached, pk_sha256 = sha, pk_manifestJson = sidecarBytes\<rparr>)))))))))))"

definition pickFromGitOverride ::
    "('w, 'v, 'o) env \<Rightarrow> string \<Rightarrow> string \<Rightarrow> string \<Rightarrow> ('w, error, MvsPick) prog" where
  "pickFromGitOverride E name url ref =
     (if stageDir E = [] then failP (NoStageDir name)
      else let repo = gitRepository E (''<git-override:'' @ name @ ''>'') url ref (stageDir E) in
        bindP (listVersions repo name) (\<lambda>versions.
        case versions of
          [] \<Rightarrow> failP (DifferentPackage name url ref)
        | v # _ \<Rightarrow>
            bindP (fetch repo name v) (\<lambda>path.
            bindP (cacheInsert E path) (\<lambda>cached.
            bindP (fetchManifestJson repo name v) (\<lambda>sidecar.
            bindP (readP (sha256OfFile E cached)) (\<lambda>sha.
            retP \<lparr>pk_version = v, pk_resolvedFromRepo = ''<git-override>'', pk_artifactPath = cached,
                  pk_sha256 = sha, pk_manifestJson = str_or sidecar []\<rparr>))))))"

text \<open>The mirror of a remote fetch into the local store.\<close>

definition write_through ::
    "('w, 'v, 'o) env \<Rightarrow> string \<Rightarrow> 'w repository \<Rightarrow> string \<Rightarrow> MvsPick \<Rightarrow> ('w, error, unit) prog" where
  "write_through E olla repo name pk =
     (if olla = [] \<or> r_name repo = ''olla'' then retP ()
      else bindP (ollaWriteVerified E olla name (pk_version pk) (pk_artifactPath pk) (pk_manifestJson pk))
        (\<lambda>wt. bindP (releaseMetadataJson repo name (pk_version pk)) (\<lambda>meta.
           case meta of
             None \<Rightarrow> retP ()
           | Some bytes \<Rightarrow>
               writeFile E (fs_join (parent_path wt) (name @ ''-'' @ pk_version pk @ ''.release.json'')) bytes)))"

text \<open>The body of the loop of \<open>pickLowestForAll\<close> for the repository that wins.\<close>

definition take_version ::
    "('w, 'v, 'o) env \<Rightarrow> string \<Rightarrow> string \<Rightarrow> 'w repository \<Rightarrow> string \<Rightarrow> ('w, error, MvsPick) prog" where
  "take_version E olla name repo v =
     bindP (fetch repo name v) (\<lambda>path.
     bindP (cacheInsert E path) (\<lambda>cached.
     bindP (fetchManifestJson repo name v) (\<lambda>sidecar.
     bindP (readP (sha256OfFile E cached)) (\<lambda>sha.
     let out = \<lparr>pk_version = v, pk_resolvedFromRepo = r_name repo, pk_artifactPath = cached,
                pk_sha256 = sha, pk_manifestJson = str_or sidecar []\<rparr> in
     bindP (write_through E olla repo name out) (\<lambda>_. retP out)))))"

fun pick_in ::
    "('w, 'v, 'o) env \<Rightarrow> string \<Rightarrow> string \<Rightarrow> string list \<Rightarrow> string option \<Rightarrow> 'w repository list \<Rightarrow>
     ('w, error, MvsPick) prog" where
  "pick_in E olla name constraints pin [] =
     failP (NoVersionSatisfies name constraints (tried (repos E) pin))"
| "pick_in E olla name constraints pin (repo # rs) =
     (if pin \<noteq> None \<and> Some (r_name repo) \<noteq> pin then pick_in E olla name constraints pin rs
      else bindP (listVersions repo name) (\<lambda>versions.
        bindP (liftO (lowestSatisfyingAll versions constraints)) (\<lambda>v.
        if v = [] then pick_in E olla name constraints pin rs
        else take_version E olla name repo v)))"

definition pickLowestForAll ::
    "('w, 'v, 'o) env \<Rightarrow> string \<Rightarrow> string \<Rightarrow> string list \<Rightarrow> string option \<Rightarrow> ('w, error, MvsPick) prog" where
  "pickLowestForAll E olla name constraints pin = pick_in E olla name constraints pin (repos E)"


subsection \<open>The solver's state\<close>

record MvsState =
  constraints :: "string list"
  ms_fromRepo :: "string option"
  directRoot :: bool
  overrideConstraint :: "string option"
  overrideAllowsMajorDowngrade :: bool
  overridePath :: "string option"
  overrideGitUrl :: "string option"
  overrideGitRef :: "string option"
  ms_version :: string
  ms_resolvedFromRepo :: string
  ms_artifactPath :: string
  ms_sha256 :: string
  ms_manifestJson :: string
  childDeps :: "DependencySpec list"
  dirty :: bool
  everPicked :: bool

definition fresh_state :: MvsState where
  "fresh_state =
     \<lparr>constraints = [], ms_fromRepo = None, directRoot = False, overrideConstraint = None,
      overrideAllowsMajorDowngrade = False, overridePath = None, overrideGitUrl = None,
      overrideGitRef = None, ms_version = [], ms_resolvedFromRepo = [], ms_artifactPath = [],
      ms_sha256 = [], ms_manifestJson = [], childDeps = [], dirty = True, everPicked = False\<rparr>"

record solver =
  st :: "string \<rightharpoonup> MvsState"
  insertionOrder :: "string list"
  mvsIterations :: nat

definition effectiveConstraints :: "MvsState \<Rightarrow> string list" where
  "effectiveConstraints s =
     (case overrideConstraint s of
        Some c \<Rightarrow> if directRoot s then constraints s else [c]
      | None \<Rightarrow> constraints s)"

record override_maps =
  overrideMap :: "string \<rightharpoonup> OverrideSpec"
  pathOverrideMap :: "string \<rightharpoonup> OverrideSpec"
  gitOverrideMap :: "string \<rightharpoonup> OverrideSpec"

fun split_overrides :: "OverrideSpec list \<Rightarrow> override_maps \<Rightarrow> error + override_maps" where
  "split_overrides [] om = Inr om"
| "split_overrides (ov # ovs) om =
     (if os_git ov \<noteq> None
      then (if os_rev ov = None then Inl (GitNeedsRev (os_name ov))
            else split_overrides ovs (om\<lparr>gitOverrideMap := (gitOverrideMap om)(os_name ov \<mapsto> ov)\<rparr>))
      else if os_path ov \<noteq> None
      then split_overrides ovs (om\<lparr>pathOverrideMap := (pathOverrideMap om)(os_name ov \<mapsto> ov)\<rparr>)
      else if os_versionConstraint ov = [] then Inl (EmptyOverride (os_name ov))
      else split_overrides ovs (om\<lparr>overrideMap := (overrideMap om)(os_name ov \<mapsto> ov)\<rparr>))"

definition no_overrides :: override_maps where
  "no_overrides = \<lparr>overrideMap = Map.empty, pathOverrideMap = Map.empty, gitOverrideMap = Map.empty\<rparr>"

text \<open>The override metadata that is wired in when a name is first seen.\<close>

definition first_state :: "override_maps \<Rightarrow> string \<Rightarrow> MvsState" where
  "first_state om name =
     (let s1 = (case overrideMap om name of
                  None \<Rightarrow> fresh_state
                | Some ov \<Rightarrow> fresh_state\<lparr>overrideConstraint := Some (exactIfBare (os_versionConstraint ov)),
                    overrideAllowsMajorDowngrade := os_allowMajorDowngrade ov\<rparr>);
          s2 = (case pathOverrideMap om name of
                  None \<Rightarrow> s1
                | Some ov \<Rightarrow> s1\<lparr>overridePath := os_path ov,
                    overrideAllowsMajorDowngrade := os_allowMajorDowngrade ov\<rparr>)
      in case gitOverrideMap om name of
           None \<Rightarrow> s2
         | Some ov \<Rightarrow> s2\<lparr>overrideGitUrl := os_git ov, overrideGitRef := os_rev ov,
             overrideAllowsMajorDowngrade := os_allowMajorDowngrade ov\<rparr>)"

text \<open>The changes that \<open>addConstraint\<close> makes to one package: the new constraint, the flag
  of a direct root, the repository pin; with the flag that says whether anything changed.\<close>

definition merge_constraint ::
    "string \<Rightarrow> string \<Rightarrow> string option \<Rightarrow> bool \<Rightarrow> bool \<Rightarrow> MvsState \<Rightarrow> error + bool \<times> MvsState" where
  "merge_constraint name constraint pin asDirectRoot inserted s =
     (let newc = (constraint \<notin> set (constraints s));
          s1 = (if newc then s\<lparr>constraints := constraints s @ [constraint]\<rparr> else s);
          newr = (asDirectRoot \<and> \<not> directRoot s1);
          s2 = (if newr then s1\<lparr>directRoot := True\<rparr> else s1);
          changed = (inserted \<or> newc \<or> newr)
      in case pin of
           None \<Rightarrow> Inr (changed, if changed then s2\<lparr>dirty := True\<rparr> else s2)
         | Some f \<Rightarrow>
             (case ms_fromRepo s2 of
                None \<Rightarrow> Inr (True, s2\<lparr>ms_fromRepo := Some f, dirty := True\<rparr>)
              | Some g \<Rightarrow>
                  if g \<noteq> f then Inl (FromConflict name g f)
                  else Inr (changed, if changed then s2\<lparr>dirty := True\<rparr> else s2)))"

definition addConstraint ::
    "override_maps \<Rightarrow> string \<Rightarrow> string \<Rightarrow> string option \<Rightarrow> bool \<Rightarrow> solver \<Rightarrow> error + bool \<times> solver" where
  "addConstraint om name constraint pin asDirectRoot S =
     (let inserted = (st S name = None);
          s = (case st S name of None \<Rightarrow> first_state om name | Some s \<Rightarrow> s);
          order = (if inserted then insertionOrder S @ [name] else insertionOrder S)
      in bindE (merge_constraint name constraint pin asDirectRoot inserted s)
           (\<lambda>(changed, s'). Inr (changed, S\<lparr>st := (st S)(name \<mapsto> s'), insertionOrder := order\<rparr>)))"

text \<open>The loops over the root dependencies and over a package's children; the flag becomes
  true when a call changed something.\<close>

fun add_all ::
    "override_maps \<Rightarrow> bool \<Rightarrow> DependencySpec list \<Rightarrow> bool \<times> solver \<Rightarrow> error + bool \<times> solver" where
  "add_all om asRoot [] (any, S) = Inr (any, S)"
| "add_all om asRoot (d # ds) (any, S) =
     (if versionConstraint d = [] then add_all om asRoot ds (any, S)
      else bindE (addConstraint om (ds_name d) (versionConstraint d) (fromRepo d) asRoot S)
             (\<lambda>(added, S'). add_all om asRoot ds (any \<or> added, S')))"

subsection \<open>The fixed-point iteration\<close>

definition load_children :: "('w, 'v, 'o) env \<Rightarrow> string \<Rightarrow> string \<Rightarrow> error + DependencySpec list" where
  "load_children E label manifestJson =
     (if manifestJson = [] then Inr []
      else case loadManifestString (js E) manifestJson label of
             Inl e \<Rightarrow> Inl (InManifest e)
           | Inr child \<Rightarrow>
               (case parseDependencies (js E) child of
                  Inl e \<Rightarrow> Inl (InDependencies e)
                | Inr ds \<Rightarrow> Inr ds))"

definition pick_for :: "('w, 'v, 'o) env \<Rightarrow> string \<Rightarrow> MvsState \<Rightarrow> ('w, error, MvsPick) prog" where
  "pick_for E name s =
     (case (overridePath s, directRoot s) of
        (Some p, False) \<Rightarrow> pickFromPathOverride E name p
      | _ \<Rightarrow>
          (case (overrideGitUrl s, overrideGitRef s, directRoot s) of
             (Some url, Some ref, False) \<Rightarrow> pickFromGitOverride E name url ref
           | _ \<Rightarrow> pickLowestForAll E (ollaRoot E) name (effectiveConstraints s) (ms_fromRepo s)))"

definition picked :: "MvsPick \<Rightarrow> MvsState \<Rightarrow> MvsState" where
  "picked pk s =
     s\<lparr>ms_version := pk_version pk, ms_resolvedFromRepo := pk_resolvedFromRepo pk,
       ms_artifactPath := pk_artifactPath pk, ms_sha256 := pk_sha256 pk,
       ms_manifestJson := pk_manifestJson pk, everPicked := True, dirty := False\<rparr>"

text \<open>What the body of the inner loop does once the pick has been stored: a changed version
  brings new children, which are propagated.\<close>

definition propagate ::
    "('w, 'v, 'o) env \<Rightarrow> override_maps \<Rightarrow> string \<Rightarrow> bool \<Rightarrow> MvsState \<Rightarrow> bool \<times> solver \<Rightarrow>
     error + bool \<times> solver" where
  "propagate E om name versionChanged s' anyS =
     (case anyS of (any, S) \<Rightarrow>
        if \<not> versionChanged then Inr (any, S\<lparr>st := (st S)(name \<mapsto> s')\<rparr>)
        else bindE (load_children E (name @ ''@'' @ ms_version s') (ms_manifestJson s')) (\<lambda>kids.
          bindE (add_all om False kids (any, S\<lparr>st := (st S)(name \<mapsto> s'\<lparr>childDeps := kids\<rparr>)\<rparr>))
            (\<lambda>(any', S'). Inr (any' \<or> (case st S' name of None \<Rightarrow> False | Some t \<Rightarrow> dirty t), S'))))"

definition mvs_visit ::
    "('w, 'v, 'o) env \<Rightarrow> override_maps \<Rightarrow> string \<Rightarrow> bool \<times> solver \<Rightarrow> ('w, error, bool \<times> solver) prog" where
  "mvs_visit E om name anyS =
     (case anyS of (any, S) \<Rightarrow>
        (case st S name of
           None \<Rightarrow> retP (any, S)
         | Some s \<Rightarrow>
             if \<not> dirty s then retP (any, S)
             else bindP (pick_for E name s) (\<lambda>pick.
                    liftE (propagate E om name (\<not> everPicked s \<or> ms_version s \<noteq> pk_version pick)
                             (picked pick s) (any, S)))))"

partial_function (option) mvs_pass ::
    "('w, 'v, 'o) env \<Rightarrow> override_maps \<Rightarrow> nat \<Rightarrow> bool \<times> solver \<Rightarrow> 'w \<Rightarrow>
     ((error + bool \<times> solver) \<times> 'w) option" where
  "mvs_pass E om i anyS w =
     (if i < length (insertionOrder (snd anyS))
      then bindP (mvs_visit E om (insertionOrder (snd anyS) ! i) anyS)
             (\<lambda>anyS'. mvs_pass E om (i + 1) anyS') w
      else retP anyS w)"

partial_function (option) mvs_loop ::
    "('w, 'v, 'o) env \<Rightarrow> override_maps \<Rightarrow> solver \<Rightarrow> 'w \<Rightarrow> ((error + solver) \<times> 'w) option" where
  "mvs_loop E om S w =
     bindP (mvs_pass E om 0 (False, S\<lparr>mvsIterations := mvsIterations S + 1\<rparr>))
       (\<lambda>anyS' w'. if fst anyS' then mvs_loop E om (snd anyS') w' else retP (snd anyS') w') w"

subsection \<open>Audit and result\<close>

definition overridden :: "MvsState \<Rightarrow> bool" where
  "overridden s = ((overrideConstraint s \<noteq> None \<or> overridePath s \<noteq> None \<or> overrideGitUrl s \<noteq> None) \<and>
     \<not> directRoot s)"

text \<open>One package of the audit. An error of the hypothetical pick is consumed.\<close>

definition audit_one :: "('w, 'v, 'o) env \<Rightarrow> string \<Rightarrow> MvsState \<Rightarrow> ('w, error, unit) prog" where
  "audit_one E name s w =
     (if \<not> overridden s \<or> constraints s = [] then retP () w
      else Option.bind (pickLowestForAll E [] name (constraints s) (ms_fromRepo s) w)
        (\<lambda>(r, w'). case r of
             Inl _ \<Rightarrow> retP () w'
           | Inr baseline \<Rightarrow>
               bindP (liftO (compareMajor (ms_version s) (pk_version baseline))) (\<lambda>c.
                 checkP (\<not> (c < 0 \<and> \<not> overrideAllowsMajorDowngrade s))
                   (MajorDowngrade name (ms_version s) (constraints s) (pk_version baseline))) w'))"

fun audit :: "('w, 'v, 'o) env \<Rightarrow> solver \<Rightarrow> string list \<Rightarrow> ('w, error, unit) prog" where
  "audit E S [] = retP ()"
| "audit E S (name # names) =
     (case st S name of
        None \<Rightarrow> audit E S names
      | Some s \<Rightarrow> bindP (audit_one E name s) (\<lambda>_. audit E S names))"

definition resolved_of :: "string \<Rightarrow> MvsState \<Rightarrow> ResolvedDependency" where
  "resolved_of name s =
     \<lparr>rd_name = name, rd_version = ms_version s, rd_resolvedFromRepo = ms_resolvedFromRepo s,
      rd_artifactPath = ms_artifactPath s, rd_sha256 = ms_sha256 s\<rparr>"

definition add_package :: "solver \<Rightarrow> string \<Rightarrow> ResolvedGraph \<Rightarrow> ResolvedGraph" where
  "add_package S name g =
     (case st S name of
        None \<Rightarrow> g
      | Some s \<Rightarrow>
          let g1 = g\<lparr>packages := packages g @ [resolved_of name s]\<rparr>
          in if ms_manifestJson s = [] then g1\<lparr>opaque := insert name (opaque g1)\<rparr>
             else g1\<lparr>children := (children g1)(name \<mapsto>
               filter (\<lambda>cd. versionConstraint cd \<noteq> []) (childDeps s))\<rparr>)"

definition output_graph :: "DependencySpec list \<Rightarrow> solver \<Rightarrow> ResolvedGraph" where
  "output_graph deps S =
     fold (add_package S) (insertionOrder S)
       \<lparr>packages = [], roots = filter (\<lambda>d. versionConstraint d \<noteq> []) deps, children = Map.empty,
        opaque = {}\<rparr>"

definition empty_solver :: solver where
  "empty_solver = \<lparr>st = Map.empty, insertionOrder = [], mvsIterations = 0\<rparr>"

definition resolveMvsGraph ::
    "('w, 'v, 'o) env \<Rightarrow> DependencySpec list \<Rightarrow> OverrideSpec list \<Rightarrow> ('w, error, ResolvedGraph) prog" where
  "resolveMvsGraph E deps overrides =
     bindP (liftE (split_overrides overrides no_overrides)) (\<lambda>om.
     bindP (liftE (add_all om True deps (False, empty_solver))) (\<lambda>(_, S0).
     bindP (mvs_loop E om S0) (\<lambda>S.
     bindP (audit E S (insertionOrder S)) (\<lambda>_.
     retP (output_graph deps S)))))"

definition resolveMvs ::
    "('w, 'v, 'o) env \<Rightarrow> DependencySpec list \<Rightarrow> OverrideSpec list \<Rightarrow>
     ('w, error, ResolvedDependency list) prog" where
  "resolveMvs E deps overrides =
     bindP (resolveMvsGraph E deps overrides) (\<lambda>g. retP (packages g))"


subsection \<open>What adding constraints keeps\<close>

text \<open>What a package keeps when constraints are added to it: its pick and its overrides stay,
  its constraints and flags only grow, and it is untouched unless it is dirty.\<close>

definition kept :: "MvsState \<Rightarrow> MvsState \<Rightarrow> bool" where
  "kept p q \<longleftrightarrow> set (constraints p) \<subseteq> set (constraints q) \<and> (directRoot p \<longrightarrow> directRoot q) \<and>
     ms_version q = ms_version p \<and> childDeps q = childDeps p \<and> everPicked q = everPicked p \<and>
     ms_manifestJson q = ms_manifestJson p \<and> overrideConstraint q = overrideConstraint p \<and>
     overridePath q = overridePath p \<and> overrideGitUrl q = overrideGitUrl p \<and>
     overrideGitRef q = overrideGitRef p \<and>
     overrideAllowsMajorDowngrade q = overrideAllowsMajorDowngrade p \<and> (dirty q \<or> q = p)"

lemma kept_refl [simp]: "kept p p" by (simp add: kept_def)

lemma kept_trans: "kept p q \<Longrightarrow> kept q r \<Longrightarrow> kept p r"
  unfolding kept_def by auto

definition ext :: "solver \<Rightarrow> solver \<Rightarrow> bool" where
  "ext S S' \<longleftrightarrow> (\<exists>xs. insertionOrder S' = insertionOrder S @ xs) \<and>
     (\<forall>n p. st S n = Some p \<longrightarrow> (\<exists>q. st S' n = Some q \<and> kept p q))"

lemma ext_refl [simp]: "ext S S" by (simp add: ext_def)

lemma ext_trans: "ext S S' \<Longrightarrow> ext S' S'' \<Longrightarrow> ext S S''"
  unfolding ext_def by (metis append_assoc kept_trans)

lemma merge_constraint_kept:
  assumes "merge_constraint name c pin r ins s = Inr (ch, s')" and "ins \<longrightarrow> dirty s"
  shows "kept s s'" and "c \<in> set (constraints s')" and "r \<longrightarrow> directRoot s'"
    and "ch \<longrightarrow> dirty s'" and "\<not> ch \<longrightarrow> s' = s \<and> \<not> ins"
  using assms
  by (auto simp: merge_constraint_def Let_def kept_def split: option.splits if_splits)

definition ov_fields :: "MvsState \<Rightarrow> string option \<times> string option \<times> string option \<times> string option \<times> bool" where
  "ov_fields s = (overrideConstraint s, overridePath s, overrideGitUrl s, overrideGitRef s,
     overrideAllowsMajorDowngrade s)"

lemma kept_ov_fields: "kept p q \<Longrightarrow> ov_fields q = ov_fields p"
  by (simp add: kept_def ov_fields_def)

lemma first_state_simps [simp]:
  "constraints (first_state om n) = []" "directRoot (first_state om n) = False"
  "childDeps (first_state om n) = []" "dirty (first_state om n)" "\<not> everPicked (first_state om n)"
  by (simp_all add: first_state_def fresh_state_def Let_def split: option.splits)

text \<open>The invariant of the iteration; \<open>X\<close> are packages whose children are not yet
  propagated.\<close>

definition solver_wf :: "override_maps \<Rightarrow> solver \<Rightarrow> bool" where
  "solver_wf om S \<longleftrightarrow> distinct (insertionOrder S) \<and> set (insertionOrder S) = dom (st S) \<and>
     (\<forall>n s. st S n = Some s \<longrightarrow> ov_fields s = ov_fields (first_state om n))"

text \<open>The pick is from the repositories, so that it answers to the constraints.\<close>

definition from_repos :: "MvsState \<Rightarrow> bool" where
  "from_repos s \<longleftrightarrow> directRoot s \<or> (overridePath s = None \<and> (overrideGitUrl s = None \<or> overrideGitRef s = None))"

definition well_picked :: "MvsState \<Rightarrow> bool" where
  "well_picked s \<longleftrightarrow> everPicked s \<and> (from_repos s \<longrightarrow>
     (\<forall>c \<in> set (effectiveConstraints s). versionSatisfies (ms_version s) c = Some True))"

definition clean_picked :: "solver \<Rightarrow> bool" where
  "clean_picked S \<longleftrightarrow> (\<forall>n s. st S n = Some s \<longrightarrow> \<not> dirty s \<longrightarrow> well_picked s)"

definition has_constraint :: "solver \<Rightarrow> DependencySpec \<Rightarrow> bool" where
  "has_constraint S d \<longleftrightarrow> (\<exists>q. st S (ds_name d) = Some q \<and> versionConstraint d \<in> set (constraints q))"

definition closed :: "string set \<Rightarrow> solver \<Rightarrow> bool" where
  "closed X S \<longleftrightarrow> (\<forall>n s d. n \<notin> X \<longrightarrow> st S n = Some s \<longrightarrow> everPicked s \<longrightarrow> d \<in> set (childDeps s) \<longrightarrow>
     versionConstraint d \<noteq> [] \<longrightarrow> has_constraint S d)"

lemma ext_has_constraint: "ext S S' \<Longrightarrow> has_constraint S d \<Longrightarrow> has_constraint S' d"
  unfolding ext_def has_constraint_def kept_def by fast

text \<open>What one call of \<open>addConstraint\<close> does.\<close>

lemma addConstraint_ext:
  assumes "addConstraint om name c pin r S = Inr (ch, S')"
  shows "ext S S'" and "\<not> ch \<longrightarrow> S' = S"
    and "\<exists>q. st S' name = Some q \<and> c \<in> set (constraints q) \<and> (r \<longrightarrow> directRoot q) \<and> (ch \<longrightarrow> dirty q)"
    and "mvsIterations S' = mvsIterations S"
proof -
  define s where "s = (case st S name of None \<Rightarrow> first_state om name | Some s \<Rightarrow> s)"
  from assms obtain s' where m: "merge_constraint name c pin r (st S name = None) s = Inr (ch, s')"
    and S': "S' = S\<lparr>st := (st S)(name \<mapsto> s'), insertionOrder :=
      if st S name = None then insertionOrder S @ [name] else insertionOrder S\<rparr>"
    by (auto simp: addConstraint_def Let_def s_def elim!: bindE_Inr_cases)
  have "st S name = None \<longrightarrow> dirty s" by (simp add: s_def)
  note mc = merge_constraint_kept [OF m this]
  from mc show "\<exists>q. st S' name = Some q \<and> c \<in> set (constraints q) \<and> (r \<longrightarrow> directRoot q) \<and> (ch \<longrightarrow> dirty q)"
    by (simp add: S')
  show "ext S S'" using mc(1) by (auto simp: ext_def S' s_def split: option.splits)
  show "\<not> ch \<longrightarrow> S' = S"
  proof
    assume "\<not> ch"
    with mc(5) have "s' = s" "st S name \<noteq> None" by auto
    then have "st S name = Some s'" "st S name \<noteq> None" by (auto simp: s_def)
    then show "S' = S" by (simp add: S' fun_upd_idem)
  qed
  show "mvsIterations S' = mvsIterations S" by (simp add: S')
qed

lemma addConstraint_inv:
  assumes "addConstraint om name c pin r S = Inr (ch, S')"
    and "solver_wf om S" "clean_picked S" "closed X S"
  shows "solver_wf om S'" and "clean_picked S'" and "closed X S'"
proof -
  define s where "s = (case st S name of None \<Rightarrow> first_state om name | Some s \<Rightarrow> s)"
  from assms obtain s' where m: "merge_constraint name c pin r (st S name = None) s = Inr (ch, s')"
    and S': "S' = S\<lparr>st := (st S)(name \<mapsto> s'), insertionOrder :=
      if st S name = None then insertionOrder S @ [name] else insertionOrder S\<rparr>"
    by (auto simp: addConstraint_def Let_def s_def elim!: bindE_Inr_cases)
  have d: "st S name = None \<longrightarrow> dirty s" by (simp add: s_def)
  note mc = merge_constraint_kept [OF m d]
  have "ov_fields s = ov_fields (first_state om name)"
    using assms(2) by (auto simp: s_def solver_wf_def split: option.splits)
  with kept_ov_fields [OF mc(1)] show "solver_wf om S'"
    using assms(2) by (auto simp: solver_wf_def S')
  have "well_picked s'" if "\<not> dirty s'"
  proof -
    from that mc(1) have e: "s' = s" by (auto simp: kept_def)
    with d that have "st S name = Some s" by (auto simp: s_def split: option.splits)
    with e that assms(3) show ?thesis by (auto simp: clean_picked_def)
  qed
  then show "clean_picked S'" using assms(3) by (auto simp: clean_picked_def S')
  have e: "ext S S'" by (rule addConstraint_ext [OF assms(1)])
  show "closed X S'"
    unfolding closed_def
  proof (intro allI impI)
    fix n t dp assume t: "n \<notin> X" "st S' n = Some t" "everPicked t" "dp \<in> set (childDeps t)" "versionConstraint dp \<noteq> []"
    have "\<exists>p. st S n = Some p \<and> everPicked p \<and> childDeps p = childDeps t"
    proof (cases "n = name")
      case True
      with t(2) have "t = s'" by (simp add: S')
      with mc(1) t(3) have "everPicked s" "childDeps s = childDeps t" by (auto simp: kept_def)
      moreover from \<open>everPicked s\<close> have "st S name = Some s" by (auto simp: s_def split: option.splits)
      ultimately show ?thesis using True by simp
    qed (use t in \<open>auto simp: S'\<close>)
    with assms(4) t have "has_constraint S dp" unfolding closed_def by metis
    with e show "has_constraint S' dp" by (rule ext_has_constraint)
  qed
qed

lemma add_all_Cons:
  assumes "add_all om r (d # ds) anyS = Inr anyS'" and "versionConstraint d \<noteq> []"
  obtains ch S1 where
    "addConstraint om (ds_name d) (versionConstraint d) (fromRepo d) r (snd anyS) = Inr (ch, S1)"
    and "add_all om r ds (fst anyS \<or> ch, S1) = Inr anyS'"
  using assms by (cases anyS) (auto elim!: bindE_Inr_cases)

lemma add_all_skip:
  "versionConstraint d = [] \<Longrightarrow> add_all om r (d # ds) anyS = add_all om r ds anyS"
  by (cases anyS) simp

lemma add_all_Nil: "add_all om r [] anyS = Inr anyS"
  by (cases anyS) simp

lemma add_all_ext:
  "add_all om r ds anyS = Inr anyS' \<Longrightarrow> ext (snd anyS) (snd anyS') \<and>
     (fst anyS \<longrightarrow> fst anyS') \<and> (\<not> fst anyS' \<longrightarrow> snd anyS' = snd anyS)"
proof (induction ds arbitrary: anyS)
  case (Cons d ds)
  show ?case
  proof (cases "versionConstraint d = []")
    case False
    obtain ch S1 where a: "addConstraint om (ds_name d) (versionConstraint d) (fromRepo d) r (snd anyS) = Inr (ch, S1)"
      and rest: "add_all om r ds (fst anyS \<or> ch, S1) = Inr anyS'"
      by (rule add_all_Cons [OF Cons.prems False])
    from Cons.IH [OF rest] addConstraint_ext(1,2) [OF a] show ?thesis
      by (auto dest: ext_trans)
  qed (use Cons in \<open>simp add: add_all_skip\<close>)
qed (simp add: add_all_Nil)

lemma add_all_inv:
  "add_all om r ds anyS = Inr anyS' \<Longrightarrow> solver_wf om (snd anyS) \<Longrightarrow> clean_picked (snd anyS) \<Longrightarrow>
   closed X (snd anyS) \<Longrightarrow> solver_wf om (snd anyS') \<and> clean_picked (snd anyS') \<and> closed X (snd anyS')"
proof (induction ds arbitrary: anyS)
  case (Cons d ds)
  show ?case
  proof (cases "versionConstraint d = []")
    case False
    obtain ch S1 where a: "addConstraint om (ds_name d) (versionConstraint d) (fromRepo d) r (snd anyS) = Inr (ch, S1)"
      and rest: "add_all om r ds (fst anyS \<or> ch, S1) = Inr anyS'"
      by (rule add_all_Cons [OF Cons.prems(1) False])
    from addConstraint_inv [OF a Cons.prems(2-4)] Cons.IH [OF rest] show ?thesis by simp
  qed (use Cons in \<open>simp add: add_all_skip\<close>)
qed (simp add: add_all_Nil)

lemma add_all_present:
  "add_all om r ds anyS = Inr anyS' \<Longrightarrow> d \<in> set ds \<Longrightarrow> versionConstraint d \<noteq> [] \<Longrightarrow>
   \<exists>q. st (snd anyS') (ds_name d) = Some q \<and> versionConstraint d \<in> set (constraints q) \<and> (r \<longrightarrow> directRoot q)"
proof (induction ds arbitrary: anyS)
  case (Cons d' ds)
  show ?case
  proof (cases "versionConstraint d' = []")
    case True
    with Cons.prems have "add_all om r ds anyS = Inr anyS'" "d \<in> set ds" by (auto simp: add_all_skip)
    with Cons.IH Cons.prems(3) show ?thesis by blast
  next
    case False
    obtain ch S1 where a: "addConstraint om (ds_name d') (versionConstraint d') (fromRepo d') r (snd anyS) = Inr (ch, S1)"
      and rest: "add_all om r ds (fst anyS \<or> ch, S1) = Inr anyS'"
      by (rule add_all_Cons [OF Cons.prems(1) False])
    show ?thesis
    proof (cases "d \<in> set ds")
      case True with Cons.IH [OF rest] Cons.prems show ?thesis by auto
    next
      case False
      with Cons.prems have "d = d'" by simp
      with addConstraint_ext(3) [OF a] obtain q where q: "st S1 (ds_name d) = Some q"
        "versionConstraint d \<in> set (constraints q)" "r \<longrightarrow> directRoot q" by blast
      from add_all_ext [OF rest] q(1) obtain q' where "st (snd anyS') (ds_name d) = Some q'" "kept q q'"
        by (auto simp: ext_def)
      with q show ?thesis by (auto simp: kept_def)
    qed
  qed
qed simp


subsection \<open>Picks answer to their constraints\<close>

lemma take_version_version: "take_version E olla name repo v w = Some (Inr pk, w') \<Longrightarrow> pk_version pk = v"
  by (auto simp: take_version_def Let_def elim!: bindP_Inr)

lemma pick_in_sound:
  "pick_in E olla name cs pin rs w = Some (Inr pk, w') \<Longrightarrow> c \<in> set cs \<Longrightarrow>
   versionSatisfies (pk_version pk) c = Some True"
proof (induction rs arbitrary: w)
  case (Cons repo rs)
  show ?case
  proof (cases "pin \<noteq> None \<and> Some (r_name repo) \<noteq> pin")
    case False
    with Cons.prems(1) obtain versions w1 v where v: "lowestSatisfyingAll versions cs = Some v"
      and cont: "(if v = [] then pick_in E olla name cs pin rs else take_version E olla name repo v) w1 =
        Some (Inr pk, w')"
      by (auto elim!: bindP_Inr)
    show ?thesis
    proof (cases "v = []")
      case True with cont Cons show ?thesis by auto
    next
      case False
      with cont have "pk_version pk = v" by (simp add: take_version_version)
      with v False Cons.prems(2) show ?thesis using lowest_sound(2) by simp
    qed
  qed (use Cons in simp)
qed simp

lemma pick_for_sound:
  assumes "pick_for E name s w = Some (Inr pk, w')"
  shows "well_picked (picked pk s)"
proof -
  have "versionSatisfies (pk_version pk) c = Some True"
    if "from_repos s" and c: "c \<in> set (effectiveConstraints s)" for c
  proof -
    from that(1) assms have
      "pickLowestForAll E (ollaRoot E) name (effectiveConstraints s) (ms_fromRepo s) w = Some (Inr pk, w')"
      by (auto simp: pick_for_def from_repos_def split: option.splits bool.splits)
    from this c show ?thesis unfolding pickLowestForAll_def by (rule pick_in_sound)
  qed
  then show ?thesis
    by (auto simp: well_picked_def picked_def from_repos_def effectiveConstraints_def split: option.splits)
qed

subsection \<open>The invariant of the iteration\<close>

definition solver_inv :: "override_maps \<Rightarrow> solver \<Rightarrow> bool" where
  "solver_inv om S \<longleftrightarrow> solver_wf om S \<and> clean_picked S \<and> closed {} S"

text \<open>What no step of the iteration takes back: names keep their place, constraints and root
  flags stay, and no package becomes a root.\<close>

definition grows :: "solver \<Rightarrow> solver \<Rightarrow> bool" where
  "grows S S' \<longleftrightarrow> (\<exists>xs. insertionOrder S' = insertionOrder S @ xs) \<and>
     (\<forall>n p. st S n = Some p \<longrightarrow> (\<exists>q. st S' n = Some q \<and> set (constraints p) \<subseteq> set (constraints q) \<and>
        (directRoot p \<longrightarrow> directRoot q))) \<and>
     (\<forall>n q. st S' n = Some q \<longrightarrow> directRoot q \<longrightarrow> (\<exists>p. st S n = Some p \<and> directRoot p))"

lemma grows_refl [simp]: "grows S S" by (simp add: grows_def)

lemma grows_trans:
  assumes "grows S S'" "grows S' S''" shows "grows S S''"
proof -
  have "\<exists>xs. insertionOrder S'' = insertionOrder S @ xs" using assms unfolding grows_def by (metis append_assoc)
  moreover have "\<exists>q. st S'' n = Some q \<and> set (constraints p) \<subseteq> set (constraints q) \<and>
      (directRoot p \<longrightarrow> directRoot q)" if "st S n = Some p" for n p
    using assms that unfolding grows_def by (metis subset_trans)
  moreover have "\<exists>p. st S n = Some p \<and> directRoot p" if "st S'' n = Some q" "directRoot q" for n q
    using assms that unfolding grows_def by metis
  ultimately show ?thesis unfolding grows_def by blast
qed

lemma addConstraint_grows:
  assumes a: "addConstraint om name c pin False S = Inr (ch, S')"
  shows "grows S S'"
proof -
  define s where "s = (case st S name of None \<Rightarrow> first_state om name | Some s \<Rightarrow> s)"
  from a obtain s' where m: "merge_constraint name c pin False (st S name = None) s = Inr (ch, s')"
    and S': "st S' = (st S)(name \<mapsto> s')"
    by (auto simp: addConstraint_def Let_def s_def elim!: bindE_Inr_cases)
  from m have "directRoot s' = directRoot s"
    by (auto simp: merge_constraint_def Let_def split: option.splits if_splits)
  then have "\<exists>p. st S n = Some p \<and> directRoot p" if "st S' n = Some q" "directRoot q" for n q
    using that by (auto simp: S' s_def split: if_splits option.splits)
  then show ?thesis
    using addConstraint_ext(1) [OF a] unfolding ext_def grows_def kept_def by fast
qed

lemma add_all_grows: "add_all om False ds anyS = Inr anyS' \<Longrightarrow> grows (snd anyS) (snd anyS')"
proof (induction ds arbitrary: anyS)
  case (Cons d ds)
  show ?case
  proof (cases "versionConstraint d = []")
    case False
    obtain ch S1 where a: "addConstraint om (ds_name d) (versionConstraint d) (fromRepo d) False (snd anyS) = Inr (ch, S1)"
      and rest: "add_all om False ds (fst anyS \<or> ch, S1) = Inr anyS'"
      by (rule add_all_Cons [OF Cons.prems False])
    from Cons.IH [OF rest] addConstraint_grows [OF a] show ?thesis by (auto intro: grows_trans)
  qed (use Cons in \<open>simp add: add_all_skip\<close>)
qed (simp add: add_all_Nil)

lemma add_all_root_names:
  "add_all om True ds anyS = Inr anyS' \<Longrightarrow> st (snd anyS') n = Some q \<Longrightarrow> directRoot q \<Longrightarrow>
   (\<exists>p. st (snd anyS) n = Some p \<and> directRoot p) \<or> (\<exists>d \<in> set ds. ds_name d = n \<and> versionConstraint d \<noteq> [])"
proof (induction ds arbitrary: anyS)
  case (Cons d ds)
  show ?case
  proof (cases "versionConstraint d = []")
    case True
    with Cons show ?thesis by (simp add: add_all_skip)
  next
    case False
    obtain ch S1 where a: "addConstraint om (ds_name d) (versionConstraint d) (fromRepo d) True (snd anyS) = Inr (ch, S1)"
      and rest: "add_all om True ds (fst anyS \<or> ch, S1) = Inr anyS'"
      by (rule add_all_Cons [OF Cons.prems(1) False])
    from a have o: "m \<noteq> ds_name d \<Longrightarrow> st S1 m = st (snd anyS) m" for m
      by (auto simp: addConstraint_def Let_def elim!: bindE_Inr_cases)
    from Cons.IH [OF rest Cons.prems(2,3)] False o show ?thesis
      by (cases "n = ds_name d") auto
  qed
qed (auto simp: add_all_Nil)

lemma picked_fields [simp]:
  "constraints (picked pk s) = constraints s" "directRoot (picked pk s) = directRoot s"
  "\<not> dirty (picked pk s)" "everPicked (picked pk s)" "childDeps (picked pk s) = childDeps s"
  "ov_fields (picked pk s) = ov_fields s"
  by (simp_all add: picked_def ov_fields_def)

lemma well_picked_kids [simp]: "well_picked (s\<lparr>childDeps := k\<rparr>) = well_picked s"
  by (simp add: well_picked_def from_repos_def effectiveConstraints_def split: option.splits)

lemma store_inv:
  assumes "solver_wf om S" "clean_picked S" "closed {} S" and s: "st S name = Some s"
    and t: "constraints t = constraints s" "directRoot t = directRoot s" "well_picked t"
      "ov_fields t = ov_fields s"
    and S1: "S1 = S\<lparr>st := (st S)(name \<mapsto> t)\<rparr>"
  shows "solver_wf om S1" and "clean_picked S1" and "closed {name} S1" and "grows S S1"
proof -
  show "solver_wf om S1" using assms(1) s t by (auto simp: solver_wf_def S1)
  show "clean_picked S1" using assms(2) t by (auto simp: clean_picked_def S1)
  show g: "grows S S1" using s t by (auto simp: grows_def S1)
  have "has_constraint S1 d" if "has_constraint S d" for d
    using that s t by (auto simp: has_constraint_def S1)
  then show "closed {name} S1" using assms(3) by (auto simp: closed_def S1)
qed


lemma propagate_inv:
  assumes p: "propagate E om name (\<not> everPicked s \<or> ms_version s \<noteq> pk_version pick) (picked pick s) (any, S) =
      Inr (any', S')"
    and inv: "solver_inv om S" and s: "st S name = Some s" and wp: "well_picked (picked pick s)"
  shows "solver_inv om S' \<and> grows S S' \<and> (any \<longrightarrow> any') \<and>
    (\<not> any' \<longrightarrow> insertionOrder S' = insertionOrder S \<and>
       (\<exists>t. \<not> dirty t \<and> st S' = (st S)(name \<mapsto> t)))"
proof -
  note i = inv [unfolded solver_inv_def, THEN conjunct1] inv [unfolded solver_inv_def, THEN conjunct2, THEN conjunct1]
    inv [unfolded solver_inv_def, THEN conjunct2, THEN conjunct2]
  show ?thesis
  proof (cases "\<not> everPicked s \<or> ms_version s \<noteq> pk_version pick")
    case False
    with p have S': "S' = S\<lparr>st := (st S)(name \<mapsto> picked pick s)\<rparr>" "any' = any"
      by (auto simp: propagate_def)
    have si: "solver_wf om S'" "clean_picked S'" "closed {name} S'" "grows S S'"
      by (rule store_inv [OF i s _ _ wp _ S'(1)]; simp)+
    have "has_constraint S' d" if "d \<in> set (childDeps s)" "versionConstraint d \<noteq> []" for d
    proof -
      have "has_constraint S d" using i(3) s that False unfolding closed_def by auto
      then show ?thesis using s by (auto simp: has_constraint_def S')
    qed
    then have "closed {} S'"
      using si(3) by (auto simp: closed_def S')
    with si S' show ?thesis
      by (auto simp: solver_inv_def intro: exI [of _ "picked pick s"])
  next
    case True
    obtain kids where k: "load_children E (name @ ''@'' @ ms_version (picked pick s))
        (ms_manifestJson (picked pick s)) = Inr kids"
      using p True by (auto simp: propagate_def elim!: bindE_Inr_cases)
    obtain any1 S2 where a2: "add_all om False kids
        (any, S\<lparr>st := (st S)(name \<mapsto> (picked pick s)\<lparr>childDeps := kids\<rparr>)\<rparr>) = Inr (any1, S2)"
      using p True k by (auto simp: propagate_def elim!: bindE_Inr_cases)
    have S2: "S2 = S'" and any': "any' = (any1 \<or> (case st S' name of None \<Rightarrow> False | Some t \<Rightarrow> dirty t))"
      using p True k a2 by (auto simp: propagate_def)
    note a = a2 [unfolded S2]
    define t where "t = (picked pick s)\<lparr>childDeps := kids\<rparr>"
    define S1 where "S1 = S\<lparr>st := (st S)(name \<mapsto> t)\<rparr>"
    have t: "constraints t = constraints s" "directRoot t = directRoot s" "well_picked t"
      "ov_fields t = ov_fields s" "childDeps t = kids" "\<not> dirty t"
      using wp by (simp_all add: t_def ov_fields_def picked_def)
    have si: "solver_wf om S1" "clean_picked S1" "closed {name} S1" "grows S S1"
      by (rule store_inv [OF i s t(1-4) S1_def])+
    note a1 = a [folded t_def, folded S1_def]
    from add_all_inv [OF a1] si have inv': "solver_wf om S'" "clean_picked S'" "closed {name} S'" by auto
    from add_all_ext [OF a1] have e: "ext S1 S'" "any \<longrightarrow> any1" "\<not> any1 \<longrightarrow> S' = S1" by auto
    have "has_constraint S' d" if "d \<in> set kids" "versionConstraint d \<noteq> []" for d
      using add_all_present [OF a1 that] by (auto simp: has_constraint_def)
    moreover obtain q where "st S' name = Some q" "childDeps q = kids"
    proof -
      have "st S1 name = Some t" by (simp add: S1_def)
      with e(1) obtain q where "st S' name = Some q" "kept t q" unfolding ext_def by blast
      with t(5) that show thesis by (simp add: kept_def)
    qed
    ultimately have "closed {} S'" using inv'(3) unfolding closed_def by (metis option.inject singletonD)
    moreover have "grows S S'" using si(4) add_all_grows [OF a1, simplified] by (rule grows_trans)
    ultimately show ?thesis using inv' e any' t(6) by (auto simp: solver_inv_def S1_def)
  qed
qed

lemma mvs_visit_inv:
  assumes v: "mvs_visit E om name (any, S) w = Some (Inr (any', S'), w')" and inv: "solver_inv om S"
    and d: "\<forall>m s. m \<in> seen \<longrightarrow> st S m = Some s \<longrightarrow> dirty s \<longrightarrow> any"
  shows "solver_inv om S' \<and> grows S S' \<and> (any \<longrightarrow> any') \<and>
    (\<forall>m s. m \<in> insert name seen \<longrightarrow> st S' m = Some s \<longrightarrow> dirty s \<longrightarrow> any')"
proof (cases "\<exists>s. st S name = Some s \<and> dirty s")
  case False
  with v have "S' = S" "any' = any" by (auto simp: mvs_visit_def split: option.splits)
  with inv d False show ?thesis by auto
next
  case True
  then obtain s where s: "st S name = Some s" "dirty s" by blast
  with v obtain pick w1 where pk: "pick_for E name s w = Some (Inr pick, w1)"
    and p: "propagate E om name (\<not> everPicked s \<or> ms_version s \<noteq> pk_version pick) (picked pick s) (any, S) =
      Inr (any', S')"
    by (auto simp: mvs_visit_def elim!: bindP_Inr)
  from propagate_inv [OF p inv s(1) pick_for_sound [OF pk]]
  have r: "solver_inv om S'" "grows S S'" "any \<longrightarrow> any'"
    "\<not> any' \<longrightarrow> (\<exists>t. \<not> dirty t \<and> st S' = (st S)(name \<mapsto> t))" by auto
  have "any'" if "m \<in> insert name seen" "st S' m = Some u" "dirty u" for m u
  proof (rule ccontr)
    assume n: "\<not> any'"
    with r(4) obtain t where t: "\<not> dirty t" "st S' = (st S)(name \<mapsto> t)" by blast
    with that have "m \<in> seen" "st S m = Some u" by (auto split: if_splits)
    with d that(3) r(3) n show False by blast
  qed
  with r show ?thesis by blast
qed

lemma mvs_pass_inv:
  assumes "mvs_pass E om i anyS w = Some r" and "r = (Inr (any', S'), w')"
    and "solver_inv om (snd anyS)"
    and "\<forall>m s. m \<in> set (take i (insertionOrder (snd anyS))) \<longrightarrow> st (snd anyS) m = Some s \<longrightarrow>
      dirty s \<longrightarrow> fst anyS"
  shows "solver_inv om S' \<and> grows (snd anyS) S' \<and> (\<not> any' \<longrightarrow> (\<forall>m s. st S' m = Some s \<longrightarrow> \<not> dirty s))"
  using assms
proof (induction E om i anyS w r arbitrary: any' S' w'
    rule: mvs_pass.raw_induct [rotated, consumes 1, case_names step])
  case (step self E om i anyS w r)
  obtain any S where anyS: "anyS = (any, S)" by (cases anyS)
  show ?case
  proof (cases "i < length (insertionOrder S)")
    case False
    then have S': "S' = S" "any' = any" using step.prems(1) anyS step.hyps by auto
    have "set (insertionOrder S) = dom (st S)" using step.prems by (auto simp: solver_inv_def solver_wf_def anyS)
    moreover have "take i (insertionOrder S) = insertionOrder S" using False by simp
    ultimately show ?thesis using step.prems S' anyS by auto
  next
    case True
    define name where "name = insertionOrder S ! i"
    from True step.prems step.hyps anyS obtain anyS1 w1 where
      v: "mvs_visit E om name (any, S) w = Some (Inr anyS1, w1)"
      and rest: "self E om (i + 1) anyS1 w1 = Some r" by (auto simp: name_def bindP_eq_Inr)
    obtain any1 S1 where anyS1: "anyS1 = (any1, S1)" by (cases anyS1)
    have inv: "solver_inv om S" using step.prems anyS by simp
    from mvs_visit_inv [OF v [unfolded anyS1] inv, of "set (take i (insertionOrder S))"] step.prems anyS
    have r1: "solver_inv om S1" "grows S S1" and d: "\<forall>m s. m \<in> insert name (set (take i (insertionOrder S))) \<longrightarrow>
        st S1 m = Some s \<longrightarrow> dirty s \<longrightarrow> any1" by auto
    from r1(2) obtain xs where "insertionOrder S1 = insertionOrder S @ xs" by (auto simp: grows_def)
    then have "set (take (i + 1) (insertionOrder S1)) = insert name (set (take i (insertionOrder S)))"
      using True by (simp add: take_Suc_conv_app_nth name_def)
    with d have d1: "\<forall>m s. m \<in> set (take (i + 1) (insertionOrder S1)) \<longrightarrow> st S1 m = Some s \<longrightarrow> dirty s \<longrightarrow> any1"
      by simp
    from step.IH [OF rest step.prems(1)] r1(1) d1 anyS1
    have "solver_inv om S' \<and> grows S1 S' \<and> (\<not> any' \<longrightarrow> (\<forall>m s. st S' m = Some s \<longrightarrow> \<not> dirty s))"
      by simp
    with r1(2) anyS show ?thesis by (auto intro: grows_trans)
  qed
qed

lemma mvs_loop_inv:
  assumes "mvs_loop E om S w = Some r" and "r = (Inr S', w')" and "solver_inv om S"
  shows "solver_inv om S' \<and> grows S S' \<and> (\<forall>m s. st S' m = Some s \<longrightarrow> \<not> dirty s)"
  using assms
proof (induction E om S w r arbitrary: S' w'
    rule: mvs_loop.raw_induct [rotated, consumes 1, case_names step])
  case (step self E om S w r)
  let ?S0 = "S\<lparr>mvsIterations := mvsIterations S + 1\<rparr>"
  from step.hyps step.prems(1) obtain any1 S1 w1 where
    p: "mvs_pass E om 0 (False, ?S0) w = Some (Inr (any1, S1), w1)"
    and rest: "if any1 then self E om S1 w1 = Some r else r = (Inr S1, w1)"
    using step.prems by (auto simp: bindP_eq_Inr retP_def split: if_splits)
  have "solver_inv om ?S0" using step.prems
    by (simp add: solver_inv_def solver_wf_def clean_picked_def closed_def has_constraint_def)
  from mvs_pass_inv [OF p refl] this
  have q: "solver_inv om S1" "grows ?S0 S1" "\<not> any1 \<longrightarrow> (\<forall>m s. st S1 m = Some s \<longrightarrow> \<not> dirty s)" by auto
  have g: "grows S S1" using q(2) by (simp add: grows_def)
  show ?case
  proof (cases any1)
    case True
    with rest step.IH step.prems q g show ?thesis by (auto intro: grows_trans)
  next
    case False
    with rest step.prems q g show ?thesis by auto
  qed
qed


subsection \<open>The output graph\<close>

lemma add_package_fields:
  assumes "st S n = Some s"
  shows "packages (add_package S n g) = packages g @ [resolved_of n s]"
    and "roots (add_package S n g) = roots g"
    and "children (add_package S n g) = (if ms_manifestJson s = [] then children g
      else (children g)(n \<mapsto> filter (\<lambda>cd. versionConstraint cd \<noteq> []) (childDeps s)))"
    and "opaque (add_package S n g) = (if ms_manifestJson s = [] then insert n (opaque g) else opaque g)"
  using assms by (simp_all add: add_package_def Let_def)

lemma fold_add_package:
  assumes "\<forall>n \<in> set ns. st S n \<noteq> None"
  shows "packages (fold (add_package S) ns g) = packages g @ map (\<lambda>n. resolved_of n (the (st S n))) ns"
    and "roots (fold (add_package S) ns g) = roots g"
    and "children (fold (add_package S) ns g) n =
      (if n \<in> set ns \<and> ms_manifestJson (the (st S n)) \<noteq> []
       then Some (filter (\<lambda>cd. versionConstraint cd \<noteq> []) (childDeps (the (st S n)))) else children g n)"
    and "opaque (fold (add_package S) ns g) = opaque g \<union> {n \<in> set ns. ms_manifestJson (the (st S n)) = []}"
  using assms by (induction ns arbitrary: g) (auto simp: add_package_fields split: if_splits)

lemma output_graph_fields:
  assumes "set (insertionOrder S) = dom (st S)"
  shows "packages (output_graph deps S) = map (\<lambda>n. resolved_of n (the (st S n))) (insertionOrder S)"
    and "roots (output_graph deps S) = filter (\<lambda>d. versionConstraint d \<noteq> []) deps"
    and "children (output_graph deps S) n =
      (if n \<in> dom (st S) \<and> ms_manifestJson (the (st S n)) \<noteq> []
       then Some (filter (\<lambda>cd. versionConstraint cd \<noteq> []) (childDeps (the (st S n)))) else None)"
    and "opaque (output_graph deps S) = {n \<in> dom (st S). ms_manifestJson (the (st S n)) = []}"
proof -
  have "\<forall>n \<in> set (insertionOrder S). st S n \<noteq> None" using assms by auto
  note f = fold_add_package [OF this]
  show "packages (output_graph deps S) = map (\<lambda>n. resolved_of n (the (st S n))) (insertionOrder S)"
    and "roots (output_graph deps S) = filter (\<lambda>d. versionConstraint d \<noteq> []) deps"
    and "children (output_graph deps S) n =
      (if n \<in> dom (st S) \<and> ms_manifestJson (the (st S n)) \<noteq> []
       then Some (filter (\<lambda>cd. versionConstraint cd \<noteq> []) (childDeps (the (st S n)))) else None)"
    and "opaque (output_graph deps S) = {n \<in> dom (st S). ms_manifestJson (the (st S n)) = []}"
    using assms by (simp_all add: output_graph_def f)
qed

lemma empty_solver_inv: "solver_wf om empty_solver" "clean_picked empty_solver" "closed X empty_solver"
  by (simp_all add: solver_wf_def clean_picked_def closed_def empty_solver_def)

text \<open>The state that a successful resolution ends in.\<close>

text \<open>The state of the solver when its iteration has ended, and the world then.\<close>

definition solved_state :: "('w, 'v, 'o) env \<Rightarrow> DependencySpec list \<Rightarrow> OverrideSpec list \<Rightarrow> 'w \<Rightarrow> (solver \<times> 'w) option" where
  "solved_state E deps overrides w =
     (case split_overrides overrides no_overrides of
        Inl e \<Rightarrow> None
      | Inr om \<Rightarrow>
          (case add_all om True deps (False, empty_solver) of
             Inl e \<Rightarrow> None
           | Inr (b, S0) \<Rightarrow> (case mvs_loop E om S0 w of Some (Inr S, w1) \<Rightarrow> Some (S, w1) | _ \<Rightarrow> None)))"

lemma resolved_state:
  assumes "resolveMvsGraph E deps overrides w = Some (Inr g, w')"
  obtains om S w1 w2 where "split_overrides overrides no_overrides = Inr om"
    and "solver_inv om S" and
    "\<forall>n q. st S n = Some q \<longrightarrow> directRoot q \<longrightarrow> (\<exists>d \<in> set deps. ds_name d = n \<and> versionConstraint d \<noteq> [])"
    and "\<forall>m s. st S m = Some s \<longrightarrow> \<not> dirty s"
    and "\<forall>d \<in> set deps. versionConstraint d \<noteq> [] \<longrightarrow>
      (\<exists>q. st S (ds_name d) = Some q \<and> versionConstraint d \<in> set (constraints q) \<and> directRoot q)"
    and "audit E S (insertionOrder S) w1 = Some (Inr (), w2)" and "g = output_graph deps S"
    and "solved_state E deps overrides w = Some (S, w1)"
proof -
  from assms obtain om S0 S w1 where om: "split_overrides overrides no_overrides = Inr om"
    and a: "\<exists>b. add_all om True deps (False, empty_solver) = Inr (b, S0)"
    and l: "mvs_loop E om S0 w = Some (Inr S, w1)"
    and au: "audit E S (insertionOrder S) w1 = Some (Inr (), w')" and g: "g = output_graph deps S"
    by (auto simp: resolveMvsGraph_def elim!: bindP_Inr)
  then obtain b where a: "add_all om True deps (False, empty_solver) = Inr (b, S0)" by blast
  have "solver_inv om S0"
    using add_all_inv [OF a, of "{}"] empty_solver_inv by (simp add: solver_inv_def)
  from mvs_loop_inv [OF l refl this] have S: "solver_inv om S" "grows S0 S"
    "\<forall>m s. st S m = Some s \<longrightarrow> \<not> dirty s" by auto
  have "\<exists>q. st S (ds_name d) = Some q \<and> versionConstraint d \<in> set (constraints q) \<and> directRoot q"
    if d: "d \<in> set deps" "versionConstraint d \<noteq> []" for d
  proof -
    from add_all_present [OF a d] obtain q where "st S0 (ds_name d) = Some q"
      "versionConstraint d \<in> set (constraints q)" "directRoot q" by auto
    with S(2) show ?thesis unfolding grows_def by blast
  qed
  moreover have "\<exists>d \<in> set deps. ds_name d = n \<and> versionConstraint d \<noteq> []" if "st S n = Some q" "directRoot q" for n q
  proof -
    from that S(2) obtain p where "st S0 n = Some p" "directRoot p" unfolding grows_def by blast
    with add_all_root_names [OF a] show ?thesis by (auto simp: empty_solver_def)
  qed
  moreover have "solved_state E deps overrides w = Some (S, w1)" using om a l by (simp add: solved_state_def)
  ultimately show thesis using that [OF om S(1) _ S(3) _ au g] by blast
qed

lemma split_overrides_names:
  "split_overrides ovs om = Inr om' \<Longrightarrow> n \<notin> os_name ` set ovs \<Longrightarrow>
   overrideMap om' n = overrideMap om n \<and> pathOverrideMap om' n = pathOverrideMap om n \<and>
   gitOverrideMap om' n = gitOverrideMap om n"
  by (induction ovs om rule: split_overrides.induct) (auto split: if_splits)

lemma not_overridden_fields:
  assumes "split_overrides ovs no_overrides = Inr om" and "n \<notin> os_name ` set ovs"
  shows "ov_fields (first_state om n) = (None, None, None, None, False)"
  using split_overrides_names [OF assms]
  by (simp add: no_overrides_def first_state_def fresh_state_def ov_fields_def)

text \<open>A package answers to a constraint that it has gathered, unless it is overridden.\<close>

lemma gathered_satisfied:
  assumes inv: "solver_inv om S" and nd: "\<forall>m s. st S m = Some s \<longrightarrow> \<not> dirty s"
    and q: "st S n = Some q" "c \<in> set (constraints q)"
    and free: "directRoot q \<or> ov_fields (first_state om n) = (None, None, None, None, False)"
  shows "versionSatisfies (ms_version q) c = Some True"
proof -
  have "well_picked q" using inv nd q(1) by (auto simp: solver_inv_def clean_picked_def)
  moreover have "ov_fields q = ov_fields (first_state om n)"
    using inv q(1) by (auto simp: solver_inv_def solver_wf_def)
  with free have "from_repos q \<and> effectiveConstraints q = constraints q"
    by (auto simp: from_repos_def effectiveConstraints_def ov_fields_def split: option.splits)
  ultimately show ?thesis using q(2) by (auto simp: well_picked_def)
qed

lemma package_of:
  assumes "solver_inv om S" and "st S n = Some q"
  shows "resolved_of n q \<in> set (packages (output_graph deps S))"
proof -
  have d: "set (insertionOrder S) = dom (st S)" using assms(1) by (simp add: solver_inv_def solver_wf_def)
  have "n \<in> set (insertionOrder S)" using assms(2) d by auto
  then have "resolved_of n (the (st S n)) \<in> set (map (\<lambda>n. resolved_of n (the (st S n))) (insertionOrder S))"
    by auto
  with assms(2) show ?thesis by (simp add: output_graph_fields(1) [OF d])
qed

lemma children_present:
  assumes inv: "solver_inv om S" and nd: "\<forall>m s. st S m = Some s \<longrightarrow> \<not> dirty s"
    and "children (output_graph deps S) n = Some ks" and "d \<in> set ks"
  shows "versionConstraint d \<noteq> [] \<and>
    (\<exists>q. st S (ds_name d) = Some q \<and> versionConstraint d \<in> set (constraints q))"
proof -
  have dom: "set (insertionOrder S) = dom (st S)" using inv by (simp add: solver_inv_def solver_wf_def)
  from assms(3,4) obtain s where s: "st S n = Some s" "d \<in> set (childDeps s)" "versionConstraint d \<noteq> []"
    by (auto simp: output_graph_fields(3) [OF dom] split: if_splits)
  moreover have "everPicked s" using inv nd s(1) by (auto simp: solver_inv_def clean_picked_def well_picked_def)
  ultimately have "has_constraint S d" using inv by (auto simp: solver_inv_def closed_def)
  with s(3) show ?thesis by (auto simp: has_constraint_def)
qed


subsection \<open>An environment to evaluate in\<close>

text \<open>Repositories that are tables, a cache and a store that accept everything.\<close>

definition table_repo ::
    "string \<Rightarrow> (string \<times> string list) list \<Rightarrow> (string \<times> string) list \<Rightarrow> unit repository" where
  "table_repo name versions manifests =
     \<lparr>r_name = name,
      listVersions = (\<lambda>n. retP (case map_of versions n of None \<Rightarrow> [] | Some vs \<Rightarrow> vs)),
      fetch = (\<lambda>n v. retP (name @ ''/'' @ n @ ''-'' @ v)),
      fetchManifestJson = (\<lambda>n v. retP (map_of manifests (n @ ''@'' @ v))),
      releaseMetadataJson = (\<lambda>n v. retP None)\<rparr>"

definition table_env :: "(string \<times> jtree) list \<Rightarrow> unit repository list \<Rightarrow> (unit, jtree, (string \<times> jtree) list) env" where
  "table_env docs rs =
     \<lparr>js = tree_json (map_of docs), repos = rs, cacheInsert = retP, sha256OfFile = (\<lambda>p w. ''sha256:'' @ p),
      isDirectory = (\<lambda>p w. False), isRegularFile = (\<lambda>p w. False), readBinary = (\<lambda>p w. None),
      gitRepository = (\<lambda>name url ref stage. table_repo name [] []),
      ollaWriteVerified = (\<lambda>root n v p m. retP p), writeBinary = (\<lambda>p b w. (True, w)),
      stageDir = [], ollaRoot = []\<rparr>"

definition doc_of :: "string \<Rightarrow> (string \<times> jtree) list \<Rightarrow> jtree" where
  "doc_of name deps = JObj
     [(''details'', JObj [(''name'', JStr name), (''version'', JStr ''1'')]),
      (''settings'', JObj [(''dependencies'', JObj deps)])]"

definition dep_on :: "string \<Rightarrow> string \<Rightarrow> DependencySpec" where
  "dep_on n c = \<lparr>ds_name = n, versionConstraint = c, fromRepo = None\<rparr>"

text \<open>Evaluation by the simplifier: a continuation is not touched before its argument is
  known.\<close>

lemma bindP_block: "bindP m f w = bindP m f w"
  by (rule refl)

lemma bindE_weak: "m = m' \<Longrightarrow> bindE m f = bindE m' f"
  by simp

lemma bindP_case:
  "bindP m f w = (case m w of None \<Rightarrow> None | Some r \<Rightarrow>
     (case r of (q, w') \<Rightarrow> (case q of Inl e \<Rightarrow> Some (Inl e, w') | Inr x \<Rightarrow> f x w')))"
  by (auto simp: bindP_def split: option.splits)

lemma load_no_children: "load_children E l [] = Inr []"
  by (simp add: load_children_def)

lemma first_state_no_overrides: "first_state no_overrides n = fresh_state"
  by (simp add: first_state_def no_overrides_def)

lemma table_repo_sel:
  "r_name (table_repo n vs ms) = n"
  "listVersions (table_repo n vs ms) = (\<lambda>n. retP (case map_of vs n of None \<Rightarrow> [] | Some vs \<Rightarrow> vs))"
  "fetch (table_repo n vs ms) = (\<lambda>p v. retP (n @ ''/'' @ p @ ''-'' @ v))"
  "fetchManifestJson (table_repo n vs ms) = (\<lambda>n v. retP (map_of ms (n @ ''@'' @ v)))"
  by (simp_all add: table_repo_def)

lemma table_env_sel:
  "repos (table_env docs rs) = rs" "ollaRoot (table_env docs rs) = []"
  "cacheInsert (table_env docs rs) = retP" "sha256OfFile (table_env docs rs) p w = ''sha256:'' @ p"
  by (simp_all add: table_env_def)

lemmas solver_start = addConstraint_def merge_constraint_def first_state_no_overrides
  empty_solver_def Let_def dep_on_def fresh_state_def

lemmas solver_eval = bindP_case mvs_loop.simps mvs_pass.simps mvs_visit_def [THEN fun_cong]
  pick_for_def [THEN fun_cong] pickLowestForAll_def [THEN fun_cong] pick_in.simps [THEN fun_cong]
  take_version_def [THEN fun_cong] write_through_def [THEN fun_cong] audit.simps [THEN fun_cong]
  audit_one_def retP_def failP_def liftE_def liftO_def readP_def checkP_def [THEN fun_cong]
  propagate_def picked_def effectiveConstraints_def load_no_children table_repo_sel table_env_sel
  str_or_def overridden_def solver_start

text \<open>Two direct dependencies, \<open>a\<close> and \<open>b\<close>; \<open>b\<close> needs a newer \<open>a\<close>, and the
  newer \<open>a\<close> needs \<open>c\<close>.\<close>

definition diamond_env :: "(unit, jtree, (string \<times> jtree) list) env" where
  "diamond_env = table_env
     [(''a2'', doc_of ''a'' [(''c'', JStr ''1.0.0'')]), (''b1'', doc_of ''b'' [(''a'', JStr ''1.2.0'')])]
     [table_repo ''r'' [(''a'', [''1.3.0'', ''1.0.0'', ''1.2.0'']), (''b'', [''1.0.0'']), (''c'', [''1.0.0''])]
        [(''a@1.2.0'', ''a2''), (''b@1.0.0'', ''b1'')]]"

definition diamond_deps :: "DependencySpec list" where
  "diamond_deps = [dep_on ''a'' ''1.0.0'', dep_on ''b'' ''1.0.0'']"

lemma diamond_versions:
  "lowestSatisfyingAll [''1.3.0'', ''1.0.0'', ''1.2.0''] [''1.0.0''] = Some ''1.0.0''"
  "lowestSatisfyingAll [''1.3.0'', ''1.0.0'', ''1.2.0''] [''1.0.0'', ''1.2.0''] = Some ''1.2.0''"
  "lowestSatisfyingAll [''1.0.0''] [''1.0.0''] = Some ''1.0.0''"
  by code_simp+

lemma diamond_children:
  "load_children diamond_env ''b@1.0.0'' ''b1'' = Inr [dep_on ''a'' ''1.2.0'']"
  "load_children diamond_env ''a@1.2.0'' ''a2'' = Inr [dep_on ''c'' ''1.0.0'']"
  by code_simp+

lemma diamond_sel:
  "repos diamond_env = [table_repo ''r''
     [(''a'', [''1.3.0'', ''1.0.0'', ''1.2.0'']), (''b'', [''1.0.0'']), (''c'', [''1.0.0''])]
     [(''a@1.2.0'', ''a2''), (''b@1.0.0'', ''b1'')]]"
  "ollaRoot diamond_env = []" "cacheInsert diamond_env = retP"
  "sha256OfFile diamond_env p w = ''sha256:'' @ p"
  by (simp_all add: diamond_env_def table_env_sel)

lemma diamond_graph:
  "\<exists>g. resolveMvsGraph diamond_env diamond_deps [] () = Some (Inr g, ()) \<and>
     map (\<lambda>p. (rd_name p, rd_version p)) (packages g) =
       [(''a'', ''1.2.0''), (''b'', ''1.0.0''), (''c'', ''1.0.0'')] \<and>
     children g ''a'' = Some [dep_on ''c'' ''1.0.0''] \<and> children g ''b'' = Some [dep_on ''a'' ''1.2.0'']"
  apply (simp only: resolveMvsGraph_def bindP_case liftE_def split_overrides.simps option.case
      prod.case sum.case cong: bindP_block)
  apply (simp add: diamond_deps_def solver_start cong: bindP_block bindE_weak)
  apply (simp add: solver_eval diamond_versions diamond_children diamond_sel
      cong: bindP_block bindE_weak)
  apply (simp add: output_graph_def add_package_def resolved_of_def dep_on_def)
  done

subsection \<open>The properties of the solver\<close>

text \<open>C1: A resolution that returns is a solution of its graph. No package is in it twice. Every direct
  dependency has a package whose version satisfies its constraint, whatever is overridden; every
  dependency that the graph records among the children of a package has a package too, and that package's
  version satisfies the constraint unless the name is overridden and not a direct dependency. The children
  of a package are those that the manifest declared when its version was picked; after a second pick of the same
  version from another repository they stay those of the first (\<open>repick_same_version_keeps_stale_children\<close> below).\<close>

theorem resolveMvsGraph_sound:
  assumes "resolveMvsGraph E deps overrides w = Some (Inr g, w')"
  shows "distinct (map rd_name (packages g)) \<and>
    (\<forall>d \<in> set (roots g). \<exists>p \<in> set (packages g). rd_name p = ds_name d \<and>
       versionSatisfies (rd_version p) (versionConstraint d) = Some True) \<and>
    (\<forall>n ks d. children g n = Some ks \<longrightarrow> d \<in> set ks \<longrightarrow>
       (\<exists>p \<in> set (packages g). rd_name p = ds_name d \<and>
          (ds_name d \<in> ds_name ` set (roots g) \<or> ds_name d \<notin> os_name ` set overrides \<longrightarrow>
             versionSatisfies (rd_version p) (versionConstraint d) = Some True)))"
proof -
  obtain om S w1 w2 where om: "split_overrides overrides no_overrides = Inr om"
    and inv: "solver_inv om S" and nd: "\<forall>m s. st S m = Some s \<longrightarrow> \<not> dirty s"
    and roots: "\<forall>d \<in> set deps. versionConstraint d \<noteq> [] \<longrightarrow>
      (\<exists>q. st S (ds_name d) = Some q \<and> versionConstraint d \<in> set (constraints q) \<and> directRoot q)"
    and "audit E S (insertionOrder S) w1 = Some (Inr (), w2)" and g: "g = output_graph deps S"
    by (rule resolved_state [OF assms])
  have dom: "set (insertionOrder S) = dom (st S)" "distinct (insertionOrder S)"
    using inv by (auto simp: solver_inv_def solver_wf_def)
  note fields = output_graph_fields [OF dom(1), of deps, folded g]
  have pkg: "\<exists>p \<in> set (packages g). rd_name p = n \<and> rd_version p = ms_version q" if "st S n = Some q" for n q
    using package_of [OF inv that, of deps] g by (force simp: resolved_of_def)
  have "distinct (map rd_name (packages g))"
    using dom(2) by (simp add: fields resolved_of_def comp_def)
  moreover have "\<exists>p \<in> set (packages g). rd_name p = ds_name d \<and>
       versionSatisfies (rd_version p) (versionConstraint d) = Some True" if "d \<in> set (roots g)" for d
  proof -
    from that roots obtain q where q: "st S (ds_name d) = Some q" "versionConstraint d \<in> set (constraints q)" "directRoot q"
      by (auto simp: fields)
    from gathered_satisfied [OF inv nd q(1,2)] q(3) pkg [OF q(1)] show ?thesis by auto
  qed
  moreover have "\<exists>p \<in> set (packages g). rd_name p = ds_name d \<and>
        (ds_name d \<in> ds_name ` set (roots g) \<or> ds_name d \<notin> os_name ` set overrides \<longrightarrow>
           versionSatisfies (rd_version p) (versionConstraint d) = Some True)"
    if c: "children g n = Some ks" "d \<in> set ks" for n ks d
  proof -
    from children_present [OF inv nd c(1) [unfolded g] c(2)] obtain q where
      q: "st S (ds_name d) = Some q" "versionConstraint d \<in> set (constraints q)" by blast
    from pkg [OF q(1)] obtain p where p: "p \<in> set (packages g)" "rd_name p = ds_name d" "rd_version p = ms_version q"
      by blast
    have "versionSatisfies (ms_version q) (versionConstraint d) = Some True"
      if o: "ds_name d \<in> ds_name ` set (roots g) \<or> ds_name d \<notin> os_name ` set overrides"
    proof (rule gathered_satisfied [OF inv nd q])
      show "directRoot q \<or> ov_fields (first_state om (ds_name d)) = (None, None, None, None, False)"
      proof (cases "ds_name d \<in> ds_name ` set (roots g)")
        case True
        then obtain r where "r \<in> set deps" "versionConstraint r \<noteq> []" "ds_name r = ds_name d"
          by (auto simp: fields)
        with roots q(1) show ?thesis by (metis option.inject)
      next
        case False with o not_overridden_fields [OF om] show ?thesis by blast
      qed
    qed
    with p show ?thesis by auto
  qed
  ultimately show ?thesis by blast
qed

theorem resolveMvsGraph_sound_witness:
  "\<exists>g. resolveMvsGraph diamond_env diamond_deps [] () = Some (Inr g, ()) \<and>
     distinct (map rd_name (packages g)) \<and>
     (\<forall>d \<in> set (roots g). \<exists>p \<in> set (packages g). rd_name p = ds_name d \<and>
        versionSatisfies (rd_version p) (versionConstraint d) = Some True)"
proof -
  from diamond_graph obtain g where
    g: "resolveMvsGraph diamond_env diamond_deps [] () = Some (Inr g, ())" by blast
  from resolveMvsGraph_sound [OF g] g show ?thesis by blast
qed

text \<open>The order of the packages is that of discovery and not a topological one, as the
  header of the resolver has it: \<open>a\<close> needs \<open>c\<close>, which comes after it, and \<open>b\<close>
  needs \<open>a\<close>, which comes before it.\<close>

theorem resolveMvsGraph_not_topological:
  "\<exists>g. resolveMvsGraph diamond_env diamond_deps [] () = Some (Inr g, ()) \<and>
     map rd_name (packages g) = [''a'', ''b'', ''c''] \<and>
     children g ''a'' = Some [dep_on ''c'' ''1.0.0''] \<and> children g ''b'' = Some [dep_on ''a'' ''1.2.0'']"
  using diamond_graph by fastforce

text \<open>Two repositories with the same version of \<open>a\<close>; only the second one's manifest
  declares \<open>c\<close>, and \<open>b\<close> pins \<open>a\<close> to it.\<close>

definition mirror_env :: "(unit, jtree, (string \<times> jtree) list) env" where
  "mirror_env = table_env
     [(''a1'', doc_of ''a'' []), (''a2'', doc_of ''a'' [(''c'', JStr ''1.0.0'')]),
      (''b1'', doc_of ''b'' [(''a'', JObj [(''version'', JStr ''1.0.0''), (''from'', JStr ''r2'')])])]
     [table_repo ''r1'' [(''a'', [''1.0.0'']), (''b'', [''1.0.0'']), (''c'', [''1.0.0''])]
        [(''a@1.0.0'', ''a1''), (''b@1.0.0'', ''b1'')],
      table_repo ''r2'' [(''a'', [''1.0.0'']), (''c'', [''1.0.0''])] [(''a@1.0.0'', ''a2'')]]"

lemma mirror_versions:
  "lowestSatisfyingAll [''1.0.0''] [''1.0.0''] = Some ''1.0.0''"
  by code_simp

lemma mirror_children:
  "load_children mirror_env ''a@1.0.0'' ''a1'' = Inr []"
  "load_children mirror_env ''a@1.0.0'' ''a2'' = Inr [dep_on ''c'' ''1.0.0'']"
  "load_children mirror_env ''b@1.0.0'' ''b1'' =
     Inr [\<lparr>ds_name = ''a'', versionConstraint = ''1.0.0'', fromRepo = Some ''r2''\<rparr>]"
  by code_simp+

lemma mirror_sel:
  "repos mirror_env =
     [table_repo ''r1'' [(''a'', [''1.0.0'']), (''b'', [''1.0.0'']), (''c'', [''1.0.0''])]
        [(''a@1.0.0'', ''a1''), (''b@1.0.0'', ''b1'')],
      table_repo ''r2'' [(''a'', [''1.0.0'']), (''c'', [''1.0.0''])] [(''a@1.0.0'', ''a2'')]]"
  "ollaRoot mirror_env = []" "cacheInsert mirror_env = retP"
  "sha256OfFile mirror_env p w = ''sha256:'' @ p"
  by (simp_all add: mirror_env_def table_env_sel)

text \<open>A package that is picked again at the same version from another repository keeps the
  children of the first manifest: the artifact is that of the second repository, whose manifest
  declares \<open>c\<close>, but \<open>c\<close> is not resolved.\<close>

theorem repick_same_version_keeps_stale_children:
  "load_children mirror_env ''a@1.0.0'' ''a2'' = Inr [dep_on ''c'' ''1.0.0''] \<and>
   (\<exists>g. resolveMvsGraph mirror_env [dep_on ''a'' ''1.0.0'', dep_on ''b'' ''1.0.0''] [] () = Some (Inr g, ()) \<and>
     map (\<lambda>p. (rd_name p, rd_resolvedFromRepo p)) (packages g) = [(''a'', ''r2''), (''b'', ''r1'')] \<and>
     children g ''a'' = Some [])"
  apply (rule conjI, rule mirror_children)
  apply (simp only: resolveMvsGraph_def bindP_case liftE_def split_overrides.simps option.case
      prod.case sum.case cong: bindP_block)
  apply (simp add: solver_start cong: bindP_block bindE_weak)
  apply (simp add: solver_eval mirror_versions mirror_children mirror_sel
      cong: bindP_block bindE_weak)
  apply (simp add: output_graph_def add_package_def resolved_of_def)
  done

definition split_env :: "(unit, jtree, (string \<times> jtree) list) env" where
  "split_env = table_env []
     [table_repo ''r1'' [(''a'', [''1.5.0''])] [], table_repo ''r2'' [(''a'', [''1.2.0''])] []]"

text \<open>A new constraint can lower a pick, against the comment on the iteration: the first
  repository with a satisfying version wins, so when its versions are ruled out the next
  repository may offer a lower one.\<close>

theorem repick_can_lower:
  "(case pickLowestForAll split_env [] ''a'' [''1.0.0''] None () of
      Some (Inr p, _) \<Rightarrow> pk_version p = ''1.5.0'' | _ \<Rightarrow> False) \<and>
   (case pickLowestForAll split_env [] ''a'' [''1.0.0'', ''<1.4''] None () of
      Some (Inr p, _) \<Rightarrow> pk_version p = ''1.2.0'' | _ \<Rightarrow> False)"
  by code_simp


lemma root_is_declared:
  assumes "\<forall>n q. st S n = Some q \<longrightarrow> directRoot q \<longrightarrow> (\<exists>d \<in> set deps. ds_name d = n \<and> versionConstraint d \<noteq> [])"
    and "st S n = Some q" and "rs = filter (\<lambda>d. versionConstraint d \<noteq> []) deps" and "directRoot q"
  shows "n \<in> ds_name ` set rs"
  using assms by fastforce

lemma split_overrides_last:
  assumes "split_overrides ovs om = Inr om'" and "distinct (map os_name ovs)" and "ov \<in> set ovs"
    and "os_git ov = None" and "os_path ov = None"
  shows "overrideMap om' (os_name ov) = Some ov" and "pathOverrideMap om' (os_name ov) = pathOverrideMap om (os_name ov)"
    and "gitOverrideMap om' (os_name ov) = gitOverrideMap om (os_name ov)"
proof (atomize (full), insert assms, induction ovs om rule: split_overrides.induct)
  case (2 o1 ovs om)
  show ?case
  proof (cases "ov = o1")
    case True
    with 2 have r: "split_overrides ovs (om\<lparr>overrideMap := (overrideMap om)(os_name ov \<mapsto> ov)\<rparr>) = Inr om'"
      "os_name ov \<notin> os_name ` set ovs" by (auto split: if_splits)
    from split_overrides_names [OF r] show ?thesis by simp
  next
    case False
    with 2 have m1: "ov \<in> set ovs" and "os_name o1 \<notin> os_name ` set ovs" by auto
    then have m: "ov \<in> set ovs" "os_name ov \<noteq> os_name o1" by (metis, metis imageI)
    from 2 m show ?thesis by (auto split: if_splits)
  qed
qed simp

text \<open>C28: An override by version is forced on a transitive dependency: where the name is not a
  direct dependency, the package's version satisfies the override's constraint, a bare one as an
  exact pin, whatever the packages that need it ask for.\<close>

theorem override_is_forced:
  assumes "resolveMvsGraph E deps overrides w = Some (Inr g, w')"
    and "ov \<in> set overrides" "distinct (map os_name overrides)" "os_git ov = None" "os_path ov = None"
    and "p \<in> set (packages g)" "rd_name p = os_name ov" "os_name ov \<notin> ds_name ` set (roots g)"
  shows "versionSatisfies (rd_version p) (exactIfBare (os_versionConstraint ov)) = Some True"
proof -
  obtain om S w1 w2 where om: "split_overrides overrides no_overrides = Inr om"
    and inv: "solver_inv om S"
    and rn: "\<forall>n q. st S n = Some q \<longrightarrow> directRoot q \<longrightarrow> (\<exists>d \<in> set deps. ds_name d = n \<and> versionConstraint d \<noteq> [])"
    and nd: "\<forall>m s. st S m = Some s \<longrightarrow> \<not> dirty s" and g: "g = output_graph deps S"
    by (rule resolved_state [OF assms(1)])
  have dom: "set (insertionOrder S) = dom (st S)" using inv by (auto simp: solver_inv_def solver_wf_def)
  note fields = output_graph_fields [OF dom, of deps, folded g]
  from assms(6,7) obtain q where q: "st S (os_name ov) = Some q" "rd_version p = ms_version q"
    using dom by (fastforce simp: fields resolved_of_def)
  have nr: "\<not> directRoot q"
    using root_is_declared [OF rn q(1), of "roots g"] assms(8) by (auto simp: fields)
  from split_overrides_last [OF om assms(3,2,4,5)]
  have "ov_fields (first_state om (os_name ov)) = (Some (exactIfBare (os_versionConstraint ov)), None, None, None, os_allowMajorDowngrade ov)"
    by (simp add: no_overrides_def first_state_def fresh_state_def ov_fields_def)
  then have o: "ov_fields q = (Some (exactIfBare (os_versionConstraint ov)), None, None, None, os_allowMajorDowngrade ov)"
    using inv q(1) by (auto simp: solver_inv_def solver_wf_def)
  have "well_picked q" using inv nd q(1) by (auto simp: solver_inv_def clean_picked_def)
  with o nr q(2) show ?thesis
    by (auto simp: well_picked_def from_repos_def effectiveConstraints_def ov_fields_def)
qed

definition pin_old :: OverrideSpec where
  "pin_old = \<lparr>os_name = ''c'', os_versionConstraint = ''1.0.0'', os_path = None, os_git = None,
     os_rev = None, os_allowMajorDowngrade = False\<rparr>"

definition pin_env :: "(unit, jtree, (string \<times> jtree) list) env" where
  "pin_env = table_env [(''b1'', doc_of ''b'' [(''c'', JStr ''1.2.0'')])]
     [table_repo ''r'' [(''b'', [''1.0.0'']), (''c'', [''1.2.0'', ''1.0.0''])] [(''b@1.0.0'', ''b1'')]]"

lemma pin_facts:
  "lowestSatisfyingAll [''1.0.0''] [''1.0.0''] = Some ''1.0.0''"
  "lowestSatisfyingAll [''1.2.0'', ''1.0.0''] [''=1.0.0''] = Some ''1.0.0''"
  "lowestSatisfyingAll [''1.2.0'', ''1.0.0''] [''1.2.0''] = Some ''1.2.0''"
  "compareMajor ''1.0.0'' ''1.2.0'' = Some 0" "exactIfBare ''1.0.0'' = ''=1.0.0''"
  "load_children pin_env ''b@1.0.0'' ''b1'' = Inr [dep_on ''c'' ''1.2.0'']"
  by code_simp+

lemma pin_sel:
  "repos pin_env = [table_repo ''r'' [(''b'', [''1.0.0'']), (''c'', [''1.2.0'', ''1.0.0''])] [(''b@1.0.0'', ''b1'')]]"
  "ollaRoot pin_env = []" "cacheInsert pin_env = retP" "sha256OfFile pin_env p w = ''sha256:'' @ p"
  by (simp_all add: pin_env_def table_env_sel)

lemma pin_graph:
  "\<exists>g. resolveMvsGraph pin_env [dep_on ''b'' ''1.0.0''] [pin_old] () = Some (Inr g, ()) \<and>
     packages g = [\<lparr>rd_name = ''b'', rd_version = ''1.0.0'', rd_resolvedFromRepo = ''r'',
         rd_artifactPath = ''r/b-1.0.0'', rd_sha256 = ''sha256:r/b-1.0.0''\<rparr>,
       \<lparr>rd_name = ''c'', rd_version = ''1.0.0'', rd_resolvedFromRepo = ''r'',
         rd_artifactPath = ''r/c-1.0.0'', rd_sha256 = ''sha256:r/c-1.0.0''\<rparr>] \<and>
     roots g = [dep_on ''b'' ''1.0.0'']"
  apply (simp only: resolveMvsGraph_def bindP_case liftE_def cong: bindP_block)
  apply (simp add: pin_old_def no_overrides_def cong: bindP_block)
  apply (simp add: solver_start first_state_def cong: bindP_block bindE_weak)
  apply (simp add: solver_eval first_state_def pin_facts pin_sel cong: bindP_block bindE_weak)
  apply (simp add: output_graph_def add_package_def resolved_of_def dep_on_def)
  done

theorem override_is_forced_witness:
  "\<exists>g p. resolveMvsGraph pin_env [dep_on ''b'' ''1.0.0''] [pin_old] () = Some (Inr g, ()) \<and>
     p \<in> set (packages g) \<and> rd_name p = ''c'' \<and> versionSatisfies (rd_version p) ''=1.0.0'' = Some True"
proof -
  from pin_graph obtain g p where
    g: "resolveMvsGraph pin_env [dep_on ''b'' ''1.0.0''] [pin_old] () = Some (Inr g, ())"
    and p: "p \<in> set (packages g)" "rd_name p = ''c''" and r: "roots g = [dep_on ''b'' ''1.0.0'']"
    by (elim exE conjE) (metis list.set_intros(1,2) ResolvedDependency.select_convs(1))
  have "versionSatisfies (rd_version p) (exactIfBare (os_versionConstraint pin_old)) = Some True"
    by (rule override_is_forced [OF g _ _ _ _ p(1)]) (use p r in \<open>simp_all add: pin_old_def dep_on_def\<close>)
  with g p show ?thesis by (auto simp: pin_old_def pin_facts)
qed

subsection \<open>The audit\<close>

text \<open>The audit of a package, after those of the packages before it.\<close>

lemma audit_covers:
  assumes "audit E S names w = Some (Inr (), w')" and "n \<in> set names" and "st S n = Some s"
  shows "\<exists>before later w1 w2. names = before @ n # later \<and> audit E S before w = Some (Inr (), w1) \<and>
    audit_one E n s w1 = Some (Inr (), w2)"
  using assms
proof (induction names arbitrary: w)
  case (Cons m names)
  show ?case
  proof (cases "n = m")
    case True
    with Cons.prems(1,3) obtain w2 where "audit_one E n s w = Some (Inr (), w2)" by (auto elim!: bindP_Inr)
    with True have "m # names = [] @ n # names \<and> audit E S [] w = Some (Inr (), w) \<and> audit_one E n s w = Some (Inr (), w2)"
      by simp
    then show ?thesis by blast
  next
    case False
    with Cons.prems(2) have n: "n \<in> set names" by simp
    obtain w0 where r: "audit E S names w0 = Some (Inr (), w')"
      and c: "audit E S before w0 = Some (Inr (), w1) \<Longrightarrow> audit E S (m # before) w = Some (Inr (), w1)" for before w1
    proof (cases "st S m")
      case None
      with Cons.prems(1) that [of w] show thesis by simp
    next
      case (Some t)
      with Cons.prems(1) obtain w0 where "audit_one E m t w = Some (Inr (), w0)" "audit E S names w0 = Some (Inr (), w')"
        by (auto elim!: bindP_Inr)
      with Some that [of w0] show thesis by (simp add: bindP_def)
    qed
    from Cons.IH [OF r n Cons.prems(3)] obtain before later w1 w2 where
      "names = before @ n # later" "audit E S before w0 = Some (Inr (), w1)" "audit_one E n s w1 = Some (Inr (), w2)" by blast
    with c [of before w1] have "m # names = (m # before) @ n # later \<and> audit E S (m # before) w = Some (Inr (), w1) \<and>
      audit_one E n s w1 = Some (Inr (), w2)" by simp
    then show ?thesis by blast
  qed
qed simp

text \<open>C29: No major downgrade passes silently. When a resolution returns and an override that does not allow it pins a
  transitive dependency, take the constraints that the solver has gathered for it when its iteration ends, in
  which are those of all the children in the graph, and the repository it is pinned to. In the world
  that the audits of the packages before it leave, these constraints pick no version (the override
  rescued the build), or one whose major the override's version is not below, or there are none.\<close>

theorem downgrades_are_audited:
  assumes "resolveMvsGraph E deps overrides w = Some (Inr g, w')"
    and "ov \<in> set overrides" "distinct (map os_name overrides)" "os_git ov = None" "os_path ov = None"
    and "\<not> os_allowMajorDowngrade ov"
    and "p \<in> set (packages g)" "rd_name p = os_name ov" "os_name ov \<notin> ds_name ` set (roots g)"
  shows "\<exists>S w1 q before later w2. solved_state E deps overrides w = Some (S, w1) \<and> st S (os_name ov) = Some q \<and>
    (\<forall>n ks d. children g n = Some ks \<longrightarrow> d \<in> set ks \<longrightarrow> ds_name d = os_name ov \<longrightarrow>
       versionConstraint d \<in> set (constraints q)) \<and>
    insertionOrder S = before @ os_name ov # later \<and> audit E S before w1 = Some (Inr (), w2) \<and>
    (constraints q = [] \<or>
      (\<exists>r w3. pickLowestForAll E [] (os_name ov) (constraints q) (ms_fromRepo q) w2 = Some (r, w3) \<and>
         (\<forall>b. r = Inr b \<longrightarrow> (\<exists>c\<ge>0. compareMajor (rd_version p) (pk_version b) = Some c))))"
proof -
  obtain om S w1 w2 where om: "split_overrides overrides no_overrides = Inr om"
    and inv: "solver_inv om S"
    and rn: "\<forall>n q. st S n = Some q \<longrightarrow> directRoot q \<longrightarrow> (\<exists>d \<in> set deps. ds_name d = n \<and> versionConstraint d \<noteq> [])"
    and nd: "\<forall>m s. st S m = Some s \<longrightarrow> \<not> dirty s"
    and au: "audit E S (insertionOrder S) w1 = Some (Inr (), w2)" and g: "g = output_graph deps S"
    and sv: "solved_state E deps overrides w = Some (S, w1)"
    by (rule resolved_state [OF assms(1)])
  have dom: "set (insertionOrder S) = dom (st S)" using inv by (auto simp: solver_inv_def solver_wf_def)
  note fields = output_graph_fields [OF dom, of deps, folded g]
  from assms(7,8) obtain q where q: "st S (os_name ov) = Some q" "rd_version p = ms_version q"
    using dom by (fastforce simp: fields resolved_of_def)
  have nr: "\<not> directRoot q"
    using root_is_declared [OF rn q(1), of "roots g"] assms(9) by (auto simp: fields)
  from split_overrides_last [OF om assms(3,2,4,5)]
  have "ov_fields (first_state om (os_name ov)) = (Some (exactIfBare (os_versionConstraint ov)), None, None, None, os_allowMajorDowngrade ov)"
    by (simp add: no_overrides_def first_state_def fresh_state_def ov_fields_def)
  then have o: "overridden q" "\<not> overrideAllowsMajorDowngrade q"
    using inv q(1) nr assms(6) by (auto simp: solver_inv_def solver_wf_def overridden_def ov_fields_def)
  have "os_name ov \<in> set (insertionOrder S)" using q(1) dom by auto
  from audit_covers [OF au this q(1)] obtain before later v1 v2 where
    b: "insertionOrder S = before @ os_name ov # later" "audit E S before w1 = Some (Inr (), v1)"
    and a: "audit_one E (os_name ov) q v1 = Some (Inr (), v2)"
    by blast
  have k: "\<forall>n ks d. children g n = Some ks \<longrightarrow> d \<in> set ks \<longrightarrow> ds_name d = os_name ov \<longrightarrow>
      versionConstraint d \<in> set (constraints q)"
    using children_present [OF inv nd] q(1) unfolding g by (metis option.inject)
  have "constraints q = [] \<or> (\<exists>r v3. pickLowestForAll E [] (os_name ov) (constraints q) (ms_fromRepo q) v1 = Some (r, v3) \<and>
       (\<forall>b. r = Inr b \<longrightarrow> (\<exists>c\<ge>0. compareMajor (rd_version p) (pk_version b) = Some c)))"
  proof (cases "constraints q = []")
    case False
    with a o obtain r v3 where p: "pickLowestForAll E [] (os_name ov) (constraints q) (ms_fromRepo q) v1 = Some (r, v3)"
      and c: "(case r of Inl _ \<Rightarrow> retP () v3 | Inr baseline \<Rightarrow>
        bindP (liftO (compareMajor (ms_version q) (pk_version baseline))) (\<lambda>c.
          checkP (\<not> (c < 0 \<and> \<not> overrideAllowsMajorDowngrade q))
            (MajorDowngrade (os_name ov) (ms_version q) (constraints q) (pk_version baseline))) v3) = Some (Inr (), v2)"
      by (auto simp: audit_one_def bind_eq_Some_conv)
    have "\<exists>c\<ge>0. compareMajor (rd_version p) (pk_version b) = Some c" if "r = Inr b" for b
      using c o(2) q(2) that by (auto elim!: bindP_Inr)
    with p show ?thesis by blast
  qed simp
  with sv q(1) k b show ?thesis by blast
qed


subsection \<open>Termination\<close>

text \<open>The facts that the iteration can add: a package, one of its constraints, that it is a
  root, that it is pinned to a repository.\<close>

datatype item = IPkg string | ICon string string | IRoot string | IFrom string

definition pitems :: "string \<Rightarrow> MvsState \<Rightarrow> item set" where
  "pitems n s = {IPkg n} \<union> ICon n ` set (constraints s) \<union> (if directRoot s then {IRoot n} else {}) \<union>
     (if ms_fromRepo s \<noteq> None then {IFrom n} else {})"

definition items :: "solver \<Rightarrow> item set" where
  "items S = (\<Union>n \<in> dom (st S). pitems n (the (st S n)))"

definition universe :: "DependencySpec set \<Rightarrow> item set" where
  "universe U = (let N = ds_name ` U; C = versionConstraint ` U in
     IPkg ` N \<union> (\<lambda>(n, c). ICon n c) ` (N \<times> C) \<union> IRoot ` N \<union> IFrom ` N)"

lemma finite_universe: "finite U \<Longrightarrow> finite (universe U)"
  by (simp add: universe_def Let_def)

lemma items_iff: "x \<in> items S \<longleftrightarrow> (\<exists>n s. st S n = Some s \<and> x \<in> pitems n s)"
  by (force simp: items_def)

fun item_pkg :: "item \<Rightarrow> string" where
  "item_pkg (IPkg n) = n"
| "item_pkg (ICon n c) = n"
| "item_pkg (IRoot n) = n"
| "item_pkg (IFrom n) = n"

lemma pitems_pkg: "x \<in> pitems n s \<Longrightarrow> item_pkg x = n"
  by (auto simp: pitems_def split: if_splits)

lemma items_own: "x \<in> items S \<longleftrightarrow> (\<exists>s. st S (item_pkg x) = Some s \<and> x \<in> pitems (item_pkg x) s)"
  unfolding items_iff using pitems_pkg by metis

lemma merge_shape:
  assumes "merge_constraint n c pin r ins s = Inr (ch, s')"
  shows "set (constraints s') = insert c (set (constraints s))"
    and "directRoot s' = (directRoot s \<or> r)"
    and "ms_fromRepo s' = (if ms_fromRepo s = None then pin else ms_fromRepo s)"
    and "ch \<longrightarrow> ins \<or> c \<notin> set (constraints s) \<or> (r \<and> \<not> directRoot s) \<or> (ms_fromRepo s = None \<and> pin \<noteq> None)"
  using assms
  by (auto simp: merge_constraint_def Let_def split: option.splits if_splits)

lemma merge_pitems:
  assumes "merge_constraint n c pin r ins s = Inr (ch, s')"
  shows "pitems n s \<subseteq> pitems n s'" and "pitems n s' \<subseteq> pitems n s \<union> {ICon n c, IRoot n, IFrom n}"
    and "ch \<and> \<not> ins \<longrightarrow> pitems n s' \<noteq> pitems n s"
proof -
  note m = merge_shape [OF assms]
  show "pitems n s \<subseteq> pitems n s'" by (auto simp: pitems_def m)
  show "pitems n s' \<subseteq> pitems n s \<union> {ICon n c, IRoot n, IFrom n}" by (auto simp: pitems_def m)
  have "ICon n c \<in> pitems n s \<longleftrightarrow> c \<in> set (constraints s)" "IRoot n \<in> pitems n s \<longleftrightarrow> directRoot s"
    "IFrom n \<in> pitems n s \<longleftrightarrow> ms_fromRepo s \<noteq> None" for s by (auto simp: pitems_def)
  then show "ch \<and> \<not> ins \<longrightarrow> pitems n s' \<noteq> pitems n s"
    using m by (metis insertCI)
qed

lemma addConstraint_items:
  assumes a: "addConstraint om n c pin r S = Inr (ch, S')" and "items S \<subseteq> universe U"
    and d: "d \<in> U" "ds_name d = n" "versionConstraint d = c"
  shows "items S \<subseteq> items S'" and "items S' \<subseteq> universe U" and "ch \<longrightarrow> items S \<subset> items S'"
proof -
  define s where "s = (case st S n of None \<Rightarrow> first_state om n | Some s \<Rightarrow> s)"
  from a obtain s' where m: "merge_constraint n c pin r (st S n = None) s = Inr (ch, s')"
    and S': "st S' = (st S)(n \<mapsto> s')"
    by (auto simp: addConstraint_def Let_def s_def elim!: bindE_Inr_cases)
  note mp = merge_pitems [OF m]
  have sub: "pitems n t \<subseteq> pitems n s'" if "st S n = Some t" for t using mp(1) that by (simp add: s_def)
  show i: "items S \<subseteq> items S'"
  proof
    fix x assume "x \<in> items S"
    then obtain m t where t: "st S m = Some t" "x \<in> pitems m t" by (auto simp: items_iff)
    show "x \<in> items S'"
    proof (cases "m = n")
      case True with t sub have "x \<in> pitems n s'" by blast
      then show ?thesis by (auto simp: items_iff S')
    next
      case False with t have "st S' m = Some t" by (simp add: S')
      with t(2) show ?thesis by (auto simp: items_iff)
    qed
  qed
  have new: "{IPkg n, ICon n c, IRoot n, IFrom n} \<subseteq> universe U"
    using d by (auto simp: universe_def Let_def)
  have "pitems n s \<subseteq> universe U"
  proof (cases "st S n")
    case None
    then have "s = first_state om n" by (simp add: s_def)
    moreover have "ms_fromRepo (first_state om n) = None"
      by (simp add: first_state_def fresh_state_def Let_def split: option.splits)
    ultimately have "pitems n s = {IPkg n}" by (simp add: pitems_def)
    with new show ?thesis by simp
  next
    case (Some t)
    then have "s = t" by (simp add: s_def)
    with Some have "pitems n s \<subseteq> items S" unfolding items_iff subset_iff by blast
    with assms(2) show ?thesis by blast
  qed
  with mp(2) new have "pitems n s' \<subseteq> universe U" by blast
  then show "items S' \<subseteq> universe U"
    using assms(2) by (auto simp: items_iff S' subset_iff split: if_splits)
  show "ch \<longrightarrow> items S \<subset> items S'"
  proof
    assume ch
    have "\<exists>x. x \<in> items S' \<and> x \<notin> items S"
    proof (cases "st S n")
      case None
      then show ?thesis by (intro exI [of _ "IPkg n"]) (simp add: items_own S' pitems_def)
    next
      case (Some t)
      with mp(1,3) \<open>ch\<close> obtain x where x: "x \<in> pitems n s'" "x \<notin> pitems n t" by (auto simp: s_def)
      moreover from x(1) have "item_pkg x = n" by (rule pitems_pkg)
      ultimately show ?thesis using Some by (intro exI [of _ x]) (simp add: items_own S')
    qed
    with i show "items S \<subset> items S'" by blast
  qed
qed

lemma add_all_items:
  "add_all om r ds anyS = Inr anyS' \<Longrightarrow> items (snd anyS) \<subseteq> universe U \<Longrightarrow> set ds \<subseteq> U \<Longrightarrow>
   items (snd anyS) \<subseteq> items (snd anyS') \<and> items (snd anyS') \<subseteq> universe U \<and>
   (fst anyS' \<longrightarrow> fst anyS \<or> items (snd anyS) \<subset> items (snd anyS'))"
proof (induction ds arbitrary: anyS)
  case (Cons d ds)
  show ?case
  proof (cases "versionConstraint d = []")
    case False
    obtain ch S1 where a: "addConstraint om (ds_name d) (versionConstraint d) (fromRepo d) r (snd anyS) = Inr (ch, S1)"
      and rest: "add_all om r ds (fst anyS \<or> ch, S1) = Inr anyS'"
      by (rule add_all_Cons [OF Cons.prems(1) False])
    have "d \<in> U" using Cons.prems(3) by simp
    note i = addConstraint_items [OF a Cons.prems(2) this refl refl]
    from Cons.IH [OF rest] i Cons.prems(3) show ?thesis by auto
  qed (use Cons in \<open>simp add: add_all_skip\<close>)
qed (simp add: add_all_Nil)

text \<open>What the environment promises: its operations return, the versions it lists are numeric,
  and every manifest that it can serve declares dependencies from \<open>U\<close> only.\<close>

definition bounded_manifest :: "('w, 'v, 'o) env \<Rightarrow> DependencySpec set \<Rightarrow> string \<Rightarrow> bool" where
  "bounded_manifest E U m \<longleftrightarrow> (\<forall>label ds. load_children E label m = Inr ds \<longrightarrow> set ds \<subseteq> U)"

definition repo_ok :: "('w, 'v, 'o) env \<Rightarrow> DependencySpec set \<Rightarrow> 'w repository \<Rightarrow> bool" where
  "repo_ok E U r \<longleftrightarrow> (\<forall>n v w. listVersions r n w \<noteq> None \<and> fetch r n v w \<noteq> None \<and>
     fetchManifestJson r n v w \<noteq> None \<and> releaseMetadataJson r n v w \<noteq> None) \<and>
     (\<forall>n w vs w'. listVersions r n w = Some (Inr vs, w') \<longrightarrow> (\<forall>v \<in> set vs. numeric_version v)) \<and>
     (\<forall>n v w m w'. fetchManifestJson r n v w = Some (Inr (Some m), w') \<longrightarrow> bounded_manifest E U m)"

definition env_ok :: "('w, 'v, 'o) env \<Rightarrow> DependencySpec set \<Rightarrow> string set \<Rightarrow> bool" where
  "env_ok E U C \<longleftrightarrow> (\<forall>r \<in> set (repos E). repo_ok E U r) \<and>
     (\<forall>n u f s. repo_ok E U (gitRepository E n u f s)) \<and>
     (\<forall>p w. cacheInsert E p w \<noteq> None) \<and> (\<forall>r n v p m w. ollaWriteVerified E r n v p m w \<noteq> None) \<and>
     (\<forall>p w b. readBinary E p w = Some b \<longrightarrow> bounded_manifest E U b \<and>
        (\<forall>n v. declared_identity E n p b = Inr v \<longrightarrow> numeric_version v)) \<and>
     (\<forall>c \<in> C. \<forall>v. numeric_version v \<longrightarrow> versionSatisfies v c \<noteq> None)"

definition pick_ok :: "('w, 'v, 'o) env \<Rightarrow> DependencySpec set \<Rightarrow> ('w, error, MvsPick) prog \<Rightarrow> 'w \<Rightarrow> bool" where
  "pick_ok E U p w \<longleftrightarrow> p w \<noteq> None \<and> (\<forall>pk w'. p w = Some (Inr pk, w') \<longrightarrow>
     numeric_version (pk_version pk) \<and> bounded_manifest E U (pk_manifestJson pk))"

lemma repo_okD:
  assumes "repo_ok E U r"
  shows "listVersions r n w \<noteq> None" "fetch r n v w \<noteq> None" "fetchManifestJson r n v w \<noteq> None"
    "releaseMetadataJson r n v w \<noteq> None"
    and "listVersions r n w = Some (Inr vs, w') \<Longrightarrow> x \<in> set vs \<Longrightarrow> numeric_version x"
    and "fetchManifestJson r n v w = Some (Inr (Some m), w') \<Longrightarrow> bounded_manifest E U m"
  using assms unfolding repo_ok_def by blast+

lemma env_okD:
  assumes "env_ok E U C"
  shows "r \<in> set (repos E) \<Longrightarrow> repo_ok E U r" "repo_ok E U (gitRepository E n u f s)"
    "cacheInsert E p w \<noteq> None" "ollaWriteVerified E rt n v p m w \<noteq> None"
    and "readBinary E p w = Some b \<Longrightarrow> bounded_manifest E U b"
    and "readBinary E p w = Some b \<Longrightarrow> declared_identity E n p b = Inr v \<Longrightarrow> numeric_version v"
    and "c \<in> C \<Longrightarrow> numeric_version v \<Longrightarrow> versionSatisfies v c \<noteq> None"
  using assms unfolding env_ok_def by blast+

lemma bounded_manifest_Nil [simp]: "bounded_manifest E U []"
  by (simp add: bounded_manifest_def load_children_def)

lemma sidecar_bounded:
  assumes "repo_ok E U r" and "fetchManifestJson r n v w = Some (Inr sidecar, w')"
  shows "bounded_manifest E U (str_or sidecar [])"
  using assms repo_okD(6) [OF assms(1)] by (cases sidecar) (simp_all add: str_or_def)

definition returns :: "('w, 'e, 'a) prog \<Rightarrow> bool" where
  "returns p \<longleftrightarrow> (\<forall>w. p w \<noteq> None)"

lemma returns_bindP: "returns m \<Longrightarrow> (\<And>x. returns (f x)) \<Longrightarrow> returns (bindP m f)"
  unfolding returns_def by (intro allI bindP_total) auto

lemma returns_basic: "returns (retP x)" "returns (failP e)" "returns (liftE r)" "returns (readP f)" "returns (checkP b e)"
  by (simp_all add: returns_def)

lemma take_version_ok:
  assumes "env_ok E U C" "repo_ok E U r" "numeric_version v"
  shows "pick_ok E U (take_version E olla name r v) w"
proof -
  have tot: "returns (fetch r n v)" "returns (fetchManifestJson r n v)" "returns (releaseMetadataJson r n v)"
    "returns (cacheInsert E p)" "returns (ollaWriteVerified E q n v p m)" for n v p q m
    unfolding returns_def using repo_okD(2-4) [OF assms(2)] env_okD(3,4) [OF assms(1)] by blast+
  have wf: "returns (writeFile E p b)" for p b by (simp add: returns_def writeFile_def split: prod.splits)
  have "returns (case m of None \<Rightarrow> retP () | Some b \<Rightarrow> writeFile E (g b) b)" for m g
    using wf returns_basic(1) by (cases m) simp_all
  then have wt: "returns (write_through E olla r name pk)" for pk
    unfolding write_through_def by (simp add: returns_bindP tot returns_basic)
  have "returns (take_version E olla name r v)"
    unfolding take_version_def Let_def by (intro returns_bindP tot wt returns_basic)
  then have "take_version E olla name r v w \<noteq> None" by (simp add: returns_def)
  moreover have "numeric_version (pk_version pk) \<and> bounded_manifest E U (pk_manifestJson pk)"
    if "take_version E olla name r v w = Some (Inr pk, w')" for pk w'
    using that assms(3) sidecar_bounded [OF assms(2)]
    by (auto simp: take_version_def Let_def elim!: bindP_Inr)
  ultimately show ?thesis by (simp add: pick_ok_def)
qed

lemma lowest_returns:
  assumes "\<forall>v \<in> set vs. numeric_version v" and "\<forall>v \<in> set vs. \<forall>c \<in> set cs. versionSatisfies v c \<noteq> None"
  shows "lowestSatisfyingAll vs cs \<noteq> None"
proof -
  obtain ys where "sort_by version_less vs = Some ys" "sorted_wrt numeric_order.cmp_le ys"
    using numeric_order.sort_by_sorted [OF assms(1)] by (auto simp: version_less_cmp_lt)
  with lowest_of_sorted [OF this assms(2)] show ?thesis by (auto simp: lowestSatisfyingAll_def)
qed

lemma pick_in_ok:
  assumes "env_ok E U C" and "\<forall>r \<in> set rs. repo_ok E U r" and "set cs \<subseteq> C"
  shows "pick_ok E U (pick_in E olla name cs pin rs) w"
  using assms(2)
proof (induction rs arbitrary: w)
  case Nil
  then show ?case by (simp add: pick_ok_def)
next
  case (Cons r rs w)
  show ?case
  proof (cases "pin \<noteq> None \<and> Some (r_name r) \<noteq> pin")
    case True
    then have "pick_in E olla name cs pin (r # rs) = pick_in E olla name cs pin rs" by simp
    with Cons show ?thesis by simp
  next
    case False
    have r: "repo_ok E U r" using Cons.prems by simp
    have step: "lowestSatisfyingAll vs cs \<noteq> None \<and> (\<forall>v. lowestSatisfyingAll vs cs = Some v \<longrightarrow>
        pick_ok E U (if v = [] then pick_in E olla name cs pin rs else take_version E olla name r v) w1)"
      if l: "listVersions r name w = Some (Inr vs, w1)" for vs w1
    proof -
      have num: "\<forall>v \<in> set vs. numeric_version v" using repo_okD(5) [OF r l] by blast
      then have "lowestSatisfyingAll vs cs \<noteq> None"
        using env_okD(7) [OF assms(1)] assms(3) by (intro lowest_returns) blast+
      moreover have "pick_ok E U (if v = [] then pick_in E olla name cs pin rs else take_version E olla name r v) w1"
        if "lowestSatisfyingAll vs cs = Some v" for v
        using Cons take_version_ok [OF assms(1) r] lowest_sound(1) [OF that] num by auto
      ultimately show ?thesis by blast
    qed
    have e: "pick_in E olla name cs pin (r # rs) w = bindP (listVersions r name) (\<lambda>versions.
        bindP (liftO (lowestSatisfyingAll versions cs)) (\<lambda>v.
        if v = [] then pick_in E olla name cs pin rs else take_version E olla name r v)) w"
      by (simp only: pick_in.simps(2) if_not_P [OF False])
    have "listVersions r name w \<noteq> None" by (rule repo_okD(1) [OF r])
    then have "pick_in E olla name cs pin (r # rs) w \<noteq> None"
      unfolding e using step by (intro bindP_total) (auto simp: pick_ok_def split: if_splits)
    moreover have "numeric_version (pk_version pk) \<and> bounded_manifest E U (pk_manifestJson pk)"
      if "pick_in E olla name cs pin (r # rs) w = Some (Inr pk, w')" for pk w'
    proof -
      from that obtain vs w1 v where "listVersions r name w = Some (Inr vs, w1)"
        "lowestSatisfyingAll vs cs = Some v"
        "(if v = [] then pick_in E olla name cs pin rs else take_version E olla name r v) w1 = Some (Inr pk, w')"
        unfolding e by (auto elim!: bindP_Inr)
      with step show ?thesis by (metis pick_ok_def)
    qed
    ultimately show ?thesis unfolding pick_ok_def by blast
  qed
qed


lemma returns_if: "returns p \<Longrightarrow> returns q \<Longrightarrow> returns (if b then p else q)"
  by simp

lemma path_pick_ok:
  assumes "env_ok E U C" shows "pick_ok E U (pickFromPathOverride E name root) w"
proof -
  have ci: "returns (cacheInsert E p)" for p using env_okD(3) [OF assms] by (simp add: returns_def)
  have c: "returns (case b of None \<Rightarrow> failP e | Some x \<Rightarrow> g x)" if "\<And>x. returns (g x)" for b e and g :: "string \<Rightarrow> ('a, error, MvsPick) prog"
    using that returns_basic(2) by (cases b) simp_all
  have "returns (pickFromPathOverride E name root)"
    unfolding pickFromPathOverride_def Let_def by (intro returns_bindP returns_basic c ci)
  then have "pickFromPathOverride E name root w \<noteq> None" by (simp add: returns_def)
  moreover have "numeric_version (pk_version pk) \<and> bounded_manifest E U (pk_manifestJson pk)"
    if "pickFromPathOverride E name root w = Some (Inr pk, w')" for pk w'
    using that env_okD(5,6) [OF assms]
    by (auto simp: pickFromPathOverride_def Let_def elim!: bindP_Inr split: option.splits)
  ultimately show ?thesis unfolding pick_ok_def by blast
qed

lemma git_pick_ok:
  assumes "env_ok E U C" shows "pick_ok E U (pickFromGitOverride E name url ref) w"
proof -
  let ?r = "gitRepository E (''<git-override:'' @ name @ ''>'') url ref (stageDir E)"
  note r = env_okD(2) [OF assms, of "''<git-override:'' @ name @ ''>''" url ref "stageDir E"]
  have t: "returns (listVersions ?r n)" "returns (fetch ?r n v)" "returns (fetchManifestJson ?r n v)" "returns (cacheInsert E p)" for n v p
    using repo_okD(1-3) [OF r] env_okD(3) [OF assms] by (auto simp: returns_def)
  have c: "returns (case vs of [] \<Rightarrow> failP e | v # _ \<Rightarrow> g v)" if "\<And>x. returns (g x)" for vs e and g :: "string \<Rightarrow> ('a, error, MvsPick) prog"
    using that returns_basic(2) by (cases vs) simp_all
  have "returns (pickFromGitOverride E name url ref)"
    unfolding pickFromGitOverride_def Let_def
    by (intro returns_if returns_bindP returns_basic c t)
  then have "pickFromGitOverride E name url ref w \<noteq> None" by (simp add: returns_def)
  moreover have "numeric_version (pk_version pk) \<and> bounded_manifest E U (pk_manifestJson pk)"
    if "pickFromGitOverride E name url ref w = Some (Inr pk, w')" for pk w'
  proof -
    from that obtain v vs w1 w2 sidecar w3 where l: "listVersions ?r name w = Some (Inr (v # vs), w1)"
      and s: "fetchManifestJson ?r name v w2 = Some (Inr sidecar, w3)"
      and p: "pk_version pk = v" "pk_manifestJson pk = str_or sidecar []"
      by (auto simp: pickFromGitOverride_def Let_def elim!: bindP_Inr split: if_splits list.splits)
    show ?thesis using repo_okD(5) [OF r l] sidecar_bounded [OF r s] p by simp
  qed
  ultimately show ?thesis unfolding pick_ok_def by blast
qed

definition solve_constraints :: "DependencySpec set \<Rightarrow> OverrideSpec list \<Rightarrow> string set" where
  "solve_constraints U ovs = versionConstraint ` U \<union> (\<lambda>ov. exactIfBare (os_versionConstraint ov)) ` set ovs"

lemma split_overrides_mem:
  "split_overrides ovs om = Inr om' \<Longrightarrow> overrideMap om' n = Some ov \<Longrightarrow> ov \<in> set ovs \<or> overrideMap om n = Some ov"
  by (induction ovs om rule: split_overrides.induct) (auto split: if_splits)

lemma pick_for_ok:
  assumes E: "env_ok E U (solve_constraints U ovs)" and om: "split_overrides ovs no_overrides = Inr om"
    and wf: "solver_wf om S" and i: "items S \<subseteq> universe U" and s: "st S name = Some s"
  shows "pick_ok E U (pick_for E name s) w"
proof -
  have "c \<in> versionConstraint ` U" if "c \<in> set (constraints s)" for c
  proof -
    have "ICon name c \<in> pitems name s" using that by (simp add: pitems_def)
    with s have "ICon name c \<in> items S" unfolding items_iff by blast
    with i have "ICon name c \<in> universe U" by blast
    then show ?thesis by (auto simp: universe_def Let_def)
  qed
  moreover have "\<exists>ov \<in> set ovs. c = exactIfBare (os_versionConstraint ov)" if "overrideConstraint s = Some c" for c
  proof -
    have "overrideConstraint (first_state om name) = Some c"
      using wf s that by (auto simp: solver_wf_def ov_fields_def)
    then obtain ov where "overrideMap om name = Some ov" "c = exactIfBare (os_versionConstraint ov)"
      by (auto simp: first_state_def fresh_state_def Let_def split: option.splits)
    with split_overrides_mem [OF om] show ?thesis by (auto simp: no_overrides_def)
  qed
  ultimately have "set (effectiveConstraints s) \<subseteq> solve_constraints U ovs"
    by (fastforce simp: effectiveConstraints_def solve_constraints_def split: option.splits if_splits)
  then have "pick_ok E U (pickLowestForAll E olla name (effectiveConstraints s) pin) w" for olla pin
    unfolding pickLowestForAll_def using env_okD(1) [OF E] by (intro pick_in_ok [OF E]) auto
  then show ?thesis
    using path_pick_ok [OF E] git_pick_ok [OF E]
    by (auto simp: pick_for_def split: option.splits bool.splits)
qed

text \<open>What the iteration keeps besides its invariant, for it to end.\<close>

definition solver_bounded :: "override_maps \<Rightarrow> DependencySpec set \<Rightarrow> solver \<Rightarrow> bool" where
  "solver_bounded om U S \<longleftrightarrow> solver_inv om S \<and> items S \<subseteq> universe U \<and>
     (\<forall>n s. st S n = Some s \<longrightarrow> everPicked s \<longrightarrow> numeric_version (ms_version s))"

definition numeric_picks :: "solver \<Rightarrow> bool" where
  "numeric_picks S \<longleftrightarrow> (\<forall>n s. st S n = Some s \<longrightarrow> everPicked s \<longrightarrow> numeric_version (ms_version s))"

lemma addConstraint_numeric:
  assumes a: "addConstraint om n c pin r S = Inr (ch, S')" and num: "numeric_picks S"
  shows "numeric_picks S'"
  unfolding numeric_picks_def
proof (intro allI impI)
  fix m q assume q: "st S' m = Some q" "everPicked q"
  define s where "s = (case st S n of None \<Rightarrow> first_state om n | Some s \<Rightarrow> s)"
  from a obtain s' where mc: "merge_constraint n c pin r (st S n = None) s = Inr (ch, s')"
    and S': "st S' = (st S)(n \<mapsto> s')"
    by (auto simp: addConstraint_def Let_def s_def elim!: bindE_Inr_cases)
  have "kept s s'" by (rule merge_constraint_kept(1) [OF mc]) (simp add: s_def)
  then have k: "everPicked s' = everPicked s" "ms_version s' = ms_version s" by (auto simp: kept_def)
  show "numeric_version (ms_version q)"
  proof (cases "m = n")
    case True
    with q S' have "q = s'" by simp
    with k q(2) have e: "everPicked s" "ms_version q = ms_version s" by auto
    then have "st S n = Some s" by (auto simp: s_def split: option.splits)
    with e num show ?thesis by (simp add: numeric_picks_def)
  next
    case False
    with q S' num show ?thesis by (auto simp: numeric_picks_def)
  qed
qed

lemma add_all_numeric:
  "add_all om r ds anyS = Inr anyS' \<Longrightarrow> numeric_picks (snd anyS) \<Longrightarrow> numeric_picks (snd anyS')"
proof (induction ds arbitrary: anyS)
  case (Cons d ds)
  show ?case
  proof (cases "versionConstraint d = []")
    case False
    obtain ch S1 where a: "addConstraint om (ds_name d) (versionConstraint d) (fromRepo d) r (snd anyS) = Inr (ch, S1)"
      and rest: "add_all om r ds (fst anyS \<or> ch, S1) = Inr anyS'"
      by (rule add_all_Cons [OF Cons.prems(1) False])
    from Cons.IH [OF rest] addConstraint_numeric [OF a Cons.prems(2)] show ?thesis by simp
  qed (use Cons in \<open>simp add: add_all_skip\<close>)
qed (simp add: add_all_Nil)

lemma solver_bounded_iff:
  "solver_bounded om U S \<longleftrightarrow> solver_inv om S \<and> items S \<subseteq> universe U \<and> numeric_picks S"
  by (simp add: solver_bounded_def numeric_picks_def)

lemma items_store:
  assumes "st S name = Some s" "pitems name t = pitems name s"
  shows "items (S\<lparr>st := (st S)(name \<mapsto> t)\<rparr>) = items S"
  using assms by (intro set_eqI) (auto simp: items_own)

lemma propagate_bounded:
  assumes p: "propagate E om name (\<not> everPicked s \<or> ms_version s \<noteq> pk_version pk) (picked pk s) (any, S) = Inr (any', S')"
    and b: "solver_bounded om U S" and s: "st S name = Some s" and wp: "well_picked (picked pk s)"
    and pk: "numeric_version (pk_version pk)" "bounded_manifest E U (pk_manifestJson pk)"
  shows "solver_bounded om U S' \<and> items S \<subseteq> items S' \<and> (any' \<longrightarrow> any \<or> items S \<subset> items S')"
proof -
  from b have inv: "solver_inv om S" and i: "items S \<subseteq> universe U" and num: "numeric_picks S"
    by (auto simp: solver_bounded_iff)
  have inv': "solver_inv om S'" using propagate_inv [OF p inv s wp] by blast
  show ?thesis
  proof (cases "\<not> everPicked s \<or> ms_version s \<noteq> pk_version pk")
    case False
    with p have S': "S' = S\<lparr>st := (st S)(name \<mapsto> picked pk s)\<rparr>" "any' = any" by (auto simp: propagate_def)
    have "items S' = items S" unfolding S'(1) by (rule items_store [OF s]) (simp add: pitems_def picked_def)
    moreover have "numeric_picks S'" using num pk(1) by (auto simp: numeric_picks_def S' picked_def)
    ultimately show ?thesis using inv' i S'(2) by (simp add: solver_bounded_iff)
  next
    case True
    obtain kids where k: "load_children E (name @ ''@'' @ ms_version (picked pk s))
        (ms_manifestJson (picked pk s)) = Inr kids"
      using p True by (auto simp: propagate_def elim!: bindE_Inr_cases)
    define S1 where "S1 = S\<lparr>st := (st S)(name \<mapsto> (picked pk s)\<lparr>childDeps := kids\<rparr>)\<rparr>"
    obtain any1 S2 where a2: "add_all om False kids (any, S1) = Inr (any1, S2)"
      using p True k by (auto simp: propagate_def S1_def elim!: bindE_Inr_cases)
    have S2: "S2 = S'" and any': "any' = (any1 \<or> (case st S' name of None \<Rightarrow> False | Some t \<Rightarrow> dirty t))"
      using p True k a2 by (auto simp: propagate_def S1_def)
    have i1: "items S1 = items S"
      unfolding S1_def by (rule items_store [OF s]) (simp add: pitems_def picked_def)
    have "numeric_picks S1" using num pk(1) by (auto simp: numeric_picks_def S1_def picked_def)
    with add_all_numeric [OF a2] S2 have n': "numeric_picks S'" by simp
    have "set kids \<subseteq> U" using k pk(2) unfolding bounded_manifest_def by (simp add: picked_def)
    from add_all_items [OF a2 _ this] i i1 S2
    have it: "items S \<subseteq> items S'" "items S' \<subseteq> universe U" "any1 \<longrightarrow> any \<or> items S \<subset> items S'" by auto
    have "any1" if "\<exists>t. st S' name = Some t \<and> dirty t"
    proof (rule ccontr)
      assume "\<not> any1"
      with add_all_ext [OF a2] S2 have "S' = S1" by simp
      with that show False by (auto simp: S1_def picked_def)
    qed
    with any' it(3) have "any' \<longrightarrow> any \<or> items S \<subset> items S'" by (auto split: option.splits)
    with inv' it n' show ?thesis by (simp add: solver_bounded_iff)
  qed
qed

lemma mvs_visit_ok:
  assumes E: "env_ok E U (solve_constraints U ovs)" and om: "split_overrides ovs no_overrides = Inr om"
    and b: "solver_bounded om U S"
  shows "\<exists>r w'. mvs_visit E om name (any, S) w = Some (r, w') \<and>
    (\<forall>any' S'. r = Inr (any', S') \<longrightarrow> solver_bounded om U S' \<and> items S \<subseteq> items S' \<and>
       (any' \<longrightarrow> any \<or> items S \<subset> items S'))"
proof (cases "\<exists>s. st S name = Some s \<and> dirty s")
  case False
  then have "mvs_visit E om name (any, S) w = Some (Inr (any, S), w)"
    by (auto simp: mvs_visit_def retP_def split: option.splits)
  with b show ?thesis by auto
next
  case True
  then obtain s where s: "st S name = Some s" "dirty s" by blast
  have wf: "solver_wf om S" "items S \<subseteq> universe U" using b by (auto simp: solver_bounded_iff solver_inv_def)
  note ok = pick_for_ok [OF E om wf s(1)]
  let ?p = "\<lambda>pk. propagate E om name (\<not> everPicked s \<or> ms_version s \<noteq> pk_version pk) (picked pk s) (any, S)"
  have v: "mvs_visit E om name (any, S) w = bindP (pick_for E name s) (\<lambda>pk. liftE (?p pk)) w"
    using s by (simp add: mvs_visit_def)
  have "mvs_visit E om name (any, S) w \<noteq> None"
    unfolding v using ok by (intro bindP_total) (auto simp: pick_ok_def)
  then obtain r w' where r: "mvs_visit E om name (any, S) w = Some (r, w')" by auto
  have "solver_bounded om U S' \<and> items S \<subseteq> items S' \<and> (any' \<longrightarrow> any \<or> items S \<subset> items S')"
    if "r = Inr (any', S')" for any' S'
  proof -
    from r that v obtain pk w1 where pk: "pick_for E name s w = Some (Inr pk, w1)" and p: "?p pk = Inr (any', S')"
      by (auto elim!: bindP_Inr)
    have "numeric_version (pk_version pk)" "bounded_manifest E U (pk_manifestJson pk)"
      using ok [of w] pk unfolding pick_ok_def by blast+
    from propagate_bounded [OF p b s(1) pick_for_sound [OF pk] this] show ?thesis .
  qed
  with r show ?thesis by blast
qed


lemma order_bound:
  assumes "solver_bounded om U S" and "finite U"
  shows "length (insertionOrder S) \<le> card (ds_name ` U)"
proof -
  have wf: "distinct (insertionOrder S)" "set (insertionOrder S) = dom (st S)"
    using assms(1) by (auto simp: solver_bounded_def solver_inv_def solver_wf_def)
  have "n \<in> ds_name ` U" if "st S n = Some s" for n s
  proof -
    have "IPkg n \<in> pitems n s" by (simp add: pitems_def)
    with that have "IPkg n \<in> items S" unfolding items_iff by blast
    with assms(1) have "IPkg n \<in> universe U" by (auto simp: solver_bounded_def)
    then show ?thesis by (auto simp: universe_def Let_def)
  qed
  with wf have "set (insertionOrder S) \<subseteq> ds_name ` U" by auto
  then have "card (set (insertionOrder S)) \<le> card (ds_name ` U)" using assms(2) by (simp add: card_mono)
  with wf(1) show ?thesis by (simp add: distinct_card)
qed

lemma mvs_pass_returns:
  assumes E: "env_ok E U (solve_constraints U ovs)" and om: "split_overrides ovs no_overrides = Inr om"
    and fin: "finite U"
  shows "solver_bounded om U S \<Longrightarrow> \<exists>r w'. mvs_pass E om i (any, S) w = Some (r, w') \<and>
    (\<forall>any' S'. r = Inr (any', S') \<longrightarrow> solver_bounded om U S' \<and> items S \<subseteq> items S' \<and>
       (any' \<longrightarrow> any \<or> items S \<subset> items S'))"
proof (induction "card (ds_name ` U) - i" arbitrary: i any S w rule: less_induct)
  case less
  show ?case
  proof (cases "i < length (insertionOrder S)")
    case False
    then show ?thesis using less.prems by (subst mvs_pass.simps) (simp add: retP_def)
  next
    case True
    with order_bound [OF less.prems fin] have lt: "card (ds_name ` U) - (i + 1) < card (ds_name ` U) - i" by simp
    let ?n = "insertionOrder S ! i"
    obtain r w1 where v: "mvs_visit E om ?n (any, S) w = Some (r, w1)"
      and rv: "\<And>any' S'. r = Inr (any', S') \<Longrightarrow> solver_bounded om U S' \<and> items S \<subseteq> items S' \<and>
        (any' \<longrightarrow> any \<or> items S \<subset> items S')"
      using mvs_visit_ok [OF E om less.prems, of ?n any w] by blast
    have eq: "mvs_pass E om i (any, S) w =
        bindP (mvs_visit E om ?n (any, S)) (\<lambda>anyS'. mvs_pass E om (i + 1) anyS') w"
      using True by (subst mvs_pass.simps) simp
    show ?thesis
    proof (cases r)
      case (Inl e)
      then have "mvs_pass E om i (any, S) w = Some (Inl e, w1)" unfolding eq by (simp add: bindP_def v)
      then show ?thesis by blast
    next
      case (Inr p)
      obtain any1 S1 where p: "p = (any1, S1)" by (cases p)
      from rv Inr p have r1: "solver_bounded om U S1" "items S \<subseteq> items S1" "any1 \<longrightarrow> any \<or> items S \<subset> items S1"
        by auto
      have e2: "mvs_pass E om i (any, S) w = mvs_pass E om (i + 1) (any1, S1) w1"
        unfolding eq by (simp add: bindP_def v Inr p)
      obtain r' w' where h: "mvs_pass E om (i + 1) (any1, S1) w1 = Some (r', w')"
        and hr: "\<forall>any' S'. r' = Inr (any', S') \<longrightarrow> solver_bounded om U S' \<and> items S1 \<subseteq> items S' \<and>
          (any' \<longrightarrow> any1 \<or> items S1 \<subset> items S')"
        using less.hyps [OF lt r1(1), of any1 w1] by (elim exE conjE)
      have "solver_bounded om U S' \<and> items S \<subseteq> items S' \<and> (any' \<longrightarrow> any \<or> items S \<subset> items S')"
        if "r' = Inr (any', S')" for any' S'
        using hr [rule_format, OF that] r1(2,3)
        by (metis order_trans order_less_le_trans order_le_less_trans)
      with h show ?thesis unfolding e2 by (intro exI conjI) (assumption, simp)
    qed
  qed
qed

lemma mvs_loop_returns:
  assumes E: "env_ok E U (solve_constraints U ovs)" and om: "split_overrides ovs no_overrides = Inr om"
    and fin: "finite U"
  shows "solver_bounded om U S \<Longrightarrow> \<exists>r w'. mvs_loop E om S w = Some (r, w') \<and>
    (\<forall>S'. r = Inr S' \<longrightarrow> solver_bounded om U S')"
proof (induction "card (universe U - items S)" arbitrary: S w rule: less_induct)
  case less
  define S0 where "S0 = S\<lparr>mvsIterations := mvsIterations S + 1\<rparr>"
  have "solver_bounded om U S0" using less.prems
    by (simp add: solver_bounded_def solver_inv_def solver_wf_def clean_picked_def closed_def has_constraint_def items_def S0_def)
  from mvs_pass_returns [OF E om fin this, of 0 False w] obtain r w1
    where p: "mvs_pass E om 0 (False, S0) w = Some (r, w1)"
    and rp0: "\<forall>any' S'. r = Inr (any', S') \<longrightarrow> solver_bounded om U S' \<and> items S0 \<subseteq> items S' \<and>
       (any' \<longrightarrow> False \<or> items S0 \<subset> items S')"
    by (elim exE conjE)
  have rp: "solver_bounded om U S' \<and> (any' \<longrightarrow> items S0 \<subset> items S')" if "r = Inr (any', S')" for any' S'
    using rp0 [rule_format, OF that] by simp
  have eq: "mvs_loop E om S w = bindP (mvs_pass E om 0 (False, S0))
      (\<lambda>anyS' w'. if fst anyS' then mvs_loop E om (snd anyS') w' else retP (snd anyS') w') w"
    unfolding S0_def by (subst mvs_loop.simps) (rule refl)
  show ?case
  proof (cases r)
    case (Inl e)
    then have "mvs_loop E om S w = Some (Inl e, w1)" unfolding eq by (simp add: bindP_def p)
    then show ?thesis by blast
  next
    case (Inr a)
    obtain any1 S1 where a: "a = (any1, S1)" by (cases a)
    with rp Inr have b: "solver_bounded om U S1" "any1 \<longrightarrow> items S0 \<subset> items S1" by auto
    show ?thesis
    proof (cases any1)
      case True
      have "items S0 = items S" by (simp add: items_def S0_def)
      with True b have "universe U - items S1 \<subset> universe U - items S" by (auto simp: solver_bounded_def)
      then have lt: "card (universe U - items S1) < card (universe U - items S)"
        using finite_universe [OF fin] by (intro psubset_card_mono) auto
      have "mvs_loop E om S w = mvs_loop E om S1 w1" unfolding eq using True by (simp add: bindP_def p Inr a)
      with less.hyps [OF lt b(1), of w1] show ?thesis by simp
    next
      case False
      then have "mvs_loop E om S w = Some (Inr S1, w1)" unfolding eq by (simp add: bindP_def p Inr a retP_def)
      with b show ?thesis by auto
    qed
  qed
qed

lemma audit_returns:
  assumes E: "env_ok E U (solve_constraints U ovs)" and b: "solver_bounded om U S"
    and nd: "\<forall>n s. st S n = Some s \<longrightarrow> \<not> dirty s"
  shows "returns (audit E S names)"
proof (induction names)
  case Nil
  then show ?case by (simp add: returns_basic)
next
  case (Cons n names)
  show ?case
  proof (cases "st S n")
    case None
    then have "audit E S (n # names) = audit E S names" by simp
    with Cons show ?thesis by simp
  next
    case (Some s)
    have "everPicked s" using b nd Some by (auto simp: solver_bounded_def solver_inv_def clean_picked_def well_picked_def)
    then have num: "numeric_version (ms_version s)" using b Some by (auto simp: solver_bounded_def)
    have "set (constraints s) \<subseteq> solve_constraints U ovs"
    proof
      fix c assume "c \<in> set (constraints s)"
      then have "ICon n c \<in> pitems n s" by (simp add: pitems_def)
      with Some have "ICon n c \<in> items S" unfolding items_iff by blast
      with b have "ICon n c \<in> universe U" by (auto simp: solver_bounded_def)
      then show "c \<in> solve_constraints U ovs" by (auto simp: universe_def Let_def solve_constraints_def)
    qed
    then have ok: "pick_ok E U (pickLowestForAll E [] n (constraints s) pin) w" for pin w
      unfolding pickLowestForAll_def using env_okD(1) [OF E] by (intro pick_in_ok [OF E]) auto
    have "audit_one E n s w \<noteq> None" for w
    proof -
      from ok [of "ms_fromRepo s" w] obtain r w1
        where p: "pickLowestForAll E [] n (constraints s) (ms_fromRepo s) w = Some (r, w1)"
        and np: "\<And>pk. r = Inr pk \<Longrightarrow> numeric_version (pk_version pk)" by (auto simp: pick_ok_def)
      show ?thesis
      proof (cases "overridden s \<and> constraints s \<noteq> []")
        case False
        then show ?thesis by (auto simp: audit_one_def)
      next
        case ov: True
        show ?thesis
        proof (cases r)
          case (Inl e)
          with ov show ?thesis by (simp add: audit_one_def p retP_def)
        next
          case (Inr pk)
          have "bindP (liftO (compareMajor (ms_version s) (pk_version pk))) (\<lambda>c. checkP (P c) e) w1 \<noteq> None" for P e
            using compareMajor_numeric [OF num np [OF Inr]] by (intro bindP_total) auto
          with ov Inr show ?thesis by (auto simp: audit_one_def p)
        qed
      qed
    qed
    then have "returns (audit_one E n s)" by (simp add: returns_def)
    with Cons Some show ?thesis by (simp add: returns_bindP)
  qed
qed

text \<open>C2: The solver ends. Let the repositories, the git overrides and the path overrides
  offer numeric versions only, with manifests whose dependencies are among finitely many, let
  the constraints be ones that no numeric version makes throw, and let the operations of the
  environment return; then so does the resolution, with a graph or an error, for every state of
  the world and however the answers of the environment change.\<close>

theorem resolveMvsGraph_returns:
  assumes "finite U" and "set deps \<subseteq> U" and "env_ok E U (solve_constraints U overrides)"
  shows "\<exists>r w'. resolveMvsGraph E deps overrides w = Some (r, w')"
proof -
  show ?thesis
  proof (cases "split_overrides overrides no_overrides")
    case (Inl e)
    then show ?thesis by (simp add: resolveMvsGraph_def bindP_def liftE_def)
  next
    case (Inr om)
    show ?thesis
    proof (cases "add_all om True deps (False, empty_solver)")
      case (Inl e)
      with Inr show ?thesis by (simp add: resolveMvsGraph_def bindP_def liftE_def)
    next
      case a: (Inr anyS0)
      obtain b S0 where S0: "anyS0 = (b, S0)" by (cases anyS0)
      note a1 = a [unfolded S0]
      have "items empty_solver = {}" "numeric_picks empty_solver"
        by (simp_all add: items_def numeric_picks_def empty_solver_def)
      with add_all_items [OF a1 _ assms(2)] add_all_inv [OF a1, of "{}"] add_all_numeric [OF a1] empty_solver_inv
      have bd: "solver_bounded om U S0" by (simp add: solver_bounded_iff solver_inv_def)
      obtain r w1 where l: "mvs_loop E om S0 w = Some (r, w1)"
        and rl: "\<And>S. r = Inr S \<Longrightarrow> solver_bounded om U S"
        using mvs_loop_returns [OF assms(3) Inr assms(1) bd, of w] by blast
      show ?thesis
      proof (cases r)
        case (Inl e)
        then show ?thesis by (simp add: resolveMvsGraph_def bindP_def liftE_def Inr a1 l)
      next
        case r: (Inr S)
        have "\<forall>n s. st S n = Some s \<longrightarrow> \<not> dirty s"
          using mvs_loop_inv [OF l, of S w1] r bd by (simp add: solver_bounded_def)
        from audit_returns [OF assms(3) rl [OF r] this] obtain ra w2
          where "audit E S (insertionOrder S) w1 = Some (ra, w2)" by (fastforce simp: returns_def)
        then show ?thesis
          by (cases ra) (simp_all add: resolveMvsGraph_def bindP_def liftE_def retP_def Inr a1 l r)
      qed
    qed
  qed
qed


lemma bare_numeric_returns:
  assumes "numeric_version v" "numeric_version c" "bare c"
  shows "versionSatisfies v c \<noteq> None"
proof -
  have "splitCommas c = [c]" using bare_no_comma [OF assms(3)] by (simp add: splitCommas_def)
  then show ?thesis
    unfolding versionSatisfies_pieces
    using assms by (auto simp: parseAtom_bare atomMatches_def compareMajor_numeric compareVersions_pad_cmp)
qed

lemma pin_loads: "load_children pin_env label ''b1'' = Inr [dep_on ''c'' ''1.2.0'']"
  by code_simp

lemma pin_numeric:
  "numeric_version ''1.0.0''" "numeric_version ''1.2.0''" "bare ''1.0.0''" "bare ''1.2.0''"
  by code_simp+

lemma pin_env_ok:
  "env_ok pin_env {dep_on ''b'' ''1.0.0'', dep_on ''c'' ''1.2.0''}
     (solve_constraints {dep_on ''b'' ''1.0.0'', dep_on ''c'' ''1.2.0''} [])"
proof -
  let ?U = "{dep_on ''b'' ''1.0.0'', dep_on ''c'' ''1.2.0''}"
  have b: "bounded_manifest pin_env ?U ''b1''"
    by (simp add: bounded_manifest_def pin_loads)
  have "repo_ok pin_env ?U (table_repo ''r'' [(''b'', [''1.0.0'']), (''c'', [''1.2.0'', ''1.0.0''])] [(''b@1.0.0'', ''b1'')])"
    using b by (auto simp: repo_ok_def table_repo_def pin_numeric split: if_splits)
  moreover have "repo_ok pin_env ?U (table_repo n [] [])" for n
    by (simp add: repo_ok_def table_repo_def)
  moreover have "versionSatisfies v c \<noteq> None" if "c \<in> {''1.0.0'', ''1.2.0''}" "numeric_version v" for c v
    using that bare_numeric_returns pin_numeric by blast
  ultimately show ?thesis
    by (auto simp: env_ok_def pin_env_def table_env_def solve_constraints_def dep_on_def)
qed

theorem resolveMvsGraph_returns_witness:
  "\<exists>r w'. resolveMvsGraph pin_env [dep_on ''b'' ''1.0.0''] [] () = Some (r, w')"
  by (rule resolveMvsGraph_returns [OF _ _ pin_env_ok]) simp_all

lemma pin_only: "os_name pin_old \<notin> ds_name ` set [dep_on ''b'' ''1.0.0'']"
  by (simp add: pin_old_def dep_on_def)

theorem downgrades_are_audited_witness:
  "\<exists>g p S w1 q. resolveMvsGraph pin_env [dep_on ''b'' ''1.0.0''] [pin_old] () = Some (Inr g, ()) \<and>
     p \<in> set (packages g) \<and> rd_name p = ''c'' \<and>
     solved_state pin_env [dep_on ''b'' ''1.0.0''] [pin_old] () = Some (S, w1) \<and> st S ''c'' = Some q \<and>
     (constraints q = [] \<or> (\<exists>r w2. pickLowestForAll pin_env [] ''c'' (constraints q) (ms_fromRepo q) () = Some (r, w2)))"
proof -
  from pin_graph obtain g p where
    g: "resolveMvsGraph pin_env [dep_on ''b'' ''1.0.0''] [pin_old] () = Some (Inr g, ())"
    and p: "p \<in> set (packages g)" "rd_name p = ''c''" and r: "roots g = [dep_on ''b'' ''1.0.0'']"
    by (elim exE conjE) (metis list.set_intros(1,2) ResolvedDependency.select_convs(1))
  have c: "os_name pin_old = ''c''" by (simp add: pin_old_def)
  have "\<exists>S w1 q before later w2. solved_state pin_env [dep_on ''b'' ''1.0.0''] [pin_old] () = Some (S, w1) \<and>
    st S (os_name pin_old) = Some q \<and>
    (\<forall>n ks d. children g n = Some ks \<longrightarrow> d \<in> set ks \<longrightarrow> ds_name d = os_name pin_old \<longrightarrow> versionConstraint d \<in> set (constraints q)) \<and>
    insertionOrder S = before @ os_name pin_old # later \<and> audit pin_env S before w1 = Some (Inr (), w2) \<and>
    (constraints q = [] \<or>
      (\<exists>r w3. pickLowestForAll pin_env [] (os_name pin_old) (constraints q) (ms_fromRepo q) w2 = Some (r, w3) \<and>
         (\<forall>b. r = Inr b \<longrightarrow> (\<exists>c\<ge>0. compareMajor (rd_version p) (pk_version b) = Some c))))"
    by (rule downgrades_are_audited [OF g _ _ _ _ _ p(1)]) (use p r pin_only in \<open>simp_all add: pin_old_def\<close>)
  then obtain S w1 q w2 where "solved_state pin_env [dep_on ''b'' ''1.0.0''] [pin_old] () = Some (S, w1)" "st S ''c'' = Some q"
    "constraints q = [] \<or> (\<exists>r w3. pickLowestForAll pin_env [] ''c'' (constraints q) (ms_fromRepo q) w2 = Some (r, w3))"
    unfolding c by blast
  then show ?thesis using g p by (metis (full_types) old.unit.exhaust)
qed

text \<open>The sidecar of a path override is read as strict JSON, although the same file is a
  manifest and manifests may have comments: a package that loads is rejected as an override.\<close>

theorem path_override_rejects_comments:
  "declared_identity (table_env [(''{}   '', doc_of ''a'' [])] []) ''a'' ''p'' ''{}//x'' =
     Inl (NotValidJson ''a'' ''p'') \<and>
   (\<exists>m. loadManifestString (js (table_env [(''{}   '', doc_of ''a'' [])] [])) ''{}//x'' ''p'' = Inr m \<and>
     md_name (m_details m) = ''a'')"
proof
  show "declared_identity (table_env [(''{}   '', doc_of ''a'' [])] []) ''a'' ''p'' ''{}//x'' =
     Inl (NotValidJson ''a'' ''p'')"
    by code_simp
  have "case loadManifestString (js (table_env [(''{}   '', doc_of ''a'' [])] [])) ''{}//x'' ''p'' of
      Inl e \<Rightarrow> False | Inr m \<Rightarrow> md_name (m_details m) = ''a''"
    by code_simp
  then show "\<exists>m. loadManifestString (js (table_env [(''{}   '', doc_of ''a'' [])] [])) ''{}//x'' ''p'' = Inr m \<and>
     md_name (m_details m) = ''a''"
    by (auto split: sum.splits)
qed

end
