(* ===== verification/Dep_Order.thy ===== *)
theory Dep_Order
  imports Main
begin

text \<open>
  Finite dependency graphs: the contract between the components that order things by their
  dependencies (workspace members, tasks, properties) and what a graph must be for an order
  to exist. A graph is a set of nodes with the nodes that each one depends on.
\<close>

locale dependency_graph =
  fixes nodes :: "'a set" and deps :: "'a \<Rightarrow> 'a set"
  assumes finite_nodes: "finite nodes"
    and deps_closed: "i \<in> nodes \<Longrightarrow> deps i \<subseteq> nodes"
begin

definition edges :: "('a \<times> 'a) set" where
  "edges = {(i, j). i \<in> nodes \<and> j \<in> deps i}"

lemma finite_edges: "finite edges"
proof (rule finite_subset)
  show "edges \<subseteq> nodes \<times> nodes" using deps_closed by (auto simp: edges_def)
qed (simp add: finite_nodes)

lemma edges_nodes: "(i, j) \<in> edges \<Longrightarrow> i \<in> nodes \<and> j \<in> nodes"
  using deps_closed by (auto simp: edges_def)

lemma rtrancl_nodes: "(i, j) \<in> edges\<^sup>* \<Longrightarrow> i \<in> nodes \<Longrightarrow> j \<in> nodes"
  by (induction rule: rtrancl_induct) (auto dest: edges_nodes)

text \<open>A set of nodes that each depend on another of the set contains a cycle.\<close>

lemma stuck_cycle:
  assumes "S \<subseteq> nodes" "S \<noteq> {}" and stuck: "\<And>i. i \<in> S \<Longrightarrow> deps i \<inter> S \<noteq> {}"
  shows "\<not> acyclic edges"
proof
  assume "acyclic edges"
  then have "wf (edges\<inverse>)" by (rule finite_acyclic_wf_converse [OF finite_edges])
  then obtain z where z: "z \<in> S" "\<And>y. (y, z) \<in> edges\<inverse> \<Longrightarrow> y \<notin> S"
    using assms(2) by (auto simp: wf_eq_minimal)
  with stuck [OF z(1)] assms(1) show False by (auto simp: edges_def)
qed

text \<open>An order that has every dependency earlier leaves no room for a cycle.\<close>

lemma ordered_acyclic:
  assumes "\<And>i j. (i, j) \<in> edges \<Longrightarrow> pos j < (pos i :: nat)"
  shows "acyclic edges"
  using assms by (rule acyclicI_order)

text \<open>A cyclic set of dependencies keeps every order from listing its nodes.\<close>

lemma stuck_not_listed:
  assumes "\<And>k. k < length xs \<Longrightarrow> deps (xs ! k) \<subseteq> set (take k xs)"
    and stuck: "\<And>i. i \<in> S \<Longrightarrow> deps i \<inter> S \<noteq> {}"
  shows "set xs \<inter> S = {}"
proof -
  have "set (take k xs) \<inter> S = {}" if "k \<le> length xs" for k
    using that
  proof (induction k)
    case (Suc k)
    then have IH: "set (take k xs) \<inter> S = {}" and k: "k < length xs" by auto
    have "xs ! k \<notin> S" using assms(1) [OF k] IH stuck by blast
    with IH k show ?case by (simp add: take_Suc_conv_app_nth)
  qed simp
  from this [of "length xs"] show ?thesis by simp
qed

text \<open>An order that lists every node after its dependencies rules cycles out.\<close>

lemma listed_acyclic:
  assumes "nodes \<subseteq> set xs" and "\<And>k. k < length xs \<Longrightarrow> deps (xs ! k) \<subseteq> set (take k xs)"
  shows "acyclic edges"
proof -
  let ?S = "{i. (i, i) \<in> edges\<^sup>+}"
  have "deps i \<inter> ?S \<noteq> {}" if "i \<in> ?S" for i
  proof -
    from that obtain j where j: "(i, j) \<in> edges" "(j, i) \<in> edges\<^sup>*" by (auto dest: tranclD)
    then have "(j, j) \<in> edges\<^sup>+" by (meson rtrancl_into_trancl1)
    with j(1) show ?thesis by (auto simp: edges_def)
  qed
  from stuck_not_listed [OF assms(2) this] have "set xs \<inter> ?S = {}" by simp
  moreover have "?S \<subseteq> nodes" using edges_nodes by (auto dest: tranclD)
  ultimately show ?thesis using assms(1) by (auto simp: acyclic_def)
qed

end

subsection \<open>Closing a path\<close>

text \<open>Where a search along a path meets a name of the path again, the path from there on is a
  cycle.\<close>

lemma closing_cycle:
  assumes "successively (\<lambda>a b. (a, b) \<in> R) path" "distinct path" "(last path, n) \<in> R" "n \<in> set path"
  obtains body where "dropWhile (\<lambda>m. m \<noteq> n) path = n # body" "distinct (n # body)"
    "successively (\<lambda>a b. (a, b) \<in> R) (n # body @ [n])"
proof -
  obtain pre body where s: "path = pre @ n # body" "n \<notin> set pre" using assms(4) split_list_first by fast
  then have "dropWhile (\<lambda>m. m \<noteq> n) path = n # body" by (simp add: dropWhile_append)
  moreover have "distinct (n # body)" using assms(2) s by simp
  moreover have "successively (\<lambda>a b. (a, b) \<in> R) (n # body)"
    using assms(1) s by (simp add: successively_append_iff)
  then have "successively (\<lambda>a b. (a, b) \<in> R) ((n # body) @ [n])"
    using assms(3) s(1) unfolding successively_append_iff by simp
  ultimately show ?thesis using that by simp
qed

end
