(* ===== verification/Workspace_Graph.thy ===== *)
theory Workspace_Graph
  imports Dependency_Specs Dep_Order
begin

text \<open>
  Workspaces (\<open>buildtool/Workspace.h\<close>, \<open>Workspace.cpp\<close>): parsing and loading a
  root manifest with its members, the overlay of shared dependencies, discovery of the root,
  the set of members to rebuild and the build order of the members. The file system and the
  digest are a record of functions; an exception out of \<open>std::filesystem\<close> is not modelled.
\<close>

subsection \<open>Data\<close>

record WorkspaceSharedDependency =
  sd_name :: string
  sd_versionConstraint :: string

record 'o WorkspaceMember =
  wm_declaredPath :: string
  wm_absPath :: string
  wm_manifestPath :: string
  wm_manifest :: "'o Manifest"

record 'o Workspace =
  ws_rootPath :: string
  ws_manifestPath :: string
  ws_rootManifest :: "'o Manifest"
  ws_memberPatterns :: "string list"
  ws_members :: "'o WorkspaceMember list"
  ws_sharedDependencies :: "WorkspaceSharedDependency list"

text \<open>The file system. \<open>readFile\<close> is \<^term>\<open>None\<close> for a file that cannot be
  opened, \<open>absoluteEc\<close> is \<open>absolute\<close> with an error code.\<close>

record files =
  readFile :: "string \<Rightarrow> string option"
  existsFile :: "string \<Rightarrow> bool"
  absolute :: "string \<Rightarrow> string"
  absoluteEc :: "string \<Rightarrow> string option"
  weaklyCanonical :: "string \<Rightarrow> string"
  sha256Hex :: "string \<Rightarrow> string"

datatype load_error =
    CannotOpen string
  | BadManifest manifest_error

datatype workspace_complaint =
    NotAWorkspace
  | UnknownWorkspaceField string
  | MembersRequired
  | MembersNotArray
  | MemberNotString nat
  | MembersEmpty
  | SharedNotObject
  | SharedNotString string
  | NoWorkspaceBlock
  | MemberLoad string load_error
  | NestedWorkspace string
  | ShortNameClash string string string
  | CyclicMembers "string list"

datatype workspace_error =
    WorkspaceManifest load_error
  | WorkspaceError string workspace_complaint

definition loadManifestFile ::
    "('v, 'o) json \<Rightarrow> files \<Rightarrow> string \<Rightarrow> load_error + 'o Manifest" where
  "loadManifestFile J F path =
     (case readFile F path of
        None \<Rightarrow> Inl (CannotOpen path)
      | Some source \<Rightarrow>
          (case loadManifestString J source path of
             Inl e \<Rightarrow> Inl (BadManifest e)
           | Inr m \<Rightarrow> Inr m))"

subsection \<open>The \<open>workspace\<close> block\<close>

definition workspaceAllowedKeys :: "string list" where
  "workspaceAllowedKeys = [''members'', ''shared-dependencies'']"

definition absolutize :: "files \<Rightarrow> string \<Rightarrow> string \<Rightarrow> string" where
  "absolutize F path base =
     weaklyCanonical F (if is_absolute path then path else fs_join base path)"

definition parentDir :: "files \<Rightarrow> string \<Rightarrow> string" where
  "parentDir F filePath = parent_path (absolute F filePath)"

definition lastSegment :: "string \<Rightarrow> string" where
  "lastSegment dotted = (if CHR ''.'' \<in> set dotted then after_last_dot dotted else dotted)"

definition memberShortName :: "'o WorkspaceMember \<Rightarrow> string" where
  "memberShortName m =
     (let leaf = filename_of (wm_declaredPath m)
      in if leaf = [] \<or> leaf = ''.'' \<or> leaf = ''..'' then md_library (m_details (wm_manifest m))
         else leaf)"

fun read_patterns :: "('v, 'o) json \<Rightarrow> string \<Rightarrow> nat \<Rightarrow> 'v list \<Rightarrow> workspace_error + string list" where
  "read_patterns J site i [] = Inr []"
| "read_patterns J site i (v # vs) =
     (case asString J v of
        None \<Rightarrow> Inl (WorkspaceError site (MemberNotString i))
      | Some s \<Rightarrow> bindE (read_patterns J site (i + 1) vs) (\<lambda>rest. Inr (s # rest)))"

fun read_shared ::
    "('v, 'o) json \<Rightarrow> string \<Rightarrow> (string \<times> 'v) list \<Rightarrow> workspace_error + WorkspaceSharedDependency list" where
  "read_shared J site [] = Inr []"
| "read_shared J site ((k, v) # rest) =
     (case asString J v of
        None \<Rightarrow> Inl (WorkspaceError site (SharedNotString k))
      | Some s \<Rightarrow> bindE (read_shared J site rest)
          (\<lambda>ds. Inr (\<lparr>sd_name = k, sd_versionConstraint = s\<rparr> # ds)))"

definition parseWorkspace ::
    "('v, 'o) json \<Rightarrow> files \<Rightarrow> 'o Manifest \<Rightarrow> workspace_error + 'o Workspace" where
  "parseWorkspace J F root =
     (let site = m_sourcePath root; ws = m_workspaceRaw root;
          entries = (case ws of None \<Rightarrow> [] | Some ob \<Rightarrow> members J ob) in
      if \<not> m_hasWorkspace root
      then Inl (WorkspaceError (if site = [] then ''<manifest>'' else site) NotAWorkspace)
      else
     (case find (\<lambda>(k, v). k \<notin> set workspaceAllowedKeys) entries of
        Some (k, v) \<Rightarrow> Inl (WorkspaceError site (UnknownWorkspaceField k))
      | None \<Rightarrow>
     (case block_get J ws ''members'' of
        None \<Rightarrow> Inl (WorkspaceError site MembersRequired)
      | Some membersVal \<Rightarrow>
     (case asArray J membersVal of
        None \<Rightarrow> Inl (WorkspaceError site MembersNotArray)
      | Some arr \<Rightarrow>
     bindE (read_patterns J site 0 arr) (\<lambda>patterns.
     if patterns = [] then Inl (WorkspaceError site MembersEmpty)
     else
     bindE (case block_get J ws ''shared-dependencies'' of
              None \<Rightarrow> Inr []
            | Some sd \<Rightarrow>
                (case asObject J sd of
                   None \<Rightarrow> Inl (WorkspaceError site SharedNotObject)
                 | Some ob \<Rightarrow> read_shared J site (members J ob)))
       (\<lambda>shared.
          Inr \<lparr>ws_rootPath = parentDir F site, ws_manifestPath = site, ws_rootManifest = root,
               ws_memberPatterns = patterns, ws_members = [], ws_sharedDependencies = shared\<rparr>))))))"

subsection \<open>Loading the members\<close>

definition load_member ::
    "('v, 'o) json \<Rightarrow> files \<Rightarrow> string \<Rightarrow> string \<Rightarrow> string \<Rightarrow> workspace_error + 'o WorkspaceMember" where
  "load_member J F rootManifestPath rootPath pattern =
     (let memberAbs = absolutize F pattern rootPath;
          memberManifestPath = fs_join memberAbs ''cajeta.json'' in
      case loadManifestFile J F memberManifestPath of
        Inl e \<Rightarrow> Inl (WorkspaceError rootManifestPath (MemberLoad pattern e))
      | Inr mm \<Rightarrow>
          if m_hasWorkspace mm then Inl (WorkspaceError rootManifestPath (NestedWorkspace pattern))
          else Inr \<lparr>wm_declaredPath = pattern, wm_absPath = memberAbs,
                    wm_manifestPath = memberManifestPath, wm_manifest = mm\<rparr>)"

fun load_members ::
    "('v, 'o) json \<Rightarrow> files \<Rightarrow> string \<Rightarrow> string \<Rightarrow> string list \<Rightarrow> workspace_error + 'o WorkspaceMember list" where
  "load_members J F rmp rp [] = Inr []"
| "load_members J F rmp rp (p # ps) =
     bindE (load_member J F rmp rp p) (\<lambda>m. bindE (load_members J F rmp rp ps) (\<lambda>ms. Inr (m # ms)))"

fun check_short_names ::
    "string \<Rightarrow> 'o WorkspaceMember list \<Rightarrow> (string \<rightharpoonup> string) \<Rightarrow> workspace_error + unit" where
  "check_short_names rmp [] seen = Inr ()"
| "check_short_names rmp (m # ms) seen =
     (let nm = memberShortName m in
      case seen nm of
        Some first \<Rightarrow> Inl (WorkspaceError rmp (ShortNameClash first (wm_declaredPath m) nm))
      | None \<Rightarrow> check_short_names rmp ms (seen(nm \<mapsto> wm_declaredPath m)))"

definition overlay_deps ::
    "('v, 'o) json \<Rightarrow> ('v, 'o) builder \<Rightarrow> WorkspaceSharedDependency list \<Rightarrow> 'o \<Rightarrow> 'o" where
  "overlay_deps J B sds deps =
     fold (\<lambda>sd d. if get J d (sd_name sd) \<noteq> None then d
                  else objSet B d (sd_name sd) (ofString J (sd_versionConstraint sd))) sds deps"

definition overlay_member ::
    "('v, 'o) json \<Rightarrow> ('v, 'o) builder \<Rightarrow> WorkspaceSharedDependency list \<Rightarrow>
     'o WorkspaceMember \<Rightarrow> 'o WorkspaceMember" where
  "overlay_member J B sds m =
     (let settings = (case m_settingsRaw (wm_manifest m) of Some s \<Rightarrow> s | None \<Rightarrow> emptyObject B);
          deps = (case getObject J settings ''dependencies'' of Some d \<Rightarrow> d | None \<Rightarrow> emptyObject B)
      in m\<lparr>wm_manifest := (wm_manifest m)\<lparr>m_settingsRaw :=
            Some (objSet B settings ''dependencies'' (ofObject B (overlay_deps J B sds deps)))\<rparr>\<rparr>)"

definition loadWorkspace ::
    "('v, 'o) json \<Rightarrow> ('v, 'o) builder \<Rightarrow> files \<Rightarrow> string \<Rightarrow> workspace_error + 'o Workspace" where
  "loadWorkspace J B F rootManifestPath =
     (case loadManifestFile J F rootManifestPath of
        Inl e \<Rightarrow> Inl (WorkspaceManifest e)
      | Inr root \<Rightarrow>
          if \<not> m_hasWorkspace root then Inl (WorkspaceError rootManifestPath NoWorkspaceBlock)
          else
          bindE (parseWorkspace J F root) (\<lambda>ws.
          bindE (load_members J F rootManifestPath (ws_rootPath ws) (ws_memberPatterns ws)) (\<lambda>ms.
          bindE (check_short_names rootManifestPath ms Map.empty) (\<lambda>_.
          Inr (ws\<lparr>ws_members := map (overlay_member J B (ws_sharedDependencies ws)) ms\<rparr>)))))"

subsection \<open>Discovery of the root\<close>

definition is_workspace_root :: "('v, 'o) json \<Rightarrow> files \<Rightarrow> string \<Rightarrow> bool" where
  "is_workspace_root J F candidate =
     (existsFile F candidate \<and>
      (case loadManifestFile J F candidate of Inl _ \<Rightarrow> False | Inr m \<Rightarrow> m_hasWorkspace m))"

function climb :: "('v, 'o) json \<Rightarrow> files \<Rightarrow> string \<Rightarrow> string option" where
  "climb J F cur =
     (let candidate = fs_join cur ''cajeta.json'' in
      if is_workspace_root J F candidate then Some candidate
      else if parent_path cur = [] then None
      else if parent_path cur = cur then None
      else climb J F (parent_path cur))"
  by pat_completeness auto
termination
  by (relation "measure (\<lambda>(J, F, cur). length cur)") (auto intro: parent_path_shorter)

declare climb.simps [simp del]

definition discoverWorkspaceRoot :: "('v, 'o) json \<Rightarrow> files \<Rightarrow> string \<Rightarrow> string option" where
  "discoverWorkspaceRoot J F startDir =
     (case absoluteEc F startDir of
        None \<Rightarrow> None
      | Some cur \<Rightarrow> climb J F (weaklyCanonical F cur))"

subsection \<open>The dependency edges between members\<close>

text \<open>\<open>shortIdx\<close> and \<open>nameIdx\<close>: a later member overwrites an earlier one. A lookup
  that fails in \<open>nameIdx\<close> goes on in \<open>shortIdx\<close>, and its result is compared with
  \<open>nameIdx.end()\<close>: an iterator of another container. With both end iterators equal, as they
  are in the hash maps of libstdc++ and libc++, the comparison finds what is not there. The
  names looked up are the full names, then the last segment of the dependency among the short
  names: the comment of the header speaks of the \<open>library()\<close> segment of the member, which is
  not an index.\<close>

definition index_by :: "('o WorkspaceMember \<Rightarrow> string) \<Rightarrow> 'o WorkspaceMember list \<Rightarrow> (string \<rightharpoonup> nat)" where
  "index_by key ms = map_of (rev (zip (map key ms) [0..<length ms]))"

definition member_index :: "'o WorkspaceMember list \<Rightarrow> string \<Rightarrow> nat option" where
  "member_index ms name =
     (case index_by (\<lambda>m. md_name (m_details (wm_manifest m))) ms name of
        Some i \<Rightarrow> Some i
      | None \<Rightarrow> index_by memberShortName ms (lastSegment name))"

definition member_deps :: "('v, 'o) json \<Rightarrow> 'o WorkspaceMember list \<Rightarrow> nat \<Rightarrow> nat set" where
  "member_deps J ms i =
     (case parseDependencies J (wm_manifest (ms ! i)) of
        Inl _ \<Rightarrow> {}
      | Inr ds \<Rightarrow> {j \<in> set (List.map_filter (\<lambda>d. member_index ms (ds_name d)) ds). j \<noteq> i})"

subsection \<open>The members to rebuild\<close>

definition member_bytes :: "files \<Rightarrow> 'o WorkspaceMember \<Rightarrow> string" where
  "member_bytes F m = (case readFile F (wm_manifestPath m) of None \<Rightarrow> [] | Some b \<Rightarrow> b)"

text \<open>The first pass; \<open>view\<close> is the recorded checksum of each member, if there is a
  lock file.\<close>

definition drifted :: "files \<Rightarrow> (string \<rightharpoonup> string) option \<Rightarrow> 'o WorkspaceMember \<Rightarrow> bool" where
  "drifted F view m =
     (case view of
        None \<Rightarrow> True
      | Some recorded \<Rightarrow> recorded (memberShortName m) \<noteq> Some (sha256Hex F (member_bytes F m)))"

definition rebuild_step ::
    "string list \<Rightarrow> (nat \<Rightarrow> nat set) \<Rightarrow> nat \<Rightarrow> string set \<times> bool \<Rightarrow> string set \<times> bool" where
  "rebuild_step names deps i = (\<lambda>(dirty, changed).
     if names ! i \<in> dirty then (dirty, changed)
     else if \<exists>d \<in> deps i. names ! d \<in> dirty then (insert (names ! i) dirty, True)
     else (dirty, changed))"

definition rebuild_pass :: "string list \<Rightarrow> (nat \<Rightarrow> nat set) \<Rightarrow> string set \<Rightarrow> string set \<times> bool" where
  "rebuild_pass names deps dirty = fold (rebuild_step names deps) [0..<length names] (dirty, False)"

lemma rebuild_steps_mono:
  "fst s \<subseteq> fst (fold (rebuild_step names deps) is s) \<and> (snd s \<longrightarrow> snd (fold (rebuild_step names deps) is s))"
proof (induction "is" arbitrary: s)
  case (Cons i "is")
  have "fst s \<subseteq> fst (rebuild_step names deps i s) \<and> (snd s \<longrightarrow> snd (rebuild_step names deps i s))"
    by (cases s) (auto simp: rebuild_step_def)
  with Cons [of "rebuild_step names deps i s"] show ?case by auto
qed simp

lemma rebuild_steps_grow:
  "snd (fold (rebuild_step names deps) is (d, False)) \<Longrightarrow>
     (\<exists>i \<in> set is. names ! i \<notin> d \<and> names ! i \<in> fst (fold (rebuild_step names deps) is (d, False)))"
proof (induction "is" arbitrary: d)
  case (Cons i "is")
  show ?case
  proof (cases "rebuild_step names deps i (d, False) = (d, False)")
    case True
    with Cons show ?thesis by auto
  next
    case False
    then have "names ! i \<notin> d" "rebuild_step names deps i (d, False) = (insert (names ! i) d, True)"
      by (auto simp: rebuild_step_def split: if_splits)
    then show ?thesis
      using rebuild_steps_mono [of "(insert (names ! i) d, True)" names deps "is"] by auto
  qed
qed simp

function rebuild_loop :: "string list \<Rightarrow> (nat \<Rightarrow> nat set) \<Rightarrow> string set \<Rightarrow> string set" where
  "rebuild_loop names deps dirty =
     (case rebuild_pass names deps dirty of
        (dirty', changed) \<Rightarrow> if changed then rebuild_loop names deps dirty' else dirty')"
  by pat_completeness auto
termination
proof (relation "measure (\<lambda>(names, deps, dirty). card (set names - dirty))", goal_cases)
  case (2 names deps dirty dirty' changed)
  then have e: "rebuild_pass names deps dirty = (dirty', True)" by auto
  then obtain i where "i < length names" "names ! i \<notin> dirty" "names ! i \<in> dirty'"
    using rebuild_steps_grow [of names deps "[0..<length names]" dirty] by (auto simp: rebuild_pass_def)
  moreover have "dirty \<subseteq> dirty'"
    using e rebuild_steps_mono [of "(dirty, False)" names deps "[0..<length names]"] by (simp add: rebuild_pass_def)
  ultimately have "set names - dirty' \<subseteq> set names - dirty"
    and "names ! i \<in> set names - dirty" "names ! i \<notin> set names - dirty'"
    by auto
  then have "set names - dirty' \<subset> set names - dirty" by (metis psubsetI)
  then show ?case by (simp add: psubset_card_mono)
qed simp

declare rebuild_loop.simps [simp del]

definition membersNeedingRebuild ::
    "('v, 'o) json \<Rightarrow> files \<Rightarrow> 'o Workspace \<Rightarrow> (string \<rightharpoonup> string) option \<Rightarrow> string set" where
  "membersNeedingRebuild J F ws view =
     (let ms = ws_members ws
      in rebuild_loop (map memberShortName ms) (member_deps J ms)
           (set (map memberShortName (filter (drifted F view) ms))))"

subsection \<open>The build order\<close>

text \<open>Kahn's algorithm: \<open>remaining\<close> counts the dependencies not emitted yet; the first
  member in declaration order with none left comes next.\<close>

definition relax :: "nat set \<Rightarrow> nat list \<Rightarrow> nat list" where
  "relax consumers remaining =
     map (\<lambda>(c, r). if c \<in> consumers \<and> r > 0 then r - 1 else r) (zip [0..<length remaining] remaining)"

function kahn :: "nat \<Rightarrow> nat set list \<Rightarrow> nat list \<Rightarrow> bool list \<Rightarrow> nat list \<Rightarrow> nat list + nat list" where
  "kahn n reverse remaining emitted out =
     (if length out < n then
        (case find (\<lambda>i. \<not> emitted ! i \<and> remaining ! i = 0) [0..<n] of
           None \<Rightarrow> Inl (filter (\<lambda>i. \<not> emitted ! i) [0..<n])
         | Some pick \<Rightarrow>
             kahn n reverse (relax (reverse ! pick) remaining) (emitted[pick := True]) (out @ [pick]))
      else Inr out)"
  by pat_completeness auto
termination
  by (relation "measure (\<lambda>(n, reverse, remaining, emitted, out). n - length out)") auto

declare kahn.simps [simp del]

definition topologicallySortMembers ::
    "('v, 'o) json \<Rightarrow> 'o Workspace \<Rightarrow> workspace_error + 'o WorkspaceMember list" where
  "topologicallySortMembers J ws =
     (let ms = ws_members ws; n = length ms; deps = map (member_deps J ms) [0..<n];
          reverse = map (\<lambda>d. set (filter (\<lambda>i. d \<in> deps ! i) [0..<n])) [0..<n]
      in case kahn n reverse (map card deps) (replicate n False) [] of
           Inl stuck \<Rightarrow> Inl (WorkspaceError (ws_manifestPath ws)
                          (CyclicMembers (map (\<lambda>i. memberShortName (ms ! i)) stuck)))
         | Inr out \<Rightarrow> Inr (map ((!) ms) out))"


subsection \<open>The build order is an order\<close>

lemma relax_nth: "i < length r \<Longrightarrow> relax cs r ! i = (if i \<in> cs then r ! i - 1 else r ! i)"
  by (simp add: relax_def)

lemma length_relax [simp]: "length (relax cs r) = length r"
  by (simp add: relax_def)

lemma member_index_less: "member_index ms name = Some j \<Longrightarrow> j < length ms"
  by (auto simp: member_index_def index_by_def split: option.splits dest!: map_of_SomeD in_set_zipE)

lemma member_deps_less: "member_deps J ms i \<subseteq> {..<length ms}"
proof
  fix j assume "j \<in> member_deps J ms i"
  then obtain name where "member_index ms name = Some j"
    by (auto simp: member_deps_def List.map_filter_def split: sum.splits)
  then show "j \<in> {..<length ms}" by (simp add: member_index_less)
qed

interpretation workspace_members: dependency_graph "{..<length ms}" "member_deps J ms"
  for J :: "('v, 'o) json" and ms :: "'o WorkspaceMember list"
  by unfold_locales (simp_all add: member_deps_less)

text \<open>What the loop of Kahn's algorithm keeps: the emitted members are distinct, each after
  its dependencies, and \<open>remaining\<close> counts the dependencies that are not emitted.\<close>

definition kahn_inv :: "nat \<Rightarrow> (nat \<Rightarrow> nat set) \<Rightarrow> nat list \<Rightarrow> bool list \<Rightarrow> nat list \<Rightarrow> bool" where
  "kahn_inv n deps remaining emitted out \<longleftrightarrow>
     length remaining = n \<and> length emitted = n \<and> distinct out \<and> set out \<subseteq> {..<n} \<and>
     (\<forall>i < n. emitted ! i = (i \<in> set out)) \<and>
     (\<forall>i < n. remaining ! i = card (deps i - set out)) \<and>
     (\<forall>k < length out. deps (out ! k) \<subseteq> set (take k out))"

lemma kahn_step:
  assumes "kahn_inv n deps remaining emitted out" and fin: "\<And>i. finite (deps i)"
    and "pick < n" "\<not> emitted ! pick" "remaining ! pick = 0"
  shows "kahn_inv n deps (relax {i. i < n \<and> pick \<in> deps i} remaining) (emitted[pick := True]) (out @ [pick])"
proof -
  have inv: "length remaining = n" "length emitted = n" "distinct out" "set out \<subseteq> {..<n}"
      "\<And>i. i < n \<Longrightarrow> emitted ! i = (i \<in> set out)"
      "\<And>i. i < n \<Longrightarrow> remaining ! i = card (deps i - set out)"
      "\<And>k. k < length out \<Longrightarrow> deps (out ! k) \<subseteq> set (take k out)"
    using assms(1) by (simp_all add: kahn_inv_def)
  have p: "pick \<notin> set out" using inv(5) assms(3,4) by simp
  have "deps pick - set out = {}" using inv(6) assms(3,5) fin by simp
  then have pd: "deps pick \<subseteq> set out" by blast
  have "relax {i. i < n \<and> pick \<in> deps i} remaining ! i = card (deps i - set (out @ [pick]))" if "i < n" for i
  proof -
    have "deps i - set (out @ [pick]) = (deps i - set out) - {pick}" by auto
    moreover have "card ((deps i - set out) - {pick}) =
        (if pick \<in> deps i then card (deps i - set out) - 1 else card (deps i - set out))"
      using p fin by (simp add: card_Diff_singleton_if)
    ultimately show ?thesis using that inv(1,6) by (simp add: relax_nth)
  qed
  moreover have "deps ((out @ [pick]) ! k) \<subseteq> set (take k (out @ [pick]))" if "k < length (out @ [pick])" for k
    using that inv(7) [of k] pd by (cases "k < length out") (auto simp: nth_append)
  ultimately show ?thesis
    using inv(1-5) p assms(3) by (auto simp: kahn_inv_def nth_list_update)
qed

lemma kahn_result:
  assumes "kahn_inv n deps remaining emitted out" and fin: "\<And>i. finite (deps i)"
    and "reverse = map (\<lambda>d. {i. i < n \<and> d \<in> deps i}) [0..<n]"
  shows "case kahn n reverse remaining emitted out of
      Inl stuck \<Rightarrow> stuck \<noteq> [] \<and> distinct stuck \<and> set stuck \<subseteq> {..<n} \<and>
        (\<forall>i \<in> set stuck. deps i \<inter> ({..<n} \<inter> set stuck \<union> - {..<n}) \<noteq> {}) \<and>
        (\<exists>done. set done = {..<n} - set stuck \<and> (\<forall>k < length done. deps (done ! k) \<subseteq> set (take k done)))
    | Inr out' \<Rightarrow> distinct out' \<and> set out' = {..<n} \<and>
        (\<forall>k < length out'. deps (out' ! k) \<subseteq> set (take k out'))"
  using assms(1,3)
proof (induction n reverse remaining emitted out rule: kahn.induct)
  case (1 n reverse remaining emitted out)
  note inv = 1(2) [unfolded kahn_inv_def]
  show ?case
  proof (cases "length out < n")
    case less: True
    show ?thesis
    proof (cases "find (\<lambda>i. \<not> emitted ! i \<and> remaining ! i = 0) [0..<n]")
      case None
      let ?s = "filter (\<lambda>i. \<not> emitted ! i) [0..<n]"
      have r: "kahn n reverse remaining emitted out = Inl ?s"
        using less None by (simp add: kahn.simps)
      have st: "set ?s = {..<n} - set out" using inv by auto
      have "?s \<noteq> []"
      proof
        assume "?s = []"
        then have "{..<n} \<subseteq> set out" using st by auto
        then have "n \<le> card (set out)" by (metis card_lessThan card_mono List.finite_set)
        with inv less show False by (simp add: distinct_card)
      qed
      moreover have "deps i \<inter> ({..<n} \<inter> set ?s \<union> - {..<n}) \<noteq> {}" if "i \<in> set ?s" for i
      proof -
        have "remaining ! i \<noteq> 0" using None that by (auto simp: find_None_iff)
        then have "card (deps i - set out) \<noteq> 0" using that inv by simp
        then have "deps i - set out \<noteq> {}" by (metis card.empty)
        then show ?thesis unfolding st by blast
      qed
      moreover have "\<exists>done. set done = {..<n} - set ?s \<and>
          (\<forall>k < length done. deps (done ! k) \<subseteq> set (take k done))"
        by (rule exI [of _ out]) (use st inv in blast)
      moreover have "distinct ?s" "set ?s \<subseteq> {..<n}" by auto
      ultimately show ?thesis unfolding r sum.case by blast
    next
      case (Some pick)
      then have p: "pick < n" "\<not> emitted ! pick" "remaining ! pick = 0"
        by (auto simp: find_Some_iff)
      have "kahn n reverse remaining emitted out =
          kahn n reverse (relax (reverse ! pick) remaining) (emitted[pick := True]) (out @ [pick])"
        using less Some by (subst kahn.simps) simp
      moreover have "reverse ! pick = {i. i < n \<and> pick \<in> deps i}" using 1(3) p(1) by simp
      ultimately show ?thesis
        using 1(1) [OF less Some] kahn_step [OF 1(2) fin p] 1(3) by simp
    qed
  next
    case False
    have "card (set out) \<le> card {..<n}" using inv by (intro card_mono) auto
    then have "card (set out) = card {..<n}" using False inv by (simp add: distinct_card)
    then have "set out = {..<n}" using inv by (intro card_subset_eq) auto
    then show ?thesis using False inv by (simp add: kahn.simps)
  qed
qed

definition member_reverse :: "('v, 'o) json \<Rightarrow> 'o WorkspaceMember list \<Rightarrow> nat set list" where
  "member_reverse J ms =
     map (\<lambda>d. {i. i < length ms \<and> d \<in> member_deps J ms i}) [0..<length ms]"

lemma topologicallySortMembers_kahn:
  "topologicallySortMembers J ws =
     (case kahn (length (ws_members ws)) (member_reverse J (ws_members ws))
             (map (\<lambda>i. card (member_deps J (ws_members ws) i)) [0..<length (ws_members ws)])
             (replicate (length (ws_members ws)) False) [] of
        Inl stuck \<Rightarrow> Inl (WorkspaceError (ws_manifestPath ws)
                       (CyclicMembers (map (\<lambda>i. memberShortName (ws_members ws ! i)) stuck)))
      | Inr out \<Rightarrow> Inr (map ((!) (ws_members ws)) out))"
proof -
  have "map (\<lambda>d. set (filter (\<lambda>i. d \<in> map (member_deps J ms) [0..<length ms] ! i) [0..<length ms]))
      [0..<length ms] = member_reverse J ms" for ms
    unfolding member_reverse_def by (intro map_cong refl) auto
  then show ?thesis by (simp only: topologicallySortMembers_def Let_def comp_def map_map)
qed

lemma kahn_members:
  "case kahn (length ms) (member_reverse J ms) (map (\<lambda>i. card (member_deps J ms i)) [0..<length ms])
          (replicate (length ms) False) [] of
      Inl stuck \<Rightarrow> stuck \<noteq> [] \<and> distinct stuck \<and> set stuck \<subseteq> {..<length ms} \<and>
        (\<forall>i \<in> set stuck. member_deps J ms i \<inter> set stuck \<noteq> {}) \<and>
        (\<exists>done. set done = {..<length ms} - set stuck \<and>
           (\<forall>k < length done. member_deps J ms (done ! k) \<subseteq> set (take k done)))
    | Inr out \<Rightarrow> distinct out \<and> set out = {..<length ms} \<and>
        (\<forall>k < length out. member_deps J ms (out ! k) \<subseteq> set (take k out))"
proof -
  have fin: "finite (member_deps J ms i)" for i
    by (rule finite_subset [OF member_deps_less]) simp
  have "kahn_inv (length ms) (member_deps J ms) (map (\<lambda>i. card (member_deps J ms i)) [0..<length ms])
      (replicate (length ms) False) []"
    by (simp add: kahn_inv_def)
  note r = kahn_result [OF this fin, of "member_reverse J ms", unfolded member_reverse_def, OF refl]
  have "member_deps J ms i \<inter> ({..<length ms} \<inter> S \<union> - {..<length ms}) = member_deps J ms i \<inter> S" for i S
    using member_deps_less [of J ms i] by blast
  with r show ?thesis by (simp only: member_reverse_def)
qed


text \<open>C31: A build order that is returned lists every member once, each after all the other
  members that its dependencies resolve to: a dependency resolves to the member with its full
  name, else to the one whose short name is its last segment. A member that is named in
  another way, or in a manifest whose dependencies cannot be parsed, gives no edge.\<close>

theorem members_sorted_dependencies_first:
  assumes "topologicallySortMembers J ws = Inr sorted_ms"
  shows "\<exists>order. sorted_ms = map ((!) (ws_members ws)) order \<and> distinct order \<and>
      set order = {..<length (ws_members ws)} \<and>
      (\<forall>k < length order. \<forall>j \<in> member_deps J (ws_members ws) (order ! k). \<exists>l < k. order ! l = j)"
proof -
  let ?ms = "ws_members ws"
  let ?k = "kahn (length ?ms) (member_reverse J ?ms)
    (map (\<lambda>i. card (member_deps J ?ms i)) [0..<length ?ms]) (replicate (length ?ms) False) []"
  from assms obtain order where k: "?k = Inr order" and o: "sorted_ms = map ((!) ?ms) order"
    by (auto simp: topologicallySortMembers_kahn split: sum.splits)
  with kahn_members [of ?ms J] have r: "distinct order" "set order = {..<length ?ms}"
      "\<And>k. k < length order \<Longrightarrow> member_deps J ?ms (order ! k) \<subseteq> set (take k order)"
    by simp_all
  have "\<exists>l < k. order ! l = j" if "k < length order" "j \<in> member_deps J ?ms (order ! k)" for k j
  proof -
    from r(3) [OF that(1)] that(2) have "j \<in> set (take k order)" by blast
    then obtain l where "l < length (take k order)" "take k order ! l = j" by (auto simp: in_set_conv_nth)
    then show ?thesis by auto
  qed
  with o r show ?thesis by blast
qed

text \<open>The sort fails exactly when the members depend on each other in a cycle; the
  error then names members that each depend on another one of those named.\<close>

theorem sort_fails_on_cycles:
  "case topologicallySortMembers J ws of
     Inr _ \<Rightarrow> acyclic {(i, j). i < length (ws_members ws) \<and> j \<in> member_deps J (ws_members ws) i}
   | Inl e \<Rightarrow> \<not> acyclic {(i, j). i < length (ws_members ws) \<and> j \<in> member_deps J (ws_members ws) i} \<and>
       (\<exists>stuck. e = WorkspaceError (ws_manifestPath ws)
                  (CyclicMembers (map (\<lambda>i. memberShortName (ws_members ws ! i)) stuck)) \<and>
          stuck \<noteq> [] \<and> (\<forall>i \<in> set stuck. member_deps J (ws_members ws) i \<inter> set stuck \<noteq> {}))"
proof -
  let ?ms = "ws_members ws"
  let ?k = "kahn (length ?ms) (member_reverse J ?ms)
    (map (\<lambda>i. card (member_deps J ?ms i)) [0..<length ?ms]) (replicate (length ?ms) False) []"
  have E: "dependency_graph.edges {..<length ?ms} (member_deps J ?ms) = {(i, j). i < length ?ms \<and> j \<in> member_deps J ?ms i}"
    by (simp add: workspace_members.edges_def)
  show ?thesis
  proof (cases ?k)
    case (Inl stuck)
    with kahn_members [of ?ms J] have s: "stuck \<noteq> []" "set stuck \<subseteq> {..<length ?ms}"
        "\<And>i. i \<in> set stuck \<Longrightarrow> member_deps J ?ms i \<inter> set stuck \<noteq> {}"
      by simp_all
    have "set stuck \<noteq> {}" using s(1) by simp
    from workspace_members.stuck_cycle [OF s(2) this s(3)] s Inl show ?thesis
      unfolding E by (simp add: topologicallySortMembers_kahn) blast
  next
    case (Inr order)
    with kahn_members [of ?ms J] have r: "distinct order" "set order = {..<length ?ms}"
        "\<And>k. k < length order \<Longrightarrow> member_deps J ?ms (order ! k) \<subseteq> set (take k order)"
      by simp_all
    have "acyclic (dependency_graph.edges {..<length ?ms} (member_deps J ?ms))"
    proof (rule ccontr)
      assume "\<not> ?thesis"
      then obtain x where x: "(x, x) \<in> (dependency_graph.edges {..<length ?ms} (member_deps J ?ms))\<^sup>+" by (auto simp: acyclic_def)
      let ?S = "{y. (y, y) \<in> (dependency_graph.edges {..<length ?ms} (member_deps J ?ms))\<^sup>+}"
      have "member_deps J ?ms i \<inter> ?S \<noteq> {}" if "i \<in> ?S" for i
      proof -
        from that obtain j where "(i, j) \<in> dependency_graph.edges {..<length ?ms} (member_deps J ?ms)"
            "(j, i) \<in> (dependency_graph.edges {..<length ?ms} (member_deps J ?ms))\<^sup>*"
          by (auto dest: tranclD)
        then have "(j, j) \<in> (dependency_graph.edges {..<length ?ms} (member_deps J ?ms))\<^sup>+" "j \<in> member_deps J ?ms i"
          by (auto simp: workspace_members.edges_def intro: rtrancl_into_trancl1)
        then show ?thesis by blast
      qed
      from workspace_members.stuck_not_listed [OF r(3) this] x
      have "x \<notin> set order" by blast
      moreover have "x < length ?ms"
        using x by (auto dest!: tranclD simp: workspace_members.edges_def)
      ultimately show False using r(2) by simp
    qed
    then show ?thesis using Inr unfolding E by (simp add: topologicallySortMembers_kahn)
  qed
qed

subsection \<open>What is rebuilt\<close>

definition name_edges :: "string list \<Rightarrow> (nat \<Rightarrow> nat set) \<Rightarrow> (string \<times> string) set" where
  "name_edges names deps = {(names ! i, names ! d) | i d. i < length names \<and> d \<in> deps i}"

lemma rebuild_steps_within:
  assumes "fst s \<subseteq> {x. \<exists>y \<in> d0. (x, y) \<in> (name_edges names deps)\<^sup>*}" "set is \<subseteq> {..<length names}"
  shows "fst (fold (rebuild_step names deps) is s) \<subseteq> {x. \<exists>y \<in> d0. (x, y) \<in> (name_edges names deps)\<^sup>*}"
  using assms
proof (induction "is" arbitrary: s)
  case (Cons i "is")
  have e: "(names ! i, names ! d) \<in> name_edges names deps" if "d \<in> deps i" for d
    using that Cons.prems by (auto simp: name_edges_def)
  have "fst (rebuild_step names deps i s) \<subseteq> {x. \<exists>y \<in> d0. (x, y) \<in> (name_edges names deps)\<^sup>*}"
    using Cons.prems(1)
  proof -
    have "\<exists>y \<in> d0. (names ! i, y) \<in> (name_edges names deps)\<^sup>*"
      if "d \<in> deps i" "names ! d \<in> fst s" for d
      using that Cons.prems(1) e [OF that(1)] by (blast intro: converse_rtrancl_into_rtrancl)
    then show ?thesis using Cons.prems(1) by (cases s) (auto simp: rebuild_step_def)
  qed
  with Cons show ?case by simp
qed simp

lemma rebuild_steps_stop:
  "\<not> snd (fold (rebuild_step names deps) is (d, False)) \<Longrightarrow>
     fst (fold (rebuild_step names deps) is (d, False)) = d \<and>
     (\<forall>i \<in> set is. \<forall>x \<in> deps i. names ! x \<in> d \<longrightarrow> names ! i \<in> d)"
proof (induction "is")
  case (Cons i "is")
  have "rebuild_step names deps i (d, False) = (d, False)"
  proof (rule ccontr)
    assume "\<not> ?thesis"
    then have "snd (rebuild_step names deps i (d, False))" by (auto simp: rebuild_step_def split: if_splits)
    then have "snd (fold (rebuild_step names deps) is (rebuild_step names deps i (d, False)))"
      using rebuild_steps_mono by blast
    with Cons.prems show False by simp
  qed
  moreover from this have "\<forall>x \<in> deps i. names ! x \<in> d \<longrightarrow> names ! i \<in> d"
    by (auto simp: rebuild_step_def split: if_splits)
  ultimately show ?case using Cons by simp
qed simp

lemma rebuild_loop_reach:
  assumes "\<And>i. i < length names \<Longrightarrow> deps i \<subseteq> {..<length names}"
  shows "rebuild_loop names deps dirty = {x. \<exists>y \<in> dirty. (x, y) \<in> (name_edges names deps)\<^sup>*}"
  using assms
proof (induction names deps dirty rule: rebuild_loop.induct)
  case (1 names deps dirty)
  let ?C = "\<lambda>d. {x. \<exists>y \<in> d. (x, y) \<in> (name_edges names deps)\<^sup>*}"
  obtain dirty' ch where p: "rebuild_pass names deps dirty = (dirty', ch)" by fastforce
  have within: "dirty' \<subseteq> ?C dirty"
  proof -
    have "fst (dirty, False) \<subseteq> ?C dirty" by auto
    from rebuild_steps_within [OF this, of "[0..<length names]"] p show ?thesis
      by (simp add: rebuild_pass_def atLeast_upt)
  qed
  have mono: "dirty \<subseteq> dirty'"
    using rebuild_steps_mono [of "(dirty, False)" names deps "[0..<length names]"] p
    by (simp add: rebuild_pass_def)
  show ?case
  proof (cases ch)
    case True
    then have "rebuild_loop names deps dirty = ?C dirty'"
      using 1(1) [OF p [symmetric] True 1(2)] p by (subst rebuild_loop.simps) simp
    also have "?C dirty' = ?C dirty"
      using within mono by (blast intro: rtrancl_trans)
    finally show ?thesis .
  next
    case False
    then have "dirty' = dirty" and closed: "\<And>i x. i < length names \<Longrightarrow> x \<in> deps i \<Longrightarrow>
        names ! x \<in> dirty \<Longrightarrow> names ! i \<in> dirty"
      using rebuild_steps_stop [of names deps "[0..<length names]" dirty] p
      by (auto simp: rebuild_pass_def)
    moreover have "x \<in> dirty" if "(x, y) \<in> (name_edges names deps)\<^sup>*" "y \<in> dirty" for x y
      using that by (induction rule: converse_rtrancl_induct) (auto simp: name_edges_def dest: closed)
    ultimately show ?thesis using False p by (subst rebuild_loop.simps) auto
  qed
qed

text \<open>C32: The members to rebuild are exactly those from which a chain of dependencies leads
  to a member whose manifest drifted from its recorded checksum or is not recorded: none more,
  and none less however long the chain.\<close>

theorem rebuild_is_reachability:
  "membersNeedingRebuild J F ws view =
     {x. \<exists>m \<in> set (ws_members ws). drifted F view m \<and>
        (x, memberShortName m) \<in> {(memberShortName (ws_members ws ! i), memberShortName (ws_members ws ! j)) | i j.
            i < length (ws_members ws) \<and> j \<in> member_deps J (ws_members ws) i}\<^sup>*}"
proof -
  let ?ms = "ws_members ws" and ?names = "map memberShortName (ws_members ws)"
  have "name_edges ?names (member_deps J ?ms) = {(memberShortName (?ms ! i), memberShortName (?ms ! j)) | i j.
      i < length ?ms \<and> j \<in> member_deps J ?ms i}" (is "_ = ?E")
    using member_deps_less [of J ?ms] unfolding name_edges_def
    by (auto simp: subset_iff) (metis nth_map)+
  then have "membersNeedingRebuild J F ws view =
      {x. \<exists>y \<in> memberShortName ` set (filter (drifted F view) ?ms). (x, y) \<in> ?E\<^sup>*}"
    using rebuild_loop_reach [of ?names "member_deps J ?ms"] member_deps_less [of J ?ms]
    by (simp add: membersNeedingRebuild_def Let_def)
  also have "\<dots> = {x. \<exists>m \<in> set ?ms. drifted F view m \<and> (x, memberShortName m) \<in> ?E\<^sup>*}" by auto
  finally show ?thesis .
qed

text \<open>Discovery finds the nearest directory, going up, whose \<open>cajeta.json\<close> is a workspace
  root.\<close>

lemma climb_nearest:
  "case climb J F cur of
     Some c \<Rightarrow> \<exists>k. c = fs_join ((parent_path ^^ k) cur) ''cajeta.json'' \<and> is_workspace_root J F c \<and>
       (\<forall>l < k. \<not> is_workspace_root J F (fs_join ((parent_path ^^ l) cur) ''cajeta.json''))
   | None \<Rightarrow> \<exists>k. (parent_path ^^ Suc k) cur \<in> {[], (parent_path ^^ k) cur} \<and>
       (\<forall>l \<le> k. \<not> is_workspace_root J F (fs_join ((parent_path ^^ l) cur) ''cajeta.json''))"
proof (induction J F cur rule: climb.induct)
  case (1 J F cur)
  let ?c = "fs_join cur ''cajeta.json''"
  let ?root = "\<lambda>l cur. is_workspace_root J F (fs_join ((parent_path ^^ l) cur) ''cajeta.json'')"
  consider (found) "is_workspace_root J F ?c"
    | (stop) "\<not> is_workspace_root J F ?c" "parent_path cur = [] \<or> parent_path cur = cur"
    | (up) "\<not> is_workspace_root J F ?c" "parent_path cur \<noteq> []" "parent_path cur \<noteq> cur"
    by blast
  then show ?case
  proof cases
    case found
    then have e: "climb J F cur = Some ?c" by (subst climb.simps) simp
    have "?c = fs_join ((parent_path ^^ 0) cur) ''cajeta.json'' \<and> is_workspace_root J F ?c \<and>
        (\<forall>l < 0. \<not> ?root l cur)"
      using found by simp
    then show ?thesis unfolding e option.case by blast
  next
    case stop
    then have e: "climb J F cur = None" by (subst climb.simps) auto
    have "(parent_path ^^ Suc 0) cur \<in> {[], (parent_path ^^ 0) cur} \<and> (\<forall>l \<le> 0. \<not> ?root l cur)"
      using stop by simp
    then show ?thesis unfolding e option.case by blast
  next
    case up
    have nx: "?root l (parent_path cur) = ?root (Suc l) cur" for l by (simp add: funpow_swap1)
    have e: "climb J F cur = climb J F (parent_path cur)" using up by (subst climb.simps) simp
    have less: "\<not> ?root l cur" if "\<forall>l < k. \<not> ?root l (parent_path cur)" "l < Suc k" for k l
      using that up(1) nx by (cases l) auto
    show ?thesis
    proof (cases "climb J F (parent_path cur)")
      case None
      with 1 up obtain k where "(parent_path ^^ Suc k) (parent_path cur) \<in> {[], (parent_path ^^ k) (parent_path cur)}"
          "\<forall>l \<le> k. \<not> ?root l (parent_path cur)" by auto
      then have "(parent_path ^^ Suc (Suc k)) cur \<in> {[], (parent_path ^^ Suc k) cur} \<and> (\<forall>l \<le> Suc k. \<not> ?root l cur)"
        using less [of "Suc k"] by (auto simp: funpow_swap1 less_Suc_eq_le)
      then show ?thesis unfolding e None option.case by blast
    next
      case (Some c)
      with 1 up obtain k where "c = fs_join ((parent_path ^^ k) (parent_path cur)) ''cajeta.json''"
          "is_workspace_root J F c" "\<forall>l < k. \<not> ?root l (parent_path cur)" by auto
      then have "c = fs_join ((parent_path ^^ Suc k) cur) ''cajeta.json'' \<and> is_workspace_root J F c \<and>
          (\<forall>l < Suc k. \<not> ?root l cur)"
        using less by (auto simp: funpow_swap1)
      then show ?thesis unfolding e Some option.case by blast
    qed
  qed
qed

subsection \<open>What a loaded workspace is\<close>

lemma check_short_names_ok:
  "check_short_names rmp ms seen = Inr () \<Longrightarrow>
     distinct (map memberShortName ms) \<and> (\<forall>m \<in> set ms. seen (memberShortName m) = None)"
proof (induction ms arbitrary: seen)
  case (Cons m ms)
  then have "seen (memberShortName m) = None"
    and "check_short_names rmp ms (seen(memberShortName m \<mapsto> wm_declaredPath m)) = Inr ()"
    by (auto simp: Let_def split: option.splits)
  with Cons.IH [OF this(2)] show ?case by (auto split: if_splits)
qed simp

lemma overlay_member_fields [simp]:
  "memberShortName (overlay_member J B sds m) = memberShortName m"
  "wm_manifestPath (overlay_member J B sds m) = wm_manifestPath m"
  "m_hasWorkspace (wm_manifest (overlay_member J B sds m)) = m_hasWorkspace (wm_manifest m)"
  by (simp_all add: overlay_member_def memberShortName_def Let_def)

lemma load_members_all:
  "load_members J F rmp rp ps = Inr ms \<Longrightarrow>
     map wm_declaredPath ms = ps \<and> (\<forall>m \<in> set ms. \<not> m_hasWorkspace (wm_manifest m))"
proof (induction ps arbitrary: ms)
  case (Cons p ps)
  then obtain m ms' where m: "load_member J F rmp rp p = Inr m" and ms: "load_members J F rmp rp ps = Inr ms'"
    and e: "ms = m # ms'" by (auto elim!: bindE_Inr_cases)
  from m have "wm_declaredPath m = p \<and> \<not> m_hasWorkspace (wm_manifest m)"
    by (auto simp: load_member_def Let_def split: sum.splits if_splits)
  with Cons.IH [OF ms] e show ?case by simp
qed simp

lemma get_overlay_deps:
  assumes "builder_ok J B"
  shows "get J (overlay_deps J B sds deps) k =
    (case get J deps k of Some v \<Rightarrow> Some v
     | None \<Rightarrow> map_option (\<lambda>sd. ofString J (sd_versionConstraint sd)) (find (\<lambda>sd. sd_name sd = k) sds))"
proof (induction sds arbitrary: deps)
  case (Cons sd sds)
  then show ?case
    by (auto simp: overlay_deps_def builder_ok_simps [OF assms] split: option.splits)
qed (simp add: overlay_deps_def split: option.splits)

lemma loadWorkspace_parts:
  assumes "loadWorkspace J B F p = Inr ws"
  obtains ms where "load_members J F p (ws_rootPath ws) (ws_memberPatterns ws) = Inr ms"
    and "ws_members ws = map (overlay_member J B (ws_sharedDependencies ws)) ms"
    and "distinct (map memberShortName ms)"
proof -
  from assms obtain ws0 ms where
    m: "load_members J F p (ws_rootPath ws0) (ws_memberPatterns ws0) = Inr ms"
      "check_short_names p ms Map.empty = Inr ()"
      "ws = ws0\<lparr>ws_members := map (overlay_member J B (ws_sharedDependencies ws0)) ms\<rparr>"
    by (auto simp: loadWorkspace_def elim!: bindE_Inr_cases split: sum.splits if_splits)
  from m(1,3) check_short_names_ok [OF m(2)] show thesis by (intro that [of ms]) simp_all
qed

text \<open>A loaded workspace has one member per declared path, in the order of declaration,
  none of them itself a workspace, and no two addressed by the same short name.\<close>

theorem loaded_workspace_wf:
  assumes "loadWorkspace J B F p = Inr ws"
  shows "map wm_declaredPath (ws_members ws) = ws_memberPatterns ws \<and>
    distinct (map memberShortName (ws_members ws)) \<and>
    (\<forall>m \<in> set (ws_members ws). \<not> m_hasWorkspace (wm_manifest m))"
proof -
  from loadWorkspace_parts [OF assms] obtain ms where
    ms: "load_members J F p (ws_rootPath ws) (ws_memberPatterns ws) = Inr ms"
      "ws_members ws = map (overlay_member J B (ws_sharedDependencies ws)) ms"
      "distinct (map memberShortName ms)" .
  have d: "wm_declaredPath (overlay_member J B sds m) = wm_declaredPath m" for sds m
    by (simp add: overlay_member_def Let_def)
  show ?thesis using load_members_all [OF ms(1)] ms(2,3) by (simp add: comp_def d)
qed

text \<open>In a loaded workspace each member's dependencies are its own ones and, for every name
  that it does not declare itself, the constraint that the workspace curates.\<close>

theorem shared_dependencies_overlaid:
  assumes "loadWorkspace J B F p = Inr ws" and "builder_ok J B"
  shows "\<exists>own. load_members J F p (ws_rootPath ws) (ws_memberPatterns ws) = Inr own \<and>
    list_all2 (\<lambda>m m'. \<exists>deps. block_object J (m_settingsRaw (wm_manifest m')) ''dependencies'' = Some deps \<and>
      (\<forall>k. get J deps k =
        (case Option.bind (block_object J (m_settingsRaw (wm_manifest m)) ''dependencies'') (\<lambda>d. get J d k) of
           Some v \<Rightarrow> Some v
         | None \<Rightarrow> map_option (\<lambda>sd. ofString J (sd_versionConstraint sd))
             (find (\<lambda>sd. sd_name sd = k) (ws_sharedDependencies ws))))) own (ws_members ws)"
proof -
  from loadWorkspace_parts [OF assms(1)] obtain ms where
    ms: "load_members J F p (ws_rootPath ws) (ws_memberPatterns ws) = Inr ms"
      "ws_members ws = map (overlay_member J B (ws_sharedDependencies ws)) ms"
      "distinct (map memberShortName ms)" .
  let ?sds = "ws_sharedDependencies ws"
  have one: "\<exists>deps. block_object J (m_settingsRaw (wm_manifest (overlay_member J B ?sds m))) ''dependencies'' = Some deps \<and>
      (\<forall>k. get J deps k =
        (case Option.bind (block_object J (m_settingsRaw (wm_manifest m)) ''dependencies'') (\<lambda>d. get J d k) of
           Some v \<Rightarrow> Some v
         | None \<Rightarrow> map_option (\<lambda>sd. ofString J (sd_versionConstraint sd)) (find (\<lambda>sd. sd_name sd = k) ?sds)))" for m
  proof -
    define settings where "settings = (case m_settingsRaw (wm_manifest m) of Some s \<Rightarrow> s | None \<Rightarrow> emptyObject B)"
    define deps where "deps = (case getObject J settings ''dependencies'' of Some d \<Rightarrow> d | None \<Rightarrow> emptyObject B)"
    have "block_object J (m_settingsRaw (wm_manifest (overlay_member J B ?sds m))) ''dependencies'' =
        Some (overlay_deps J B ?sds deps)"
    proof -
      have "m_settingsRaw (wm_manifest (overlay_member J B ?sds m)) =
          Some (objSet B settings ''dependencies'' (ofObject B (overlay_deps J B ?sds deps)))"
        by (simp add: overlay_member_def Let_def settings_def deps_def)
      then show ?thesis by (simp add: block_object_def getObject_def builder_ok_simps [OF assms(2)])
    qed
    moreover have "Option.bind (block_object J (m_settingsRaw (wm_manifest m)) ''dependencies'') (\<lambda>d. get J d k) =
        get J deps k" for k
    proof (cases "m_settingsRaw (wm_manifest m)")
      case (Some s)
      then show ?thesis
        by (cases "getObject J s ''dependencies''")
          (simp_all add: block_object_def deps_def settings_def builder_ok_simps [OF assms(2)])
    qed (simp add: block_object_def getObject_def deps_def settings_def builder_ok_simps [OF assms(2)])
    ultimately show ?thesis using get_overlay_deps [OF assms(2), of ?sds deps] by simp
  qed
  show ?thesis using ms one by (auto simp: list_all2_map2 list.rel_refl)
qed


subsection \<open>A workspace to evaluate\<close>

definition demo_docs :: "string \<rightharpoonup> jtree" where
  "demo_docs t =
     (let details = (\<lambda>n. (''details'', JObj [(''name'', JStr n), (''version'', JStr ''1.0.0'')])) in
      if t = ''r'' then Some (JObj [details ''g.w'',
        (''workspace'', JObj [(''members'', JArr [JStr ''a'', JStr ''b'']),
           (''shared-dependencies'', JObj [(''x'', JStr ''2.0.0'')])])])
      else if t = ''a'' then Some (JObj [details ''g.a'',
        (''settings'', JObj [(''dependencies'', JObj [(''g.b'', JStr ''1.0.0'')])])])
      else if t = ''b'' then Some (JObj [details ''g.b''])
      else None)"

definition demo_files :: files where
  "demo_files =
     \<lparr>readFile = (\<lambda>p. if p = ''/w/cajeta.json'' then Some ''r''
                      else if p = ''/w/a/cajeta.json'' then Some ''a''
                      else if p = ''/w/b/cajeta.json'' then Some ''b'' else None),
      existsFile = (\<lambda>p. p \<in> set [''/w/cajeta.json'', ''/w/a/cajeta.json'', ''/w/b/cajeta.json'']),
      absolute = (\<lambda>p. p), absoluteEc = Some, weaklyCanonical = (\<lambda>p. p), sha256Hex = (\<lambda>b. b)\<rparr>"

abbreviation demo_load :: "workspace_error + (string \<times> jtree) list Workspace" where
  "demo_load \<equiv> loadWorkspace (tree_json demo_docs) tree_builder demo_files ''/w/cajeta.json''"

lemma demo_sorted:
  obtains ws sorted_ms where "demo_load = Inr ws" "map wm_declaredPath sorted_ms = [''b'', ''a'']"
    "topologicallySortMembers (tree_json demo_docs) ws = Inr sorted_ms"
proof -
  have "case demo_load of Inl _ \<Rightarrow> False | Inr ws \<Rightarrow> map wm_declaredPath (ws_members ws) = [''a'', ''b''] \<and>
      member_deps (tree_json demo_docs) (ws_members ws) 0 = {1} \<and>
      member_deps (tree_json demo_docs) (ws_members ws) 1 = {}" by code_simp
  then obtain ws where r: "demo_load = Inr ws" "map wm_declaredPath (ws_members ws) = [''a'', ''b'']"
      "member_deps (tree_json demo_docs) (ws_members ws) 0 = {1}"
      "member_deps (tree_json demo_docs) (ws_members ws) (Suc 0) = {}"
    by (rule case_InrE) simp
  then obtain a b where ms: "ws_members ws = [a, b]" "wm_declaredPath a = ''a''" "wm_declaredPath b = ''b''"
    by auto
  have k: "kahn 2 [{}, {0}] [1, 0] [False, False] [] = Inr [1, 0]" by code_simp
  have "member_reverse (tree_json demo_docs) (ws_members ws) = [{}, {0}]"
    using r(3,4) by (auto simp: member_reverse_def ms less_2_cases_iff eval_nat_numeral less_Suc_eq)
  then have "topologicallySortMembers (tree_json demo_docs) ws = Inr [b, a]"
    using r(3,4) k by (simp add: topologicallySortMembers_kahn ms eval_nat_numeral)
  with r(1) ms show thesis by (intro that) simp_all
qed

theorem members_sorted_dependencies_first_witness:
  "\<exists>ws sorted_ms order. demo_load = Inr ws \<and>
     topologicallySortMembers (tree_json demo_docs) ws = Inr sorted_ms \<and>
     map wm_declaredPath sorted_ms = [''b'', ''a''] \<and>
     sorted_ms = map ((!) (ws_members ws)) order \<and> distinct order"
proof -
  obtain ws out where r: "demo_load = Inr ws" "map wm_declaredPath out = [''b'', ''a'']"
      "topologicallySortMembers (tree_json demo_docs) ws = Inr out" by (rule demo_sorted)
  from members_sorted_dependencies_first [OF r(3)] obtain order where
    "out = map ((!) (ws_members ws)) order" "distinct order" by blast
  with r show ?thesis by (intro exI conjI)
qed

theorem loaded_workspace_wf_witness:
  "\<exists>ws. demo_load = Inr ws \<and> map wm_declaredPath (ws_members ws) = [''a'', ''b''] \<and>
     distinct (map memberShortName (ws_members ws))"
proof -
  have "case demo_load of Inl _ \<Rightarrow> False | Inr ws \<Rightarrow> ws_memberPatterns ws = [''a'', ''b'']" by code_simp
  then obtain ws where r: "demo_load = Inr ws" "ws_memberPatterns ws = [''a'', ''b'']"
    by (auto split: sum.splits)
  from loaded_workspace_wf [OF r(1)] r show ?thesis by auto
qed

theorem shared_dependencies_overlaid_witness:
  "\<exists>ws own m' deps. demo_load = Inr ws \<and> own \<noteq> [] \<and> m' \<in> set (ws_members ws) \<and>
     block_object (tree_json demo_docs) (m_settingsRaw (wm_manifest m')) ''dependencies'' = Some deps \<and>
     get (tree_json demo_docs) deps ''x'' = Some (JStr ''2.0.0'')"
proof -
  have "case demo_load of Inl _ \<Rightarrow> False | Inr ws \<Rightarrow> map wm_declaredPath (ws_members ws) = [''a'', ''b''] \<and>
      map sd_name (ws_sharedDependencies ws) = [''x''] \<and>
      map sd_versionConstraint (ws_sharedDependencies ws) = [''2.0.0'']" by code_simp
  then obtain ws where r: "demo_load = Inr ws" "map wm_declaredPath (ws_members ws) = [''a'', ''b'']"
      "map sd_name (ws_sharedDependencies ws) = [''x'']" "map sd_versionConstraint (ws_sharedDependencies ws) = [''2.0.0'']"
    by (auto split: sum.splits)
  have "case load_members (tree_json demo_docs) demo_files ''/w/cajeta.json'' ''/w'' [''a'', ''b''] of
      Inl _ \<Rightarrow> False | Inr ms \<Rightarrow>
        map (\<lambda>m. Option.bind (block_object (tree_json demo_docs) (m_settingsRaw (wm_manifest m)) ''dependencies'')
               (\<lambda>d. get (tree_json demo_docs) d ''x'')) ms = [None, None]" by code_simp
  moreover have "case demo_load of Inl _ \<Rightarrow> False | Inr ws \<Rightarrow> ws_rootPath ws = ''/w'' \<and>
      ws_memberPatterns ws = [''a'', ''b'']" by code_simp
  ultimately obtain own where own: "load_members (tree_json demo_docs) demo_files ''/w/cajeta.json''
        (ws_rootPath ws) (ws_memberPatterns ws) = Inr own"
    and none: "map (\<lambda>m. Option.bind (block_object (tree_json demo_docs) (m_settingsRaw (wm_manifest m)) ''dependencies'')
               (\<lambda>d. get (tree_json demo_docs) d ''x'')) own = [None, None]"
    using r(1) by (auto split: sum.splits)
  from none obtain m ms where m: "own = m # ms" "Option.bind (block_object (tree_json demo_docs)
      (m_settingsRaw (wm_manifest m)) ''dependencies'') (\<lambda>d. get (tree_json demo_docs) d ''x'') = None"
    by (cases own) auto
  from r(3,4) obtain sd where sd: "ws_sharedDependencies ws = [sd]" "sd_name sd = ''x''"
      "sd_versionConstraint sd = ''2.0.0''" by auto
  from shared_dependencies_overlaid [OF r(1) tree_builder_ok] own m(1)
  obtain m' ms' deps where "ws_members ws = m' # ms'"
      "block_object (tree_json demo_docs) (m_settingsRaw (wm_manifest m')) ''dependencies'' = Some deps"
      "get (tree_json demo_docs) deps ''x'' = map_option (\<lambda>sd. ofString (tree_json demo_docs) (sd_versionConstraint sd))
             (find (\<lambda>sd. sd_name sd = ''x'') (ws_sharedDependencies ws))"
    using m(2) by (auto simp: list_all2_Cons1)
  then show ?thesis using r(1) sd m(1) by (auto intro!: exI [of _ ws] exI [of _ own])
qed

theorem sort_fails_on_cycles_witness:
  "\<exists>ws. demo_load = Inr ws \<and>
     acyclic {(i, j). i < length (ws_members ws) \<and> j \<in> member_deps (tree_json demo_docs) (ws_members ws) i}"
proof -
  obtain ws and out :: "(string \<times> jtree) list WorkspaceMember list" where r: "demo_load = Inr ws"
      "topologicallySortMembers (tree_json demo_docs) ws = Inr out" by (rule demo_sorted)
  from sort_fails_on_cycles [of ws "tree_json demo_docs"] r show ?thesis by simp
qed

subsection \<open>A name that the lookup does not know\<close>

definition library_docs :: "string \<rightharpoonup> jtree" where
  "library_docs t =
     (let details = (\<lambda>n. (''details'', JObj [(''name'', JStr n), (''version'', JStr ''1.0.0'')])) in
      if t = ''r'' then Some (JObj [details ''g.w'', (''workspace'', JObj [(''members'', JArr [JStr ''a'', JStr ''b''])])])
      else if t = ''a'' then Some (JObj [details ''g.app'',
        (''settings'', JObj [(''dependencies'', JObj [(''core'', JStr ''1.0.0'')])])])
      else if t = ''b'' then Some (JObj [details ''g.core''])
      else None)"

text \<open>The header of the workspace says that a member depends on another by naming its
  \<open>library()\<close> segment or its short name. The lookup knows full names and short names:
  the member in the directory \<open>b\<close> whose name is \<open>g.core\<close> is not found under its segment
  \<open>core\<close>, and is built after the member that names it so.\<close>

theorem library_segment_is_not_looked_up:
  "\<exists>ws a b. loadWorkspace (tree_json library_docs) tree_builder demo_files ''/w/cajeta.json'' = Inr ws \<and>
     ws_members ws = [a, b] \<and> md_library (m_details (wm_manifest b)) = ''core'' \<and>
     (\<exists>ds. parseDependencies (tree_json library_docs) (wm_manifest a) = Inr ds \<and> map ds_name ds = [''core'']) \<and>
     topologicallySortMembers (tree_json library_docs) ws = Inr [a, b]"
proof -
  let ?J = "tree_json library_docs"
  have "case loadWorkspace ?J tree_builder demo_files ''/w/cajeta.json'' of Inl _ \<Rightarrow> False
      | Inr ws \<Rightarrow> map (\<lambda>m. md_library (m_details (wm_manifest m))) (ws_members ws) = [''app'', ''core''] \<and>
          (case parseDependencies ?J (wm_manifest (hd (ws_members ws))) of Inl _ \<Rightarrow> False | Inr ds \<Rightarrow> map ds_name ds = [''core'']) \<and>
          member_deps ?J (ws_members ws) 0 = {} \<and> member_deps ?J (ws_members ws) 1 = {}" by code_simp
  then obtain ws where r: "loadWorkspace ?J tree_builder demo_files ''/w/cajeta.json'' = Inr ws"
      "map (\<lambda>m. md_library (m_details (wm_manifest m))) (ws_members ws) = [''app'', ''core'']"
      "case parseDependencies ?J (wm_manifest (hd (ws_members ws))) of Inl _ \<Rightarrow> False | Inr ds \<Rightarrow> map ds_name ds = [''core'']"
      "member_deps ?J (ws_members ws) 0 = {}" "member_deps ?J (ws_members ws) (Suc 0) = {}"
    by (rule case_InrE) simp
  then obtain a b where ms: "ws_members ws = [a, b]" "md_library (m_details (wm_manifest b)) = ''core''" by auto
  have k: "kahn 2 [{}, {}] [0, 0] [False, False] [] = Inr [0, 1]" by code_simp
  have "member_deps ?J (ws_members ws) i = {}" if "i < 2" for i
    using that r(4,5) by (auto simp: less_2_cases_iff)
  then have "member_reverse ?J (ws_members ws) = [{}, {}]"
    by (auto simp: member_reverse_def ms(1) eval_nat_numeral)
  then have t: "topologicallySortMembers ?J ws = Inr [a, b]"
    using r(4,5) k by (simp add: topologicallySortMembers_kahn ms eval_nat_numeral)
  have "\<exists>ds. parseDependencies ?J (wm_manifest a) = Inr ds \<and> map ds_name ds = [''core'']"
    using r(3) ms(1) by (cases "parseDependencies ?J (wm_manifest a)") auto
  with r(1) ms t show ?thesis by (intro exI [of _ ws] exI [of _ a] exI [of _ b] conjI)
qed

end
