(* ===== verification/Cir_Core.thy ===== *)
theory Cir_Core
  imports Cajeta_Prelude "HOL-Library.Word"
begin

unbundle bit_operations_syntax

text \<open>
  The compiler's SSA intermediate form CIR (\<open>ir/Cir.h\<close>, \<open>Cir.cpp\<close>), its
  well-formedness check (\<open>ir/CirVerifier.cpp\<close>) and its textual dump
  (\<open>ir/CirPrinter.cpp\<close>).

  The code holds values, instructions and blocks through shared pointers and tells values
  and blocks apart by address. Nothing is mutated after construction by what is modelled here,
  so a value and a block carry their address as a number, and a pointer that may be null is an
  option.
\<close>

subsection \<open>Data\<close>

text \<open>The pointers of a list that are not null.\<close>

fun present :: "'a option list \<Rightarrow> 'a list" where
  "present [] = []"
| "present (None # xs) = present xs"
| "present (Some x # xs) = x # present xs"

lemma set_present: "x \<in> set (present xs) \<longleftrightarrow> Some x \<in> set xs"
  by (induction xs rule: present.induct) auto

lemma present_append: "present (xs @ ys) = present xs @ present ys"
  by (induction xs rule: present.induct) auto

text \<open>Of a \<open>CajetaType\<close>: its canonical spelling, its flags, and, when its dynamic type is
  \<open>CajetaFunctionType\<close>, the return type (a pointer that may be null).\<close>

datatype CajetaType = CajetaType
  (toCanonical: string) (getTypeFlags: "64 word") (functionType: "CajetaType option option")

datatype CirOwnership = Value | Owned | Borrowed

record CirType =
  spelling :: string
  resolved :: "CajetaType option"

definition voidType :: CirType where
  "voidType = \<lparr>spelling = ''()'', resolved = None\<rparr>"

definition isVoid :: "CirType \<Rightarrow> bool" where
  "isVoid t = (spelling t = [] \<or> spelling t = ''()'')"

record CirValue =
  v_id :: nat
  v_name :: string
  v_type :: CirType
  v_ownership :: CirOwnership

datatype CirOp =
    ConstInt | ConstFloat | ConstBool | ConstStr | ConstNull
  | Add | Sub | Mul | Div | Rem | And | Or | Xor | Shl | Shr
  | ICmp | FCmp
  | FieldAddr | LoadField | StoreField | ElemAddr | Extract | Insert
  | AllocStack | AllocHeap | Load | Store | Move | Drop
  | Call | CallIndirect | ApplyClosure | CallMethod | CallGeneric
  | MakeClosure
  | Br | CondBr | Switch | Return | Unreachable

record CirSuccessor =
  s_label :: string
  s_args :: "CirValue option list"
  caseValue :: "int option"

text \<open>\<open>'f\<close> is \<open>double\<close>: constants are carried and printed, never computed with.\<close>

record 'f CirInst =
  i_op :: CirOp
  operands :: "CirValue option list"
  i_result :: "CirValue option"
  i_symbol :: string
  typeArgs :: "string list"
  intConst :: int
  floatConst :: 'f
  boolConst :: bool
  targetKnown :: bool
  successors :: "CirSuccessor list"

record 'f CirBlock =
  bb_id :: nat
  bb_label :: string
  bb_params :: "CirValue option list"
  bb_insts :: "'f CirInst option list"
  terminator :: "'f CirInst option"

record 'f CirFunction =
  f_name :: string
  genericParams :: "string list"
  f_params :: "CirValue option list"
  returnType :: CirType
  returnOwnership :: CirOwnership
  f_blocks :: "'f CirBlock list"

definition cirOwnershipWord :: "CirOwnership \<Rightarrow> string" where
  "cirOwnershipWord ow = (case ow of Owned \<Rightarrow> ''owned'' | Borrowed \<Rightarrow> ''borrowed'' | Value \<Rightarrow> [])"

fun cirOpMnemonic :: "CirOp \<Rightarrow> string" where
  "cirOpMnemonic ConstInt = ''const.int''"
| "cirOpMnemonic ConstFloat = ''const.float''"
| "cirOpMnemonic ConstBool = ''const.bool''"
| "cirOpMnemonic ConstStr = ''const.str''"
| "cirOpMnemonic ConstNull = ''const.null''"
| "cirOpMnemonic Add = ''add''"
| "cirOpMnemonic Sub = ''sub''"
| "cirOpMnemonic Mul = ''mul''"
| "cirOpMnemonic Div = ''div''"
| "cirOpMnemonic Rem = ''rem''"
| "cirOpMnemonic And = ''and''"
| "cirOpMnemonic Or = ''or''"
| "cirOpMnemonic Xor = ''xor''"
| "cirOpMnemonic Shl = ''shl''"
| "cirOpMnemonic Shr = ''shr''"
| "cirOpMnemonic ICmp = ''icmp''"
| "cirOpMnemonic FCmp = ''fcmp''"
| "cirOpMnemonic FieldAddr = ''field.addr''"
| "cirOpMnemonic LoadField = ''load.field''"
| "cirOpMnemonic StoreField = ''store.field''"
| "cirOpMnemonic ElemAddr = ''elem.addr''"
| "cirOpMnemonic Extract = ''extract''"
| "cirOpMnemonic Insert = ''insert''"
| "cirOpMnemonic AllocStack = ''alloc.stack''"
| "cirOpMnemonic AllocHeap = ''alloc.heap''"
| "cirOpMnemonic Load = ''load''"
| "cirOpMnemonic Store = ''store''"
| "cirOpMnemonic Move = ''move''"
| "cirOpMnemonic Drop = ''drop''"
| "cirOpMnemonic Call = ''call''"
| "cirOpMnemonic CallIndirect = ''call.indirect''"
| "cirOpMnemonic ApplyClosure = ''apply.closure''"
| "cirOpMnemonic CallMethod = ''call.method''"
| "cirOpMnemonic CallGeneric = ''call.generic''"
| "cirOpMnemonic MakeClosure = ''make.closure''"
| "cirOpMnemonic Br = ''br''"
| "cirOpMnemonic CondBr = ''cond_br''"
| "cirOpMnemonic Switch = ''switch''"
| "cirOpMnemonic Return = ''return''"
| "cirOpMnemonic Unreachable = ''unreachable''"

definition cirIsTerminator :: "CirOp \<Rightarrow> bool" where
  "cirIsTerminator p =
     (case p of Br \<Rightarrow> True | CondBr \<Rightarrow> True | Switch \<Rightarrow> True | Return \<Rightarrow> True | Unreachable \<Rightarrow> True
      | _ \<Rightarrow> False)"

text \<open>The factory: an instruction with the fields' defaults, given the zero constant.\<close>

definition cirInst :: "'f \<Rightarrow> CirOp \<Rightarrow> 'f CirInst" where
  "cirInst zero p =
     \<lparr>i_op = p, operands = [], i_result = None, i_symbol = [], typeArgs = [], intConst = 0,
      floatConst = zero, boolConst = False, targetKnown = False, successors = []\<rparr>"

subsection \<open>The verifier\<close>

datatype place = FnParams | BlockParams string | InBlock string | AtTerminator string

datatype cir_error =
    DuplicateLabel string
  | DefinedTwice string place
  | TerminatorInMiddle CirOp string
  | NoTerminator string
  | NonTerminator string CirOp
  | UnknownLabel string string
  | ArityMismatch string string nat nat
  | TypeMismatch string string nat string string

text \<open>The map \<open>byLabel\<close>, in which a later block replaces an earlier one, and the errors
  of filling it.\<close>

fun index_labels ::
    "'f CirBlock list \<Rightarrow> cir_error list \<times> (string \<rightharpoonup> 'f CirBlock) \<Rightarrow>
     cir_error list \<times> (string \<rightharpoonup> 'f CirBlock)" where
  "index_labels [] s = s"
| "index_labels (bb # bbs) (errors, byLabel) =
     index_labels bbs
       (errors @ (if byLabel (bb_label bb) \<noteq> None then [DuplicateLabel (bb_label bb)] else []),
        byLabel(bb_label bb \<mapsto> bb))"

type_synonym defs = "cir_error list \<times> nat set"

text \<open>The lambda \<open>def\<close>.\<close>

definition def_value :: "place \<Rightarrow> CirValue option \<Rightarrow> defs \<Rightarrow> defs" where
  "def_value pl v = (\<lambda>(errors, defined).
     case v of
       None \<Rightarrow> (errors, defined)
     | Some x \<Rightarrow>
         if v_id x \<in> defined then (errors @ [DefinedTwice (v_name x) pl], defined)
         else (errors, insert (v_id x) defined))"

definition verify_inst :: "string \<Rightarrow> 'f CirInst option \<Rightarrow> defs \<Rightarrow> defs" where
  "verify_inst label inst s =
     (case inst of
        None \<Rightarrow> s
      | Some i \<Rightarrow>
          def_value (InBlock label) (i_result i)
            (fst s @ (if cirIsTerminator (i_op i) then [TerminatorInMiddle (i_op i) label] else []), snd s))"

fun match_args ::
    "string \<Rightarrow> string \<Rightarrow> nat \<Rightarrow> CirValue option list \<Rightarrow> CirValue option list \<Rightarrow> cir_error list" where
  "match_args label target i (Some got # gots) (Some want # wants) =
     (if spelling (v_type got) \<noteq> spelling (v_type want)
      then [TypeMismatch label target i (spelling (v_type got)) (spelling (v_type want))] else []) @
     match_args label target (i + 1) gots wants"
| "match_args label target i (g # gots) (w # wants) = match_args label target (i + 1) gots wants"
| "match_args label target i _ _ = []"

definition verify_successor ::
    "(string \<rightharpoonup> 'f CirBlock) \<Rightarrow> string \<Rightarrow> CirSuccessor \<Rightarrow> cir_error list" where
  "verify_successor byLabel label s =
     (case byLabel (s_label s) of
        None \<Rightarrow> [UnknownLabel label (s_label s)]
      | Some target \<Rightarrow>
          if length (bb_params target) \<noteq> length (s_args s)
          then [ArityMismatch label (s_label s) (length (s_args s)) (length (bb_params target))]
          else match_args label (s_label s) 0 (s_args s) (bb_params target))"

definition verify_block ::
    "(string \<rightharpoonup> 'f CirBlock) \<Rightarrow> nat \<Rightarrow> 'f CirBlock \<Rightarrow> defs \<Rightarrow> defs" where
  "verify_block byLabel entry bb s =
     (let label = bb_label bb;
          s1 = (if bb_id bb = entry then s else fold (def_value (BlockParams label)) (bb_params bb) s);
          s2 = fold (verify_inst label) (bb_insts bb) s1
      in case terminator bb of
           None \<Rightarrow> (fst s2 @ [NoTerminator label], snd s2)
         | Some t \<Rightarrow>
             let s3 = def_value (AtTerminator label) (i_result t)
                        (fst s2 @ (if cirIsTerminator (i_op t) then [] else [NonTerminator label (i_op t)]), snd s2)
             in (fst s3 @ concat (map (verify_successor byLabel label) (successors t)), snd s3))"

definition verify :: "'f CirFunction \<Rightarrow> cir_error list" where
  "verify fn =
     (let (errors, byLabel) = index_labels (f_blocks fn) ([], Map.empty);
          s = fold (def_value FnParams) (f_params fn) (errors, {})
      in case f_blocks fn of
           [] \<Rightarrow> fst s
         | front # _ \<Rightarrow> fst (fold (verify_block byLabel (bb_id front)) (f_blocks fn) s))"


subsection \<open>Well-formed functions\<close>

text \<open>The values that a block defines, in order, by address.\<close>

definition ids :: "CirValue option list \<Rightarrow> nat list" where
  "ids vs = map v_id (present vs)"

lemma ids_simps [simp]: "ids [] = []" "ids (None # vs) = ids vs" "ids (Some v # vs) = v_id v # ids vs"
  by (simp_all add: ids_def)

definition inst_defs :: "'f CirInst option \<Rightarrow> nat list" where
  "inst_defs inst = (case inst of None \<Rightarrow> [] | Some i \<Rightarrow> ids [i_result i])"

definition block_defs :: "nat \<Rightarrow> 'f CirBlock \<Rightarrow> nat list" where
  "block_defs entry bb =
     (if bb_id bb = entry then [] else ids (bb_params bb)) @
     concat (map inst_defs (bb_insts bb)) @ inst_defs (terminator bb)"

text \<open>A branch passes its target one argument per block parameter, each of the parameter's
  type; a null pointer on either side is not compared.\<close>

definition edge_ok :: "'f CirBlock list \<Rightarrow> CirSuccessor \<Rightarrow> bool" where
  "edge_ok blocks s \<longleftrightarrow>
     (\<exists>target \<in> set blocks. bb_label target = s_label s \<and>
        list_all2 (\<lambda>got want. \<forall>g w. got = Some g \<longrightarrow> want = Some w \<longrightarrow>
            spelling (v_type g) = spelling (v_type w)) (s_args s) (bb_params target))"

definition block_ok :: "'f CirBlock list \<Rightarrow> 'f CirBlock \<Rightarrow> bool" where
  "block_ok blocks bb \<longleftrightarrow>
     (\<forall>i. Some i \<in> set (bb_insts bb) \<longrightarrow> \<not> cirIsTerminator (i_op i)) \<and>
     (\<exists>t. terminator bb = Some t \<and> cirIsTerminator (i_op t) \<and>
        (\<forall>s \<in> set (successors t). edge_ok blocks s))"

definition cir_wf :: "'f CirFunction \<Rightarrow> bool" where
  "cir_wf fn \<longleftrightarrow>
     distinct (map bb_label (f_blocks fn)) \<and>
     distinct (ids (f_params fn) @ concat (map (block_defs (bb_id (hd (f_blocks fn)))) (f_blocks fn))) \<and>
     (\<forall>bb \<in> set (f_blocks fn). block_ok (f_blocks fn) bb)"

subsection \<open>The verifier decides well-formedness\<close>

text \<open>A step of the verifier that reports nothing exactly if its own check \<open>P\<close> holds and
  the values \<open>ds\<close> that it defines are new, and that keeps what was reported before.\<close>

definition checks :: "(defs \<Rightarrow> defs) \<Rightarrow> bool \<Rightarrow> nat list \<Rightarrow> bool" where
  "checks f P ds \<longleftrightarrow>
     (\<forall>es D. (fst (f (es, D)) = [] \<longleftrightarrow> es = [] \<and> P \<and> distinct ds \<and> set ds \<inter> D = {}) \<and>
             (fst (f (es, D)) = [] \<longrightarrow> snd (f (es, D)) = D \<union> set ds))"

lemma checksI:
  assumes "\<And>es D. fst (f (es, D)) = [] \<longleftrightarrow> es = [] \<and> P \<and> distinct ds \<and> set ds \<inter> D = {}"
    and "\<And>es D. fst (f (es, D)) = [] \<Longrightarrow> snd (f (es, D)) = D \<union> set ds"
  shows "checks f P ds"
  unfolding checks_def by (intro allI conjI impI) (fact assms)+

lemma checks_id: "checks (\<lambda>s. s) True []"
  by (simp add: checks_def)

lemma checks_comp:
  assumes "checks f P ds" "checks g Q es"
  shows "checks (\<lambda>s. g (f s)) (P \<and> Q) (ds @ es)"
proof (rule checksI)
  fix xs D
  obtain ys E where f: "f (xs, D) = (ys, E)" by fastforce
  have 1: "ys = [] \<longleftrightarrow> xs = [] \<and> P \<and> distinct ds \<and> set ds \<inter> D = {}" "ys = [] \<Longrightarrow> E = D \<union> set ds"
    using assms(1) f unfolding checks_def by (metis fst_conv, metis fst_conv snd_conv)
  have 2: "fst (g (ys, E)) = [] \<longleftrightarrow> ys = [] \<and> Q \<and> distinct es \<and> set es \<inter> E = {}"
      "fst (g (ys, E)) = [] \<Longrightarrow> snd (g (ys, E)) = E \<union> set es"
    using assms(2) unfolding checks_def by blast+
  show "fst (g (f (xs, D))) = [] \<longleftrightarrow> xs = [] \<and> (P \<and> Q) \<and> distinct (ds @ es) \<and> set (ds @ es) \<inter> D = {}"
    unfolding f using 1 2(1) by auto
  show "snd (g (f (xs, D))) = D \<union> set (ds @ es)" if "fst (g (f (xs, D))) = []"
    using that 1 2 unfolding f by auto
qed

lemma checks_fold:
  assumes "\<And>x. x \<in> set xs \<Longrightarrow> checks (f x) (P x) (d x)"
  shows "checks (fold f xs) (\<forall>x \<in> set xs. P x) (concat (map d xs))"
  using assms
proof (induction xs)
  case (Cons x xs)
  then have "checks (\<lambda>s. fold f xs (f x s)) (P x \<and> (\<forall>x \<in> set xs. P x)) (d x @ concat (map d xs))"
    by (intro checks_comp) simp_all
  then show ?case by (simp add: comp_def)
qed (simp add: checks_id id_def)

lemma checks_report: "checks (\<lambda>s. (fst s @ es, snd s)) (es = []) []"
  by (auto simp: checks_def)

lemma checks_cong: "checks f P ds \<Longrightarrow> P = Q \<Longrightarrow> checks f Q ds"
  by simp

lemma checks_def_value: "checks (def_value pl v) True (ids [v])"
  by (cases v) (auto simp: checks_def def_value_def)

lemma checks_def_values: "checks (fold (def_value pl) vs) True (ids vs)"
proof -
  have "concat (map (\<lambda>v. ids [v]) vs) = ids vs" by (induction vs rule: present.induct) simp_all
  with checks_fold [of vs "def_value pl" "\<lambda>_. True" "\<lambda>v. ids [v]"] checks_def_value
  show ?thesis by simp
qed

lemma checks_verify_inst:
  "checks (verify_inst label inst) (\<forall>i. inst = Some i \<longrightarrow> \<not> cirIsTerminator (i_op i)) (inst_defs inst)"
proof (cases inst)
  case None
  then show ?thesis using checks_id by (simp add: verify_inst_def [abs_def] inst_defs_def)
next
  case (Some i)
  have "checks (\<lambda>s. def_value (InBlock label) (i_result i)
      (fst s @ (if cirIsTerminator (i_op i) then [TerminatorInMiddle (i_op i) label] else []), snd s))
      ((if cirIsTerminator (i_op i) then [TerminatorInMiddle (i_op i) label] else []) = [] \<and> True) ([] @ ids [i_result i])"
    by (rule checks_comp [OF checks_report checks_def_value])
  then show ?thesis using Some by (simp add: verify_inst_def [abs_def] inst_defs_def split: if_splits)
qed

lemma match_args_ok:
  "length gots = length wants \<Longrightarrow>
     match_args label target i gots wants = [] \<longleftrightarrow>
       list_all2 (\<lambda>got want. \<forall>g w. got = Some g \<longrightarrow> want = Some w \<longrightarrow>
          spelling (v_type g) = spelling (v_type w)) gots wants"
  by (induction label target i gots wants rule: match_args.induct) auto

lemma verify_successor_ok:
  assumes "byLabel = map_of (map (\<lambda>b. (bb_label b, b)) blocks)" "distinct (map bb_label blocks)"
  shows "verify_successor byLabel label s = [] \<longleftrightarrow> edge_ok blocks s"
proof -
  have m: "byLabel l = Some t \<longleftrightarrow> t \<in> set blocks \<and> bb_label t = l" for l t
  proof -
    have "byLabel l = Some t \<longleftrightarrow> (l, t) \<in> set (map (\<lambda>b. (bb_label b, b)) blocks)"
      unfolding assms(1) by (rule map_of_eq_Some_iff) (simp add: comp_def assms(2))
    then show ?thesis by auto
  qed
  show ?thesis
  proof (cases "byLabel (s_label s)")
    case None
    then have "\<not> (\<exists>t \<in> set blocks. bb_label t = s_label s)" using m by (metis option.distinct(1))
    then show ?thesis using None by (auto simp: verify_successor_def edge_ok_def)
  next
    case (Some t)
    then have "u = t" if "u \<in> set blocks" "bb_label u = s_label s" for u using m that by (metis option.inject)
    moreover have "t \<in> set blocks" "bb_label t = s_label s" using m Some by auto
    ultimately have "edge_ok blocks s \<longleftrightarrow> list_all2 (\<lambda>got want. \<forall>g w. got = Some g \<longrightarrow> want = Some w \<longrightarrow>
        spelling (v_type g) = spelling (v_type w)) (s_args s) (bb_params t)"
      unfolding edge_ok_def by blast
    then show ?thesis using Some
      by (auto simp: verify_successor_def match_args_ok dest: list_all2_lengthD)
  qed
qed

definition block_ok_by :: "(string \<rightharpoonup> 'f CirBlock) \<Rightarrow> 'f CirBlock \<Rightarrow> bool" where
  "block_ok_by byLabel bb \<longleftrightarrow>
     (\<forall>i. Some i \<in> set (bb_insts bb) \<longrightarrow> \<not> cirIsTerminator (i_op i)) \<and>
     (\<exists>t. terminator bb = Some t \<and> cirIsTerminator (i_op t) \<and>
        (\<forall>s \<in> set (successors t). verify_successor byLabel (bb_label bb) s = []))"

lemma checks_verify_block:
  "checks (verify_block byLabel entry bb) (block_ok_by byLabel bb) (block_defs entry bb)"
proof -
  let ?l = "bb_label bb"
  let ?params = "\<lambda>s. if bb_id bb = entry then s else fold (def_value (BlockParams ?l)) (bb_params bb) s"
  let ?body = "\<lambda>s. fold (verify_inst ?l) (bb_insts bb) (?params s)"
  have "checks ?params True (if bb_id bb = entry then [] else ids (bb_params bb))"
    using checks_def_values checks_id by (cases "bb_id bb = entry") simp_all
  from checks_comp [OF this checks_fold [of "bb_insts bb", OF checks_verify_inst [of ?l]]]
  have body: "checks ?body (\<forall>i. Some i \<in> set (bb_insts bb) \<longrightarrow> \<not> cirIsTerminator (i_op i))
      ((if bb_id bb = entry then [] else ids (bb_params bb)) @ concat (map inst_defs (bb_insts bb)))"
    by (rule checks_cong) auto
  show ?thesis
  proof (cases "terminator bb")
    case None
    from checks_comp [OF body checks_report [of "[NoTerminator ?l]"]] None show ?thesis
      by (simp add: verify_block_def [abs_def] block_ok_by_def block_defs_def inst_defs_def Let_def)
  next
    case (Some t)
    let ?nt = "if cirIsTerminator (i_op t) then [] else [NonTerminator ?l (i_op t)]"
    from checks_comp [OF checks_comp [OF checks_comp [OF body checks_report [of ?nt]]
        checks_def_value [of "AtTerminator ?l" "i_result t"]]
        checks_report [of "concat (map (verify_successor byLabel ?l) (successors t))"]]
    have "checks (verify_block byLabel entry bb)
        ((((\<forall>i. Some i \<in> set (bb_insts bb) \<longrightarrow> \<not> cirIsTerminator (i_op i)) \<and> ?nt = []) \<and> True) \<and>
          concat (map (verify_successor byLabel ?l) (successors t)) = []) (block_defs entry bb)"
      by (simp add: verify_block_def [abs_def] block_defs_def inst_defs_def Let_def Some)
    then show ?thesis by (rule checks_cong) (auto simp: block_ok_by_def Some)
  qed
qed

lemma block_ok_by_labels:
  assumes "byLabel = map_of (map (\<lambda>b. (bb_label b, b)) blocks)" "distinct (map bb_label blocks)"
  shows "block_ok_by byLabel bb \<longleftrightarrow> block_ok blocks bb"
  by (simp add: block_ok_by_def block_ok_def verify_successor_ok [OF assms])

lemma index_labels_errors:
  "fst (index_labels bbs (es, m)) = [] \<longleftrightarrow>
     es = [] \<and> distinct (map bb_label bbs) \<and> set (map bb_label bbs) \<inter> dom m = {}"
proof (induction bbs arbitrary: es m)
  case (Cons b bbs)
  show ?case by (cases "m (bb_label b)") (auto simp: Cons.IH simp del: fun_upd_apply)
qed simp

lemma index_labels_map:
  "snd (index_labels bbs (es, m)) = m ++ map_of (rev (map (\<lambda>b. (bb_label b, b)) bbs))"
proof (induction bbs arbitrary: es m)
  case (Cons b bbs)
  have "m(bb_label b \<mapsto> b) ++ f = m ++ ([bb_label b \<mapsto> b] ++ f)" for f :: "string \<rightharpoonup> 'a CirBlock"
    by (rule ext) (simp add: map_add_def split: option.splits)
  with Cons show ?case by (simp del: fun_upd_apply)
qed simp

lemma map_of_rev:
  assumes "distinct (map fst xs)" shows "map_of (rev xs) = map_of xs"
proof
  fix k
  have d: "distinct (map fst (rev xs))" using assms by (simp add: rev_map [symmetric])
  show "map_of (rev xs) k = map_of xs k"
  proof (cases "map_of xs k")
    case None
    then have "map_of (rev xs) k = None" by (simp add: map_of_eq_None_iff)
    with None show ?thesis by simp
  next
    case (Some v)
    then have "(k, v) \<in> set (rev xs)" using map_of_SomeD by fastforce
    then show ?thesis using d Some by (metis map_of_eq_Some_iff)
  qed
qed

lemma verify_wf: "verify fn = [] \<longleftrightarrow> cir_wf fn"
proof -
  obtain errors byLabel where ix: "index_labels (f_blocks fn) ([], Map.empty) = (errors, byLabel)" by fastforce
  have e: "errors = [] \<longleftrightarrow> distinct (map bb_label (f_blocks fn))"
    using index_labels_errors [of "f_blocks fn" "[]" Map.empty] ix by simp
  have m: "byLabel = map_of (map (\<lambda>b. (bb_label b, b)) (f_blocks fn))" if "errors = []"
  proof -
    have "byLabel = map_of (rev (map (\<lambda>b. (bb_label b, b)) (f_blocks fn)))"
      using index_labels_map [of "f_blocks fn" "[]" Map.empty] ix by simp
    also have "\<dots> = map_of (map (\<lambda>b. (bb_label b, b)) (f_blocks fn))"
      using that e by (intro map_of_rev) (simp add: comp_def)
    finally show ?thesis .
  qed
  let ?s = "fold (def_value FnParams) (f_params fn) (errors, {})"
  let ?entry = "bb_id (hd (f_blocks fn))"
  have v: "verify fn = fst (fold (verify_block byLabel ?entry) (f_blocks fn) ?s)"
    unfolding verify_def ix Let_def prod.case by (cases "f_blocks fn") simp_all
  have "checks (\<lambda>s. fold (verify_block byLabel ?entry) (f_blocks fn) (fold (def_value FnParams) (f_params fn) s))
      (True \<and> (\<forall>bb \<in> set (f_blocks fn). block_ok_by byLabel bb))
      (ids (f_params fn) @ concat (map (block_defs ?entry) (f_blocks fn)))"
    by (intro checks_comp checks_def_values checks_fold checks_verify_block)
  then have "verify fn = [] \<longleftrightarrow> errors = [] \<and> (\<forall>bb \<in> set (f_blocks fn). block_ok_by byLabel bb) \<and>
      distinct (ids (f_params fn) @ concat (map (block_defs ?entry) (f_blocks fn)))"
    unfolding v checks_def by auto
  also have "\<dots> \<longleftrightarrow> cir_wf fn"
    using e block_ok_by_labels [OF m] unfolding cir_wf_def by blast
  finally show ?thesis .
qed


text \<open>C20: The verifier accepts exactly the well-formed functions: block labels are unique, every
  value is defined once, every block ends in its only terminator, and every branch passes an
  existing block as many arguments as it has parameters and of their types.\<close>

theorem verify_decides_cir_wf: "verify fn = [] \<longleftrightarrow> cir_wf fn"
  by (rule verify_wf)

subsection \<open>The printer\<close>

text \<open>\<open>operator<<\<close> of an integer; that of a \<open>double\<close> is a parameter.\<close>

definition show_int :: "int \<Rightarrow> string" where
  "show_int i = (if i < 0 then ''-'' @ show_nat (nat (- i)) else show_nat (nat i))"

definition vref :: "CirValue option \<Rightarrow> string" where
  "vref v = (case v of Some x \<Rightarrow> ''%'' @ v_name x | None \<Rightarrow> ''%<null>'')"

definition refList :: "CirValue option list \<Rightarrow> nat \<Rightarrow> string" where
  "refList vs from_i = join_with '', '' (map vref (drop from_i vs))"

definition first_operand :: "'f CirInst \<Rightarrow> CirValue option" where
  "first_operand inst = (case operands inst of [] \<Rightarrow> None | v # _ \<Rightarrow> v)"

definition printResultType :: "'f CirInst \<Rightarrow> string" where
  "printResultType inst =
     (case i_result inst of Some r \<Rightarrow> '' : '' @ spelling (v_type r) | None \<Rightarrow> [])"

text \<open>A declaration dereferences its value: no output is a null pointer's.\<close>

definition printParamDecl :: "CirValue option \<Rightarrow> string option" where
  "printParamDecl v =
     map_option (\<lambda>x. vref v @ '': '' @ spelling (v_type x) @
       (let own = cirOwnershipWord (v_ownership x) in if own \<noteq> [] then '' '' @ own else [])) v"

definition printSuccessor :: "CirSuccessor \<Rightarrow> string" where
  "printSuccessor s =
     (case caseValue s of Some c \<Rightarrow> show_int c @ '' -> '' | None \<Rightarrow> []) @ s_label s @
     (if s_args s \<noteq> [] then ''('' @ refList (s_args s) 0 @ '')'' else [])"

definition inst_body :: "('f \<Rightarrow> string) \<Rightarrow> 'f CirInst \<Rightarrow> string" where
  "inst_body show_double inst =
     (let m = cirOpMnemonic (i_op inst); ops = operands inst; v0 = vref (first_operand inst) in
      case i_op inst of
        ConstInt \<Rightarrow> m @ '' '' @ show_int (intConst inst)
      | ConstFloat \<Rightarrow> m @ '' '' @ show_double (floatConst inst)
      | ConstBool \<Rightarrow> m @ '' '' @ (if boolConst inst then ''true'' else ''false'')
      | ConstStr \<Rightarrow> m @ '' '' @ [CHR 0x22] @ i_symbol inst @ [CHR 0x22]
      | ConstNull \<Rightarrow> m
      | ICmp \<Rightarrow> m @ (if i_symbol inst \<noteq> [] then ''.'' @ i_symbol inst else []) @ '' '' @ refList ops 0
      | FCmp \<Rightarrow> m @ (if i_symbol inst \<noteq> [] then ''.'' @ i_symbol inst else []) @ '' '' @ refList ops 0
      | LoadField \<Rightarrow> m @ '' '' @ v0 @ '', '' @ i_symbol inst
      | FieldAddr \<Rightarrow> m @ '' '' @ v0 @ '', '' @ i_symbol inst
      | StoreField \<Rightarrow>
          m @ '' '' @ vref (if length ops > 1 then ops ! 1 else None) @ '', '' @ v0 @ '', '' @ i_symbol inst
      | Call \<Rightarrow> m @ '' '' @ i_symbol inst @ ''('' @ refList ops 0 @ '')''
      | CallGeneric \<Rightarrow>
          m @ '' '' @ i_symbol inst @
          (if typeArgs inst \<noteq> [] then ''<'' @ join_with '', '' (typeArgs inst) @ ''>'' else []) @
          ''('' @ refList ops 0 @ '')''
      | CallIndirect \<Rightarrow> m @ '' '' @ v0 @ ''('' @ refList ops 1 @ '')''
      | ApplyClosure \<Rightarrow> m @ '' '' @ v0 @ ''('' @ refList ops 1 @ '')''
      | CallMethod \<Rightarrow> m @ '' '' @ v0 @ '', '' @ i_symbol inst @ ''('' @ refList ops 1 @ '')''
      | MakeClosure \<Rightarrow> m @ '' '' @ i_symbol inst @ '', ['' @ refList ops 0 @ '']''
      | Br \<Rightarrow> m @ '' '' @ (case successors inst of [] \<Rightarrow> [] | s # _ \<Rightarrow> printSuccessor s)
      | CondBr \<Rightarrow> m @ '' '' @ v0 @ concat (map (\<lambda>s. '', '' @ printSuccessor s) (successors inst))
      | Switch \<Rightarrow>
          m @ '' '' @ v0 @ '', ['' @ join_with '', '' (map printSuccessor (successors inst)) @ '']''
      | Return \<Rightarrow> m @ (if ops \<noteq> [] then '' '' @ v0 else [])
      | Unreachable \<Rightarrow> m
      | _ \<Rightarrow> m @ (if ops \<noteq> [] then '' '' @ refList ops 0 else []))"

definition printInst :: "('f \<Rightarrow> string) \<Rightarrow> 'f CirInst \<Rightarrow> string" where
  "printInst show_double inst =
     ''    '' @ (case i_result inst of Some r \<Rightarrow> vref (Some r) @ '' = '' | None \<Rightarrow> []) @
     inst_body show_double inst @ printResultType inst @
     (if i_op inst = MakeClosure \<and> targetKnown inst then ''   ; known'' else []) @ [CHR 0x0A]"

definition angle_list :: "string list \<Rightarrow> string" where
  "angle_list xs = (if xs \<noteq> [] then ''<'' @ join_with '', '' xs @ ''>'' else [])"

fun traverse :: "('a \<Rightarrow> 'b option) \<Rightarrow> 'a list \<Rightarrow> 'b list option" where
  "traverse f [] = Some []"
| "traverse f (x # xs) = Option.bind (f x) (\<lambda>y. map_option (Cons y) (traverse f xs))"

definition printBlock :: "('f \<Rightarrow> string) \<Rightarrow> 'f CirBlock \<Rightarrow> string option" where
  "printBlock show_double bb =
     map_option
       (\<lambda>lines. bb_label bb @ (if bb_params bb \<noteq> [] then ''('' @ refList (bb_params bb) 0 @ '')'' else []) @
          '':'' @ [CHR 0x0A] @ concat lines @
          (case terminator bb of Some t \<Rightarrow> printInst show_double t | None \<Rightarrow> []))
       (traverse (map_option (printInst show_double)) (bb_insts bb))"

definition print :: "('f \<Rightarrow> string) \<Rightarrow> 'f CirFunction \<Rightarrow> string option" where
  "print show_double fn =
     Option.bind (traverse printParamDecl (f_params fn)) (\<lambda>params.
     Option.bind (traverse (printBlock show_double) (f_blocks fn)) (\<lambda>blocks.
       Some (''fn '' @ f_name fn @ angle_list (genericParams fn) @ ''('' @ join_with '', '' params @ '') -> '' @
         (if isVoid (returnType fn) then ''()''
          else spelling (returnType fn) @
            (let own = cirOwnershipWord (returnOwnership fn) in if own \<noteq> [] then '' '' @ own else [])) @
         '' {'' @ [CHR 0x0A] @ concat blocks @ ''}'' @ [CHR 0x0A])))"

text \<open>The dump tells opcodes apart.\<close>

lemma cirOpMnemonic_inj: "inj cirOpMnemonic"
proof (rule injI)
  fix p q assume "cirOpMnemonic p = cirOpMnemonic q"
  then show "p = q" by (cases p; cases q) simp_all
qed

lemma traverse_total: "traverse f xs \<noteq> None \<longleftrightarrow> (\<forall>x \<in> set xs. f x \<noteq> None)"
  by (induction xs) (auto split: Option.bind_splits)

text \<open>The dump of a function exists exactly if none of its parameters and instructions is a
  null pointer: nothing else that the verifier would report, such as a missing terminator or a
  branch without successors, keeps the printer from writing a text.\<close>

lemma print_total_iff:
  "print show_double fn \<noteq> None \<longleftrightarrow>
     None \<notin> set (f_params fn) \<and> (\<forall>bb \<in> set (f_blocks fn). None \<notin> set (bb_insts bb))"
proof -
  have "printBlock show_double bb \<noteq> None \<longleftrightarrow> None \<notin> set (bb_insts bb)" for bb
    using traverse_total [of "map_option (printInst show_double)" "bb_insts bb"]
    by (auto simp: printBlock_def)
  moreover have "printParamDecl v \<noteq> None \<longleftrightarrow> v \<noteq> None" for v by (simp add: printParamDecl_def)
  ultimately have "traverse printParamDecl (f_params fn) \<noteq> None \<longleftrightarrow> None \<notin> set (f_params fn)"
    and "traverse (printBlock show_double) (f_blocks fn) \<noteq> None \<longleftrightarrow>
      (\<forall>bb \<in> set (f_blocks fn). None \<notin> set (bb_insts bb))"
    unfolding traverse_total by metis+
  then show ?thesis by (auto simp: print_def split: Option.bind_splits)
qed

end
