(* ===== verification/Cir_Analysis.thy ===== *)
theory Cir_Analysis
  imports Cir_Core
begin

text \<open>
  The specialization analysis (\<open>ir/CirAnalysis.cpp\<close>): for each call that passes a
  closure it decides whether the callee can be specialized to the closure's target.
\<close>

subsection \<open>Data\<close>

record CirSpecRequest =
  callerFn :: string
  callee :: string
  sr_typeArgs :: "string list"
  closureParam :: string
  targetFn :: string
  invocationSites :: nat

datatype reason =
    CalleeNotInSlice
  | NotDirectlySupplied
  | Capturing
  | OwnedParameter
  | ParameterEscapes
  | NoInvocationSites

record CirLeaveIndirect =
  li_callerFn :: string
  li_callee :: string
  li_reason :: reason

record CirAnalysisResult =
  specialize :: "CirSpecRequest list"
  leaveIndirect :: "CirLeaveIndirect list"

subsection \<open>Closures and where they come from\<close>

definition has_arrow :: "string \<Rightarrow> bool" where
  "has_arrow s = (\<exists>i \<in> set [0..<length s]. take 2 (drop i s) = ''->'')"

definition isClosureType :: "CirType \<Rightarrow> bool" where
  "isClosureType t =
     ((case resolved t of Some r \<Rightarrow> functionType r \<noteq> None | None \<Rightarrow> False) \<or> has_arrow (spelling t))"

text \<open>All instructions of a function in order, the terminators included; null pointers are
  skipped by every scan.\<close>

definition all_insts :: "'f CirFunction \<Rightarrow> 'f CirInst list" where
  "all_insts fn = present (concat (map (\<lambda>bb. bb_insts bb @ [terminator bb]) (f_blocks fn)))"

text \<open>\<open>FnIndex\<close>: the defining instruction of a value, the last one if there are several,
  and the values stored into a cell. A store through a null pointer is filed under the null
  address.\<close>

definition defOf :: "'f CirFunction \<Rightarrow> nat \<Rightarrow> 'f CirInst option" where
  "defOf fn v = find (\<lambda>i. map_option v_id (i_result i) = Some v) (rev (all_insts fn))"

definition cellStores :: "'f CirFunction \<Rightarrow> nat \<Rightarrow> CirValue option list" where
  "cellStores fn v =
     map (\<lambda>i. operands i ! 1)
       (filter (\<lambda>i. i_op i = Store \<and> length (operands i) \<ge> 2 \<and> map_option v_id (operands i ! 0) = Some v)
         (all_insts fn))"

text \<open>The depth of the recursion is bounded by 8 in the code, where the last call that does any
  work has depth 8; \<open>fuel\<close> counts the calls left.\<close>

fun traceClosureTarget :: "'f CirFunction \<Rightarrow> nat \<Rightarrow> CirValue option \<Rightarrow> 'f CirInst option" where
  "traceClosureTarget fn 0 v = None"
| "traceClosureTarget fn (Suc fuel) v =
     (case v of
        None \<Rightarrow> None
      | Some x \<Rightarrow>
     (case defOf fn (v_id x) of
        None \<Rightarrow> None
      | Some d \<Rightarrow>
          if i_op d = MakeClosure then Some d
          else if i_op d = AllocStack then
            (case cellStores fn (v_id x) of
               [w] \<Rightarrow> traceClosureTarget fn fuel w
             | _ \<Rightarrow> None)
          else None))"

definition maxTraceCalls :: nat where
  "maxTraceCalls = 9"

subsection \<open>The uses of the closure parameter\<close>

definition use_positions :: "nat \<Rightarrow> 'f CirInst \<Rightarrow> nat list" where
  "use_positions p inst =
     filter (\<lambda>k. map_option v_id (operands inst ! k) = Some p) [0..<length (operands inst)]"

definition scan_use :: "nat \<Rightarrow> 'f CirInst \<Rightarrow> nat \<times> bool \<Rightarrow> nat \<times> bool" where
  "scan_use p inst s =
     fold (\<lambda>k (sites, escapes).
         if i_op inst = ApplyClosure \<and> k = 0 then (sites + 1, escapes) else (sites, True))
       (use_positions p inst) s"

definition invocationMap :: "'f CirFunction \<Rightarrow> nat \<Rightarrow> nat \<times> bool" where
  "invocationMap fn p = fold (scan_use p) (all_insts fn) (0, False)"

subsection \<open>The decision at one argument\<close>

text \<open>What the body of the loop over the arguments does at one of them.\<close>

datatype verdict = Pass | Leave reason | Specialize CirSpecRequest

text \<open>The probes on a closure parameter \<open>p\<close> of the callee \<open>g\<close>.\<close>

definition probe ::
    "'f CirFunction \<Rightarrow> 'f CirInst \<Rightarrow> 'f CirFunction \<Rightarrow> CirValue \<Rightarrow> 'f CirInst option \<Rightarrow> verdict" where
  "probe caller inst g p mk =
     (case mk of
        None \<Rightarrow> Leave NotDirectlySupplied
      | Some k \<Rightarrow>
          if \<not> targetKnown k \<or> operands k \<noteq> [] then Leave Capturing
          else if v_ownership p = Owned then Leave OwnedParameter
          else
            let (sites, escapes) = invocationMap g (v_id p) in
            if escapes then Leave ParameterEscapes
            else if sites < 1 then Leave NoInvocationSites
            else Specialize \<lparr>callerFn = f_name caller, callee = f_name g, sr_typeArgs = typeArgs inst,
                   closureParam = v_name p, targetFn = i_symbol k, invocationSites = sites\<rparr>)"

text \<open>A parameter of the callee that is a null pointer would be dereferenced; the functions of a
  slice have none, and here it counts as not a closure.\<close>

definition closure_param :: "'f CirFunction \<Rightarrow> nat \<Rightarrow> CirValue option" where
  "closure_param g j =
     (if j < length (f_params g) then
        (case f_params g ! j of
           Some p \<Rightarrow> if isClosureType (v_type p) then Some p else None
         | None \<Rightarrow> None)
      else None)"

definition verdict_at ::
    "(string \<rightharpoonup> 'f CirFunction) \<Rightarrow> 'f CirFunction \<Rightarrow> 'f CirInst \<Rightarrow> nat \<Rightarrow> verdict" where
  "verdict_at byName caller inst j =
     (case operands inst ! j of
        None \<Rightarrow> Pass
      | Some arg \<Rightarrow>
          let mk = traceClosureTarget caller maxTraceCalls (Some arg) in
          case byName (i_symbol inst) of
            None \<Rightarrow>
              if isClosureType (v_type arg) \<or> mk \<noteq> None then Leave CalleeNotInSlice else Pass
          | Some g \<Rightarrow>
              (case closure_param g j of None \<Rightarrow> Pass | Some p \<Rightarrow> probe caller inst g p mk))"

definition decide ::
    "(string \<rightharpoonup> 'f CirFunction) \<Rightarrow> 'f CirFunction \<Rightarrow> 'f CirInst \<Rightarrow> nat \<Rightarrow> CirAnalysisResult \<Rightarrow> CirAnalysisResult" where
  "decide byName caller inst j r =
     (case verdict_at byName caller inst j of
        Pass \<Rightarrow> r
      | Leave w \<Rightarrow>
          r\<lparr>leaveIndirect := leaveIndirect r @
            [\<lparr>li_callerFn = f_name caller, li_callee = i_symbol inst, li_reason = w\<rparr>]\<rparr>
      | Specialize q \<Rightarrow> r\<lparr>specialize := specialize r @ [q]\<rparr>)"

definition analyze_inst ::
    "(string \<rightharpoonup> 'f CirFunction) \<Rightarrow> 'f CirFunction \<Rightarrow> 'f CirInst \<Rightarrow> CirAnalysisResult \<Rightarrow> CirAnalysisResult" where
  "analyze_inst byName caller inst r =
     (if i_op inst \<noteq> Call \<and> i_op inst \<noteq> CallGeneric then r
      else fold (decide byName caller inst) [0..<length (operands inst)] r)"

definition by_name :: "'f CirFunction list \<Rightarrow> string \<rightharpoonup> 'f CirFunction" where
  "by_name fns = map_of (rev (map (\<lambda>fn. (f_name fn, fn)) fns))"

definition analyze :: "'f CirFunction option list \<Rightarrow> CirAnalysisResult" where
  "analyze sl =
     (let fns = present sl
      in fold (\<lambda>caller. fold (analyze_inst (by_name fns) caller) (all_insts caller)) fns
           \<lparr>specialize = [], leaveIndirect = []\<rparr>)"

definition reason_text :: "reason \<Rightarrow> string" where
  "reason_text w =
     (case w of
        CalleeNotInSlice \<Rightarrow> ''callee body not in slice (incomplete invocation set)''
      | NotDirectlySupplied \<Rightarrow> ''closure argument not a directly-supplied known closure''
      | Capturing \<Rightarrow> ''closure target is capturing (not capture-free)''
      | OwnedParameter \<Rightarrow> ''closure parameter is owned (drop semantics)''
      | ParameterEscapes \<Rightarrow> ''closure parameter escapes (used outside apply.closure)''
      | NoInvocationSites \<Rightarrow> ''no invocation sites for the closure parameter'')"

definition printAnalysis :: "CirAnalysisResult \<Rightarrow> string" where
  "printAnalysis r =
     concat (map (\<lambda>q. ''SPECIALIZE '' @ callee q @ angle_list (sr_typeArgs q) @ ''  param '' @ closureParam q @
        '' -> '' @ targetFn q @ ''  (sites: '' @ show_nat (invocationSites q) @ '', caller: '' @ callerFn q @
        '')'' @ [CHR 0x0A]) (specialize r)) @
     concat (map (\<lambda>l. ''LEAVE-INDIRECT '' @ li_callee l @ ''  (caller: '' @ li_callerFn l @ '')  reason: '' @
        reason_text (li_reason l) @ [CHR 0x0A]) (leaveIndirect r))"


subsection \<open>What the scans find\<close>

definition applies :: "nat \<Rightarrow> 'f CirInst \<Rightarrow> bool" where
  "applies p inst \<longleftrightarrow> i_op inst = ApplyClosure \<and> operands inst \<noteq> [] \<and> map_option v_id (hd (operands inst)) = Some p"

definition escapes_at :: "nat \<Rightarrow> 'f CirInst \<Rightarrow> bool" where
  "escapes_at p inst \<longleftrightarrow>
     (\<exists>k < length (operands inst). map_option v_id (operands inst ! k) = Some p \<and>
        \<not> (i_op inst = ApplyClosure \<and> k = 0))"

lemma scan_positions:
  assumes "distinct ks"
  shows "fold (\<lambda>k (sites, escapes). if P k then (sites + 1, escapes) else (sites, True)) ks (n :: nat, e) =
    (n + card {k \<in> set ks. P k}, e \<or> (\<exists>k \<in> set ks. \<not> P k))"
  using assms
proof (induction ks arbitrary: n e)
  case (Cons k ks)
  have "{x \<in> set (k # ks). P x} = (if P k then insert k {x \<in> set ks. P x} else {x \<in> set ks. P x})" by auto
  with Cons show ?case by auto
qed simp

lemma scan_use_result:
  "scan_use p inst (n, e) = (n + (if applies p inst then 1 else 0), e \<or> escapes_at p inst)"
proof -
  have "{k \<in> set (use_positions p inst). i_op inst = ApplyClosure \<and> k = 0} = (if applies p inst then {0} else {})"
    by (auto simp: use_positions_def applies_def hd_conv_nth)
  moreover have "(\<exists>k \<in> set (use_positions p inst). \<not> (i_op inst = ApplyClosure \<and> k = 0)) \<longleftrightarrow> escapes_at p inst"
    by (auto simp: use_positions_def escapes_at_def)
  moreover have "distinct (use_positions p inst)" by (simp add: use_positions_def)
  ultimately show ?thesis
    unfolding scan_use_def by (simp add: scan_positions del: split_paired_Ex)
qed

lemma scan_uses_result:
  "fold (scan_use p) is (n, e) = (n + length (filter (applies p) is), e \<or> (\<exists>i \<in> set is. escapes_at p i))"
  by (induction "is" arbitrary: n e) (auto simp: scan_use_result)

lemma invocationMap_result:
  "invocationMap fn p =
     (length (filter (applies p) (all_insts fn)), \<exists>i \<in> set (all_insts fn). escapes_at p i)"
  by (simp add: invocationMap_def scan_uses_result)

lemma defOf_Some: "defOf fn v = Some d \<Longrightarrow> d \<in> set (all_insts fn)"
  unfolding defOf_def by (metis find_Some_iff nth_mem set_rev)

lemma traceClosureTarget_closure:
  "traceClosureTarget fn fuel v = Some k \<Longrightarrow> i_op k = MakeClosure \<and> k \<in> set (all_insts fn)"
proof (induction fuel arbitrary: v)
  case (Suc fuel)
  then obtain x d where x: "v = Some x" "defOf fn (v_id x) = Some d" by (auto split: option.splits)
  show ?case
  proof (cases "i_op d = MakeClosure")
    case True
    with Suc.prems x show ?thesis by (auto dest: defOf_Some)
  next
    case False
    with Suc.prems x obtain w where "traceClosureTarget fn fuel w = Some k"
      by (auto split: if_splits list.splits)
    then show ?thesis by (rule Suc.IH)
  qed
qed simp

text \<open>What a request promises: a call in the slice to a function of the slice, whose argument at
  the position of the closure parameter is a known, capture-free closure, and a parameter that is
  not owned and never used as an operand except to be applied, at the number of sites given.\<close>

definition request_ok :: "'f CirFunction list \<Rightarrow> CirSpecRequest \<Rightarrow> bool" where
  "request_ok fns q \<longleftrightarrow>
     (\<exists>caller \<in> set fns. \<exists>inst \<in> set (all_insts caller). \<exists>j arg g p k.
        i_op inst \<in> {Call, CallGeneric} \<and> j < length (operands inst) \<and> operands inst ! j = Some arg \<and>
        g \<in> set fns \<and> f_name g = i_symbol inst \<and> j < length (f_params g) \<and> f_params g ! j = Some p \<and>
        isClosureType (v_type p) \<and> v_ownership p \<noteq> Owned \<and>
        traceClosureTarget caller maxTraceCalls (Some arg) = Some k \<and> k \<in> set (all_insts caller) \<and>
        i_op k = MakeClosure \<and> targetKnown k \<and> operands k = [] \<and>
        (\<forall>i \<in> set (all_insts g). \<not> escapes_at (v_id p) i) \<and>
        invocationSites q = length (filter (applies (v_id p)) (all_insts g)) \<and> invocationSites q \<ge> 1 \<and>
        callerFn q = f_name caller \<and> callee q = f_name g \<and> sr_typeArgs q = typeArgs inst \<and>
        closureParam q = v_name p \<and> targetFn q = i_symbol k)"

lemma by_name_Some: "by_name fns n = Some g \<Longrightarrow> g \<in> set fns \<and> f_name g = n"
  by (auto simp: by_name_def dest!: map_of_SomeD)

lemma probe_Specialize:
  assumes "probe caller inst g p mk = Specialize q"
  shows "v_ownership p \<noteq> Owned" "\<not> snd (invocationMap g (v_id p))" "fst (invocationMap g (v_id p)) \<ge> 1"
    and "\<exists>k. mk = Some k \<and> targetKnown k \<and> operands k = [] \<and>
      q = \<lparr>callerFn = f_name caller, callee = f_name g, sr_typeArgs = typeArgs inst,
           closureParam = v_name p, targetFn = i_symbol k, invocationSites = fst (invocationMap g (v_id p))\<rparr>"
  using assms by (simp_all add: probe_def Let_def split: option.splits if_splits prod.splits)

lemma verdict_Specialize:
  assumes "verdict_at byName caller inst j = Specialize q"
  obtains arg g p where "operands inst ! j = Some arg" "byName (i_symbol inst) = Some g"
    "closure_param g j = Some p" "probe caller inst g p (traceClosureTarget caller maxTraceCalls (Some arg)) = Specialize q"
  using assms by (auto simp: verdict_at_def Let_def split: option.splits if_splits)

lemma closure_param_Some:
  "closure_param g j = Some p \<Longrightarrow>
     j < length (f_params g) \<and> f_params g ! j = Some p \<and> isClosureType (v_type p)"
  by (auto simp: closure_param_def split: option.splits if_splits)

lemma verdict_request_ok:
  assumes v: "verdict_at (by_name fns) caller inst j = Specialize q"
    and c: "caller \<in> set fns" and i: "inst \<in> set (all_insts caller)"
    and op: "i_op inst \<in> {Call, CallGeneric}" and j: "j < length (operands inst)"
  shows "request_ok fns q"
proof -
  from v obtain arg g p where arg: "operands inst ! j = Some arg" and g: "by_name fns (i_symbol inst) = Some g"
    and p: "closure_param g j = Some p"
    and pr: "probe caller inst g p (traceClosureTarget caller maxTraceCalls (Some arg)) = Specialize q"
    by (rule verdict_Specialize)
  from probe_Specialize(4) [OF pr] obtain k where k: "traceClosureTarget caller maxTraceCalls (Some arg) = Some k"
      "targetKnown k" "operands k = []"
    and q: "q = \<lparr>callerFn = f_name caller, callee = f_name g, sr_typeArgs = typeArgs inst,
           closureParam = v_name p, targetFn = i_symbol k, invocationSites = fst (invocationMap g (v_id p))\<rparr>"
    by blast
  note facts = by_name_Some [OF g] closure_param_Some [OF p] probe_Specialize(1-3) [OF pr]
    traceClosureTarget_closure [OF k(1)]
  show ?thesis unfolding request_ok_def
    by (rule bexI [OF _ c], rule bexI [OF _ i], intro exI [of _ j] exI [of _ arg] exI [of _ g] exI [of _ p] exI [of _ k])
      (use facts arg k op j in \<open>simp add: q invocationMap_result\<close>)
qed

lemma decide_ok:
  assumes "\<forall>q \<in> set (specialize r). request_ok fns q"
    and "caller \<in> set fns" "inst \<in> set (all_insts caller)" "i_op inst \<in> {Call, CallGeneric}" "j < length (operands inst)"
  shows "\<forall>q \<in> set (specialize (decide (by_name fns) caller inst j r)). request_ok fns q"
  using assms(1) verdict_request_ok [OF _ assms(2-5)]
  by (auto simp: decide_def split: verdict.splits)

lemma fold_invariant2:
  assumes "P s" and "\<And>x s. x \<in> set xs \<Longrightarrow> P s \<Longrightarrow> P (f x s)"
  shows "P (fold f xs s)"
  using assms by (induction xs arbitrary: s) auto

text \<open>C22: Every specialization request of the analysis comes from a call in the slice whose argument is traced to a
  closure made in the caller, with a known target and no captured operands by the marks of that instruction, of a
  callee in the slice, whose parameter is a closure that is not owned and is an operand of no instruction and no
  terminator except as the closure of an application; the number of sites is that of the applications of the
  parameter itself, and not zero. What a terminator passes to the parameters of a block is no operand and is not looked
  at (\<open>escape_through_block_argument\<close> below).\<close>

theorem specialize_requests_ok:
  "\<forall>q \<in> set (specialize (analyze sl)). request_ok (present sl) q"
proof -
  let ?fns = "present sl"
  let ?P = "\<lambda>r. \<forall>q \<in> set (specialize r). request_ok ?fns q"
  have inst: "?P (analyze_inst (by_name ?fns) caller inst r)"
    if r: "?P r" and c: "caller \<in> set ?fns" and i: "inst \<in> set (all_insts caller)" for r caller inst
  proof (cases "i_op inst \<in> {Call, CallGeneric}")
    case op: True
    have "?P (fold (decide (by_name ?fns) caller inst) [0..<length (operands inst)] r)"
      by (rule fold_invariant2) (use r decide_ok [OF _ c i op] in auto)
    then show ?thesis using r by (simp add: analyze_inst_def)
  qed (use r in \<open>simp add: analyze_inst_def\<close>)
  have caller: "?P (fold (analyze_inst (by_name ?fns) caller) (all_insts caller) r)"
    if "?P r" "caller \<in> set ?fns" for r caller
    by (rule fold_invariant2) (use that inst in blast)+
  have "?P (fold (\<lambda>caller. fold (analyze_inst (by_name ?fns) caller) (all_insts caller)) ?fns
      \<lparr>specialize = [], leaveIndirect = []\<rparr>)"
    by (rule fold_invariant2) (simp, rule caller)
  then show ?thesis by (simp add: analyze_def Let_def)
qed

subsection \<open>An escape that the analysis does not see\<close>

text \<open>The scan of the uses looks at operands only. A terminator also uses values as the
  arguments of its successors: a closure parameter passed on to a block parameter escapes the scan,
  and the applications of that block parameter are not among its sites.\<close>

definition val :: "nat \<Rightarrow> string \<Rightarrow> string \<Rightarrow> CirValue" where
  "val i n ty = \<lparr>v_id = i, v_name = n, v_type = \<lparr>spelling = ty, resolved = None\<rparr>, v_ownership = Value\<rparr>"

definition leak_inst :: "CirOp \<Rightarrow> unit CirInst" where
  "leak_inst = cirInst ()"

text \<open>\<open>fn each(%f: (int)->int) { bb0: apply.closure %f(); br bb1(%f)  bb1(%g): apply.closure %g(); return %g }\<close>
  and \<open>fn run() { bb0: %k = make.closure lam, []; call each(%k); return }\<close>.\<close>

definition leaky_each :: "unit CirFunction" where
  "leaky_each =
     \<lparr>f_name = ''each'', genericParams = [], f_params = [Some (val 1 ''f'' ''(int)->int'')],
      returnType = voidType, returnOwnership = Value,
      f_blocks =
        [\<lparr>bb_id = 0, bb_label = ''bb0'', bb_params = [Some (val 1 ''f'' ''(int)->int'')],
          bb_insts = [Some ((leak_inst ApplyClosure)\<lparr>operands := [Some (val 1 ''f'' ''(int)->int'')]\<rparr>)],
          terminator = Some ((leak_inst Br)\<lparr>successors :=
            [\<lparr>s_label = ''bb1'', s_args = [Some (val 1 ''f'' ''(int)->int'')], caseValue = None\<rparr>]\<rparr>)\<rparr>,
         \<lparr>bb_id = 1, bb_label = ''bb1'', bb_params = [Some (val 2 ''g'' ''(int)->int'')],
          bb_insts = [Some ((leak_inst ApplyClosure)\<lparr>operands := [Some (val 2 ''g'' ''(int)->int'')]\<rparr>)],
          terminator = Some ((leak_inst Return)\<lparr>operands := [Some (val 2 ''g'' ''(int)->int'')]\<rparr>)\<rparr>]\<rparr>"

definition leaky_run :: "unit CirFunction" where
  "leaky_run =
     \<lparr>f_name = ''run'', genericParams = [], f_params = [], returnType = voidType, returnOwnership = Value,
      f_blocks =
        [\<lparr>bb_id = 2, bb_label = ''bb0'', bb_params = [],
          bb_insts =
            [Some ((leak_inst MakeClosure)\<lparr>i_symbol := ''lam'', targetKnown := True,
                i_result := Some (val 3 ''k'' ''(int)->int'')\<rparr>),
             Some ((leak_inst Call)\<lparr>i_symbol := ''each'', operands := [Some (val 3 ''k'' ''(int)->int'')]\<rparr>)],
          terminator = Some (leak_inst Return)\<rparr>]\<rparr>"

text \<open>Two functions that the verifier accepts, of which one applies its closure parameter
  once, passes it on to a block and returns it from there: the analysis requests to specialize it
  with one site, although the closure is applied at two and escapes by the return.\<close>

theorem escape_through_block_argument:
  "verify leaky_each = [] \<and> verify leaky_run = [] \<and>
   analyze [Some leaky_run, Some leaky_each] =
     \<lparr>specialize = [\<lparr>callerFn = ''run'', callee = ''each'', sr_typeArgs = [], closureParam = ''f'',
        targetFn = ''lam'', invocationSites = 1\<rparr>], leaveIndirect = []\<rparr>"
proof (intro conjI)
  show "verify leaky_each = []" by code_simp
  show "verify leaky_run = []" by code_simp
  show "analyze [Some leaky_run, Some leaky_each] =
     \<lparr>specialize = [\<lparr>callerFn = ''run'', callee = ''each'', sr_typeArgs = [], closureParam = ''f'',
        targetFn = ''lam'', invocationSites = 1\<rparr>], leaveIndirect = []\<rparr>" by code_simp
qed

theorem specialize_requests_ok_witness:
  "\<exists>q. q \<in> set (specialize (analyze [Some leaky_run, Some leaky_each])) \<and>
     request_ok [leaky_run, leaky_each] q"
proof -
  have "case specialize (analyze [Some leaky_run, Some leaky_each]) of [] \<Rightarrow> False | _ \<Rightarrow> True" by code_simp
  then obtain q where "q \<in> set (specialize (analyze [Some leaky_run, Some leaky_each]))"
    by (cases "specialize (analyze [Some leaky_run, Some leaky_each])") auto
  with specialize_requests_ok [of "[Some leaky_run, Some leaky_each]"] show ?thesis by auto
qed

end
