(* ===== verification/Cir_Builder.thy ===== *)
theory Cir_Builder
  imports Cir_Analysis
begin

text \<open>
  The lowering of a method's syntax tree to CIR (\<open>ir/CirBuilder.cpp\<close>). A tree node has one
  constructor per class that the lowering tells apart, with what it reads of it: children, slots
  and resolved types (a call has its arguments in a slot and its receiver among the children);
  \<open>NullNode\<close> is a null pointer. A fresh value takes its address from a counter.
\<close>

subsection \<open>The syntax tree\<close>

datatype BinaryOp =
    ADD | SUB | MUL | DIV | BITAND | BITOR | BITXOR | SHIFTRIGHT | USHIFTRIGHT | SHIFTLEFT | MOD
  | ASSIGN | ADD_EQUALS | SUB_EQUALS | MUL_EQUALS | DIV_EQUALS | BITAND_EQUALS | BITOR_EQUALS
  | BITXOR_EQUALS | SHIFTRIGHT_EQUALS | USHIFTRIGHT_EQUALS | SHIFTLEFT_EQUALS | MOD_EQUALS
  | LT | LE | GT | GE | EQ | NE
  | LOGAND | LOGOR

text \<open>A declarator whose initializer is absent or has no children has \<open>NullNode\<close> for it.\<close>

datatype node =
    NullNode
  | Identifier string "CajetaType option"
  | Lambda bool "CajetaType option"
  | MethodCall string "node list" "node list" "CajetaType option"
  | Binary BinaryOp "node list" "CajetaType option"
  | ArrayIndex "node list" "CajetaType option"
  | MoveExpr "node list" "CajetaType option"
  | CastExpr "node list" "CajetaType option"
  | BooleanSwitch "node list" "CajetaType option"
  | Primary "node list" "CajetaType option"
  | OtherExpr "node list" "CajetaType option"
  | BlockNode "node list"
  | LabelStmt node
  | ScopeStmt node
  | LocalDecl "CajetaType option" "declarator list"
  | ExprStmt node
  | ReturnStmt node
  | IfStmt node node node
  | WhileStmt node node
  | ForStmt node node "node list" node
  | EnhancedFor node node
  | OtherNode "node list"
and declarator = Declarator string node

definition is_expression :: "node \<Rightarrow> bool" where
  "is_expression n =
     (case n of
        Identifier _ _ \<Rightarrow> True | Lambda _ _ \<Rightarrow> True | MethodCall _ _ _ _ \<Rightarrow> True | Binary _ _ _ \<Rightarrow> True
      | ArrayIndex _ _ \<Rightarrow> True | MoveExpr _ _ \<Rightarrow> True | CastExpr _ _ \<Rightarrow> True | BooleanSwitch _ _ \<Rightarrow> True
      | Primary _ _ \<Rightarrow> True | OtherExpr _ _ \<Rightarrow> True | _ \<Rightarrow> False)"

definition child :: "node list \<Rightarrow> nat \<Rightarrow> node" where
  "child cs i = (if i < length cs then cs ! i else NullNode)"

lemma size_child [termination_simp]: "size (child cs i) < Suc (size_list size cs)"
proof (cases "i < length cs")
  case True
  then have "size (cs ! i) \<le> size_list size cs" by (intro size_list_estimation') auto
  then show ?thesis using True by (simp add: child_def)
qed (simp add: child_def)

subsection \<open>Types and ownership\<close>

definition PRIMITIVE_FLAG :: "64 word" where "PRIMITIVE_FLAG = 1"
definition VALUE_TYPE_FLAG :: "64 word" where "VALUE_TYPE_FLAG = push_bit 19 1"

definition ends_with :: "string \<Rightarrow> string \<Rightarrow> bool" where
  "ends_with suffix s = (length suffix \<le> length s \<and> drop (length s - length suffix) s = suffix)"

definition isVoidType :: "CajetaType option \<Rightarrow> bool" where
  "isVoidType t =
     (case t of
        None \<Rightarrow> True
      | Some c \<Rightarrow> toCanonical c = ''void'' \<or> ends_with ''.void'' (toCanonical c))"

definition cirTypeOf :: "CajetaType option \<Rightarrow> CirType" where
  "cirTypeOf t =
     \<lparr>spelling = (case t of Some c \<Rightarrow> toCanonical c | None \<Rightarrow> ''?''), resolved = t\<rparr>"

definition ownershipFor :: "CajetaType option \<Rightarrow> bool \<Rightarrow> CirOwnership" where
  "ownershipFor t transferred =
     (if transferred then Owned
      else case t of
        None \<Rightarrow> Value
      | Some c \<Rightarrow>
          if functionType c \<noteq> None then Value
          else if getTypeFlags c AND (PRIMITIVE_FLAG OR VALUE_TYPE_FLAG) \<noteq> 0 then Value
          else Borrowed)"

definition isAssignOp :: "BinaryOp \<Rightarrow> bool" where
  "isAssignOp bop =
     (bop \<in> {ASSIGN, ADD_EQUALS, SUB_EQUALS, MUL_EQUALS, DIV_EQUALS, BITAND_EQUALS, BITOR_EQUALS,
       BITXOR_EQUALS, SHIFTRIGHT_EQUALS, USHIFTRIGHT_EQUALS, SHIFTLEFT_EQUALS, MOD_EQUALS})"

text \<open>The opcode with the predicate of a comparison, which is empty otherwise.\<close>

definition mapBinaryOp :: "BinaryOp \<Rightarrow> CirOp \<times> string" where
  "mapBinaryOp bop =
     (case bop of
        ADD \<Rightarrow> (Add, []) | SUB \<Rightarrow> (Sub, []) | MUL \<Rightarrow> (Mul, []) | DIV \<Rightarrow> (Div, []) | MOD \<Rightarrow> (Rem, [])
      | BITAND \<Rightarrow> (And, []) | LOGAND \<Rightarrow> (And, []) | BITOR \<Rightarrow> (Or, []) | LOGOR \<Rightarrow> (Or, [])
      | BITXOR \<Rightarrow> (Xor, []) | SHIFTLEFT \<Rightarrow> (Shl, []) | SHIFTRIGHT \<Rightarrow> (Shr, []) | USHIFTRIGHT \<Rightarrow> (Shr, [])
      | LT \<Rightarrow> (ICmp, ''slt'') | LE \<Rightarrow> (ICmp, ''sle'') | GT \<Rightarrow> (ICmp, ''sgt'') | GE \<Rightarrow> (ICmp, ''sge'')
      | EQ \<Rightarrow> (ICmp, ''eq'') | NE \<Rightarrow> (ICmp, ''ne'')
      | _ \<Rightarrow> (Add, []))"

subsection \<open>The lowering state\<close>

record lowerer =
  lw_fn :: string
  lw_insts :: "unit CirInst list"
  lw_scope :: "string \<rightharpoonup> CirValue"
  lw_temp :: nat
  lw_lambdaSeq :: nat
  lw_next :: nat

definition fresh :: "CirType \<Rightarrow> CirOwnership \<Rightarrow> lowerer \<Rightarrow> CirValue \<times> lowerer" where
  "fresh ty own L =
     (\<lparr>v_id = lw_next L, v_name = CHR ''t'' # show_nat (lw_temp L), v_type = ty, v_ownership = own\<rparr>,
      L\<lparr>lw_temp := lw_temp L + 1, lw_next := lw_next L + 1\<rparr>)"

definition emit :: "unit CirInst \<Rightarrow> lowerer \<Rightarrow> lowerer" where
  "emit inst L = L\<lparr>lw_insts := lw_insts L @ [inst]\<rparr>"

text \<open>An instruction with a fresh result, the way most cases end.\<close>

definition emit_result ::
    "unit CirInst \<Rightarrow> CirType \<Rightarrow> CirOwnership \<Rightarrow> lowerer \<Rightarrow> CirValue option \<times> lowerer" where
  "emit_result inst ty own L =
     (let (r, L') = fresh ty own L in (Some r, emit (inst\<lparr>i_result := Some r\<rparr>) L'))"

definition opaque_value :: "CajetaType option \<Rightarrow> lowerer \<Rightarrow> CirValue option \<times> lowerer" where
  "opaque_value t L = (let (r, L') = fresh (cirTypeOf t) Value L in (Some r, L'))"

text \<open>Operands are pushed unless they are null.\<close>

definition ops_of :: "CirValue option list \<Rightarrow> CirValue option list" where
  "ops_of vs = filter (\<lambda>v. v \<noteq> None) vs"

definition lowerLambda :: "bool \<Rightarrow> CajetaType option \<Rightarrow> lowerer \<Rightarrow> CirValue option \<times> lowerer" where
  "lowerLambda hasBorrowCaptures rt L =
     (let ct = cirTypeOf rt;
          ct' = (if resolved ct = None then ct\<lparr>spelling := ''(closure)->?''\<rparr> else ct);
          inst = (cirInst () MakeClosure)\<lparr>i_symbol := lw_fn L @ ''$lambda'' @ show_nat (lw_lambdaSeq L),
                    targetKnown := \<not> hasBorrowCaptures\<rparr>
      in emit_result inst ct' Value (L\<lparr>lw_lambdaSeq := lw_lambdaSeq L + 1\<rparr>))"

definition finish_binary ::
    "BinaryOp \<Rightarrow> CajetaType option \<Rightarrow> CirValue option \<Rightarrow> CirValue option \<Rightarrow> lowerer \<Rightarrow> CirValue option \<times> lowerer" where
  "finish_binary bop rt lhs rhs L =
     (if isAssignOp bop
      then (if rhs \<noteq> None then rhs else lhs, emit ((cirInst () Store)\<lparr>operands := ops_of [lhs, rhs]\<rparr>) L)
      else
        let (cop, pred) = mapBinaryOp bop
        in emit_result ((cirInst () cop)\<lparr>i_symbol := pred, operands := ops_of [lhs, rhs]\<rparr>) (cirTypeOf rt) Value L)"

definition callee_type :: "lowerer \<Rightarrow> string \<Rightarrow> (CirValue \<times> CajetaType option) option" where
  "callee_type L name =
     (case lw_scope L name of
        None \<Rightarrow> None
      | Some v \<Rightarrow>
          (case resolved (v_type v) of
             None \<Rightarrow> None
           | Some t \<Rightarrow> map_option (\<lambda>ret. (v, ret)) (functionType t)))"

definition finish_call ::
    "string \<Rightarrow> CajetaType option \<Rightarrow> (CirValue \<times> CajetaType option) option \<Rightarrow> CirValue option list \<Rightarrow>
     lowerer \<Rightarrow> CirValue option \<times> lowerer" where
  "finish_call name retTy closure args L =
     (case closure of
        Some (v, ret) \<Rightarrow>
          emit_result ((cirInst () ApplyClosure)\<lparr>operands := Some v # args\<rparr>) (cirTypeOf ret) Value L
      | None \<Rightarrow>
          let inst = (cirInst () Call)\<lparr>i_symbol := name, operands := args\<rparr>
          in if isVoidType retTy then (None, emit inst L)
             else emit_result inst (cirTypeOf retTy) Value L)"

subsection \<open>Expressions\<close>

fun lowerExpr :: "node \<Rightarrow> lowerer \<Rightarrow> CirValue option \<times> lowerer"
and lower_args :: "node list \<Rightarrow> lowerer \<Rightarrow> CirValue option list \<times> lowerer"
and lower_children :: "node list \<Rightarrow> CirValue option \<Rightarrow> bool \<Rightarrow> lowerer \<Rightarrow> CirValue option \<times> bool \<times> lowerer"
where
  "lowerExpr NullNode L = (None, L)"
| "lowerExpr (Identifier name rt) L =
     (case lw_scope L name of Some v \<Rightarrow> (Some v, L) | None \<Rightarrow> opaque_value rt L)"
| "lowerExpr (Lambda hasBorrowCaptures rt) L = lowerLambda hasBorrowCaptures rt L"
| "lowerExpr (MethodCall name args cs rt) L =
     (let (vs, L') = lower_args args L in finish_call name rt (callee_type L name) vs L')"
| "lowerExpr (Binary bop cs rt) L =
     (let (lhs, L1) = lowerExpr (child cs 0) L; (rhs, L2) = lowerExpr (child cs 1) L1
      in finish_binary bop rt lhs rhs L2)"
| "lowerExpr (ArrayIndex cs rt) L =
     (let (arr, L1) = lowerExpr (child cs 0) L; (idx, L2) = lowerExpr (child cs 1) L1
      in emit_result ((cirInst () ElemAddr)\<lparr>operands := ops_of [arr, idx]\<rparr>) (cirTypeOf rt) Value L2)"
| "lowerExpr (MoveExpr cs rt) L =
     (let (v, L1) = lowerExpr (child cs 0) L
      in emit_result ((cirInst () Move)\<lparr>operands := ops_of [v]\<rparr>) (cirTypeOf rt) Owned L1)"
| "lowerExpr (CastExpr cs rt) L = lowerExpr (child cs 0) L"
| "lowerExpr (BooleanSwitch cs rt) L =
     (let (_, L1) = lowerExpr (child cs 0) L; (_, L2) = lowerExpr (child cs 1) L1;
          (_, L3) = lowerExpr (child cs 2) L2
      in opaque_value rt L3)"
| "lowerExpr (Primary cs rt) L =
     (let (lst, any, L1) = lower_children cs None False L
      in if any then (lst, L1) else emit_result (cirInst () ConstInt) (cirTypeOf rt) Value L1)"
| "lowerExpr (OtherExpr cs rt) L =
     (let (lst, any, L1) = lower_children cs None False L
      in if lst \<noteq> None then (lst, L1) else opaque_value rt L1)"
| "lowerExpr (BlockNode cs) L =
     (let (lst, any, L1) = lower_children cs None False L
      in if lst \<noteq> None then (lst, L1) else opaque_value None L1)"
| "lowerExpr (OtherNode cs) L =
     (let (lst, any, L1) = lower_children cs None False L
      in if lst \<noteq> None then (lst, L1) else opaque_value None L1)"
| "lowerExpr n L = opaque_value None L"
| "lower_args [] L = ([], L)"
| "lower_args (a # as) L =
     (let (v, L1) = lowerExpr a L; (vs, L2) = lower_args as L1
      in (if v \<noteq> None then v # vs else vs, L2))"
| "lower_children [] lst any L = (lst, any, L)"
| "lower_children (c # cs) lst any L =
     (if is_expression c then
        let (v, L1) = lowerExpr c L in lower_children cs v True L1
      else lower_children cs lst any L)"

subsection \<open>Statements\<close>

definition declare_local :: "CajetaType option \<Rightarrow> string \<Rightarrow> CirValue option \<Rightarrow> lowerer \<Rightarrow> lowerer" where
  "declare_local declTy name v L =
     (let local = \<lparr>v_id = lw_next L, v_name = name, v_type = cirTypeOf declTy,
                   v_ownership = ownershipFor declTy False\<rparr>;
          L1 = L\<lparr>lw_next := lw_next L + 1, lw_scope := (lw_scope L)(name \<mapsto> local)\<rparr>;
          L2 = emit ((cirInst () AllocStack)\<lparr>i_result := Some local\<rparr>) L1
      in if v \<noteq> None then emit ((cirInst () Store)\<lparr>operands := [Some local, v]\<rparr>) L2 else L2)"

fun lowerLocalDecl :: "CajetaType option \<Rightarrow> declarator list \<Rightarrow> lowerer \<Rightarrow> lowerer" where
  "lowerLocalDecl declTy [] L = L"
| "lowerLocalDecl declTy (Declarator name initzr # ds) L =
     (let (v, L1) = lowerExpr initzr L in lowerLocalDecl declTy ds (declare_local declTy name v L1))"

definition lower_effect :: "node \<Rightarrow> lowerer \<Rightarrow> lowerer" where
  "lower_effect n L = snd (lowerExpr n L)"

fun lowerStmt :: "node \<Rightarrow> lowerer \<Rightarrow> lowerer"
and lower_stmts :: "node list \<Rightarrow> lowerer \<Rightarrow> lowerer"
and lower_mixed :: "node list \<Rightarrow> lowerer \<Rightarrow> lowerer"
where
  "lowerStmt NullNode L = L"
| "lowerStmt (BlockNode cs) L = lower_stmts cs L"
| "lowerStmt (LabelStmt b) L = lowerStmt b L"
| "lowerStmt (ScopeStmt b) L = lowerStmt b L"
| "lowerStmt (LocalDecl t ds) L = lowerLocalDecl t ds L"
| "lowerStmt (ExprStmt e) L = lower_effect e L"
| "lowerStmt (ReturnStmt e) L = lower_effect e L"
| "lowerStmt (IfStmt c t e) L = lowerStmt e (lowerStmt t (lower_effect c L))"
| "lowerStmt (WhileStmt c b) L = lowerStmt b (lower_effect c L)"
| "lowerStmt (ForStmt i c us b) L =
     lowerStmt b (fold lower_effect us (lower_effect c (lowerStmt i L)))"
| "lowerStmt (EnhancedFor e b) L = lowerStmt b (lower_effect e L)"
| "lowerStmt (OtherNode cs) L = lower_mixed cs L"
| "lowerStmt (MethodCall n as cs rt) L = lower_mixed cs L"
| "lowerStmt (Identifier n rt) L = L"
| "lowerStmt (Lambda h rt) L = L"
| "lowerStmt (Binary b cs rt) L = lower_mixed cs L"
| "lowerStmt (ArrayIndex cs rt) L = lower_mixed cs L"
| "lowerStmt (MoveExpr cs rt) L = lower_mixed cs L"
| "lowerStmt (CastExpr cs rt) L = lower_mixed cs L"
| "lowerStmt (BooleanSwitch cs rt) L = lower_mixed cs L"
| "lowerStmt (Primary cs rt) L = lower_mixed cs L"
| "lowerStmt (OtherExpr cs rt) L = lower_mixed cs L"
| "lower_stmts [] L = L"
| "lower_stmts (c # cs) L = lower_stmts cs (lowerStmt c L)"
| "lower_mixed [] L = L"
| "lower_mixed (c # cs) L =
     lower_mixed cs (if is_expression c then lower_effect c L else lowerStmt c L)"

subsection \<open>A method\<close>

record FormalParameter =
  fp_name :: string
  fp_type :: "CajetaType option"
  isTransferred :: bool

record Method =
  mt_name :: string
  methodTypeParameters :: "string list"
  parameterList :: "FormalParameter list"
  mt_returnType :: "CajetaType option"
  isReturnsOwnership :: bool
  mt_block :: node

definition param_value :: "nat \<Rightarrow> FormalParameter \<Rightarrow> CirValue" where
  "param_value i p =
     \<lparr>v_id = i, v_name = fp_name p, v_type = cirTypeOf (fp_type p),
      v_ownership = ownershipFor (fp_type p) (isTransferred p)\<rparr>"

definition param_values :: "Method \<Rightarrow> CirValue list" where
  "param_values m = map2 param_value [0..<length (parameterList m)] (parameterList m)"

definition start :: "Method \<Rightarrow> lowerer" where
  "start m =
     \<lparr>lw_fn = mt_name m, lw_insts = [],
      lw_scope = foldl (\<lambda>s v. s(v_name v \<mapsto> v)) Map.empty (param_values m),
      lw_temp = 0, lw_lambdaSeq = 0, lw_next = length (parameterList m)\<rparr>"

definition buildFunction :: "Method \<Rightarrow> unit CirFunction" where
  "buildFunction m =
     (let ps = map Some (param_values m); L = lowerStmt (mt_block m) (start m) in
      \<lparr>f_name = mt_name m, genericParams = methodTypeParameters m, f_params = ps,
       returnType = (if isVoidType (mt_returnType m) then voidType else cirTypeOf (mt_returnType m)),
       returnOwnership = (if isReturnsOwnership m then Owned else Value),
       f_blocks =
         [\<lparr>bb_id = 0, bb_label = ''bb0'', bb_params = ps, bb_insts = map Some (lw_insts L),
           terminator = Some (cirInst () Return)\<rparr>]\<rparr>)"


subsection \<open>Lowered functions are well-formed\<close>

text \<open>What the lowering keeps: the results of the emitted instructions have distinct addresses,
  allocated after those of the \<open>p\<close> parameters, and no instruction is a terminator.\<close>

definition lowering_inv :: "nat \<Rightarrow> lowerer \<Rightarrow> bool" where
  "lowering_inv p L \<longleftrightarrow>
     p \<le> lw_next L \<and> distinct (ids (map i_result (lw_insts L))) \<and>
     (\<forall>i \<in> set (ids (map i_result (lw_insts L))). p \<le> i \<and> i < lw_next L) \<and>
     (\<forall>inst \<in> set (lw_insts L). \<not> cirIsTerminator (i_op inst))"

named_theorems lowering "operations that keep the lowering invariant"

lemma ids_append [simp]: "ids (xs @ ys) = ids xs @ ids ys"
  by (simp add: ids_def present_append)

lemma inv_emit [lowering]:
  "lowering_inv p L \<Longrightarrow> i_result inst = None \<Longrightarrow> \<not> cirIsTerminator (i_op inst) \<Longrightarrow>
     lowering_inv p (emit inst L)"
  by (auto simp: lowering_inv_def emit_def)

lemma inv_emit_new:
  assumes "lowering_inv p L" "i_result inst = Some v" "v_id v = lw_next L" "\<not> cirIsTerminator (i_op inst)"
    and "lw_insts L' = lw_insts L @ [inst]" "lw_next L' = lw_next L + 1"
  shows "lowering_inv p L'"
  using assms unfolding lowering_inv_def by (auto simp: less_Suc_eq)

lemma inv_emit_result [lowering]:
  assumes "lowering_inv p L" "\<not> cirIsTerminator (i_op inst)"
  shows "lowering_inv p (snd (emit_result inst ty own L))"
  by (rule inv_emit_new [OF assms(1), of "inst\<lparr>i_result := Some (fst (fresh ty own L))\<rparr>" "fst (fresh ty own L)"])
    (use assms(2) in \<open>simp_all add: emit_result_def fresh_def emit_def Let_def\<close>)

lemma inv_fields [lowering]:
  "lowering_inv p L \<Longrightarrow> lowering_inv p (L\<lparr>lw_lambdaSeq := n\<rparr>)"
  "lowering_inv p L \<Longrightarrow> lowering_inv p (L\<lparr>lw_scope := s\<rparr>)"
  by (simp_all add: lowering_inv_def)

lemma inv_opaque [lowering]: "lowering_inv p L \<Longrightarrow> lowering_inv p (snd (opaque_value t L))"
  by (auto simp: lowering_inv_def opaque_value_def fresh_def less_Suc_eq)

lemma inst_fields [simp]:
  "i_op (cirInst () p) = p" "i_result (cirInst () p) = None"
  by (simp_all add: cirInst_def)

lemma cirIsTerminator_simps [simp]:
  "\<not> cirIsTerminator MakeClosure" "\<not> cirIsTerminator Store" "\<not> cirIsTerminator Call"
  "\<not> cirIsTerminator ApplyClosure" "\<not> cirIsTerminator ElemAddr" "\<not> cirIsTerminator Move"
  "\<not> cirIsTerminator ConstInt" "\<not> cirIsTerminator AllocStack" "cirIsTerminator Return"
  by (simp_all add: cirIsTerminator_def)

lemma mapBinaryOp_not_terminator: "\<not> cirIsTerminator (fst (mapBinaryOp bop))"
  by (cases bop) (simp_all add: mapBinaryOp_def cirIsTerminator_def)

lemma inv_lambda [lowering]: "lowering_inv p L \<Longrightarrow> lowering_inv p (snd (lowerLambda h rt L))"
  unfolding lowerLambda_def Let_def by (intro lowering) simp_all

lemma inv_finish_binary [lowering]:
  "lowering_inv p L \<Longrightarrow> lowering_inv p (snd (finish_binary bop rt l r L))"
  using mapBinaryOp_not_terminator [of bop]
  unfolding finish_binary_def by (cases "mapBinaryOp bop") (auto intro!: lowering)

lemma inv_finish_call [lowering]:
  "lowering_inv p L \<Longrightarrow> lowering_inv p (snd (finish_call name rt c args L))"
  unfolding finish_call_def by (auto simp: Let_def intro!: lowering split: option.splits)

lemma inv_exprs:
  "lowering_inv p L \<Longrightarrow> lowering_inv p (snd (lowerExpr n L))"
  "lowering_inv p L \<Longrightarrow> lowering_inv p (snd (lower_args as L))"
  "lowering_inv p L \<Longrightarrow> lowering_inv p (snd (snd (lower_children cs v any L)))"
proof (induction n L and as L and cs v any L rule: lowerExpr_lower_args_lower_children.induct)
qed (auto simp: Let_def intro: lowering split: prod.splits option.splits)


lemma inv_lower_effect [lowering]: "lowering_inv p L \<Longrightarrow> lowering_inv p (lower_effect n L)"
  by (simp add: lower_effect_def inv_exprs)

lemma inv_declare_local [lowering]:
  assumes "lowering_inv p L" shows "lowering_inv p (declare_local t name v L)"
proof -
  define local where "local = \<lparr>v_id = lw_next L, v_name = name, v_type = cirTypeOf t, v_ownership = ownershipFor t False\<rparr>"
  define inst where "inst = (cirInst () AllocStack)\<lparr>i_result := Some local\<rparr>"
  define L2 where "L2 = emit inst (L\<lparr>lw_next := lw_next L + 1, lw_scope := (lw_scope L)(name \<mapsto> local)\<rparr>)"
  have "lowering_inv p L2"
    by (rule inv_emit_new [OF assms, of inst local]) (simp_all add: inst_def local_def L2_def emit_def)
  then have "lowering_inv p (emit ((cirInst () Store)\<lparr>operands := ops\<rparr>) L2)" for ops
    by (intro lowering) simp_all
  with \<open>lowering_inv p L2\<close> show ?thesis
    unfolding L2_def inst_def local_def declare_local_def Let_def by simp
qed

lemma inv_lowerLocalDecl [lowering]: "lowering_inv p L \<Longrightarrow> lowering_inv p (lowerLocalDecl t ds L)"
  by (induction t ds L rule: lowerLocalDecl.induct)
    (simp_all add: case_prod_beta inv_declare_local inv_exprs)

lemma inv_fold_effect [lowering]: "lowering_inv p L \<Longrightarrow> lowering_inv p (fold lower_effect ns L)"
  by (induction ns arbitrary: L) (auto intro: lowering)

lemma inv_stmts:
  "lowering_inv p L \<Longrightarrow> lowering_inv p (lowerStmt n L)"
  "lowering_inv p L \<Longrightarrow> lowering_inv p (lower_stmts ns L)"
  "lowering_inv p L \<Longrightarrow> lowering_inv p (lower_mixed ms L)"
  by (induction n L and ns L and ms L rule: lowerStmt_lower_stmts_lower_mixed.induct)
    (simp_all add: lowering)

lemma ids_params: "ids (map Some (map2 param_value [a..<a + length ps] ps)) = [a..<a + length ps]"
proof (induction ps arbitrary: a)
  case (Cons p ps)
  have "[a..<a + length (p # ps)] = a # [Suc a..<Suc a + length ps]" by (subst upt_conv_Cons) simp_all
  then show ?case using Cons.IH [of "Suc a"] by (simp add: param_value_def del: upt_Suc)
qed simp

lemma inst_defs_result: "concat (map inst_defs (map Some is)) = ids (map i_result is)"
proof (induction "is")
  case (Cons i "is")
  then show ?case by (cases "i_result i") (simp_all add: inst_defs_def)
qed simp

text \<open>C21: Whatever the syntax tree, the function that the lowering builds is well-formed: the
  verifier reports nothing about it.\<close>

theorem lowered_function_verifies: "verify (buildFunction m) = []"
proof -
  let ?L = "lowerStmt (mt_block m) (start m)" and ?n = "length (parameterList m)"
  have "lowering_inv ?n (start m)" by (simp add: lowering_inv_def start_def)
  then have L: "lowering_inv ?n ?L" by (rule inv_stmts)
  have ps: "ids (map Some (param_values m)) = [0..<?n]"
    using ids_params [of 0 "parameterList m"] by (simp add: param_values_def)
  have "cir_wf (buildFunction m)"
    unfolding cir_wf_def
  proof (intro conjI ballI)
    show "distinct (map bb_label (f_blocks (buildFunction m)))" by (simp add: buildFunction_def Let_def)
    have "distinct ([0..<?n] @ ids (map i_result (lw_insts ?L)))"
      using L by (auto simp: lowering_inv_def)
    then show "distinct (ids (f_params (buildFunction m)) @
        concat (map (block_defs (bb_id (hd (f_blocks (buildFunction m))))) (f_blocks (buildFunction m))))"
      using inst_defs_result [of "lw_insts ?L"]
      by (simp add: buildFunction_def Let_def block_defs_def ps inst_defs_def [of "Some (cirInst () Return)"])
    fix bb assume "bb \<in> set (f_blocks (buildFunction m))"
    then show "block_ok (f_blocks (buildFunction m)) bb"
      using L by (auto simp: buildFunction_def Let_def block_ok_def lowering_inv_def) (simp add: cirInst_def)
  qed
  then show ?thesis by (simp add: verify_wf)
qed

subsection \<open>Uses that the lowering drops\<close>

definition fun_type :: CajetaType where
  "fun_type = CajetaType ''(int32)->int32'' 0 (Some (Some (CajetaType ''int32'' 1 None)))"

text \<open>\<open>each(f) { f(1); return f; }\<close> and \<open>run() { each(\<lambda>...); }\<close>.\<close>

definition return_each :: Method where
  "return_each =
     \<lparr>mt_name = ''each'', methodTypeParameters = [],
      parameterList = [\<lparr>fp_name = ''f'', fp_type = Some fun_type, isTransferred = False\<rparr>],
      mt_returnType = Some fun_type, isReturnsOwnership = False,
      mt_block = BlockNode [ExprStmt (MethodCall ''f'' [Primary [] None] [] None),
                            ReturnStmt (Identifier ''f'' (Some fun_type))]\<rparr>"

definition run_each :: "bool \<Rightarrow> Method" where
  "run_each hasBorrowCaptures =
     \<lparr>mt_name = ''run'', methodTypeParameters = [], parameterList = [], mt_returnType = None,
      isReturnsOwnership = False,
      mt_block = BlockNode [ExprStmt (MethodCall ''each'' [Lambda hasBorrowCaptures (Some fun_type)] [] None)]\<rparr>"

text \<open>A method that applies its closure parameter and returns it lowers to a function whose terminator does not carry the
  returned value: the analysis, which counts a returned closure as an escape, sees none and requests the
  specialization.\<close>

theorem returned_closure_example:
  "analyze [Some (buildFunction (run_each False)), Some (buildFunction return_each)] =
     \<lparr>specialize = [\<lparr>callerFn = ''run'', callee = ''each'', sr_typeArgs = [], closureParam = ''f'',
        targetFn = ''run$lambda0'', invocationSites = 1\<rparr>], leaveIndirect = []\<rparr>"
  by code_simp





end
