(* ===== verification/Build_Properties.thy ===== *)
theory Build_Properties
  imports Manifest_Loader "HOL-Library.AList"
begin

text \<open>
  Property substitution (\<open>buildtool/Properties.h\<close>, \<open>Properties.cpp\<close>): the scan for
  \<open>${NAME}\<close>, the built-in names, the resolution of the manifest's properties over their
  references, and the rewriting of the manifest. A \<open>std::map\<close> that is given is the list of its
  entries. The environment and the version of the tool are parameters.
\<close>

subsection \<open>Data\<close>

record PropertyOverrides =
  po_cli :: "(string \<times> string) list"
  po_env :: "(string \<times> string) list"
  po_flavor :: "string option"
  po_profile :: "string option"
  po_target :: "string option"
  po_workspaceRoot :: "string option"

record ResolvedProperties =
  rp_values :: "string \<rightharpoonup> string"
  resolutionOrder :: "string list"

text \<open>The process: \<open>getenv\<close> and \<open>CAJETA_VERSION\<close>.\<close>

record process =
  getenv :: "string \<Rightarrow> string option"
  cajetaVersion :: string

datatype property_error =
    BuiltinCollision string
  | CyclicReference "string set" string
  | PropertyNotString string
  | UndefinedProperty string
  | UndefinedReference string string
  | MalformedOverride string
  | UndefinedIn string string

subsection \<open>Built-in names\<close>

definition kBuiltinPrefixes :: "string list" where
  "kBuiltinPrefixes = [''details'', ''flavor'', ''profile'', ''target'', ''env'', ''artifact'',
     ''workspace'', ''cajeta'']"

definition isBuiltinName :: "string \<Rightarrow> bool" where
  "isBuiltinName name = (takeWhile (\<lambda>c. c \<noteq> CHR ''.'') name \<in> set kBuiltinPrefixes)"

text \<open>\<open>env.\<close> and \<open>artifact.\<close> with a name behind the dot.\<close>

definition open_namespace :: "process \<Rightarrow> string \<Rightarrow> string option" where
  "open_namespace Pr name =
     (if length name > 4 \<and> take 4 name = ''env.''
      then Some (case getenv Pr (drop 4 name) of Some v \<Rightarrow> v | None \<Rightarrow> [])
      else if length name > 9 \<and> take 9 name = ''artifact.'' then Some []
      else None)"

definition resolveBuiltin ::
    "process \<Rightarrow> 'o Manifest \<Rightarrow> PropertyOverrides \<Rightarrow> string \<Rightarrow> string option" where
  "resolveBuiltin Pr m ov name =
     (let orEmpty = (\<lambda>v. case v of Some x \<Rightarrow> x | None \<Rightarrow> []) in
      if name = ''details.name'' then Some (md_name (m_details m))
      else if name = ''details.version'' then Some (md_version (m_details m))
      else if name = ''details.group'' then Some (md_group (m_details m))
      else if name = ''details.library'' then Some (md_library (m_details m))
      else if name = ''flavor'' then Some (orEmpty (po_flavor ov))
      else if name = ''profile'' then Some (orEmpty (po_profile ov))
      else if name = ''target'' then Some (orEmpty (po_target ov))
      else if name = ''workspace.root'' then Some (orEmpty (po_workspaceRoot ov))
      else if name = ''cajeta.version'' then Some (cajetaVersion Pr)
      else open_namespace Pr name)"

subsection \<open>The scan for references\<close>

definition upto_brace :: "string \<Rightarrow> (string \<times> string) option" where
  "upto_brace s =
     (let rest = dropWhile (\<lambda>c. c \<noteq> CHR ''}'') s in
      if rest = [] then None else Some (takeWhile (\<lambda>c. c \<noteq> CHR ''}'') s, tl rest))"

lemma upto_brace_shorter [termination_simp]: "upto_brace s = Some (n, r) \<Longrightarrow> length r < length s"
  using length_dropWhile_le [of "\<lambda>c. c \<noteq> CHR ''}''" s]
  by (cases "dropWhile (\<lambda>c. c \<noteq> CHR ''}'') s") (auto simp: upto_brace_def Let_def)

fun referencedNames :: "string \<Rightarrow> string list" where
  "referencedNames [] = []"
| "referencedNames [c] = []"
| "referencedNames (c # d # cs) =
     (if c = CHR ''$'' \<and> d = CHR ''$'' then referencedNames cs
      else if c = CHR ''$'' \<and> d = CHR ''{'' then
        (case upto_brace cs of
           None \<Rightarrow> []
         | Some (name, rest) \<Rightarrow> name # referencedNames rest)
      else referencedNames (d # cs))"

text \<open>\<open>Inl\<close> is the missing name. An unterminated reference is kept as it stands.\<close>

fun substituteOnce :: "(string \<Rightarrow> string option) \<Rightarrow> string \<Rightarrow> string + string" where
  "substituteOnce lookup [] = Inr []"
| "substituteOnce lookup [c] = Inr [c]"
| "substituteOnce lookup (c # d # cs) =
     (if c = CHR ''$'' \<and> d = CHR ''$'' then
        bindE (substituteOnce lookup cs) (\<lambda>r. Inr (CHR ''$'' # r))
      else if c = CHR ''$'' \<and> d = CHR ''{'' then
        (case upto_brace cs of
           None \<Rightarrow> Inr (c # d # cs)
         | Some (name, rest) \<Rightarrow>
             (case lookup name of
                None \<Rightarrow> Inl name
              | Some v \<Rightarrow> bindE (substituteOnce lookup rest) (\<lambda>r. Inr (v @ r))))
      else bindE (substituteOnce lookup (d # cs)) (\<lambda>r. Inr (c # r)))"

definition lookup :: "process \<Rightarrow> ResolvedProperties \<Rightarrow> string \<Rightarrow> string option" where
  "lookup Pr props name =
     (case rp_values props name of Some v \<Rightarrow> Some v | None \<Rightarrow> open_namespace Pr name)"

definition substitute ::
    "process \<Rightarrow> ResolvedProperties \<Rightarrow> string \<Rightarrow> string \<Rightarrow> property_error + string" where
  "substitute Pr props whereContext s =
     (case substituteOnce (lookup Pr props) s of
        Inl missing \<Rightarrow> Inl (UndefinedIn whereContext missing)
      | Inr r \<Rightarrow> Inr r)"

subsection \<open>Overrides\<close>

definition parseCliOverride :: "string \<Rightarrow> property_error + string \<times> string" where
  "parseCliOverride token =
     (let name = takeWhile (\<lambda>c. c \<noteq> CHR ''='') token in
      if CHR ''='' \<notin> set token \<or> name = [] then Inl (MalformedOverride token)
      else Inr (name, drop (length name + 1) token))"

definition tolower :: "char \<Rightarrow> char" where
  "tolower c = (if CHR ''A'' \<le> c \<and> c \<le> CHR ''Z'' then char_of (of_char c + 32 :: nat) else c)"

definition env_prefix :: string where "env_prefix = ''CAJETA_PROPERTY_''"

definition env_entry :: "string \<Rightarrow> (string \<times> string) option" where
  "env_entry entry =
     (let rest = drop (length env_prefix) entry in
      if take (length env_prefix) entry \<noteq> env_prefix \<or> CHR ''='' \<notin> set rest then None
      else
        let suffix = takeWhile (\<lambda>c. c \<noteq> CHR ''='') rest
        in Some (map (\<lambda>c. if c = CHR ''_'' then CHR ''-'' else tolower c) suffix,
                 drop (length suffix + 1) rest))"

definition loadEnvOverrides :: "string list \<Rightarrow> PropertyOverrides \<Rightarrow> PropertyOverrides" where
  "loadEnvOverrides environ dst =
     fold (\<lambda>entry d. case env_entry entry of
             None \<Rightarrow> d
           | Some (name, value) \<Rightarrow> d\<lparr>po_env := AList.update name value (po_env d)\<rparr>) environ dst"

subsection \<open>Resolution\<close>

definition properties_of :: "('v, 'o) json \<Rightarrow> 'o Manifest \<Rightarrow> (string \<times> 'v) list" where
  "properties_of J m = (case m_propertiesRaw m of None \<Rightarrow> [] | Some ob \<Rightarrow> members J ob)"

definition manifestProperty ::
    "('v, 'o) json \<Rightarrow> 'o Manifest \<Rightarrow> string \<Rightarrow> property_error + string" where
  "manifestProperty J m name =
     (case map_of (properties_of J m) name of
        None \<Rightarrow> Inl (UndefinedProperty name)
      | Some v \<Rightarrow> (case asString J v of None \<Rightarrow> Inl (PropertyNotString name) | Some s \<Rightarrow> Inr s))"

definition sourceFor ::
    "('v, 'o) json \<Rightarrow> 'o Manifest \<Rightarrow> PropertyOverrides \<Rightarrow> string \<Rightarrow> property_error + string" where
  "sourceFor J m ov name =
     (case map_of (po_cli ov) name of
        Some s \<Rightarrow> Inr s
      | None \<Rightarrow>
          (case map_of (po_env ov) name of
             Some s \<Rightarrow> Inr s
           | None \<Rightarrow> manifestProperty J m name))"

text \<open>The names that have a source: the bound on the depth of the recursion.\<close>

definition source_names :: "('v, 'o) json \<Rightarrow> 'o Manifest \<Rightarrow> PropertyOverrides \<Rightarrow> string set" where
  "source_names J m ov = fst ` set (po_cli ov) \<union> fst ` set (po_env ov) \<union> fst ` set (properties_of J m)"

lemma finite_source_names [simp]: "finite (source_names J m ov)"
  by (simp add: source_names_def)

lemma sourceFor_names: "sourceFor J m ov name = Inr s \<Longrightarrow> name \<in> source_names J m ov"
  by (auto simp: sourceFor_def manifestProperty_def source_names_def
      dest!: map_of_SomeD split: option.splits intro: rev_image_eqI)

definition store :: "string \<Rightarrow> string \<Rightarrow> ResolvedProperties \<Rightarrow> ResolvedProperties" where
  "store name v out =
     out\<lparr>rp_values := (rp_values out)(name \<mapsto> v), resolutionOrder := resolutionOrder out @ [name]\<rparr>"

function resolve ::
    "process \<Rightarrow> ('v, 'o) json \<Rightarrow> 'o Manifest \<Rightarrow> PropertyOverrides \<Rightarrow> string set \<Rightarrow> string \<Rightarrow>
     ResolvedProperties \<Rightarrow> property_error + ResolvedProperties"
and resolve_all ::
    "process \<Rightarrow> ('v, 'o) json \<Rightarrow> 'o Manifest \<Rightarrow> PropertyOverrides \<Rightarrow> string set \<Rightarrow> string list \<Rightarrow>
     ResolvedProperties \<Rightarrow> property_error + ResolvedProperties"
where
  "resolve Pr J m ov visiting name out =
     (if rp_values out name \<noteq> None then Inr out
      else
     (case resolveBuiltin Pr m ov name of
        Some b \<Rightarrow> Inr (store name b out)
      | None \<Rightarrow>
          if name \<in> visiting then Inl (CyclicReference visiting name)
          else
         (case sourceFor J m ov name of
            Inl e \<Rightarrow> Inl e
          | Inr raw \<Rightarrow>
              bindE (resolve_all Pr J m ov (insert name visiting) (referencedNames raw) out) (\<lambda>out'.
                case substituteOnce (rp_values out') raw of
                  Inl missing \<Rightarrow> Inl (UndefinedReference name missing)
                | Inr resolved \<Rightarrow> Inr (store name resolved out')))))"
| "resolve_all Pr J m ov visiting [] out = Inr out"
| "resolve_all Pr J m ov visiting (n # ns) out =
     bindE (resolve Pr J m ov visiting n out) (resolve_all Pr J m ov visiting ns)"
  by pat_completeness auto
termination
  by (relation "measures
      [\<lambda>x. case x of Inl (Pr, J, m, ov, visiting, name, out) \<Rightarrow> card (source_names J m ov - visiting)
            | Inr (Pr, J, m, ov, visiting, ns, out) \<Rightarrow> card (source_names J m ov - visiting),
       \<lambda>x. case x of Inl _ \<Rightarrow> 0 | Inr (Pr, J, m, ov, visiting, ns, out) \<Rightarrow> 1 + length ns]")
    (auto dest: sourceFor_names intro!: psubset_card_mono)

declare resolve.simps [simp del]

definition fixedBuiltins :: "string list" where
  "fixedBuiltins = [''details.name'', ''details.version'', ''details.group'', ''details.library'',
     ''flavor'', ''profile'', ''target'', ''workspace.root'', ''cajeta.version'']"

definition putBuiltin ::
    "process \<Rightarrow> 'o Manifest \<Rightarrow> PropertyOverrides \<Rightarrow> string \<Rightarrow> ResolvedProperties \<Rightarrow> ResolvedProperties" where
  "putBuiltin Pr m ov name out =
     (if rp_values out name \<noteq> None then out
      else case resolveBuiltin Pr m ov name of
        None \<Rightarrow> out
      | Some v \<Rightarrow> out\<lparr>rp_values := (rp_values out)(name \<mapsto> v)\<rparr>)"

definition resolveProperties ::
    "process \<Rightarrow> ('v, 'o) json \<Rightarrow> 'o Manifest \<Rightarrow> PropertyOverrides \<Rightarrow> property_error + ResolvedProperties" where
  "resolveProperties Pr J m ov =
     (let names = map fst (properties_of J m) in
      case find isBuiltinName names of
        Some name \<Rightarrow> Inl (BuiltinCollision name)
      | None \<Rightarrow>
          bindE (resolve_all Pr J m ov {} names \<lparr>rp_values = Map.empty, resolutionOrder = []\<rparr>) (\<lambda>out.
            Inr (fold (putBuiltin Pr m ov) fixedBuiltins out)))"

subsection \<open>Rewriting the manifest\<close>

text \<open>The recursion over the JSON value, its depth bounded by \<open>fuel\<close>: \<^term>\<open>None\<close> is
  a value that is deeper. Assigning to the entries while iterating is assigning to their keys.\<close>

fun substituteJsonValue ::
    "process \<Rightarrow> ('v, 'o) json \<Rightarrow> ('v, 'o) builder \<Rightarrow> ResolvedProperties \<Rightarrow> nat \<Rightarrow> string \<Rightarrow> 'v \<Rightarrow>
     (property_error + 'v) option"
and substituteJsonObject ::
    "process \<Rightarrow> ('v, 'o) json \<Rightarrow> ('v, 'o) builder \<Rightarrow> ResolvedProperties \<Rightarrow> nat \<Rightarrow> string \<Rightarrow>
     (string \<times> 'v) list \<Rightarrow> 'o \<Rightarrow> (property_error + 'o) option"
and substituteJsonArray ::
    "process \<Rightarrow> ('v, 'o) json \<Rightarrow> ('v, 'o) builder \<Rightarrow> ResolvedProperties \<Rightarrow> nat \<Rightarrow> string \<Rightarrow> nat \<Rightarrow>
     'v list \<Rightarrow> (property_error + 'v list) option"
where
  "substituteJsonValue Pr J B props 0 site v = None"
| "substituteJsonValue Pr J B props (Suc fuel) site v =
     (case asObject J v of
        Some ob \<Rightarrow>
          map_option (\<lambda>r. bindE r (\<lambda>ob'. Inr (ofObject B ob')))
            (substituteJsonObject Pr J B props fuel site (members J ob) ob)
      | None \<Rightarrow>
     (case asArray J v of
        Some vs \<Rightarrow>
          map_option (\<lambda>r. bindE r (\<lambda>vs'. Inr (ofArray B vs')))
            (substituteJsonArray Pr J B props fuel site 0 vs)
      | None \<Rightarrow>
     (case asString J v of
        Some s \<Rightarrow> Some (bindE (substitute Pr props site s) (\<lambda>r. Inr (ofString J r)))
      | None \<Rightarrow> Some (Inr v))))"
| "substituteJsonObject Pr J B props fuel site [] ob = Some (Inr ob)"
| "substituteJsonObject Pr J B props fuel site ((k, v) # rest) ob =
     Option.bind (substituteJsonValue Pr J B props fuel (site @ ''.'' @ k) v) (\<lambda>r.
       case r of Inl e \<Rightarrow> Some (Inl e)
               | Inr v' \<Rightarrow> substituteJsonObject Pr J B props fuel site rest (objSet B ob k v'))"
| "substituteJsonArray Pr J B props fuel site i [] = Some (Inr [])"
| "substituteJsonArray Pr J B props fuel site i (v # vs) =
     Option.bind (substituteJsonValue Pr J B props fuel (site @ ''['' @ show_nat i @ '']'') v) (\<lambda>r.
       case r of Inl e \<Rightarrow> Some (Inl e)
               | Inr v' \<Rightarrow>
                   map_option (\<lambda>r'. bindE r' (\<lambda>vs'. Inr (v' # vs')))
                     (substituteJsonArray Pr J B props fuel site (i + 1) vs))"

definition substituteBlock ::
    "process \<Rightarrow> ('v, 'o) json \<Rightarrow> ('v, 'o) builder \<Rightarrow> ResolvedProperties \<Rightarrow> nat \<Rightarrow> string \<Rightarrow> 'o option \<Rightarrow>
     (property_error + 'o option) option" where
  "substituteBlock Pr J B props fuel site block =
     (case block of
        None \<Rightarrow> Some (Inr None)
      | Some ob \<Rightarrow>
          map_option (\<lambda>r. bindE r (\<lambda>ob'. Inr (Some ob')))
            (substituteJsonObject Pr J B props fuel site (members J ob) ob))"

definition substituteManifestProperties ::
    "process \<Rightarrow> ('v, 'o) json \<Rightarrow> ('v, 'o) builder \<Rightarrow> nat \<Rightarrow> 'o Manifest \<Rightarrow> ResolvedProperties \<Rightarrow>
     (property_error + 'o Manifest) option" where
  "substituteManifestProperties Pr J B fuel m props =
     Option.bind (substituteBlock Pr J B props fuel ''settings'' (m_settingsRaw m)) (\<lambda>r.
     case r of Inl e \<Rightarrow> Some (Inl e)
             | Inr settings \<Rightarrow>
     Option.bind (substituteBlock Pr J B props fuel ''plugins'' (m_pluginsRaw m)) (\<lambda>r.
     case r of Inl e \<Rightarrow> Some (Inl e)
             | Inr plugins \<Rightarrow> Some (Inr (m\<lparr>m_settingsRaw := settings, m_pluginsRaw := plugins\<rparr>))))"


subsection \<open>The scan and the substitution agree\<close>

lemma substituteOnce_cong:
  "(\<And>n. n \<in> set (referencedNames s) \<Longrightarrow> f n = g n) \<Longrightarrow> substituteOnce f s = substituteOnce g s"
  by (induction s rule: referencedNames.induct) (auto split: option.splits)

lemma substituteOnce_total:
  "(\<And>n. n \<in> set (referencedNames s) \<Longrightarrow> f n \<noteq> None) \<Longrightarrow> \<exists>r. substituteOnce f s = Inr r"
proof (induction s rule: referencedNames.induct)
  case (3 c d cs)
  consider (esc) "c = CHR ''$''" "d = CHR ''$''"
    | (ref) "c = CHR ''$''" "d = CHR ''{''" | (other) "\<not> (c = CHR ''$'' \<and> (d = CHR ''$'' \<or> d = CHR ''{''))"
    by blast
  then show ?case
  proof cases
    case esc
    with 3 show ?thesis by auto
  next
    case ref
    show ?thesis
    proof (cases "upto_brace cs")
      case (Some p)
      obtain name rest where p: "p = (name, rest)" by fastforce
      have "\<not> (c = CHR ''$'' \<and> d = CHR ''$'')" "c = CHR ''$'' \<and> d = CHR ''{''" using ref by simp_all
      from 3(2) [OF this Some p [symmetric]] 3(4) ref Some p obtain r where "substituteOnce f rest = Inr r" by auto
      moreover have "f name \<noteq> None" using 3(4) ref Some p by auto
      ultimately show ?thesis using ref Some p by auto
    qed (use ref in simp)
  next
    case other
    with 3(3,4) show ?thesis by auto
  qed
qed simp_all

subsection \<open>What the resolution keeps\<close>

text \<open>The \<open>k\<close>-th resolved name is a built-in, or its source's references are all among the
  names before it and its value is the source with them substituted.\<close>

definition resolved_at ::
    "process \<Rightarrow> ('v, 'o) json \<Rightarrow> 'o Manifest \<Rightarrow> PropertyOverrides \<Rightarrow> (string \<rightharpoonup> string) \<Rightarrow> string set \<Rightarrow> string \<Rightarrow> bool" where
  "resolved_at Pr J m ov vals before n \<longleftrightarrow>
     (case resolveBuiltin Pr m ov n of
        Some b \<Rightarrow> vals n = Some b
      | None \<Rightarrow> \<exists>raw v. sourceFor J m ov n = Inr raw \<and> set (referencedNames raw) \<subseteq> before \<and>
                  substituteOnce vals raw = Inr v \<and> vals n = Some v)"

definition props_inv ::
    "process \<Rightarrow> ('v, 'o) json \<Rightarrow> 'o Manifest \<Rightarrow> PropertyOverrides \<Rightarrow> ResolvedProperties \<Rightarrow> bool" where
  "props_inv Pr J m ov out \<longleftrightarrow>
     distinct (resolutionOrder out) \<and> set (resolutionOrder out) = dom (rp_values out) \<and>
     (\<forall>k < length (resolutionOrder out).
        resolved_at Pr J m ov (rp_values out) (set (take k (resolutionOrder out))) (resolutionOrder out ! k))"

lemma resolved_at_mono:
  assumes "resolved_at Pr J m ov vals before n" "before \<subseteq> dom vals" "vals \<subseteq>\<^sub>m vals'"
  shows "resolved_at Pr J m ov vals' before n"
proof (cases "resolveBuiltin Pr m ov n")
  case (Some b)
  with assms show ?thesis by (auto simp: resolved_at_def map_le_def dom_def)
next
  case None
  with assms(1) obtain raw v where r: "sourceFor J m ov n = Inr raw" "set (referencedNames raw) \<subseteq> before"
      "substituteOnce vals raw = Inr v" "vals n = Some v"
    by (auto simp: resolved_at_def)
  have "substituteOnce vals' raw = substituteOnce vals raw"
  proof (rule substituteOnce_cong)
    fix n assume "n \<in> set (referencedNames raw)"
    then have "n \<in> dom vals" using r(2) assms(2) by blast
    then show "vals' n = vals n" using assms(3) by (simp add: map_le_def)
  qed
  moreover have "vals' n = Some v" using r(4) assms(3) by (metis domI map_le_def)
  ultimately show ?thesis using None r by (auto simp: resolved_at_def)
qed

lemma props_inv_store:
  assumes "props_inv Pr J m ov out" "rp_values out name = None"
    and "resolved_at Pr J m ov ((rp_values out)(name \<mapsto> v)) (set (resolutionOrder out)) name"
  shows "props_inv Pr J m ov (store name v out)"
proof -
  let ?vals = "(rp_values out)(name \<mapsto> v)" and ?ord = "resolutionOrder out"
  have le: "rp_values out \<subseteq>\<^sub>m ?vals" using assms(2) by (auto simp: map_le_def)
  have "resolved_at Pr J m ov ?vals (set (take k (?ord @ [name]))) ((?ord @ [name]) ! k)"
    if "k < length (?ord @ [name])" for k
  proof (cases "k < length ?ord")
    case True
    have "set (take k ?ord) \<subseteq> dom (rp_values out)"
      using assms(1) set_take_subset [of k ?ord] by (auto simp: props_inv_def)
    with True assms(1) le show ?thesis
      by (auto simp: props_inv_def nth_append intro: resolved_at_mono)
  next
    case False
    with that have "k = length ?ord" by simp
    then show ?thesis using assms(3) by simp
  qed
  then show ?thesis using assms(1,2) by (auto simp: props_inv_def store_def)
qed

lemma resolve_keeps:
  "resolve Pr J m ov visiting name out = Inr out' \<Longrightarrow> props_inv Pr J m ov out \<Longrightarrow>
     props_inv Pr J m ov out' \<and> rp_values out \<subseteq>\<^sub>m rp_values out' \<and> name \<in> dom (rp_values out') \<and>
     (\<forall>x \<in> visiting. resolveBuiltin Pr m ov x = None \<longrightarrow> rp_values out x = None \<longrightarrow> rp_values out' x = None)"
  "resolve_all Pr J m ov visiting names out = Inr out' \<Longrightarrow> props_inv Pr J m ov out \<Longrightarrow>
     props_inv Pr J m ov out' \<and> rp_values out \<subseteq>\<^sub>m rp_values out' \<and> set names \<subseteq> dom (rp_values out') \<and>
     (\<forall>x \<in> visiting. resolveBuiltin Pr m ov x = None \<longrightarrow> rp_values out x = None \<longrightarrow> rp_values out' x = None)"
proof (induction Pr J m ov visiting name out and Pr J m ov visiting names out
    arbitrary: out' and out' rule: resolve_resolve_all.induct)
  case (1 Pr J m ov visiting name out)
  show ?case
  proof (cases "rp_values out name")
    case (Some v)
    with 1(2) have "out' = out" by (simp add: resolve.simps)
    then show ?thesis using 1(3) Some by auto
  next
    case None
    show ?thesis
    proof (cases "resolveBuiltin Pr m ov name")
      case (Some b)
      with 1(2) None have o: "out' = store name b out" by (simp add: resolve.simps)
      have "props_inv Pr J m ov out'"
        unfolding o by (rule props_inv_store [OF 1(3) None]) (simp add: resolved_at_def Some)
      then show ?thesis using None Some by (auto simp: o store_def map_le_def)
    next
      case nb: None
      with 1(2) None obtain raw out1 v where
        nv: "name \<notin> visiting" and raw: "sourceFor J m ov name = Inr raw"
        and rec: "resolve_all Pr J m ov (insert name visiting) (referencedNames raw) out = Inr out1"
        and sub: "substituteOnce (rp_values out1) raw = Inr v" and o: "out' = store name v out1"
        by (auto simp: resolve.simps [of _ _ _ _ _ name] split: if_splits sum.splits elim!: bindE_Inr_cases)
      have nn: "\<not> rp_values out name \<noteq> None" using None by simp
      from 1(1) [OF nn nb nv raw rec 1(3)]
      have inv: "props_inv Pr J m ov out1" and le: "rp_values out \<subseteq>\<^sub>m rp_values out1"
        and refs: "set (referencedNames raw) \<subseteq> dom (rp_values out1)"
        and un: "\<forall>x \<in> insert name visiting. resolveBuiltin Pr m ov x = None \<longrightarrow>
            rp_values out x = None \<longrightarrow> rp_values out1 x = None"
        by simp_all
      have free: "rp_values out1 name = None" using un nb None by simp
      have "substituteOnce ((rp_values out1)(name \<mapsto> v)) raw = substituteOnce (rp_values out1) raw"
        by (rule substituteOnce_cong) (use refs free in auto)
      with sub have "substituteOnce ((rp_values out1)(name \<mapsto> v)) raw = Inr v" by simp
      moreover have "set (referencedNames raw) \<subseteq> set (resolutionOrder out1)"
        using refs inv by (simp add: props_inv_def)
      ultimately have "props_inv Pr J m ov out'"
        unfolding o by (intro props_inv_store [OF inv free]) (simp add: resolved_at_def nb raw)
      then show ?thesis using le un nv free None by (auto simp: o store_def map_le_def)
    qed
  qed
next
  case (3 Pr J m ov visiting n ns out)
  then obtain out1 where r1: "resolve Pr J m ov visiting n out = Inr out1"
    and r2: "resolve_all Pr J m ov visiting ns out1 = Inr out'"
    by (auto elim: bindE_Inr_cases)
  note i1 = 3(1) [OF r1 3(4)]
  then have i2: "props_inv Pr J m ov out' \<and> rp_values out1 \<subseteq>\<^sub>m rp_values out' \<and> set ns \<subseteq> dom (rp_values out') \<and>
     (\<forall>x \<in> visiting. resolveBuiltin Pr m ov x = None \<longrightarrow> rp_values out1 x = None \<longrightarrow> rp_values out' x = None)"
    using 3(2) [OF r1 r2] by blast
  have "n \<in> dom (rp_values out')" using i1 i2 map_le_implies_dom_le by blast
  then show ?case using i1 i2 map_le_trans by auto
qed auto

subsection \<open>When properties resolve\<close>

text \<open>The references of a property: those in its source, unless it is a built-in.\<close>

definition property_refs ::
    "process \<Rightarrow> ('v, 'o) json \<Rightarrow> 'o Manifest \<Rightarrow> PropertyOverrides \<Rightarrow> (string \<times> string) set" where
  "property_refs Pr J m ov =
     {(n, d). resolveBuiltin Pr m ov n = None \<and>
        (\<exists>raw. sourceFor J m ov n = Inr raw \<and> d \<in> set (referencedNames raw))}"

definition has_value :: "process \<Rightarrow> ('v, 'o) json \<Rightarrow> 'o Manifest \<Rightarrow> PropertyOverrides \<Rightarrow> string \<Rightarrow> bool" where
  "has_value Pr J m ov n \<longleftrightarrow> resolveBuiltin Pr m ov n \<noteq> None \<or> (\<exists>raw. sourceFor J m ov n = Inr raw)"

lemma refs_step:
  assumes "props_inv Pr J m ov out" "(a, b) \<in> property_refs Pr J m ov"
    and "k < length (resolutionOrder out)" "resolutionOrder out ! k = a"
  shows "b \<in> set (take k (resolutionOrder out))"
proof -
  have "resolved_at Pr J m ov (rp_values out) (set (take k (resolutionOrder out))) a"
    using assms(1,3,4) by (auto simp: props_inv_def)
  with assms(2) show ?thesis by (auto simp: resolved_at_def property_refs_def)
qed

lemma refs_before:
  assumes "props_inv Pr J m ov out" "(a, b) \<in> (property_refs Pr J m ov)\<^sup>+"
    and "k < length (resolutionOrder out)" "resolutionOrder out ! k = a"
  shows "b \<in> set (take k (resolutionOrder out))"
  using assms(2)
proof (induction rule: trancl_induct)
  case (base b)
  then show ?case using refs_step [OF assms(1) _ assms(3,4)] by blast
next
  case (step b c)
  then obtain l where l: "l < k" "resolutionOrder out ! l = b" "l < length (resolutionOrder out)"
    using assms(3) by (auto simp: in_set_conv_nth)
  then have "c \<in> set (take l (resolutionOrder out))"
    using refs_step [OF assms(1) step(2)] by blast
  then show ?case using l set_take_subset_set_take [of l k "resolutionOrder out"] by auto
qed

lemma resolved_closed:
  assumes inv: "props_inv Pr J m ov out" and n: "n \<in> dom (rp_values out)"
  shows "(n, b) \<in> (property_refs Pr J m ov)\<^sup>* \<Longrightarrow>
      b \<in> dom (rp_values out) \<and> has_value Pr J m ov b \<and> (b, b) \<notin> (property_refs Pr J m ov)\<^sup>+"
proof -
  assume r: "(n, b) \<in> (property_refs Pr J m ov)\<^sup>*"
  have ord: "set (resolutionOrder out) = dom (rp_values out)" "distinct (resolutionOrder out)"
    using inv by (simp_all add: props_inv_def)
  have b: "b \<in> set (resolutionOrder out)"
  proof (cases "n = b")
    case False
    then have t: "(n, b) \<in> (property_refs Pr J m ov)\<^sup>+" using r by (simp add: rtrancl_eq_or_trancl)
    have "n \<in> set (resolutionOrder out)" using n ord by simp
    then obtain k where k: "k < length (resolutionOrder out)" "resolutionOrder out ! k = n"
      by (auto simp: in_set_conv_nth)
    show ?thesis using refs_before [OF inv t k] by (rule in_set_takeD)
  qed (use n ord in simp)
  then obtain k where k: "k < length (resolutionOrder out)" "resolutionOrder out ! k = b"
    by (auto simp: in_set_conv_nth)
  have "has_value Pr J m ov b"
    using inv k by (auto simp: props_inv_def resolved_at_def has_value_def split: option.splits)
  moreover have "(b, b) \<notin> (property_refs Pr J m ov)\<^sup>+"
  proof
    assume "(b, b) \<in> (property_refs Pr J m ov)\<^sup>+"
    from refs_before [OF inv this k] obtain l where "l < k" "resolutionOrder out ! l = b"
      using k by (auto simp: in_set_conv_nth)
    then show False using k ord(2) nth_eq_iff_index_eq [of "resolutionOrder out" l k] by simp
  qed
  ultimately show ?thesis using b ord by simp
qed

lemma resolve_succeeds:
  "(\<And>b. (name, b) \<in> (property_refs Pr J m ov)\<^sup>* \<Longrightarrow> has_value Pr J m ov b \<and> (b, b) \<notin> (property_refs Pr J m ov)\<^sup>+ \<and> b \<notin> visiting) \<Longrightarrow>
     props_inv Pr J m ov out \<Longrightarrow> \<exists>out'. resolve Pr J m ov visiting name out = Inr out'"
  "(\<And>n b. n \<in> set names \<Longrightarrow> (n, b) \<in> (property_refs Pr J m ov)\<^sup>* \<Longrightarrow>
       has_value Pr J m ov b \<and> (b, b) \<notin> (property_refs Pr J m ov)\<^sup>+ \<and> b \<notin> visiting) \<Longrightarrow>
     props_inv Pr J m ov out \<Longrightarrow> \<exists>out'. resolve_all Pr J m ov visiting names out = Inr out'"
proof (induction Pr J m ov visiting name out and Pr J m ov visiting names out rule: resolve_resolve_all.induct)
  case (1 Pr J m ov visiting name out)
  let ?R = "property_refs Pr J m ov"
  show ?case
  proof (cases "rp_values out name = None \<and> resolveBuiltin Pr m ov name = None")
    case True
    with 1(2) [of name] obtain raw where raw: "sourceFor J m ov name = Inr raw" and nv: "name \<notin> visiting"
      and nc: "(name, name) \<notin> ?R\<^sup>+"
      by (auto simp: has_value_def)
    have d: "(name, d) \<in> ?R" if "d \<in> set (referencedNames raw)" for d
      using that raw True by (auto simp: property_refs_def)
    have "has_value Pr J m ov b \<and> (b, b) \<notin> ?R\<^sup>+ \<and> b \<notin> insert name visiting"
      if "d \<in> set (referencedNames raw)" "(d, b) \<in> ?R\<^sup>*" for d b
    proof -
      have t: "(name, b) \<in> ?R\<^sup>+" using d [OF that(1)] that(2) by (rule rtrancl_into_trancl2)
      then show ?thesis using 1(2) [OF trancl_into_rtrancl [OF t]] nc by auto
    qed
    moreover have "\<not> rp_values out name \<noteq> None" using True by simp
    ultimately obtain out1 where rec: "resolve_all Pr J m ov (insert name visiting) (referencedNames raw) out = Inr out1"
      using 1(1) [of raw] 1(3) True nv raw by metis
    have "set (referencedNames raw) \<subseteq> dom (rp_values out1)"
      using resolve_keeps(2) [OF rec 1(3)] by blast
    then obtain v where "substituteOnce (rp_values out1) raw = Inr v"
      using substituteOnce_total [of raw "rp_values out1"] by blast
    then show ?thesis using True nv raw rec by (simp add: resolve.simps [of _ _ _ _ _ name])
  next
    case False
    then show ?thesis by (auto simp: resolve.simps [of _ _ _ _ _ name] split: option.splits)
  qed
next
  case (3 Pr J m ov visiting n ns out)
  have "\<exists>out1. resolve Pr J m ov visiting n out = Inr out1"
    by (rule 3(1) [OF _ 3(4)]) (rule 3(3), simp_all)
  then obtain out1 where r: "resolve Pr J m ov visiting n out = Inr out1" by blast
  have inv: "props_inv Pr J m ov out1" using resolve_keeps(1) [OF r 3(4)] by blast
  have "\<exists>out'. resolve_all Pr J m ov visiting ns out1 = Inr out'"
    by (rule 3(2) [OF r _ inv]) (rule 3(3), simp_all)
  with r show ?case by simp
qed auto

lemma empty_props_inv: "props_inv Pr J m ov \<lparr>rp_values = Map.empty, resolutionOrder = []\<rparr>"
  by (simp add: props_inv_def)

lemma putBuiltin_keeps:
  "resolutionOrder (fold (putBuiltin Pr m ov) ns out) = resolutionOrder out \<and>
   rp_values out \<subseteq>\<^sub>m rp_values (fold (putBuiltin Pr m ov) ns out) \<and>
   (\<forall>n v. rp_values (fold (putBuiltin Pr m ov) ns out) n = Some v \<longrightarrow>
      rp_values out n = Some v \<or> resolveBuiltin Pr m ov n = Some v)"
proof (induction ns arbitrary: out)
  case (Cons x ns)
  have "resolutionOrder (putBuiltin Pr m ov x out) = resolutionOrder out \<and>
      rp_values out \<subseteq>\<^sub>m rp_values (putBuiltin Pr m ov x out) \<and>
      (\<forall>n v. rp_values (putBuiltin Pr m ov x out) n = Some v \<longrightarrow>
        rp_values out n = Some v \<or> resolveBuiltin Pr m ov n = Some v)"
    by (auto simp: putBuiltin_def map_le_def split: option.splits if_splits)
  with Cons [of "putBuiltin Pr m ov x out"] show ?case by (simp, meson map_le_trans)
qed simp

text \<open>Resolved properties solve their equations: every property of the manifest has a value, and
  every value is that of a built-in or the source text, by the precedence of the overrides, with the
  values substituted for its references; the order of resolution lists each name once, after all
  names that its source refers to.\<close>

theorem resolved_properties_solve:
  assumes "resolveProperties Pr J m ov = Inr out"
  shows "fst ` set (properties_of J m) \<subseteq> dom (rp_values out) \<and>
    (\<forall>n v. rp_values out n = Some v \<longrightarrow> resolveBuiltin Pr m ov n = Some v \<or>
       (\<exists>raw. sourceFor J m ov n = Inr raw \<and> substituteOnce (rp_values out) raw = Inr v)) \<and>
    distinct (resolutionOrder out) \<and>
    (\<forall>k < length (resolutionOrder out).
       resolved_at Pr J m ov (rp_values out) (set (take k (resolutionOrder out))) (resolutionOrder out ! k))"
proof -
  from assms obtain out0 where r: "resolve_all Pr J m ov {} (map fst (properties_of J m))
        \<lparr>rp_values = Map.empty, resolutionOrder = []\<rparr> = Inr out0"
    and o: "out = fold (putBuiltin Pr m ov) fixedBuiltins out0"
    by (auto simp: resolveProperties_def Let_def split: option.splits elim!: bindE_Inr_cases)
  from resolve_keeps(2) [OF r empty_props_inv] have inv: "props_inv Pr J m ov out0"
    and keys: "set (map fst (properties_of J m)) \<subseteq> dom (rp_values out0)" by blast+
  from putBuiltin_keeps [of Pr m ov fixedBuiltins out0] have ord: "resolutionOrder out = resolutionOrder out0"
    and le: "rp_values out0 \<subseteq>\<^sub>m rp_values out"
    and new: "\<And>n v. rp_values out n = Some v \<Longrightarrow> rp_values out0 n = Some v \<or> resolveBuiltin Pr m ov n = Some v"
    unfolding o by blast+
  have at: "resolved_at Pr J m ov (rp_values out) (set (take k (resolutionOrder out))) (resolutionOrder out ! k)"
    if "k < length (resolutionOrder out)" for k
  proof -
    have "set (take k (resolutionOrder out0)) \<subseteq> dom (rp_values out0)"
      using inv set_take_subset by (fastforce simp: props_inv_def)
    then show ?thesis using that inv le unfolding ord props_inv_def by (blast intro: resolved_at_mono)
  qed
  have "resolveBuiltin Pr m ov n = Some v \<or>
       (\<exists>raw. sourceFor J m ov n = Inr raw \<and> substituteOnce (rp_values out) raw = Inr v)"
    if v: "rp_values out n = Some v" for n v
  proof (cases "resolveBuiltin Pr m ov n")
    case None
    with new [OF v] have "n \<in> dom (rp_values out0)" by auto
    then have "n \<in> set (resolutionOrder out)" using inv ord by (simp add: props_inv_def)
    then obtain k where k: "k < length (resolutionOrder out)" "resolutionOrder out ! k = n"
      by (auto simp: in_set_conv_nth)
    from at [OF k(1)] show ?thesis using None v unfolding k(2) by (auto simp: resolved_at_def)
  next
    case (Some b)
    show ?thesis
    proof (cases "rp_values out0 n")
      case None
      then show ?thesis using new [OF v] by simp
    next
      case (Some w)
      then have "n \<in> set (resolutionOrder out)" using inv ord by (auto simp: props_inv_def)
      then obtain k where k: "k < length (resolutionOrder out)" "resolutionOrder out ! k = n"
        by (auto simp: in_set_conv_nth)
      from at [OF k(1)] show ?thesis using v unfolding k(2) by (auto simp: resolved_at_def split: option.splits)
    qed
  qed
  then show ?thesis using keys le at inv ord map_le_implies_dom_le [OF le]
    by (auto simp: props_inv_def)
qed

text \<open>C30: Resolution succeeds exactly if no property has the name of a built-in and every name that the
  properties reach through their references has a value and does not reach itself: in particular
  it ends in an error, and does not run forever, on every cycle.\<close>

theorem resolveProperties_succeeds_iff:
  "(\<exists>out. resolveProperties Pr J m ov = Inr out) \<longleftrightarrow>
     (\<forall>n \<in> fst ` set (properties_of J m). \<not> isBuiltinName n) \<and>
     (\<forall>n \<in> fst ` set (properties_of J m). \<forall>b. (n, b) \<in> (property_refs Pr J m ov)\<^sup>* \<longrightarrow>
        has_value Pr J m ov b \<and> (b, b) \<notin> (property_refs Pr J m ov)\<^sup>+)"
    (is "?L \<longleftrightarrow> ?names \<and> ?reach")
proof
  assume ?L
  then obtain out0 where f: "find isBuiltinName (map fst (properties_of J m)) = None"
    and r: "resolve_all Pr J m ov {} (map fst (properties_of J m))
        \<lparr>rp_values = Map.empty, resolutionOrder = []\<rparr> = Inr out0"
    by (auto simp: resolveProperties_def Let_def split: option.splits elim!: bindE_Inr_cases)
  from resolve_keeps(2) [OF r empty_props_inv] have "props_inv Pr J m ov out0"
    and "set (map fst (properties_of J m)) \<subseteq> dom (rp_values out0)" by blast+
  then have ?reach using resolved_closed by (metis set_map subsetD)
  moreover have ?names using f by (auto simp: find_None_iff)
  ultimately show "?names \<and> ?reach" by blast
next
  assume a: "?names \<and> ?reach"
  then have "find isBuiltinName (map fst (properties_of J m)) = None" by (auto simp: find_None_iff)
  moreover have "\<exists>out. resolve_all Pr J m ov {} (map fst (properties_of J m))
      \<lparr>rp_values = Map.empty, resolutionOrder = []\<rparr> = Inr out"
    by (rule resolve_succeeds(2) [OF _ empty_props_inv]) (use a in auto)
  ultimately show ?L by (auto simp: resolveProperties_def Let_def)
qed

subsection \<open>Text that contains no reference\<close>

definition escape :: "string \<Rightarrow> string" where
  "escape s = concat (map (\<lambda>c. if c = CHR ''$'' then ''$$'' else [c]) s)"

lemma substituteOnce_plain:
  "c \<noteq> CHR ''$'' \<Longrightarrow> substituteOnce f (c # s) = bindE (substituteOnce f s) (\<lambda>r. Inr (c # r))"
  by (cases s) simp_all

text \<open>Every text can be written as a property value: substituting into it with each dollar sign
  doubled gives it back, whatever the properties are.\<close>

theorem escaped_text_roundtrip: "substituteOnce f (escape s) = Inr s"
proof (induction s)
  case (Cons c s)
  then show ?case
    by (cases "c = CHR ''$''") (simp_all add: escape_def substituteOnce_plain)
qed (simp add: escape_def)

text \<open>An override on the command line is split at its first equals sign.\<close>

lemma parseCliOverride_iff:
  "parseCliOverride token = Inr (name, value) \<longleftrightarrow>
     token = name @ ''='' @ value \<and> name \<noteq> [] \<and> CHR ''='' \<notin> set name"
proof
  assume a: "parseCliOverride token = Inr (name, value)"
  then have n: "name = takeWhile (\<lambda>c. c \<noteq> CHR ''='') token" and v: "value = drop (length name + 1) token"
    and e: "CHR ''='' \<in> set token" and ne: "name \<noteq> []"
    by (auto simp: parseCliOverride_def Let_def split: if_splits)
  have "token = name @ dropWhile (\<lambda>c. c \<noteq> CHR ''='') token" by (simp add: n)
  moreover have "dropWhile (\<lambda>c. c \<noteq> CHR ''='') token \<noteq> []"
    using e by (auto simp: dropWhile_eq_Nil_conv)
  then obtain c cs where d: "dropWhile (\<lambda>c. c \<noteq> CHR ''='') token = c # cs" by (cases "dropWhile (\<lambda>c. c \<noteq> CHR ''='') token") auto
  then have "c = CHR ''=''" by (metis (mono_tags, lifting) dropWhile_eq_Cons_conv)
  ultimately have t: "token = name @ CHR ''='' # cs" using d by simp
  then have "value = cs" using v by simp
  then show "token = name @ ''='' @ value \<and> name \<noteq> [] \<and> CHR ''='' \<notin> set name"
    using t ne n by (auto dest: set_takeWhileD)
next
  assume t: "token = name @ ''='' @ value \<and> name \<noteq> [] \<and> CHR ''='' \<notin> set name"
  then have "\<forall>c \<in> set name. c \<noteq> CHR ''=''" by metis
  with t have "takeWhile (\<lambda>c. c \<noteq> CHR ''='') token = name" by (simp add: takeWhile_append)
  then show "parseCliOverride token = Inr (name, value)"
    using t by (simp add: parseCliOverride_def)
qed

definition demo_properties :: "(string \<times> jtree) list Manifest" where
  "demo_properties = (output_manifest ''x'')\<lparr>m_propertiesRaw := Some
     [(''url'', JStr ''https://${host}/${details.name}''), (''host'', JStr ''h$$'')]\<rparr>"

definition no_property_overrides :: PropertyOverrides where
  "no_property_overrides = \<lparr>po_cli = [], po_env = [], po_flavor = None, po_profile = None, po_target = None,
     po_workspaceRoot = None\<rparr>"

definition demo_process :: process where
  "demo_process = \<lparr>getenv = (\<lambda>_. None), cajetaVersion = ''1''\<rparr>"

lemma demo_resolves:
  obtains out where "resolveProperties demo_process (tree_json Map.empty) demo_properties no_property_overrides = Inr out"
    "rp_values out ''url'' = Some ''https://h$/a''" "resolutionOrder out = [''host'', ''details.name'', ''url'']"
proof -
  have "case resolve_all demo_process (tree_json Map.empty) demo_properties no_property_overrides {}
        [''url'', ''host''] \<lparr>rp_values = Map.empty, resolutionOrder = []\<rparr> of
      Inl _ \<Rightarrow> False
    | Inr out \<Rightarrow> rp_values out ''url'' = Some ''https://h$/a'' \<and> resolutionOrder out = [''host'', ''details.name'', ''url'']"
    by code_simp
  then obtain out where o: "resolve_all demo_process (tree_json Map.empty) demo_properties no_property_overrides {}
        [''url'', ''host''] \<lparr>rp_values = Map.empty, resolutionOrder = []\<rparr> = Inr out"
      "rp_values out ''url'' = Some ''https://h$/a''" "resolutionOrder out = [''host'', ''details.name'', ''url'']"
    by (rule case_InrE) simp
  have "find isBuiltinName [''url'', ''host''] = None" by code_simp
  then have "resolveProperties demo_process (tree_json Map.empty) demo_properties no_property_overrides =
      Inr (fold (putBuiltin demo_process demo_properties no_property_overrides) fixedBuiltins out)"
    using o(1) by (simp add: resolveProperties_def properties_of_def demo_properties_def)
  moreover have le: "rp_values out \<subseteq>\<^sub>m rp_values (fold (putBuiltin demo_process demo_properties no_property_overrides) fixedBuiltins out)"
    and "resolutionOrder (fold (putBuiltin demo_process demo_properties no_property_overrides) fixedBuiltins out) = resolutionOrder out"
    using putBuiltin_keeps [of demo_process demo_properties no_property_overrides fixedBuiltins out] by blast+
  moreover have "rp_values (fold (putBuiltin demo_process demo_properties no_property_overrides) fixedBuiltins out) ''url'' =
      Some ''https://h$/a''"
    using bspec [OF le [unfolded map_le_def], of "''url''"] o(2) by (simp add: domI)
  ultimately show thesis using o(3) by (intro that) simp_all
qed

theorem resolved_properties_solve_witness:
  "\<exists>out. resolveProperties demo_process (tree_json Map.empty) demo_properties no_property_overrides = Inr out \<and>
     rp_values out ''url'' = Some ''https://h$/a'' \<and> distinct (resolutionOrder out) \<and> ''host'' \<in> dom (rp_values out)"
proof -
  obtain out where o: "resolveProperties demo_process (tree_json Map.empty) demo_properties no_property_overrides = Inr out"
    "rp_values out ''url'' = Some ''https://h$/a''" by (rule demo_resolves)
  have "''host'' \<in> fst ` set (properties_of (tree_json Map.empty) demo_properties)"
    by (simp add: properties_of_def demo_properties_def)
  with resolved_properties_solve [OF o(1)] o show ?thesis by blast
qed

theorem resolveProperties_succeeds_iff_witness:
  "(''url'', ''url'') \<notin> (property_refs demo_process (tree_json Map.empty) demo_properties no_property_overrides)\<^sup>+"
proof -
  obtain out where o: "resolveProperties demo_process (tree_json Map.empty) demo_properties no_property_overrides = Inr out"
    by (rule demo_resolves)
  have u: "''url'' \<in> fst ` set (properties_of (tree_json Map.empty) demo_properties)"
    by (simp add: properties_of_def demo_properties_def)
  from resolveProperties_succeeds_iff [of demo_process "tree_json Map.empty" demo_properties no_property_overrides] o u
  show ?thesis by blast
qed


subsection \<open>The depth bound suffices\<close>

text \<open>A depth of JSON values: what an object or an array holds is less deep.\<close>

definition json_depth :: "('v, 'o) json \<Rightarrow> ('v \<Rightarrow> nat) \<Rightarrow> bool" where
  "json_depth J d \<longleftrightarrow>
     (\<forall>v ob k w. asObject J v = Some ob \<longrightarrow> (k, w) \<in> set (members J ob) \<longrightarrow> d w < d v) \<and>
     (\<forall>v vs w. asArray J v = Some vs \<longrightarrow> w \<in> set vs \<longrightarrow> d w < d v)"

lemma substituteJson_returns:
  "json_depth J d \<Longrightarrow> d v < fuel \<Longrightarrow> substituteJsonValue Pr J B props fuel site v \<noteq> None"
  "json_depth J d \<Longrightarrow> (\<forall>(k, w) \<in> set ms. d w < fuel) \<Longrightarrow>
     substituteJsonObject Pr J B props fuel site ms ob \<noteq> None"
  "json_depth J d \<Longrightarrow> (\<forall>w \<in> set vs. d w < fuel) \<Longrightarrow>
     substituteJsonArray Pr J B props fuel site i vs \<noteq> None"
proof (induction Pr J B props fuel site v and Pr J B props fuel site ms ob and Pr J B props fuel site i vs
    rule: substituteJsonValue_substituteJsonObject_substituteJsonArray.induct)
  case (2 Pr J B props fuel site v)
  show ?case
  proof (cases "asObject J v")
    case (Some ob)
    have "\<forall>(k, w) \<in> set (members J ob). d w < fuel"
      using 2(3,4) Some by (auto simp: json_depth_def) (meson less_Suc_eq_le order_less_le_trans)
    then show ?thesis using 2(2) [OF Some 2(3)] Some by simp
  next
    case ob: None
    show ?thesis
    proof (cases "asArray J v")
      case (Some vs)
      have "\<forall>w \<in> set vs. d w < fuel"
        using 2(3,4) Some by (auto simp: json_depth_def) (meson less_Suc_eq_le order_less_le_trans)
      then show ?thesis using 2(1) [OF ob Some 2(3)] ob Some by simp
    next
      case None
      then show ?thesis using ob by (simp split: option.splits)
    qed
  qed
next
  case (4 Pr J B props fuel site k v rest ob)
  then have "substituteJsonValue Pr J B props fuel (site @ ''.'' @ k) v \<noteq> None" by simp
  then obtain r where "substituteJsonValue Pr J B props fuel (site @ ''.'' @ k) v = Some r" by blast
  then show ?case using 4(2) [of r] 4(3,4) by (cases r) simp_all
next
  case (6 Pr J B props fuel site i v vs)
  then have "substituteJsonValue Pr J B props fuel (site @ ''['' @ show_nat i @ '']'') v \<noteq> None" by simp
  then obtain r where "substituteJsonValue Pr J B props fuel (site @ ''['' @ show_nat i @ '']'') v = Some r" by blast
  then show ?case using 6(2) [of r] 6(3,4) by (cases r) simp_all
qed simp_all

text \<open>The rewriting of a manifest ends: with more fuel than any value of its blocks is deep it
  returns a manifest or an error, and of the blocks only \<open>settings\<close> and \<open>plugins\<close> may
  differ.\<close>

theorem substituteManifestProperties_returns:
  assumes "json_depth J d"
    and "\<And>ob k v. m_settingsRaw m = Some ob \<or> m_pluginsRaw m = Some ob \<Longrightarrow> (k, v) \<in> set (members J ob) \<Longrightarrow> d v < fuel"
  shows "\<exists>r. substituteManifestProperties Pr J B fuel m props = Some r \<and>
    (\<forall>m'. r = Inr m' \<longrightarrow>
       m'\<lparr>m_settingsRaw := m_settingsRaw m, m_pluginsRaw := m_pluginsRaw m\<rparr> = m)"
proof -
  have blk: "substituteBlock Pr J B props fuel site b \<noteq> None"
    if "\<And>ob k v. b = Some ob \<Longrightarrow> (k, v) \<in> set (members J ob) \<Longrightarrow> d v < fuel" for site b
  proof (cases b)
    case (Some ob)
    have "substituteJsonObject Pr J B props fuel site (members J ob) ob \<noteq> None"
      by (rule substituteJson_returns(2) [OF assms(1)]) (use that Some in auto)
    then show ?thesis using Some by (simp add: substituteBlock_def)
  qed (simp add: substituteBlock_def)
  obtain r1 where r1: "substituteBlock Pr J B props fuel ''settings'' (m_settingsRaw m) = Some r1"
    using blk [of "m_settingsRaw m"] assms(2) by blast
  obtain r2 where r2: "substituteBlock Pr J B props fuel ''plugins'' (m_pluginsRaw m) = Some r2"
    using blk [of "m_pluginsRaw m"] assms(2) by blast
  show ?thesis by (cases r1; cases r2) (simp_all add: substituteManifestProperties_def r1 r2)
qed

lemma tree_json_depth: "json_depth (tree_json docs) size"
proof -
  have "size w < size (JObj ms)" if "(k, w) \<in> set ms" for k w ms
    using size_list_estimation' [OF that, of "size w" "size_prod (\<lambda>_. 0) size"] by simp
  moreover have "size w < size (JArr vs)" if "w \<in> set vs" for w vs
    using size_list_estimation' [OF that, of "size w" size] by simp
  ultimately show ?thesis
    by (auto simp: json_depth_def tree_json_def split: jtree.splits)
qed

theorem substituteManifestProperties_returns_witness:
  "\<exists>r. substituteManifestProperties demo_process (tree_json Map.empty) tree_builder 5 (output_manifest ''${x}'')
     \<lparr>rp_values = [''x'' \<mapsto> ''out''], resolutionOrder = [''x'']\<rparr> = Some r"
proof -
  let ?m = "output_manifest ''${x}''"
  let ?r = "substituteManifestProperties demo_process (tree_json Map.empty) tree_builder 5 ?m
     \<lparr>rp_values = [''x'' \<mapsto> ''out''], resolutionOrder = [''x'']\<rparr>"
  have "\<exists>r. ?r = Some r \<and>
    (\<forall>m'. r = Inr m' \<longrightarrow> m'\<lparr>m_settingsRaw := m_settingsRaw ?m, m_pluginsRaw := m_pluginsRaw ?m\<rparr> = ?m)"
    by (rule substituteManifestProperties_returns [OF tree_json_depth]) (auto simp: output_manifest_def)
  then show ?thesis by blast
qed

end
