(* ===== verification/Dep_Tree.thy ===== *)
theory Dep_Tree
  imports Mvs_Resolver Dep_Order
begin

text \<open>
  The dependency tree of a resolved graph (\<open>buildtool/DependencyTree.h\<close>,
  \<open>DependencyTree.cpp\<close>): the depth-first walk with its detection of cycles, and the
  renderers as text, JSON and CSV.
\<close>

subsection \<open>Data\<close>

datatype DepStatus = Normal | Repeated | Cycle | Opaque | Truncated

definition depStatusWord :: "DepStatus \<Rightarrow> string" where
  "depStatusWord s = (case s of Normal \<Rightarrow> [] | Repeated \<Rightarrow> ''repeated'' | Cycle \<Rightarrow> ''cycle''
     | Opaque \<Rightarrow> ''opaque'' | Truncated \<Rightarrow> ''truncated'')"

datatype DepNode = DepNode
  (dn_name: string) (dn_version: string) (dn_requested: string) (dn_repository: string)
  (dn_checksum: string) (dn_status: DepStatus) (dn_children: "DepNode list")

record DepTree =
  dt_root :: DepNode
  dt_cycles :: "string list list"

record DepTreeOptions =
  depth :: int
  dedupe :: bool

definition default_options :: DepTreeOptions where
  "default_options = \<lparr>depth = -1, dedupe = True\<rparr>"

definition formatCycle :: "string list \<Rightarrow> string" where
  "formatCycle path = join_with '' -> '' path"

subsection \<open>The walk\<close>

text \<open>The state of the \<open>Walker\<close> that outlives a call. The path is an argument: it is pushed and
  popped around the recursion, and \<open>onPath\<close> is the set of its names.\<close>

record walk =
  expanded :: "string set"
  cycles :: "string list list"
  cycleKeys :: "string set"

definition sorted_kids :: "DependencySpec list \<Rightarrow> DependencySpec list" where
  "sorted_kids kids = sort_key ds_name kids"

definition byName :: "ResolvedGraph \<Rightarrow> string \<Rightarrow> ResolvedDependency option" where
  "byName g = map_of (rev (map (\<lambda>p. (rd_name p, p)) (packages g)))"

definition make_node :: "ResolvedGraph \<Rightarrow> DependencySpec \<Rightarrow> DepStatus \<Rightarrow> DepNode list \<Rightarrow> DepNode" where
  "make_node g spec sta kids =
     (case byName g (ds_name spec) of
        Some p \<Rightarrow> DepNode (ds_name spec) (rd_version p) (versionConstraint spec)
                    (rd_resolvedFromRepo p) (rd_sha256 p) sta kids
      | None \<Rightarrow> DepNode (ds_name spec) [] (versionConstraint spec) [] [] sta kids)"

definition closing_path :: "string list \<Rightarrow> string \<Rightarrow> string list" where
  "closing_path path name = dropWhile (\<lambda>n. n \<noteq> name) path @ [name]"

definition recordCycle :: "string list \<Rightarrow> string \<Rightarrow> walk \<Rightarrow> walk" where
  "recordCycle path name w =
     (let cyc = closing_path path name; key = formatCycle cyc in
      if key \<in> cycleKeys w then w
      else w\<lparr>cycleKeys := insert key (cycleKeys w), cycles := cycles w @ [cyc]\<rparr>)"

text \<open>What the loop does with a child: it is listed without being expanded, or it is entered.\<close>

datatype step = Leaf DepStatus walk | Descend "DependencySpec list"

definition kids_of :: "ResolvedGraph \<Rightarrow> string \<Rightarrow> DependencySpec list" where
  "kids_of g name = (case children g name of None \<Rightarrow> [] | Some ks \<Rightarrow> ks)"

definition classify ::
    "ResolvedGraph \<Rightarrow> DepTreeOptions \<Rightarrow> string list \<Rightarrow> int \<Rightarrow> string \<Rightarrow> walk \<Rightarrow> step" where
  "classify g opt path level name w =
     (if name \<in> set path then Leaf Cycle (recordCycle path name w)
      else if dedupe opt \<and> name \<in> expanded w then Leaf Repeated w
      else if name \<in> opaque g then Leaf Opaque w
      else if depth opt \<ge> 0 \<and> level + 1 + 1 > depth opt then
        Leaf (if kids_of g name \<noteq> [] then Truncated else Normal) w
      else Descend (kids_of g name))"

partial_function (option) visit ::
    "ResolvedGraph \<Rightarrow> DepTreeOptions \<Rightarrow> string list \<Rightarrow> int \<Rightarrow> DependencySpec list \<Rightarrow> walk \<Rightarrow>
     (DepNode list \<times> walk) option" where
  "visit g opt path level specs w =
     (case specs of
        [] \<Rightarrow> Some ([], w)
      | spec # rest \<Rightarrow>
          (case classify g opt path level (ds_name spec) w of
             Leaf sta w1 \<Rightarrow>
               Option.bind (visit g opt path level rest w1)
                 (\<lambda>r. Some (make_node g spec sta [] # fst r, snd r))
           | Descend grandkids \<Rightarrow>
               Option.bind (visit g opt (path @ [ds_name spec]) (level + 1) (sorted_kids grandkids)
                   (w\<lparr>expanded := insert (ds_name spec) (expanded w)\<rparr>))
                 (\<lambda>k. Option.bind (visit g opt path level rest (snd k))
                    (\<lambda>r. Some (make_node g spec Normal (fst k) # fst r, snd r)))))"

definition buildDependencyTree ::
    "string \<Rightarrow> string \<Rightarrow> ResolvedGraph \<Rightarrow> DepTreeOptions \<Rightarrow> DepTree option" where
  "buildDependencyTree rootName rootVersion g opt =
     (let root = DepNode rootName rootVersion [] [] [] Normal in
      if depth opt \<ge> 0 \<and> 1 > depth opt then Some \<lparr>dt_root = root [], dt_cycles = []\<rparr>
      else
        Option.bind (visit g opt [rootName] 0 (sorted_kids (roots g))
            \<lparr>expanded = {}, cycles = [], cycleKeys = {}\<rparr>)
          (\<lambda>r. Some \<lparr>dt_root = root (fst r), dt_cycles = cycles (snd r)\<rparr>))"

definition findDependencyCycles :: "string \<Rightarrow> ResolvedGraph \<Rightarrow> string list list option" where
  "findDependencyCycles rootName g =
     map_option dt_cycles (buildDependencyTree rootName [] g default_options)"

subsection \<open>Text\<close>

definition marker :: "DepStatus \<Rightarrow> string" where
  "marker s = (case s of Normal \<Rightarrow> [] | Repeated \<Rightarrow> '' (*)'' | Cycle \<Rightarrow> '' (cycle)''
     | Opaque \<Rightarrow> '' (no manifest)'' | Truncated \<Rightarrow> '' (...)'')"

definition node_label :: "DepNode \<Rightarrow> string" where
  "node_label n = dn_name n @ (if dn_version n \<noteq> [] then '' '' @ dn_version n else [])"

text \<open>The guides, as bytes in UTF-8.\<close>

definition tee :: "bool \<Rightarrow> string" where
  "tee ascii = (if ascii then ''|-- ''
     else [CHR 0xE2, CHR 0x94, CHR 0x9C, CHR 0xE2, CHR 0x94, CHR 0x80, CHR 0xE2, CHR 0x94, CHR 0x80, CHR '' ''])"

definition corner :: "bool \<Rightarrow> string" where
  "corner ascii = (if ascii then [CHR 0x60, CHR ''-'', CHR ''-'', CHR '' '']
     else [CHR 0xE2, CHR 0x94, CHR 0x94, CHR 0xE2, CHR 0x94, CHR 0x80, CHR 0xE2, CHR 0x94, CHR 0x80, CHR '' ''])"

definition bar :: "bool \<Rightarrow> string" where
  "bar ascii = (if ascii then ''|   '' else [CHR 0xE2, CHR 0x94, CHR 0x82] @ ''   '')"

fun renderTextNode :: "string \<Rightarrow> bool \<Rightarrow> bool \<Rightarrow> DepNode \<Rightarrow> string"
and renderTextChildren :: "string \<Rightarrow> bool \<Rightarrow> DepNode list \<Rightarrow> string" where
  "renderTextNode prefix ascii isLast (DepNode nm v rq rp ck sta cs) =
     prefix @ (if isLast then corner ascii else tee ascii) @
     node_label (DepNode nm v rq rp ck sta cs) @ marker sta @ [CHR 0x0A] @
     renderTextChildren (prefix @ (if isLast then ''    '' else bar ascii)) ascii cs"
| "renderTextChildren prefix ascii [] = []"
| "renderTextChildren prefix ascii (c # cs) =
     renderTextNode prefix ascii (cs = []) c @ renderTextChildren prefix ascii cs"

definition renderDepsText :: "DepTree \<Rightarrow> bool \<Rightarrow> string" where
  "renderDepsText t ascii =
     node_label (dt_root t) @ [CHR 0x0A] @ renderTextChildren [] ascii (dn_children (dt_root t))"

subsection \<open>JSON\<close>

definition setString :: "('v, 'o) json \<Rightarrow> ('v, 'o) builder \<Rightarrow> string \<Rightarrow> string \<Rightarrow> 'o \<Rightarrow> 'o" where
  "setString J B k s ob = objSet B ob k (ofString J s)"

fun nodeJson :: "('v, 'o) json \<Rightarrow> ('v, 'o) builder \<Rightarrow> DepNode \<Rightarrow> 'v" where
  "nodeJson J B (DepNode nm v rq rp ck sta cs) =
     (let o1 = setString J B ''checksum'' ck (setString J B ''repository'' rp (setString J B ''requested'' rq
                 (setString J B ''version'' v (setString J B ''name'' nm (emptyObject B)))));
          o2 = (if sta \<noteq> Normal then setString J B ''status'' (depStatusWord sta) o1 else o1)
      in ofObject B (objSet B o2 ''dependencies'' (ofArray B (map (nodeJson J B) cs))))"

text \<open>The document; \<open>formatv("{0:2}")\<close> prints it and is the library's.\<close>

definition depsJson :: "('v, 'o) json \<Rightarrow> ('v, 'o) builder \<Rightarrow> DepTree \<Rightarrow> string \<Rightarrow> 'v" where
  "depsJson J B t manifestPath =
     (let o1 = setString J B ''manifest'' manifestPath (setString J B ''version'' (dn_version (dt_root t))
                 (setString J B ''name'' (dn_name (dt_root t)) (emptyObject B)));
          o2 = objSet B o1 ''dependencies'' (ofArray B (map (nodeJson J B) (dn_children (dt_root t))))
      in ofObject B (objSet B o2 ''cycles''
           (ofArray B (map (\<lambda>cyc. ofArray B (map (ofString J) cyc)) (dt_cycles t)))))"

definition renderDepsJson ::
    "('v, 'o) json \<Rightarrow> ('v, 'o) builder \<Rightarrow> ('v \<Rightarrow> string) \<Rightarrow> DepTree \<Rightarrow> string \<Rightarrow> string" where
  "renderDepsJson J B formatv t manifestPath = formatv (depsJson J B t manifestPath)"

subsection \<open>CSV\<close>

definition csvField :: "string \<Rightarrow> string" where
  "csvField s =
     (if \<not> (\<exists>c \<in> set s. c = CHR '','' \<or> c = CHR 0x22 \<or> c = CHR 0x0A \<or> c = CHR 0x0D) then s
      else CHR 0x22 # concat (map (\<lambda>ch. if ch = CHR 0x22 then [CHR 0x22, ch] else [ch]) s) @ [CHR 0x22])"

definition csvRow :: "string \<Rightarrow> nat \<Rightarrow> DepNode \<Rightarrow> string" where
  "csvRow parent d c =
     csvField parent @ '','' @ csvField (dn_name c) @ '','' @ csvField (dn_version c) @ '','' @
     csvField (dn_requested c) @ '','' @ csvField (dn_repository c) @ '','' @ csvField (dn_checksum c) @ '','' @
     show_nat d @ '','' @ depStatusWord (dn_status c) @ [CHR 0x0A]"

fun renderCsvRows :: "string \<Rightarrow> nat \<Rightarrow> DepNode list \<Rightarrow> string"
and renderCsvNode :: "string \<Rightarrow> nat \<Rightarrow> DepNode \<Rightarrow> string" where
  "renderCsvRows parent d [] = []"
| "renderCsvRows parent d (c # cs) = renderCsvNode parent d c @ renderCsvRows parent d cs"
| "renderCsvNode parent d (DepNode nm v rq rp ck sta cs) =
     csvRow parent d (DepNode nm v rq rp ck sta cs) @ renderCsvRows nm (d + 1) cs"

definition csv_header :: string where
  "csv_header = ''parent,name,version,requested,repository,checksum,depth,status'' @ [CHR 0x0A]"

definition renderDepsCsv :: "DepTree \<Rightarrow> string" where
  "renderDepsCsv t = csv_header @ renderCsvRows (dn_name (dt_root t)) 1 (dn_children (dt_root t))"


subsection \<open>The CSV reads back\<close>

text \<open>A reader of RFC 4180: a quoted field ends at a quote that is not doubled, another field
  at a comma or an end of line; a record is a given number of fields and a newline.\<close>

fun csv_quoted :: "string \<Rightarrow> (string \<times> string) option" where
  "csv_quoted [] = None"
| "csv_quoted (c # cs) =
     (if c = CHR 0x22 then
        (case cs of
           d # ds \<Rightarrow>
             if d = CHR 0x22 then map_option (\<lambda>(f, r). (CHR 0x22 # f, r)) (csv_quoted ds) else Some ([], cs)
         | [] \<Rightarrow> Some ([], []))
      else map_option (\<lambda>(f, r). (c # f, r)) (csv_quoted cs))"

definition csv_special :: "char \<Rightarrow> bool" where
  "csv_special c \<longleftrightarrow> c = CHR '','' \<or> c = CHR 0x22 \<or> c = CHR 0x0A \<or> c = CHR 0x0D"

definition csv_read_field :: "string \<Rightarrow> (string \<times> string) option" where
  "csv_read_field s =
     (case s of
        c # cs \<Rightarrow> if c = CHR 0x22 then csv_quoted cs
                  else Some (takeWhile (\<lambda>c. \<not> csv_special c) s, dropWhile (\<lambda>c. \<not> csv_special c) s)
      | [] \<Rightarrow> Some ([], []))"

fun csv_read_row :: "nat \<Rightarrow> string \<Rightarrow> (string list \<times> string) option" where
  "csv_read_row 0 s = None"
| "csv_read_row (Suc n) s =
     Option.bind (csv_read_field s) (\<lambda>(f, r).
       case r of
         [] \<Rightarrow> None
       | c # cs \<Rightarrow>
           if n = 0 \<and> c = CHR 0x0A then Some ([f], cs)
           else if n > 0 \<and> c = CHR '','' then map_option (\<lambda>(fs, r). (f # fs, r)) (csv_read_row n cs)
           else None)"

lemma csv_quoted_escaped:
  assumes "rest = [] \<or> hd rest \<noteq> CHR 0x22"
  shows "csv_quoted (concat (map (\<lambda>ch. if ch = CHR 0x22 then [CHR 0x22, ch] else [ch]) s) @ CHR 0x22 # rest) =
    Some (s, rest)"
proof (induction s)
  case Nil
  then show ?case using assms by (cases rest) simp_all
qed simp

lemma csv_read_csvField:
  assumes "c = CHR '','' \<or> c = CHR 0x0A"
  shows "csv_read_field (csvField s @ c # rest) = Some (s, c # rest)"
proof (cases "\<exists>d \<in> set s. csv_special d")
  case True
  then have "csvField s = CHR 0x22 # concat (map (\<lambda>ch. if ch = CHR 0x22 then [CHR 0x22, ch] else [ch]) s) @ [CHR 0x22]"
    by (simp add: csvField_def csv_special_def)
  then show ?thesis using csv_quoted_escaped [of "c # rest" s] assms by (auto simp: csv_read_field_def)
next
  case False
  then have "csvField s = s" by (simp add: csvField_def csv_special_def)
  moreover have "csv_special c" using assms by (auto simp: csv_special_def)
  moreover have "c \<noteq> CHR 0x22" using assms by auto
  moreover have "hd (s @ [c]) \<noteq> CHR 0x22" using False assms by (cases s) (auto simp: csv_special_def)
  ultimately show ?thesis using False
    by (cases s) (auto simp: csv_read_field_def takeWhile_append dropWhile_append split: if_splits)
qed

lemma csv_plain: "\<forall>c \<in> set s. \<not> csv_special c \<Longrightarrow> csvField s = s"
  by (auto simp: csvField_def csv_special_def)

lemma show_nat_plain: "\<forall>c \<in> set (show_nat n). \<not> csv_special c"
proof (induction n rule: show_nat.induct)
  case (1 n)
  have "\<not> csv_special (char_of (48 + k :: nat))" if "k < 10" for k
  proof -
    have "k \<in> {0, 1, 2, 3, 4, 5, 6, 7, 8, 9}" using that by auto
    then show ?thesis by (auto simp: csv_special_def char_of_def)
  qed
  with 1 show ?case by (subst show_nat.simps) auto
qed

text \<open>A row of the CSV reads back as its eight fields, whatever commas, quotes and line ends the
  names, constraints and repositories contain.\<close>

theorem csv_row_roundtrip:
  "csv_read_row 8 (csvRow parent d c @ rest) =
     Some ([parent, dn_name c, dn_version c, dn_requested c, dn_repository c, dn_checksum c,
            show_nat d, depStatusWord (dn_status c)], rest)"
proof -
  have n: "csvField (show_nat d) = show_nat d" by (rule csv_plain [OF show_nat_plain])
  have w: "csvField (depStatusWord (dn_status c)) = depStatusWord (dn_status c)"
    by (cases "dn_status c") (simp_all add: csvField_def depStatusWord_def)
  have r: "csvRow parent d c @ rest = csvField parent @ CHR '','' # csvField (dn_name c) @ CHR '','' #
      csvField (dn_version c) @ CHR '','' # csvField (dn_requested c) @ CHR '','' # csvField (dn_repository c) @
      CHR '','' # csvField (dn_checksum c) @ CHR '','' # csvField (show_nat d) @ CHR '','' #
      csvField (depStatusWord (dn_status c)) @ CHR 0x0A # rest"
    by (simp add: csvRow_def n w)
  show ?thesis unfolding r by (simp add: eval_nat_numeral csv_read_csvField)
qed


subsection \<open>The walk returns\<close>

lemma visit_Nil [simp]: "visit g opt path level [] w = Some ([], w)"
  by (simp add: visit.simps)

lemma visit_returns:
  assumes "finite (dom (children g))"
  shows "visit g opt path level specs w \<noteq> None"
proof (induction "card (dom (children g) - set path)" arbitrary: path level specs w rule: less_induct)
  case less
  show ?case
  proof (induction specs arbitrary: w)
    case (Cons spec rest)
    show ?case
    proof (cases "classify g opt path level (ds_name spec) w")
      case (Leaf sta w1)
      then show ?thesis using Cons.IH [of w1]
        by (auto simp: visit.simps [of g opt path level "spec # rest"] split: Option.bind_splits)
    next
      case (Descend ks)
      let ?w = "w\<lparr>expanded := insert (ds_name spec) (expanded w)\<rparr>"
      have "visit g opt (path @ [ds_name spec]) (level + 1) (sorted_kids ks) ?w \<noteq> None"
      proof (cases "ks = []")
        case True
        then show ?thesis by (simp add: sorted_kids_def)
      next
        case False
        with Descend have "ds_name spec \<in> dom (children g)" "ds_name spec \<notin> set path"
          by (auto simp: classify_def kids_of_def split: if_splits option.splits)
        then have "dom (children g) - set (path @ [ds_name spec]) \<subset> dom (children g) - set path" by auto
        then have "card (dom (children g) - set (path @ [ds_name spec])) < card (dom (children g) - set path)"
          using assms by (intro psubset_card_mono) auto
        then show ?thesis by (rule less)
      qed
      then obtain k where k: "visit g opt (path @ [ds_name spec]) (level + 1) (sorted_kids ks) ?w = Some k" by blast
      then show ?thesis using Cons.IH [of "snd k"] Descend
        by (auto simp: visit.simps [of g opt path level "spec # rest"] split: Option.bind_splits)
    qed
  qed simp
qed

text \<open>The walk ends, however cyclic the graph is.\<close>

theorem buildDependencyTree_returns:
  assumes "finite (dom (children g))"
  shows "\<exists>t. buildDependencyTree rootName rootVersion g opt = Some t"
proof -
  obtain r where "visit g opt [rootName] 0 (sorted_kids (roots g)) \<lparr>expanded = {}, cycles = [], cycleKeys = {}\<rparr> = Some r"
    using visit_returns [OF assms] by blast
  then show ?thesis by (simp add: buildDependencyTree_def Let_def)
qed

subsection \<open>The depth limit\<close>

fun node_within :: "nat \<Rightarrow> DepNode \<Rightarrow> bool" where
  "node_within 0 n = False"
| "node_within (Suc d) n = list_all (node_within d) (dn_children n)"

lemma dn_make_node [simp]:
  "dn_children (make_node g spec sta kids) = kids" "dn_name (make_node g spec sta kids) = ds_name spec"
  "dn_status (make_node g spec sta kids) = sta"
  by (simp_all add: make_node_def split: option.splits)

text \<open>The cases of a returned walk.\<close>

lemma visit_Cons_cases:
  assumes "visit g opt path level (spec # rest) w = Some (ns, w')"
  obtains (leaf) sta w1 rs where "classify g opt path level (ds_name spec) w = Leaf sta w1"
      "visit g opt path level rest w1 = Some (rs, w')" "ns = make_node g spec sta [] # rs"
  | (enter) gk ks w1 rs where "classify g opt path level (ds_name spec) w = Descend gk"
      "visit g opt (path @ [ds_name spec]) (level + 1) (sorted_kids gk)
         (w\<lparr>expanded := insert (ds_name spec) (expanded w)\<rparr>) = Some (ks, w1)"
      "visit g opt path level rest w1 = Some (rs, w')" "ns = make_node g spec Normal ks # rs"
proof (cases "classify g opt path level (ds_name spec) w")
  case (Leaf sta w1)
  with assms obtain r where "visit g opt path level rest w1 = Some r"
      "ns = make_node g spec sta [] # fst r" "w' = snd r"
    by (auto simp: visit.simps [of g opt path level "spec # rest"] split: Option.bind_splits)
  then show thesis using leaf [OF Leaf, of "fst r"] by simp
next
  case (Descend gk)
  with assms obtain k r where "visit g opt (path @ [ds_name spec]) (level + 1) (sorted_kids gk)
         (w\<lparr>expanded := insert (ds_name spec) (expanded w)\<rparr>) = Some k"
      "visit g opt path level rest (snd k) = Some r" "ns = make_node g spec Normal (fst k) # fst r" "w' = snd r"
    by (auto simp: visit.simps [of g opt path level "spec # rest"] split: Option.bind_splits)
  then show thesis using enter [OF Descend, of "fst k" "snd k" "fst r"] by simp
qed

lemma visit_induct [consumes 1, case_names Nil Leaf Enter]:
  assumes "visit g opt path level specs w = Some (ns, w')"
    and nil: "\<And>path level w. P path level [] w [] w"
    and leaf: "\<And>path level spec rest w sta w1 rs w'.
      classify g opt path level (ds_name spec) w = Leaf sta w1 \<Longrightarrow> P path level rest w1 rs w' \<Longrightarrow>
      P path level (spec # rest) w (make_node g spec sta [] # rs) w'"
    and enter: "\<And>path level spec rest w gk ks w1 rs w'.
      classify g opt path level (ds_name spec) w = Descend gk \<Longrightarrow>
      P (path @ [ds_name spec]) (level + 1) (sorted_kids gk)
        (w\<lparr>expanded := insert (ds_name spec) (expanded w)\<rparr>) ks w1 \<Longrightarrow>
      P path level rest w1 rs w' \<Longrightarrow>
      P path level (spec # rest) w (make_node g spec Normal ks # rs) w'"
  shows "P path level specs w ns w'"
proof -
  have "P path level specs w (fst r) (snd r)" if "visit g' opt' path level specs w = Some r" "g' = g \<and> opt' = opt"
    for g' opt' path level specs w r
    using that
  proof (induction rule: visit.raw_induct [rotated, consumes 1, case_names step])
    case (step V g' opt' path level specs w r)
    then have eq: "g' = g" "opt' = opt" by auto
    note IH = step(1) [OF _ step(3)]
    show ?case
    proof (cases specs)
      case Nil
      with step(2) have "r = ([], w)" by simp
      then show ?thesis using Nil nil by simp
    next
      case (Cons spec rest)
      show ?thesis
      proof (cases "classify g opt path level (ds_name spec) w")
        case (Leaf sta w1)
        with step(2) Cons eq obtain r1 where r1: "V g opt path level rest w1 = Some r1"
          and r: "r = (make_node g spec sta [] # fst r1, snd r1)"
          by (auto split: Option.bind_splits)
        have "P path level rest w1 (fst r1) (snd r1)" using IH r1 eq by simp
        from leaf [OF Leaf this] show ?thesis by (simp add: Cons r)
      next
        case (Descend gk)
        with step(2) Cons eq obtain k r1 where k: "V g opt (path @ [ds_name spec]) (level + 1) (sorted_kids gk)
              (w\<lparr>expanded := insert (ds_name spec) (expanded w)\<rparr>) = Some k"
          and r1: "V g opt path level rest (snd k) = Some r1"
          and r: "r = (make_node g spec Normal (fst k) # fst r1, snd r1)"
          by (auto split: Option.bind_splits)
        have "P (path @ [ds_name spec]) (level + 1) (sorted_kids gk)
            (w\<lparr>expanded := insert (ds_name spec) (expanded w)\<rparr>) (fst k) (snd k)"
          and "P path level rest (snd k) (fst r1) (snd r1)"
          using IH k r1 eq by simp_all
        from enter [OF Descend this] show ?thesis by (simp add: Cons r)
      qed
    qed
  qed
  from this [OF assms(1)] show ?thesis by simp
qed

lemma visit_depth:
  assumes "visit g opt path level specs w = Some (ns, w')" and "depth opt \<ge> 0" "level + 1 \<le> depth opt" "level \<ge> 0"
  shows "list_all (node_within (nat (depth opt - level))) ns"
  using assms
proof (induction rule: visit_induct)
  case (Leaf path level spec rest w sta w1 rs w')
  then have "nat (depth opt - level) = Suc (nat (depth opt - level - 1))" by simp
  with Leaf show ?case by simp
next
  case (Enter path level spec rest w gk ks w1 rs w')
  have "level + 2 \<le> depth opt" using Enter(1,4) by (auto simp: classify_def split: if_splits)
  with Enter have "list_all (node_within (nat (depth opt - (level + 1)))) ks" by simp
  moreover have "nat (depth opt - level) = Suc (nat (depth opt - (level + 1)))" using \<open>level + 2 \<le> depth opt\<close> by simp
  ultimately show ?case using Enter by simp
qed simp

text \<open>C34: A depth limit is respected: no node of the tree is deeper below the root.\<close>

theorem tree_depth_bounded:
  assumes "buildDependencyTree rootName rootVersion g opt = Some t" and "depth opt \<ge> 0"
  shows "node_within (nat (depth opt) + 1) (dt_root t)"
proof (cases "depth opt = 0")
  case True
  with assms show ?thesis by (auto simp: buildDependencyTree_def Let_def)
next
  case False
  with assms obtain ns w where v: "visit g opt [rootName] 0 (sorted_kids (roots g))
        \<lparr>expanded = {}, cycles = [], cycleKeys = {}\<rparr> = Some (ns, w)"
      and t: "dn_children (dt_root t) = ns"
    by (auto simp: buildDependencyTree_def Let_def split: Option.bind_splits)
  from visit_depth [OF v assms(2)] False assms(2) t show ?thesis by simp
qed


subsection \<open>The cycles\<close>

text \<open>The dependencies that the walk follows: those of the root, and those of a package whose
  manifest was read.\<close>

definition dep_edges :: "string \<Rightarrow> ResolvedGraph \<Rightarrow> (string \<times> string) set" where
  "dep_edges rootName g =
     {(a, b). b \<in> ds_name ` set (if a = rootName then roots g else if a \<in> opaque g then [] else kids_of g a)}"

definition cycle_ok :: "string \<Rightarrow> ResolvedGraph \<Rightarrow> string list \<Rightarrow> bool" where
  "cycle_ok rootName g cyc \<longleftrightarrow>
     (\<exists>n body. cyc = n # body @ [n] \<and> distinct (n # body) \<and> (rootName, n) \<in> (dep_edges rootName g)\<^sup>* \<and>
        successively (\<lambda>a b. (a, b) \<in> dep_edges rootName g) cyc)"

definition walk_path :: "string \<Rightarrow> ResolvedGraph \<Rightarrow> string list \<Rightarrow> bool" where
  "walk_path rootName g path \<longleftrightarrow>
     path \<noteq> [] \<and> hd path = rootName \<and> distinct path \<and> successively (\<lambda>a b. (a, b) \<in> dep_edges rootName g) path"

lemma successively_rtrancl:
  "successively (\<lambda>a b. (a, b) \<in> R) (x # xs) \<Longrightarrow> y \<in> set (x # xs) \<Longrightarrow> (x, y) \<in> R\<^sup>*"
proof (induction xs arbitrary: x)
  case (Cons z zs)
  then show ?case by (auto intro: converse_rtrancl_into_rtrancl)
qed simp

lemma walk_path_reach:
  assumes "walk_path rootName g path" "y \<in> set path"
  shows "(rootName, y) \<in> (dep_edges rootName g)\<^sup>*"
proof (cases path)
  case (Cons x xs)
  with assms successively_rtrancl [of "dep_edges rootName g" x xs y] show ?thesis
    by (auto simp: walk_path_def)
qed (use assms in simp)

lemma walk_path_snoc:
  assumes "walk_path rootName g path" "(last path, n) \<in> dep_edges rootName g" "n \<notin> set path"
  shows "walk_path rootName g (path @ [n])"
  using assms by (auto simp: walk_path_def successively_append_iff)

lemma closing_path_ok:
  assumes p: "walk_path rootName g path" and e: "(last path, n) \<in> dep_edges rootName g" and n: "n \<in> set path"
  shows "cycle_ok rootName g (closing_path path n)"
proof -
  from closing_cycle [of "dep_edges rootName g" path n] p e n obtain body where
    "dropWhile (\<lambda>m. m \<noteq> n) path = n # body" "distinct (n # body)"
    "successively (\<lambda>a b. (a, b) \<in> dep_edges rootName g) (n # body @ [n])"
    by (auto simp: walk_path_def)
  then show ?thesis using walk_path_reach [OF p n] by (auto simp: cycle_ok_def closing_path_def)
qed

lemma recordCycle_cycles: "set (cycles (recordCycle path n w)) \<subseteq> insert (closing_path path n) (set (cycles w))"
  by (auto simp: recordCycle_def Let_def)

lemma classify_Leaf_cycles:
  assumes "classify g opt path level n w = Leaf sta w1" "walk_path rootName g path"
    and "(last path, n) \<in> dep_edges rootName g" "\<forall>cyc \<in> set (cycles w). cycle_ok rootName g cyc"
  shows "\<forall>cyc \<in> set (cycles w1). cycle_ok rootName g cyc"
  using assms closing_path_ok [OF assms(2,3)] recordCycle_cycles [of path n w]
  by (auto simp: classify_def split: if_splits)

lemma visit_cycles_ok:
  assumes "visit g opt path level specs w = Some (ns, w')" and "walk_path rootName g path"
    and "\<And>spec. spec \<in> set specs \<Longrightarrow> (last path, ds_name spec) \<in> dep_edges rootName g"
    and "\<forall>cyc \<in> set (cycles w). cycle_ok rootName g cyc"
  shows "\<forall>cyc \<in> set (cycles w'). cycle_ok rootName g cyc"
  using assms
proof (induction rule: visit_induct)
  case (Leaf path level spec rest w sta w1 rs w')
  then show ?case using classify_Leaf_cycles [OF Leaf(1) Leaf(3)] by simp
next
  case (Enter path level spec rest w gk ks w1 rs w')
  let ?n = "ds_name spec"
  have n: "?n \<notin> set path" "?n \<notin> opaque g" "gk = kids_of g ?n"
    using Enter(1) by (auto simp: classify_def split: if_splits)
  have "hd path \<in> set path" "hd path = rootName" using Enter(4) by (auto simp: walk_path_def)
  then have "?n \<noteq> rootName" using n(1) by auto
  then have "(?n, ds_name s) \<in> dep_edges rootName g" if "s \<in> set (sorted_kids gk)" for s
    using that n by (auto simp: dep_edges_def sorted_kids_def)
  moreover have "walk_path rootName g (path @ [?n])"
    by (rule walk_path_snoc [OF Enter(4) _ n(1)]) (use Enter(5) in simp)
  ultimately have "\<forall>cyc \<in> set (cycles w1). cycle_ok rootName g cyc" using Enter(2,6) by simp
  then show ?case using Enter(3-5) by simp
qed simp

lemma visit_root:
  assumes "buildDependencyTree rootName v g opt = Some t" "\<not> (depth opt \<ge> 0 \<and> 1 > depth opt)"
  obtains ns w where "visit g opt [rootName] 0 (sorted_kids (roots g))
        \<lparr>expanded = {}, cycles = [], cycleKeys = {}\<rparr> = Some (ns, w)" "dt_cycles t = cycles w"
  using assms by (auto simp: buildDependencyTree_def Let_def split: Option.bind_splits)

lemma dep_edges_root: "spec \<in> set (sorted_kids (roots g)) \<Longrightarrow> (rootName, ds_name spec) \<in> dep_edges rootName g"
  by (simp add: dep_edges_def sorted_kids_def)

text \<open>Every reported cycle is one: it starts and ends with the same name, repeats no other, follows
  declared dependencies, and is reached from the root.\<close>

theorem reported_cycles_are_real:
  assumes "buildDependencyTree rootName v g opt = Some t"
  shows "\<forall>cyc \<in> set (dt_cycles t). cycle_ok rootName g cyc"
proof (cases "depth opt \<ge> 0 \<and> 1 > depth opt")
  case True
  with assms show ?thesis by (auto simp: buildDependencyTree_def Let_def)
next
  case False
  from visit_root [OF assms this] obtain ns w where
    v: "visit g opt [rootName] 0 (sorted_kids (roots g)) \<lparr>expanded = {}, cycles = [], cycleKeys = {}\<rparr> = Some (ns, w)"
    and c: "dt_cycles t = cycles w" .
  have "walk_path rootName g [rootName]" by (simp add: walk_path_def)
  from visit_cycles_ok [OF v this] dep_edges_root c show ?thesis by simp
qed

subsection \<open>No cycle is missed\<close>

text \<open>What the walk keeps while it has reported nothing: the names \<open>fin\<close> it has left, in that
  order, depend on names before them and on packages without a manifest only.\<close>

definition leaf_name :: "string \<Rightarrow> ResolvedGraph \<Rightarrow> string \<Rightarrow> bool" where
  "leaf_name rootName g b \<longleftrightarrow> b \<in> opaque g \<and> b \<noteq> rootName"

definition left_inv :: "string \<Rightarrow> ResolvedGraph \<Rightarrow> string list \<Rightarrow> walk \<Rightarrow> string list \<Rightarrow> bool" where
  "left_inv rootName g path w fin \<longleftrightarrow>
     set fin \<union> set path = insert rootName (expanded w) \<and> set fin \<inter> set path = {} \<and> distinct fin \<and>
     (\<forall>k < length fin. \<forall>b. (fin ! k, b) \<in> dep_edges rootName g \<longrightarrow> b \<in> set (take k fin) \<or> leaf_name rootName g b)"

definition keys_inv :: "walk \<Rightarrow> bool" where
  "keys_inv w \<longleftrightarrow> cycleKeys w = formatCycle ` set (cycles w)"

lemma recordCycle_keys: "keys_inv w \<Longrightarrow> keys_inv (recordCycle path n w) \<and> cycles (recordCycle path n w) \<noteq> []"
  by (auto simp: keys_inv_def recordCycle_def Let_def)

lemma recordCycle_mono: "\<exists>new. cycles (recordCycle path n w) = cycles w @ new"
  by (auto simp: recordCycle_def Let_def)

lemma leaf_no_edge: "leaf_name rootName g b \<Longrightarrow> (b, c) \<notin> dep_edges rootName g"
  by (simp add: dep_edges_def leaf_name_def)

lemma leaf_no_trancl: "leaf_name rootName g b \<Longrightarrow> (b, c) \<notin> (dep_edges rootName g)\<^sup>+"
  using leaf_no_edge by (meson tranclD)

lemma left_inv_done:
  assumes "left_inv rootName g (path @ [n]) w fin" and "n \<noteq> rootName" "n \<notin> opaque g" "distinct (path @ [n])"
    and "\<And>spec. spec \<in> set (kids_of g n) \<Longrightarrow> ds_name spec \<in> set fin \<or> leaf_name rootName g (ds_name spec)"
  shows "left_inv rootName g path w (fin @ [n])"
proof -
  have edge: "b \<in> set fin \<or> leaf_name rootName g b" if "(n, b) \<in> dep_edges rootName g" for b
    using that assms(2,3,5) by (auto simp: dep_edges_def)
  have "b \<in> set (take k (fin @ [n])) \<or> leaf_name rootName g b"
    if "k < length (fin @ [n])" "((fin @ [n]) ! k, b) \<in> dep_edges rootName g" for k b
    using that assms(1) edge by (cases "k < length fin") (auto simp: left_inv_def nth_append)
  moreover have "n \<notin> set fin" "set (fin @ [n]) \<inter> set path = {}" "set (fin @ [n]) \<union> set path = insert rootName (expanded w)"
    using assms(1,4) by (auto simp: left_inv_def)
  ultimately show ?thesis using assms(1) by (auto simp: left_inv_def)
qed

lemma classify_keys:
  assumes "classify g opt path level n w = Leaf sta w1"
  shows "(keys_inv w \<longrightarrow> keys_inv w1) \<and> (cycles w1 = [] \<longrightarrow> cycles w = []) \<and> expanded w1 = expanded w \<and>
    (n \<in> set path \<longrightarrow> keys_inv w \<longrightarrow> cycles w1 \<noteq> [])"
proof (cases "n \<in> set path")
  case True
  with assms have "w1 = recordCycle path n w" by (simp add: classify_def)
  moreover have "expanded (recordCycle path n w) = expanded w" by (simp add: recordCycle_def Let_def)
  ultimately show ?thesis
    using recordCycle_keys [of w path n] recordCycle_mono [of path n w] by auto
next
  case False
  with assms have "w1 = w" by (auto simp: classify_def split: if_splits)
  with False show ?thesis by simp
qed

definition left_post :: "string \<Rightarrow> ResolvedGraph \<Rightarrow> string list \<Rightarrow> DependencySpec list \<Rightarrow> string list \<Rightarrow> walk \<Rightarrow> bool" where
  "left_post rootName g path specs fin w' \<longleftrightarrow>
     (\<exists>new. left_inv rootName g path w' (fin @ new) \<and>
       (\<forall>spec \<in> set specs. ds_name spec \<in> set (fin @ new) \<or> leaf_name rootName g (ds_name spec)))"

lemma left_postI:
  assumes "left_post rootName g path rest (fin @ new) w'"
    and "ds_name spec \<in> set (fin @ new) \<or> leaf_name rootName g (ds_name spec)"
  shows "left_post rootName g path (spec # rest) fin w'"
proof -
  from assms(1) obtain new' where "left_inv rootName g path w' (fin @ new @ new')"
      "\<forall>spec \<in> set rest. ds_name spec \<in> set (fin @ new @ new') \<or> leaf_name rootName g (ds_name spec)"
    by (auto simp: left_post_def)
  then show ?thesis using assms(2) unfolding left_post_def by (intro exI [of _ "new @ new'"]) auto
qed

lemma visit_left:
  assumes "visit g opt path level specs w = Some (ns, w')" and "dedupe opt" "depth opt < 0"
  shows "(keys_inv w \<longrightarrow> keys_inv w') \<and> (cycles w' = [] \<longrightarrow> cycles w = []) \<and>
    (\<forall>fin. keys_inv w \<longrightarrow> distinct path \<longrightarrow> rootName \<in> set path \<longrightarrow> left_inv rootName g path w fin \<longrightarrow>
       cycles w' = [] \<longrightarrow> left_post rootName g path specs fin w')"
  using assms(1)
proof (induction rule: visit_induct)
  case (Nil path level w)
  then show ?case by (auto simp: left_post_def intro: exI [of _ "[]"])
next
  case (Leaf path level spec rest w sta w1 rs w')
  let ?n = "ds_name spec"
  note k = classify_keys [OF Leaf(1)]
  have "left_post rootName g path (spec # rest) fin w'"
    if a: "keys_inv w" "distinct path" "rootName \<in> set path" "left_inv rootName g path w fin" "cycles w' = []" for fin
  proof -
    have np: "?n \<notin> set path" using k Leaf(2) a by auto
    have "left_inv rootName g path w1 fin" using a(4) k by (simp add: left_inv_def)
    then have "left_post rootName g path rest (fin @ []) w'" using Leaf(2) a k by simp
    moreover have "?n \<in> set fin \<or> leaf_name rootName g ?n"
    proof (cases "?n \<in> expanded w")
      case True
      then show ?thesis using np a(4) by (auto simp: left_inv_def)
    next
      case False
      then have "?n \<in> opaque g" using Leaf(1) np assms(3) by (auto simp: classify_def split: if_splits)
      then show ?thesis using np a(3) by (auto simp: leaf_name_def)
    qed
    ultimately show ?thesis by (intro left_postI [where new = "[]"]) simp_all
  qed
  moreover have "keys_inv w \<longrightarrow> keys_inv w'" "cycles w' = [] \<longrightarrow> cycles w = []"
    using conjunct1 [OF Leaf(2)] conjunct1 [OF conjunct2 [OF Leaf(2)]] k by simp_all
  ultimately show ?case by blast
next
  case (Enter path level spec rest w gk ks w1 rs w')
  let ?n = "ds_name spec" and ?w = "w\<lparr>expanded := insert (ds_name spec) (expanded w)\<rparr>"
  have c: "?n \<notin> set path" "?n \<notin> expanded w" "?n \<notin> opaque g" "gk = kids_of g ?n"
    using Enter(1) assms(2) by (auto simp: classify_def split: if_splits)
  have kw: "keys_inv ?w = keys_inv w" "cycles ?w = cycles w" by (simp_all add: keys_inv_def)
  have "left_post rootName g path (spec # rest) fin w'"
    if a: "keys_inv w" "distinct path" "rootName \<in> set path" "left_inv rootName g path w fin" "cycles w' = []" for fin
  proof -
    have w1: "keys_inv w1" "cycles w1 = []" using Enter(2,3) a kw by auto
    have "?n \<notin> set fin" using a(3,4) c(1,2) by (auto simp: left_inv_def)
    then have "left_inv rootName g (path @ [?n]) ?w fin" using a(4) c(1) by (auto simp: left_inv_def)
    then have "left_post rootName g (path @ [?n]) (sorted_kids gk) fin w1"
      using Enter(2) a(1-3) c(1) kw w1 by simp
    then obtain new where l: "left_inv rootName g (path @ [?n]) w1 (fin @ new)"
      and kids: "\<forall>s \<in> set (sorted_kids gk). ds_name s \<in> set (fin @ new) \<or> leaf_name rootName g (ds_name s)"
      by (auto simp: left_post_def)
    have "left_inv rootName g path w1 ((fin @ new) @ [?n])"
      by (rule left_inv_done [OF l _ c(3)]) (use a(2,3) c kids in \<open>auto simp: sorted_kids_def\<close>)
    then have "left_post rootName g path rest (fin @ (new @ [?n])) w'"
      using Enter(3) a(2,3,5) w1 by simp
    then show ?thesis by (rule left_postI) simp
  qed
  moreover have "keys_inv w \<longrightarrow> keys_inv w'" "cycles w' = [] \<longrightarrow> cycles w = []"
    using conjunct1 [OF Enter(2)] conjunct1 [OF Enter(3)] conjunct1 [OF conjunct2 [OF Enter(2)]]
      conjunct1 [OF conjunct2 [OF Enter(3)]] kw by simp_all
  ultimately show ?case by blast
qed

lemma left_inv_trancl:
  assumes "left_inv rootName g path w fin" "(a, b) \<in> (dep_edges rootName g)\<^sup>+"
    and "k < length fin" "fin ! k = a"
  shows "b \<in> set (take k fin) \<or> leaf_name rootName g b"
  using assms(2)
proof (induction rule: trancl_induct)
  case (base b)
  then show ?case using assms by (auto simp: left_inv_def)
next
  case (step b c)
  have "\<not> leaf_name rootName g b"
    using step(2) leaf_no_edge by blast
  with step obtain l where l: "l < k" "fin ! l = b" using assms(3) by (auto simp: in_set_conv_nth)
  then have "c \<in> set (take l fin) \<or> leaf_name rootName g c"
    using assms(1,3) step(2) by (auto simp: left_inv_def)
  then show ?case using l set_take_subset_set_take [of l k fin] by auto
qed

text \<open>C33: The detection of cycles is exact for the packages that are reached from the root: none is
  reported if and only if none of them depends on itself through the manifests that were read.
  Packages that a re-pick left in the resolution and that nothing reaches any more are not looked
  at.\<close>

theorem cycles_found_iff:
  assumes "findDependencyCycles rootName g = Some cs"
  shows "cs = [] \<longleftrightarrow>
    (\<forall>x. (rootName, x) \<in> (dep_edges rootName g)\<^sup>* \<longrightarrow> (x, x) \<notin> (dep_edges rootName g)\<^sup>+)"
proof -
  let ?E = "dep_edges rootName g"
  from assms obtain t where t: "buildDependencyTree rootName [] g default_options = Some t" "cs = dt_cycles t"
    by (auto simp: findDependencyCycles_def)
  have nd: "\<not> (depth default_options \<ge> 0 \<and> 1 > depth default_options)" "dedupe default_options" "depth default_options < 0"
    by (simp_all add: default_options_def)
  let ?w0 = "\<lparr>expanded = {}, cycles = [], cycleKeys = {}\<rparr>"
  from visit_root [OF t(1) nd(1)] obtain ns w where
    v: "visit g default_options [rootName] 0 (sorted_kids (roots g)) ?w0 = Some (ns, w)"
    and c: "cs = cycles w" using t(2) by metis
  show ?thesis
  proof
    assume "cs = []"
    have "keys_inv ?w0" "left_inv rootName g [rootName] ?w0 []" by (simp_all add: keys_inv_def left_inv_def)
    with visit_left [OF v nd(2,3), of rootName] \<open>cs = []\<close> c
    have "left_post rootName g [rootName] (sorted_kids (roots g)) [] w" by simp
    then obtain fin where l: "left_inv rootName g [rootName] w fin"
      and kids: "\<forall>s \<in> set (sorted_kids (roots g)). ds_name s \<in> set fin \<or> leaf_name rootName g (ds_name s)"
      by (auto simp: left_post_def)
    have reach: "x = rootName \<or> x \<in> set fin \<or> leaf_name rootName g x" if "(rootName, x) \<in> ?E\<^sup>*" for x
      using that
    proof (induction rule: rtrancl_induct)
      case (step y z)
      consider "y = rootName" | "y \<in> set fin" | "leaf_name rootName g y" using step(3) by blast
      then show ?case
      proof cases
        case 1
        then show ?thesis using step(2) kids by (auto simp: dep_edges_def sorted_kids_def)
      next
        case 2
        then obtain k where "k < length fin" "fin ! k = y" by (auto simp: in_set_conv_nth)
        then have "z \<in> set (take k fin) \<or> leaf_name rootName g z" using l step(2) by (auto simp: left_inv_def)
        then show ?thesis by (auto dest: in_set_takeD)
      next
        case 3
        then show ?thesis using step(2) leaf_no_edge by blast
      qed
    qed simp
    have notroot: "rootName \<notin> set fin" using l by (auto simp: left_inv_def)
    have fin_free: "(x, x) \<notin> ?E\<^sup>+" if "x \<in> set fin" for x
    proof
      assume x: "(x, x) \<in> ?E\<^sup>+"
      from that obtain k where k: "k < length fin" "fin ! k = x" by (auto simp: in_set_conv_nth)
      from left_inv_trancl [OF l x k] consider "x \<in> set (take k fin)" | "leaf_name rootName g x" by blast
      then show False
      proof cases
        case 1
        then obtain j where "j < k" "fin ! j = x" using k by (auto simp: in_set_conv_nth)
        then show False using k l nth_eq_iff_index_eq [of fin j k] by (auto simp: left_inv_def)
      next
        case 2
        then show False using x leaf_no_trancl by blast
      qed
    qed
    show "\<forall>x. (rootName, x) \<in> ?E\<^sup>* \<longrightarrow> (x, x) \<notin> ?E\<^sup>+"
    proof (intro allI impI notI)
      fix x assume r: "(rootName, x) \<in> ?E\<^sup>*" and x: "(x, x) \<in> ?E\<^sup>+"
      from reach [OF r] fin_free x consider "x = rootName" | "leaf_name rootName g x" by blast
      then show False
      proof cases
        case 1
        with x obtain y where y: "(rootName, y) \<in> ?E" "(y, rootName) \<in> ?E\<^sup>*" by (auto dest: tranclD)
        then have "ds_name ` set (roots g) \<noteq> {}" and yk: "y \<in> set fin \<or> leaf_name rootName g y"
          using kids by (auto simp: dep_edges_def sorted_kids_def)
        from yk show False
        proof
          assume "y \<in> set fin"
          then obtain k where k: "k < length fin" "fin ! k = y" by (auto simp: in_set_conv_nth)
          have "y \<noteq> rootName" using \<open>y \<in> set fin\<close> notroot by auto
          then have "(y, rootName) \<in> ?E\<^sup>+" using y(2) by (simp add: rtrancl_eq_or_trancl)
          from left_inv_trancl [OF l this k] notroot show False by (auto simp: leaf_name_def dest: in_set_takeD)
        next
          assume lf: "leaf_name rootName g y"
          then have "y \<noteq> rootName" by (simp add: leaf_name_def)
          then have "(y, rootName) \<in> ?E\<^sup>+" using y(2) by (simp add: rtrancl_eq_or_trancl)
          then show False using lf leaf_no_trancl by blast
        qed
      next
        case 2
        then show False using x leaf_no_trancl by blast
      qed
    qed
  next
    assume free: "\<forall>x. (rootName, x) \<in> ?E\<^sup>* \<longrightarrow> (x, x) \<notin> ?E\<^sup>+"
    have "walk_path rootName g [rootName]" by (simp add: walk_path_def)
    from visit_cycles_ok [OF v this] dep_edges_root c have ok: "\<forall>cyc \<in> set cs. cycle_ok rootName g cyc" by simp
    show "cs = []"
    proof (rule ccontr)
      assume "cs \<noteq> []"
      then obtain cyc where "cyc \<in> set cs" by (cases cs) auto
      with ok obtain n body where n: "(rootName, n) \<in> ?E\<^sup>*"
        and s: "successively (\<lambda>a b. (a, b) \<in> ?E) (n # body @ [n])"
        by (auto simp: cycle_ok_def)
      obtain m ms where m: "body @ [n] = m # ms" by (cases "body @ [n]") auto
      from s m have "(n, m) \<in> ?E" and sm: "successively (\<lambda>a b. (a, b) \<in> ?E) (m # ms)" by simp_all
      have "n \<in> set (m # ms)" unfolding m [symmetric] by simp
      from successively_rtrancl [OF sm this] have "(m, n) \<in> ?E\<^sup>*" .
      with \<open>(n, m) \<in> ?E\<close> have "(n, n) \<in> ?E\<^sup>+" by (rule rtrancl_into_trancl2)
      with free n show False by blast
    qed
  qed
qed

definition tree_graph :: ResolvedGraph where
  "tree_graph =
     \<lparr>packages = [], roots = [\<lparr>ds_name = ''a'', versionConstraint = ''1'', fromRepo = None\<rparr>],
      children = [''a'' \<mapsto> [\<lparr>ds_name = ''b'', versionConstraint = ''1'', fromRepo = None\<rparr>],
                  ''b'' \<mapsto> [\<lparr>ds_name = ''a'', versionConstraint = ''2'', fromRepo = None\<rparr>]],
      opaque = {}\<rparr>"

lemma tree_graph_sel:
  "roots tree_graph = [\<lparr>ds_name = ''a'', versionConstraint = ''1'', fromRepo = None\<rparr>]"
  "kids_of tree_graph ''a'' = [\<lparr>ds_name = ''b'', versionConstraint = ''1'', fromRepo = None\<rparr>]"
  "kids_of tree_graph ''b'' = [\<lparr>ds_name = ''a'', versionConstraint = ''2'', fromRepo = None\<rparr>]"
  "opaque tree_graph = {}" "byName tree_graph n = None" "depth default_options = -1" "dedupe default_options"
  by (simp_all add: tree_graph_def kids_of_def byName_def default_options_def)

lemma tree_graph_walk:
  "visit tree_graph default_options [''p''] 0 (sorted_kids (roots tree_graph)) \<lparr>expanded = {}, cycles = [], cycleKeys = {}\<rparr> =
     Some ([DepNode ''a'' [] ''1'' [] [] Normal [DepNode ''b'' [] ''1'' [] [] Normal
       [DepNode ''a'' [] ''2'' [] [] Cycle []]]],
       \<lparr>expanded = {''b'', ''a''}, cycles = [[''a'', ''b'', ''a'']], cycleKeys = {''a -> b -> a''}\<rparr>)"
  by (simp add: visit.simps [of tree_graph] tree_graph_sel sorted_kids_def classify_def
      make_node_def recordCycle_def closing_path_def formatCycle_def Let_def)

lemma tree_graph_cycles: "findDependencyCycles ''p'' tree_graph = Some [[''a'', ''b'', ''a'']]"
  using tree_graph_walk
  by (simp add: findDependencyCycles_def buildDependencyTree_def default_options_def)

theorem cycles_found_iff_witness:
  "\<exists>x. (''p'', x) \<in> (dep_edges ''p'' tree_graph)\<^sup>* \<and> (x, x) \<in> (dep_edges ''p'' tree_graph)\<^sup>+"
  using cycles_found_iff [OF tree_graph_cycles] by auto

theorem reported_cycles_are_real_witness:
  "cycle_ok ''p'' tree_graph [''a'', ''b'', ''a'']"
proof -
  from tree_graph_cycles obtain t where "buildDependencyTree ''p'' [] tree_graph default_options = Some t"
    "dt_cycles t = [[''a'', ''b'', ''a'']]" by (auto simp: findDependencyCycles_def)
  from reported_cycles_are_real [OF this(1)] this(2) show ?thesis by simp
qed

theorem buildDependencyTree_returns_witness:
  "\<exists>t. buildDependencyTree ''p'' ''1'' tree_graph default_options = Some t"
  by (rule buildDependencyTree_returns) (simp add: tree_graph_def)

definition shallow :: DepTreeOptions where
  "shallow = \<lparr>depth = 1, dedupe = True\<rparr>"

theorem tree_depth_bounded_witness:
  "\<exists>t. buildDependencyTree ''p'' ''1'' tree_graph shallow = Some t \<and> node_within 2 (dt_root t)"
proof -
  have "finite (dom (children tree_graph))" by (simp add: tree_graph_def)
  then obtain r where "visit tree_graph shallow [''p''] 0 (sorted_kids (roots tree_graph))
      \<lparr>expanded = {}, cycles = [], cycleKeys = {}\<rparr> = Some r" using visit_returns by blast
  then obtain t where t: "buildDependencyTree ''p'' ''1'' tree_graph shallow = Some t"
    by (simp add: buildDependencyTree_def Let_def shallow_def)
  from tree_depth_bounded [OF this] show ?thesis using t by (auto simp: shallow_def numeral_2_eq_2)
qed

end
