(* ===== verification/Std_Map.thy ===== *)
theory Std_Map
  imports Cajeta_Prelude
begin

text \<open>
  \<open>std::map\<close> as the list of its entries in the order in which it is iterated: by
  strictly ascending keys. \<open>map_put\<close> is the assignment \<open>m[k] = v\<close>, and looking up is
  \<^const>\<open>map_of\<close>.
\<close>

fun map_put :: "'k::linorder \<Rightarrow> 'v \<Rightarrow> ('k \<times> 'v) list \<Rightarrow> ('k \<times> 'v) list" where
  "map_put k v [] = [(k, v)]"
| "map_put k v ((k', v') # m) =
     (if k < k' then (k, v) # (k', v') # m
      else if k = k' then (k, v) # m
      else (k', v') # map_put k v m)"

definition std_map :: "('k::linorder \<times> 'v) list \<Rightarrow> bool" where
  "std_map m \<longleftrightarrow> sorted_wrt (<) (map fst m)"

lemma std_map_Nil [simp]: "std_map []"
  by (simp add: std_map_def)

lemma std_map_Cons: "std_map ((k, v) # m) \<longleftrightarrow> (\<forall>k' \<in> fst ` set m. k < k') \<and> std_map m"
  by (auto simp: std_map_def)

lemma map_of_put [simp]: "map_of (map_put k v m) = (map_of m)(k \<mapsto> v)"
  by (induction k v m rule: map_put.induct) (auto simp: fun_eq_iff)

lemma keys_put [simp]: "fst ` set (map_put k v m) = insert k (fst ` set m)"
  by (induction k v m rule: map_put.induct) auto

lemma std_map_put [simp]: "std_map m \<Longrightarrow> std_map (map_put k v m)"
  by (induction k v m rule: map_put.induct) (auto simp: std_map_Cons)

lemma std_map_distinct: "std_map m \<Longrightarrow> distinct (map fst m)"
  by (simp add: std_map_def strict_sorted_iff)

lemma std_map_in: "std_map m \<Longrightarrow> (k, v) \<in> set m \<longleftrightarrow> map_of m k = Some v"
  by (simp add: std_map_distinct)

text \<open>Two maps with the same entries are iterated alike.\<close>

lemma std_map_eqI:
  assumes "std_map m" "std_map m'" "map_of m = map_of m'"
  shows "m = m'"
proof (rule map_sorted_distinct_set_unique [where f = fst])
  have "p \<in> set m \<longleftrightarrow> p \<in> set m'" for p
    using std_map_in [OF assms(1), of "fst p" "snd p"] std_map_in [OF assms(2), of "fst p" "snd p"] assms(3) by simp
  then show "set m = set m'" by blast
  show "inj_on fst (set m \<union> set m')"
    using std_map_distinct [OF assms(1)] \<open>set m = set m'\<close> by (simp add: distinct_map)
  show "sorted (map fst m)" "sorted (map fst m')"
    using assms by (simp_all add: std_map_def strict_sorted_iff)
  show "distinct (map fst m)" "distinct (map fst m')" using assms by (simp_all add: std_map_distinct)
qed

end
