(* ===== verification/Task_Graph.thy ===== *)
theory Task_Graph
  imports Build_Properties Std_Map Dep_Order
begin

text \<open>
  The \<open>tasks\<close> block of a manifest (\<open>buildtool/Task.h\<close>, \<open>Task.cpp\<close>): parsing into
  tasks, the check of the \<open>depends-on\<close> graph and the document of \<open>cajeta tasks --json\<close>.
  The nesting of parallel groups is bounded by \<open>fuel\<close>: \<^term>\<open>None\<close> is a deeper value.
\<close>

subsection \<open>Data\<close>

record TaskParamSpec =
  tp_name :: string
  tp_type :: string
  defaultValue :: "string option"
  tp_required :: bool
  tp_doc :: "string option"

record 'o ActionInvocation =
  ai_action :: string
  ai_id :: string
  ai_params :: 'o
  ai_when :: "string option"
  ai_skipWhen :: "string option"

record RunTaskCall =
  rt_taskName :: string
  rt_id :: string
  rt_params :: "(string \<times> string) list"
  rt_when :: "string option"
  rt_skipWhen :: "string option"

text \<open>The tagged union of the three shapes; a parallel group is the list of its children.\<close>

datatype 'o ActionEntry =
    Invocation "'o ActionInvocation"
  | Parallel "'o ActionEntry list"
  | RunTask RunTaskCall

record 'o Task =
  t_name :: string
  t_description :: "string option"
  dependsOn :: "string list"
  t_params :: "TaskParamSpec list"
  t_actions :: "'o ActionEntry list"
  t_outputs :: "(string \<times> string) list"
  t_workingDir :: "string option"
  t_env :: "(string \<times> string) list"

type_synonym 'o tasks = "(string \<times> 'o Task) list"

datatype task_error =
    TaskNotObject string
  | UnknownTaskField string string
  | MustBeArray string string
  | ElementNotString string string nat
  | MemberNotString string string string
  | ParamNotObject string string
  | UnknownParamField string string string
  | UnsupportedType string string string
  | BadDefault string string
  | EntryNotObject string string
  | NoShape string string
  | ManyShapes string string
  | ParallelField string string string
  | ParallelNotArray string string
  | RunTaskField string string string
  | RunTaskName string string
  | RunTaskParam string string string
  | MissingAction string string
  | ShellLine string string string "string list"
  | UndefinedDependency string string
  | CyclicDependsOn "string list"

subsection \<open>Parsing\<close>

definition kTaskFields :: "string list" where
  "kTaskFields = [''description'', ''depends-on'', ''params'', ''actions'', ''outputs'', ''working-dir'', ''env'']"

definition kParamFields :: "string list" where
  "kParamFields = [''type'', ''default'', ''required'', ''doc'']"

definition kActionMetaFields :: "string list" where
  "kActionMetaFields = [''action'', ''id'', ''when'', ''skip-when'']"

definition kRunTaskFields :: "string list" where
  "kRunTaskFields = [''run-task'', ''params'', ''id'', ''when'', ''skip-when'']"

text \<open>The first key, in iteration order, that is not allowed.\<close>

definition unknown_field :: "('v, 'o) json \<Rightarrow> string list \<Rightarrow> 'o \<Rightarrow> string option" where
  "unknown_field J allowed ob = find (\<lambda>k. k \<notin> set allowed) (map fst (members J ob))"

definition or_empty :: "string option \<Rightarrow> string" where
  "or_empty v = (case v of Some s \<Rightarrow> s | None \<Rightarrow> [])"

definition param_default ::
    "('v, 'o) json \<Rightarrow> string \<Rightarrow> string \<Rightarrow> 'o \<Rightarrow> task_error + string option" where
  "param_default J taskName paramName ob =
     (case get J ob ''default'' of
        None \<Rightarrow> Inr None
      | Some d \<Rightarrow>
          (case asString J d of
             Some s \<Rightarrow> Inr (Some s)
           | None \<Rightarrow>
               (case asBoolean J d of
                  Some b \<Rightarrow> Inr (Some (if b then ''true'' else ''false''))
                | None \<Rightarrow> Inl (BadDefault taskName paramName))))"

definition parseParamSpec ::
    "('v, 'o) json \<Rightarrow> string \<Rightarrow> string \<Rightarrow> 'v \<Rightarrow> task_error + TaskParamSpec" where
  "parseParamSpec J taskName paramName v =
     (case asObject J v of
        None \<Rightarrow> Inl (ParamNotObject taskName paramName)
      | Some ob \<Rightarrow>
          (case unknown_field J kParamFields ob of
             Some k \<Rightarrow> Inl (UnknownParamField taskName paramName k)
           | None \<Rightarrow>
               let ty = (case getString J ob ''type'' of Some t \<Rightarrow> t | None \<Rightarrow> ''string'') in
               if ty \<noteq> ''string'' \<and> ty \<noteq> ''bool'' then Inl (UnsupportedType taskName paramName ty)
               else bindE (param_default J taskName paramName ob) (\<lambda>d.
                 Inr \<lparr>tp_name = paramName, tp_type = ty, defaultValue = d,
                      tp_required = (getBoolean J ob ''required'' = Some True), tp_doc = getString J ob ''doc''\<rparr>)))"

text \<open>\<open>in >> w\<close>: the words between white space.\<close>

definition words :: "string \<Rightarrow> string list" where
  "words c = filter (\<lambda>w. w \<noteq> []) (split_on CHR '' '' (map (\<lambda>d. if isspace d then CHR '' '' else d) c))"

definition has_reference :: "string \<Rightarrow> bool" where
  "has_reference c = (\<exists>i < length c. take 2 (drop i c) = ''${'')"

text \<open>\<open>exists\<close> is \<open>std::filesystem::exists\<close>. The message that is composed reads
  the first of the words.\<close>

definition rejectShellLineCommand ::
    "('v, 'o) json \<Rightarrow> (string \<Rightarrow> bool) \<Rightarrow> string \<Rightarrow> string \<Rightarrow> 'o ActionInvocation \<Rightarrow> task_error + unit" where
  "rejectShellLineCommand J exists taskName bc iv =
     (case getString J (ai_params iv) ''command'' of
        None \<Rightarrow> Inr ()
      | Some c \<Rightarrow>
          if get J (ai_params iv) ''args'' \<noteq> None then Inr ()
          else if has_reference c then Inr ()
          else if \<not> (\<exists>d \<in> set c. d = CHR '' '' \<or> d = CHR 0x09) then Inr ()
          else if exists c then Inr ()
          else Inl (ShellLine taskName bc c (words c)))"

definition action_params :: "('v, 'o) json \<Rightarrow> ('v, 'o) builder \<Rightarrow> 'o \<Rightarrow> 'o" where
  "action_params J B ob =
     fold (\<lambda>(k, v) out. if k \<in> set kActionMetaFields then out else objSet B out k v) (members J ob) (emptyObject B)"

definition parseActionInvocation ::
    "('v, 'o) json \<Rightarrow> ('v, 'o) builder \<Rightarrow> (string \<Rightarrow> bool) \<Rightarrow> string \<Rightarrow> string \<Rightarrow> 'o \<Rightarrow>
     task_error + 'o ActionInvocation" where
  "parseActionInvocation J B exists taskName bc ob =
     (case getString J ob ''action'' of
        None \<Rightarrow> Inl (MissingAction taskName bc)
      | Some a \<Rightarrow>
          let out = \<lparr>ai_action = a, ai_id = or_empty (getString J ob ''id''), ai_params = action_params J B ob,
                     ai_when = getString J ob ''when'', ai_skipWhen = getString J ob ''skip-when''\<rparr>
          in if a = ''exec'' then bindE (rejectShellLineCommand J exists taskName bc out) (\<lambda>_. Inr out)
             else Inr out)"

text \<open>The loops over an object whose members must be strings.\<close>

definition string_members ::
    "('v, 'o) json \<Rightarrow> (string \<Rightarrow> task_error) \<Rightarrow> 'o \<Rightarrow> task_error + (string \<times> string) list" where
  "string_members J complain ob =
     foldE (\<lambda>(k, v) out. case asString J v of None \<Rightarrow> Inl (complain k) | Some s \<Rightarrow> Inr (map_put k s out))
       (members J ob) []"

definition parseRunTaskCall ::
    "('v, 'o) json \<Rightarrow> string \<Rightarrow> string \<Rightarrow> 'o \<Rightarrow> task_error + RunTaskCall" where
  "parseRunTaskCall J taskName bc ob =
     (case unknown_field J kRunTaskFields ob of
        Some k \<Rightarrow> Inl (RunTaskField taskName bc k)
      | None \<Rightarrow>
     (case getString J ob ''run-task'' of
        None \<Rightarrow> Inl (RunTaskName taskName bc)
      | Some n \<Rightarrow>
          bindE (case getObject J ob ''params'' of
                   None \<Rightarrow> Inr []
                 | Some p \<Rightarrow> string_members J (RunTaskParam taskName bc) p) (\<lambda>ps.
            Inr \<lparr>rt_taskName = n, rt_id = or_empty (getString J ob ''id''), rt_params = ps,
                 rt_when = getString J ob ''when'', rt_skipWhen = getString J ob ''skip-when''\<rparr>)))"

definition is_set :: "'a option \<Rightarrow> nat" where
  "is_set x = (if x = None then 0 else 1)"

definition elem_crumb :: "string \<Rightarrow> nat \<Rightarrow> string" where
  "elem_crumb bc i = bc @ ''['' @ show_nat i @ '']''"

fun parseActionEntry ::
    "('v, 'o) json \<Rightarrow> ('v, 'o) builder \<Rightarrow> (string \<Rightarrow> bool) \<Rightarrow> string \<Rightarrow> nat \<Rightarrow> string \<Rightarrow> 'v \<Rightarrow>
     (task_error + 'o ActionEntry) option"
and parse_entries ::
    "('v, 'o) json \<Rightarrow> ('v, 'o) builder \<Rightarrow> (string \<Rightarrow> bool) \<Rightarrow> string \<Rightarrow> nat \<Rightarrow> string \<Rightarrow> nat \<Rightarrow> 'v list \<Rightarrow>
     (task_error + 'o ActionEntry list) option"
where
  "parseActionEntry J B exists taskName 0 bc v = None"
| "parseActionEntry J B exists taskName (Suc fuel) bc v =
     (case asObject J v of
        None \<Rightarrow> Some (Inl (EntryNotObject taskName bc))
      | Some ob \<Rightarrow>
          let count = is_set (get J ob ''parallel'') + is_set (get J ob ''run-task'') + is_set (get J ob ''action'')
          in if count = 0 then Some (Inl (NoShape taskName bc))
             else if count > 1 then Some (Inl (ManyShapes taskName bc))
             else if get J ob ''parallel'' \<noteq> None then
               (case unknown_field J [''parallel''] ob of
                  Some k \<Rightarrow> Some (Inl (ParallelField taskName bc k))
                | None \<Rightarrow>
                    (case getArray J ob ''parallel'' of
                       None \<Rightarrow> Some (Inl (ParallelNotArray taskName bc))
                     | Some arr \<Rightarrow>
                         map_option (\<lambda>r. bindE r (\<lambda>es. Inr (Parallel es)))
                           (parse_entries J B exists taskName fuel (bc @ ''.parallel'') 0 arr)))
             else if get J ob ''run-task'' \<noteq> None then
               Some (bindE (parseRunTaskCall J taskName bc ob) (\<lambda>c. Inr (RunTask c)))
             else Some (bindE (parseActionInvocation J B exists taskName bc ob) (\<lambda>a. Inr (Invocation a))))"
| "parse_entries J B exists taskName fuel bc i [] = Some (Inr [])"
| "parse_entries J B exists taskName fuel bc i (v # vs) =
     Option.bind (parseActionEntry J B exists taskName fuel (elem_crumb bc i) v) (\<lambda>r.
       case r of Inl e \<Rightarrow> Some (Inl e)
               | Inr entry \<Rightarrow>
                   map_option (\<lambda>r'. bindE r' (\<lambda>es. Inr (entry # es)))
                     (parse_entries J B exists taskName fuel bc (i + 1) vs))"

definition parseStringMap ::
    "('v, 'o) json \<Rightarrow> string \<Rightarrow> string \<Rightarrow> 'o option \<Rightarrow> task_error + (string \<times> string) list" where
  "parseStringMap J taskName field block =
     (case block of None \<Rightarrow> Inr [] | Some ob \<Rightarrow> string_members J (MemberNotString taskName field) ob)"

fun parseStringArray ::
    "('v, 'o) json \<Rightarrow> string \<Rightarrow> string \<Rightarrow> nat \<Rightarrow> 'v list \<Rightarrow> task_error + string list" where
  "parseStringArray J taskName field i [] = Inr []"
| "parseStringArray J taskName field i (v # vs) =
     (case asString J v of
        None \<Rightarrow> Inl (ElementNotString taskName field i)
      | Some s \<Rightarrow> bindE (parseStringArray J taskName field (i + 1) vs) (\<lambda>ss. Inr (s # ss)))"

definition parse_depends :: "('v, 'o) json \<Rightarrow> string \<Rightarrow> 'o \<Rightarrow> task_error + string list" where
  "parse_depends J name ob =
     (case get J ob ''depends-on'' of
        None \<Rightarrow> Inr []
      | Some deps \<Rightarrow>
          (case asArray J deps of
             None \<Rightarrow> Inl (MustBeArray name ''depends-on'')
           | Some arr \<Rightarrow> parseStringArray J name ''depends-on'' 0 arr))"

definition parse_params :: "('v, 'o) json \<Rightarrow> string \<Rightarrow> 'o \<Rightarrow> task_error + TaskParamSpec list" where
  "parse_params J name ob =
     (case getObject J ob ''params'' of
        None \<Rightarrow> Inr []
      | Some ps \<Rightarrow>
          foldE (\<lambda>(k, v) out. bindE (parseParamSpec J name k v) (\<lambda>spec. Inr (out @ [spec]))) (members J ps) [])"

definition parse_task ::
    "('v, 'o) json \<Rightarrow> ('v, 'o) builder \<Rightarrow> (string \<Rightarrow> bool) \<Rightarrow> nat \<Rightarrow> string \<Rightarrow> 'v \<Rightarrow>
     (task_error + 'o Task) option" where
  "parse_task J B exists fuel name v =
     (case asObject J v of
        None \<Rightarrow> Some (Inl (TaskNotObject name))
      | Some ob \<Rightarrow>
     (case unknown_field J kTaskFields ob of
        Some k \<Rightarrow> Some (Inl (UnknownTaskField name k))
      | None \<Rightarrow>
     (case bindE (parse_depends J name ob) (\<lambda>deps. bindE (parse_params J name ob) (\<lambda>ps. Inr (deps, ps))) of
        Inl e \<Rightarrow> Some (Inl e)
      | Inr (deps, ps) \<Rightarrow>
     (case getArray J ob ''actions'' of
        None \<Rightarrow> Some (Inl (MustBeArray name ''actions''))
      | Some arr \<Rightarrow>
          map_option (\<lambda>r. bindE r (\<lambda>es.
              bindE (parseStringMap J name ''outputs'' (getObject J ob ''outputs'')) (\<lambda>outs.
              bindE (parseStringMap J name ''env'' (getObject J ob ''env'')) (\<lambda>env.
                Inr \<lparr>t_name = name, t_description = getString J ob ''description'', dependsOn = deps, t_params = ps,
                     t_actions = es, t_outputs = outs, t_workingDir = getString J ob ''working-dir'', t_env = env\<rparr>))))
            (parse_entries J B exists name fuel ''actions'' 0 arr)))))"

fun parse_task_list ::
    "('v, 'o) json \<Rightarrow> ('v, 'o) builder \<Rightarrow> (string \<Rightarrow> bool) \<Rightarrow> nat \<Rightarrow> (string \<times> 'v) list \<Rightarrow> 'o tasks \<Rightarrow>
     (task_error + 'o tasks) option" where
  "parse_task_list J B exists fuel [] out = Some (Inr out)"
| "parse_task_list J B exists fuel ((name, v) # rest) out =
     Option.bind (parse_task J B exists fuel name v) (\<lambda>r.
       case r of Inl e \<Rightarrow> Some (Inl e)
               | Inr t \<Rightarrow> parse_task_list J B exists fuel rest (map_put name t out))"

definition parseTasks ::
    "('v, 'o) json \<Rightarrow> ('v, 'o) builder \<Rightarrow> (string \<Rightarrow> bool) \<Rightarrow> nat \<Rightarrow> 'o Manifest \<Rightarrow>
     (task_error + 'o tasks) option" where
  "parseTasks J B exists fuel m =
     (case m_tasksRaw m of
        None \<Rightarrow> Some (Inr [])
      | Some block \<Rightarrow> parse_task_list J B exists fuel (members J block) [])"

subsection \<open>The \<open>depends-on\<close> graph\<close>

text \<open>The depth-first search with its colours. A call that finds no cycle gives back \<open>gray\<close>
  and \<open>path\<close> as it got them, so they are arguments here and only \<open>black\<close> is threaded;
  \<open>Inl\<close> is the cycle.\<close>

lemma map_of_keys: "map_of m k = Some v \<Longrightarrow> k \<in> fst ` set m"
  by (force dest: map_of_SomeD)

function detectCycle ::
    "'o tasks \<Rightarrow> string set \<Rightarrow> string list \<Rightarrow> string \<Rightarrow> string set \<Rightarrow> string list + string set"
and detect_all ::
    "'o tasks \<Rightarrow> string set \<Rightarrow> string list \<Rightarrow> string list \<Rightarrow> string set \<Rightarrow> string list + string set"
where
  "detectCycle tasks gray path name black =
     (if name \<in> black then Inr black
      else if name \<in> gray then Inl (dropWhile (\<lambda>n. n \<noteq> name) path @ [name])
      else
     (case map_of tasks name of
        None \<Rightarrow> Inr black
      | Some t \<Rightarrow>
          bindE (detect_all tasks (insert name gray) (path @ [name]) (dependsOn t) black) (\<lambda>black'.
            Inr (insert name black'))))"
| "detect_all tasks gray path [] black = Inr black"
| "detect_all tasks gray path (dep # deps) black =
     bindE (detectCycle tasks gray path dep black) (detect_all tasks gray path deps)"
  by pat_completeness auto
termination
  by (relation "measures
      [\<lambda>x. case x of Inl (tasks, gray, path, name, black) \<Rightarrow> card (fst ` set tasks - gray)
            | Inr (tasks, gray, path, deps, black) \<Rightarrow> card (fst ` set tasks - gray),
       \<lambda>x. case x of Inl _ \<Rightarrow> 0 | Inr (tasks, gray, path, deps, black) \<Rightarrow> 1 + length deps]")
    (auto dest: map_of_keys intro!: psubset_card_mono)

declare detectCycle.simps [simp del]

definition undefined_dependency :: "'o tasks \<Rightarrow> (string \<times> string) option" where
  "undefined_dependency tasks =
     find (\<lambda>(name, dep). map_of tasks dep = None)
       (concat (map (\<lambda>(name, t). map (Pair name) (dependsOn t)) tasks))"

definition search :: "'o tasks \<Rightarrow> 'o tasks \<Rightarrow> string set \<Rightarrow> string list + string set" where
  "search tasks ts =
     foldE (\<lambda>(name, t) black. if name \<in> black then Inr black else detectCycle tasks {} [] name black) ts"

definition validateTaskGraph :: "'o tasks \<Rightarrow> task_error + unit" where
  "validateTaskGraph tasks =
     (case undefined_dependency tasks of
        Some (name, dep) \<Rightarrow> Inl (UndefinedDependency name dep)
      | None \<Rightarrow>
          (case search tasks tasks {} of
             Inl cycle \<Rightarrow> Inl (CyclicDependsOn cycle)
           | Inr _ \<Rightarrow> Inr ()))"

text \<open>\<open>topoOrder\<close> of a list of roots, one after the other; the state is \<open>visited\<close> and
  \<open>order\<close>.\<close>

function topo_all :: "'o tasks \<Rightarrow> string list \<Rightarrow> string set \<times> string list \<Rightarrow> string set \<times> string list" where
  "topo_all tasks [] s = s"
| "topo_all tasks (root # roots) s =
     (if root \<in> fst s then topo_all tasks roots s
      else
     (case map_of tasks root of
        None \<Rightarrow> topo_all tasks roots (insert root (fst s), snd s)
      | Some t \<Rightarrow>
          let s' = topo_all tasks (dependsOn t) (insert root (fst s), snd s)
          in topo_all tasks roots (fst s', snd s' @ [root])))"
  by pat_completeness auto

termination
proof -
  have visited: "topo_all_dom (tasks, roots, s) \<Longrightarrow> fst s \<subseteq> fst (topo_all tasks roots s)"
    for tasks :: "'a tasks" and roots s
  proof (induction tasks roots s rule: topo_all.pinduct)
    case (2 tasks root roots s)
    show ?case
    proof (cases "root \<in> fst s")
      case False
      show ?thesis
      proof (cases "map_of tasks root")
        case (Some t)
        let ?s = "topo_all tasks (dependsOn t) (insert root (fst s), snd s)"
        from 2(4) [OF False Some] have a: "fst s \<subseteq> fst ?s" by auto
        from 2(5) [OF False Some refl] have "fst ?s \<subseteq> fst (topo_all tasks roots (fst ?s, snd ?s @ [root]))" by simp
        with a 2(1) False Some show ?thesis by (auto simp: topo_all.psimps Let_def)
      qed (use 2 False in \<open>auto simp: topo_all.psimps\<close>)
    qed (use 2 in \<open>auto simp: topo_all.psimps\<close>)
  qed (simp add: topo_all.psimps)
  show ?thesis
  proof (relation "measures [\<lambda>(tasks, roots, s). card (fst ` set tasks - fst s), \<lambda>(tasks, roots, s). length roots]",
      goal_cases)
    case (2 tasks root roots s)
    then show ?case by simp
  next
    case (3 tasks root roots s)
    have "card (fst ` set tasks - insert root (fst s)) \<le> card (fst ` set tasks - fst s)"
      by (intro card_mono) auto
    then show ?case by auto
  next
    case (4 tasks root roots s t)
    then have "root \<in> fst ` set tasks - fst s" using map_of_keys by auto
    then have "card (fst ` set tasks - insert root (fst s)) < card (fst ` set tasks - fst s)"
      by (intro psubset_card_mono) auto
    then show ?case by simp
  next
    case (5 tasks root roots s t s')
    then have "root \<in> fst ` set tasks - fst s" using map_of_keys by auto
    moreover have "insert root (fst s) \<subseteq> fst s'" using visited [OF 5(4)] 5(3) by simp
    ultimately have "card (fst ` set tasks - fst s') < card (fst ` set tasks - fst s)"
      by (intro psubset_card_mono) auto
    then show ?case by simp
  qed simp
qed

definition topoOrder :: "'o tasks \<Rightarrow> string \<Rightarrow> string list" where
  "topoOrder tasks root = snd (topo_all tasks [root] ({}, []))"

subsection \<open>The document for the IDE\<close>

record TaskRunInfo =
  runnable :: bool
  artifact :: "string option"

fun scanActionsForRun :: "('v, 'o) json \<Rightarrow> 'o ActionEntry list \<Rightarrow> TaskRunInfo \<Rightarrow> TaskRunInfo" where
  "scanActionsForRun J [] info = info"
| "scanActionsForRun J (Invocation iv # es) info =
     scanActionsForRun J es
       (if ai_action iv = ''build'' \<or> ai_action iv = ''exec'' \<or> ai_action iv = ''run'' then
          info\<lparr>runnable := True,
               artifact := (if ai_action iv = ''build''
                            then (case getString J (ai_params iv) ''output-path'' of
                                    Some op \<Rightarrow> Some op | None \<Rightarrow> artifact info)
                            else artifact info)\<rparr>
        else info)"
| "scanActionsForRun J (Parallel children # es) info =
     scanActionsForRun J es (scanActionsForRun J children info)"
| "scanActionsForRun J (RunTask call # es) info = scanActionsForRun J es info"

definition computeTaskRunInfo :: "('v, 'o) json \<Rightarrow> 'o Task \<Rightarrow> TaskRunInfo" where
  "computeTaskRunInfo J t = scanActionsForRun J (t_actions t) \<lparr>runnable = False, artifact = None\<rparr>"

record BuiltinCommand =
  bc_name :: string
  bc_description :: string

record DebugLaunchCoords =
  sourceRoot :: "string option"
  entryMethod :: "string option"

definition put_string :: "('v, 'o) json \<Rightarrow> ('v, 'o) builder \<Rightarrow> string \<Rightarrow> string \<Rightarrow> 'o \<Rightarrow> 'o" where
  "put_string J B k s ob = objSet B ob k (ofString J s)"

definition put_opt :: "('v, 'o) json \<Rightarrow> ('v, 'o) builder \<Rightarrow> string \<Rightarrow> string option \<Rightarrow> 'o \<Rightarrow> 'o" where
  "put_opt J B k v ob = (case v of None \<Rightarrow> ob | Some s \<Rightarrow> put_string J B k s ob)"

definition param_json :: "('v, 'o) json \<Rightarrow> ('v, 'o) builder \<Rightarrow> TaskParamSpec \<Rightarrow> 'v" where
  "param_json J B p =
     ofObject B (put_opt J B ''doc'' (tp_doc p)
       (objSet B
          (put_opt J B ''default'' (defaultValue p)
             (put_string J B ''type'' (tp_type p) (put_string J B ''name'' (tp_name p) (emptyObject B))))
          ''required'' (ofBool J (tp_required p))))"

definition task_json :: "('v, 'o) json \<Rightarrow> ('v, 'o) builder \<Rightarrow> 'o Task \<Rightarrow> 'v" where
  "task_json J B t =
     (let ri = computeTaskRunInfo J t;
          to1 = put_opt J B ''description'' (t_description t) (put_string J B ''name'' (t_name t) (emptyObject B));
          to2 = put_opt J B ''artifact'' (artifact ri) (objSet B to1 ''runnable'' (ofBool J (runnable ri)));
          to3 = objSet B to2 ''dependsOn'' (ofArray B (map (ofString J) (dependsOn t)))
      in ofObject B (objSet B to3 ''params'' (ofArray B (map (param_json J B) (t_params t)))))"

definition build_json :: "('v, 'o) json \<Rightarrow> ('v, 'o) builder \<Rightarrow> DebugLaunchCoords \<Rightarrow> 'o \<Rightarrow> 'o" where
  "build_json J B coords root =
     (case entryMethod coords of
        None \<Rightarrow> root
      | Some em \<Rightarrow>
          if em = [] then root
          else objSet B root ''build''
            (ofObject B (put_opt J B ''sourceRoot'' (sourceRoot coords)
               (put_string J B ''entryMethod'' em (emptyObject B)))))"

definition tasks_document ::
    "('v, 'o) json \<Rightarrow> ('v, 'o) builder \<Rightarrow> string \<Rightarrow> 'o tasks \<Rightarrow> BuiltinCommand list \<Rightarrow> DebugLaunchCoords \<Rightarrow> 'v" where
  "tasks_document J B manifestPath tasks builtins coords =
     (let root1 = build_json J B coords (put_string J B ''manifest'' manifestPath (emptyObject B));
          root2 = objSet B root1 ''tasks'' (ofArray B (map (\<lambda>(name, t). task_json J B t) tasks))
      in ofObject B (objSet B root2 ''builtins''
           (ofArray B (map (\<lambda>b. ofObject B
              (put_string J B ''description'' (bc_description b) (put_string J B ''name'' (bc_name b) (emptyObject B))))
            builtins))))"

text \<open>\<open>show\<close> is the library's printer with an indentation of two.\<close>

definition renderTasksJson ::
    "('v, 'o) json \<Rightarrow> ('v, 'o) builder \<Rightarrow> ('v \<Rightarrow> string) \<Rightarrow> string \<Rightarrow> 'o tasks \<Rightarrow> BuiltinCommand list \<Rightarrow>
     DebugLaunchCoords \<Rightarrow> string" where
  "renderTasksJson J B show manifestPath tasks builtins coords =
     show (tasks_document J B manifestPath tasks builtins coords)"

subsection \<open>The check decides acyclicity\<close>

definition dep_rel :: "'o tasks \<Rightarrow> (string \<times> string) set" where
  "dep_rel tasks = {(a, b). \<exists>t. map_of tasks a = Some t \<and> b \<in> set (dependsOn t)}"

definition kids :: "'o tasks \<Rightarrow> string \<Rightarrow> string set" where
  "kids tasks a = (case map_of tasks a of None \<Rightarrow> {} | Some t \<Rightarrow> set (dependsOn t))"

definition closed :: "'o tasks \<Rightarrow> bool" where
  "closed tasks \<longleftrightarrow> (\<forall>a. kids tasks a \<subseteq> fst ` set tasks)"

text \<open>Names in an order that has every dependency earlier.\<close>

definition deps_first :: "'o tasks \<Rightarrow> string list \<Rightarrow> bool" where
  "deps_first tasks xs \<longleftrightarrow> (\<forall>k < length xs. kids tasks (xs ! k) \<subseteq> set (take k xs))"

definition listed :: "'o tasks \<Rightarrow> string set \<Rightarrow> bool" where
  "listed tasks B \<longleftrightarrow> (\<exists>fin. set fin = B \<and> deps_first tasks fin)"

lemma deps_first_Nil [simp]: "deps_first tasks []"
  by (simp add: deps_first_def)

lemma deps_first_snoc: "deps_first tasks xs \<Longrightarrow> kids tasks n \<subseteq> set xs \<Longrightarrow> deps_first tasks (xs @ [n])"
  by (auto simp: deps_first_def nth_append less_Suc_eq)

lemma dep_rel_kids: "(a, b) \<in> dep_rel tasks \<longleftrightarrow> b \<in> kids tasks a"
  by (auto simp: dep_rel_def kids_def split: option.splits)

lemma closed_iff: "closed tasks \<longleftrightarrow> (\<forall>(a, b) \<in> dep_rel tasks. b \<in> fst ` set tasks)"
  by (auto simp: closed_def subset_iff simp flip: dep_rel_kids)

lemma listed_insert: "listed tasks B \<Longrightarrow> kids tasks n \<subseteq> B \<Longrightarrow> listed tasks (insert n B)"
proof -
  assume "listed tasks B" "kids tasks n \<subseteq> B"
  then obtain fin where f: "set fin = B" "deps_first tasks fin" "kids tasks n \<subseteq> set fin" by (auto simp: listed_def)
  with deps_first_snoc [OF f(2,3)] show ?thesis unfolding listed_def by (intro exI [of _ "fin @ [n]"]) simp
qed

lemma detect_listed:
  "detectCycle tasks gray path name black = Inr black' \<Longrightarrow> closed tasks \<Longrightarrow> listed tasks black \<Longrightarrow>
     name \<in> fst ` set tasks \<Longrightarrow> listed tasks black' \<and> black \<subseteq> black' \<and> name \<in> black'"
  "detect_all tasks gray path deps black = Inr black' \<Longrightarrow> closed tasks \<Longrightarrow> listed tasks black \<Longrightarrow>
     set deps \<subseteq> fst ` set tasks \<Longrightarrow> listed tasks black' \<and> black \<subseteq> black' \<and> set deps \<subseteq> black'"
proof (induction tasks gray path name black and tasks gray path deps black
    arbitrary: black' and black' rule: detectCycle_detect_all.induct)
  case (1 tasks gray path name black)
  show ?case
  proof (cases "name \<in> black")
    case False
    then have g: "name \<notin> gray" using 1(2) by (auto simp: detectCycle.simps)
    obtain t where t: "map_of tasks name = Some t"
      using 1(5) by (cases "map_of tasks name") (auto simp: map_of_eq_None_iff)
    from 1(2) False g t obtain b where b: "detect_all tasks (insert name gray) (path @ [name]) (dependsOn t) black = Inr b"
        and b': "black' = insert name b"
      by (auto simp: detectCycle.simps elim!: bindE_Inr_cases)
    have "kids tasks name = set (dependsOn t)" using t by (simp add: kids_def)
    moreover from this have "set (dependsOn t) \<subseteq> fst ` set tasks" using 1(3) unfolding closed_def by blast
    with 1(1) [OF False g t b 1(3,4)] have "listed tasks b \<and> black \<subseteq> b \<and> set (dependsOn t) \<subseteq> b" by simp
    ultimately show ?thesis using b' listed_insert [of tasks b name] by auto
  qed (use 1 in \<open>auto simp: detectCycle.simps\<close>)
next
  case (3 tasks gray path dep deps black)
  from 3(3) obtain b where b: "detectCycle tasks gray path dep black = Inr b"
      and r: "detect_all tasks gray path deps b = Inr black'"
    by (auto elim!: bindE_Inr_cases)
  from 3(1) [OF b 3(4,5)] 3(6) have "listed tasks b \<and> black \<subseteq> b \<and> dep \<in> b" by simp
  with 3(2) [OF b r 3(4)] 3(6) show ?case by auto
qed simp

definition is_cycle :: "'o tasks \<Rightarrow> string list \<Rightarrow> bool" where
  "is_cycle tasks cyc \<longleftrightarrow>
     (\<exists>n body. cyc = n # body @ [n] \<and> distinct (n # body) \<and> successively (\<lambda>a b. (a, b) \<in> dep_rel tasks) cyc)"

lemma detect_cycle_real:
  "detectCycle tasks gray path name black = Inl cyc \<Longrightarrow> gray = set path \<Longrightarrow> distinct path \<Longrightarrow>
     successively (\<lambda>a b. (a, b) \<in> dep_rel tasks) (path @ [name]) \<Longrightarrow> is_cycle tasks cyc"
  "detect_all tasks gray path deps black = Inl cyc \<Longrightarrow> gray = set path \<Longrightarrow> distinct path \<Longrightarrow>
     (\<And>d. d \<in> set deps \<Longrightarrow> successively (\<lambda>a b. (a, b) \<in> dep_rel tasks) (path @ [d])) \<Longrightarrow> is_cycle tasks cyc"
proof (induction tasks gray path name black and tasks gray path deps black rule: detectCycle_detect_all.induct)
  case (1 tasks gray path name black)
  have b: "name \<notin> black" using 1(2) by (auto simp: detectCycle.simps)
  show ?case
  proof (cases "name \<in> gray")
    case True
    then have m: "name \<in> set path" using 1(3) by simp
    have s: "successively (\<lambda>a b. (a, b) \<in> dep_rel tasks) path" "(last path, name) \<in> dep_rel tasks"
      using 1(5) m by (auto simp: successively_append_iff)
    have "cyc = dropWhile (\<lambda>n. n \<noteq> name) path @ [name]" using 1(2) b True by (simp add: detectCycle.simps)
    with closing_cycle [OF s(1) 1(4) s(2) m] show ?thesis by (force simp: is_cycle_def)
  next
    case False
    from 1(2) b False obtain t where t: "map_of tasks name = Some t"
        and r: "detect_all tasks (insert name gray) (path @ [name]) (dependsOn t) black = Inl cyc"
      by (auto simp: detectCycle.simps bindE_eq_Inl split: option.splits)
    have "successively (\<lambda>a b. (a, b) \<in> dep_rel tasks) ((path @ [name]) @ [d])" if "d \<in> set (dependsOn t)" for d
      using that t 1(5) unfolding successively_append_iff [of _ "path @ [name]"] by (auto simp: dep_rel_def)
    then show ?thesis using 1(1) [OF b False t r] False 1(3,4) by simp
  qed
next
  case (3 tasks gray path dep deps black)
  show ?case
  proof (cases "detectCycle tasks gray path dep black")
    case (Inl c)
    then have "c = cyc" using 3(3) by simp
    with 3(1) Inl 3(4-6) show ?thesis by simp
  next
    case (Inr b)
    with 3(3) have "detect_all tasks gray path deps b = Inl cyc" by simp
    with 3(2) [OF Inr] 3(4-6) show ?thesis by simp
  qed
qed simp

interpretation task_graph: dependency_graph "fst ` set tasks" "\<lambda>a. kids tasks a \<inter> fst ` set tasks" for tasks
  by unfold_locales auto

lemma closed_edges:
  "closed tasks \<Longrightarrow> dependency_graph.edges (fst ` set tasks) (\<lambda>a. kids tasks a \<inter> fst ` set tasks) = dep_rel tasks"
  unfolding task_graph.edges_def
  by (auto simp: closed_def dep_rel_kids) (auto simp: kids_def map_of_keys split: option.splits)

lemma listed_no_cycle:
  assumes "closed tasks" "listed tasks B" "fst ` set tasks \<subseteq> B"
  shows "acyclic (dep_rel tasks)"
proof -
  from assms(2) obtain fin where f: "set fin = B" "deps_first tasks fin"
    by (auto simp: listed_def)
  have "acyclic (dependency_graph.edges (fst ` set tasks) (\<lambda>a. kids tasks a \<inter> fst ` set tasks))"
  proof (rule task_graph.listed_acyclic)
    show "fst ` set tasks \<subseteq> set fin" using assms(3) f(1) by simp
    show "kids tasks (fin ! k) \<inter> fst ` set tasks \<subseteq> set (take k fin)" if "k < length fin" for k
      using f(2) that unfolding deps_first_def by blast
  qed
  then show ?thesis by (simp add: closed_edges [OF assms(1)])
qed

lemma undefined_dependency_iff:
  assumes "std_map tasks"
  shows "undefined_dependency tasks = None \<longleftrightarrow> closed tasks"
    and "undefined_dependency tasks = Some (a, b) \<Longrightarrow> (a, b) \<in> dep_rel tasks \<and> b \<notin> fst ` set tasks"
proof -
  have m: "(a, b) \<in> set (concat (map (\<lambda>(name, t). map (Pair name) (dependsOn t)) tasks)) \<longleftrightarrow> b \<in> kids tasks a" for a b
    using std_map_in [OF assms] by (force simp: kids_def split: option.splits)
  show "undefined_dependency tasks = None \<longleftrightarrow> closed tasks"
    unfolding undefined_dependency_def find_None_iff using m
    by (auto simp: closed_def map_of_eq_None_iff)
  assume "undefined_dependency tasks = Some (a, b)"
  then have "(a, b) \<in> set (concat (map (\<lambda>(name, t). map (Pair name) (dependsOn t)) tasks)) \<and> map_of tasks b = None"
    unfolding undefined_dependency_def find_Some_iff by (metis (mono_tags, lifting) case_prod_conv nth_mem)
  then show "(a, b) \<in> dep_rel tasks \<and> b \<notin> fst ` set tasks"
    using m [of a b] by (simp add: dep_rel_kids map_of_eq_None_iff)
qed

lemma search_simps [simp]:
  "search tasks [] black = Inr black"
  "search tasks ((name, t) # ts) black =
     bindE (if name \<in> black then Inr black else detectCycle tasks {} [] name black) (search tasks ts)"
  by (simp_all add: search_def fun_eq_iff)

lemma search_result:
  assumes "closed tasks"
  shows "listed tasks black \<Longrightarrow> fst ` set ts \<subseteq> fst ` set tasks \<Longrightarrow>
    case search tasks ts black of
      Inl cyc \<Rightarrow> is_cycle tasks cyc
    | Inr black' \<Rightarrow> listed tasks black' \<and> black \<subseteq> black' \<and> fst ` set ts \<subseteq> black'"
proof (induction ts arbitrary: black)
  case (Cons p ts)
  obtain name t where p: "p = (name, t)" by fastforce
  show ?case
  proof (cases "name \<in> black")
    case True
    with Cons.IH [OF Cons.prems(1)] Cons.prems(2) p show ?thesis by (auto split: sum.splits)
  next
    case False
    show ?thesis
    proof (cases "detectCycle tasks {} [] name black")
      case (Inl cyc)
      from detect_cycle_real(1) [OF this] False p Inl show ?thesis by simp
    next
      case (Inr b)
      have "listed tasks b \<and> black \<subseteq> b \<and> name \<in> b"
        by (rule detect_listed(1) [OF Inr assms Cons.prems(1)]) (use Cons.prems(2) p in simp)
      with Cons.IH [of b] Cons.prems(2) p False Inr show ?thesis by (auto split: sum.splits)
    qed
  qed
qed simp

lemma is_cycle_cyclic:
  assumes "is_cycle tasks cyc"
  shows "\<not> acyclic (dep_rel tasks)"
proof -
  from assms obtain n body where c: "cyc = n # body @ [n]" "successively (\<lambda>a b. (a, b) \<in> dep_rel tasks) (n # body @ [n])"
    by (auto simp: is_cycle_def)
  have walk: "successively (\<lambda>a b. (a, b) \<in> dep_rel tasks) (x # xs @ [y]) \<Longrightarrow> (x, y) \<in> (dep_rel tasks)\<^sup>+" for x y xs
    by (induction xs arbitrary: x) (auto intro: trancl_into_trancl2)
  from walk [OF c(2)] show ?thesis by (auto simp: acyclic_def)
qed

lemma validate_cases:
  assumes "std_map tasks"
  shows "case validateTaskGraph tasks of
           Inr _ \<Rightarrow> closed tasks \<and> acyclic (dep_rel tasks)
         | Inl e \<Rightarrow> (\<exists>a b. e = UndefinedDependency a b \<and> (a, b) \<in> dep_rel tasks \<and> b \<notin> fst ` set tasks) \<or>
                    (\<exists>cyc. e = CyclicDependsOn cyc \<and> is_cycle tasks cyc)"
proof (cases "undefined_dependency tasks")
  case (Some p)
  then show ?thesis using undefined_dependency_iff(2) [OF assms, of "fst p" "snd p"]
    by (cases p) (simp add: validateTaskGraph_def)
next
  case None
  then have cl: "closed tasks" using undefined_dependency_iff(1) [OF assms] by simp
  have "listed tasks {}" by (simp add: listed_def)
  from search_result [OF cl this, of tasks] None cl listed_no_cycle [OF cl] show ?thesis
    by (cases "search tasks tasks {}") (auto simp: validateTaskGraph_def)
qed

text \<open>C24: The check of the task graph accepts exactly the graphs in which every dependency is a
  task and no task depends on itself, directly or through others. What it reports is there: the
  undefined dependency that it names, or a cycle along declared dependencies that repeats no task.\<close>

theorem validateTaskGraph_decides:
  assumes "std_map tasks"
  shows "(validateTaskGraph tasks = Inr () \<longleftrightarrow>
      (\<forall>(a, b) \<in> dep_rel tasks. b \<in> fst ` set tasks) \<and> acyclic (dep_rel tasks)) \<and>
    (\<forall>e. validateTaskGraph tasks = Inl e \<longrightarrow>
      (\<exists>a b. e = UndefinedDependency a b \<and> (a, b) \<in> dep_rel tasks \<and> b \<notin> fst ` set tasks) \<or>
      (\<exists>cyc. e = CyclicDependsOn cyc \<and> is_cycle tasks cyc))"
  using validate_cases [OF assms] is_cycle_cyclic closed_iff [of tasks]
  by (cases "validateTaskGraph tasks") auto

subsection \<open>The order of the tasks\<close>

text \<open>While the tasks \<open>P\<close> are being expanded, everything else that was visited is in the
  order already, after its dependencies.\<close>

definition topo_inv :: "'o tasks \<Rightarrow> string set \<Rightarrow> string set \<times> string list \<Rightarrow> bool" where
  "topo_inv tasks P s \<longleftrightarrow>
     fst s = set (snd s) \<union> P \<and> set (snd s) \<inter> P = {} \<and> distinct (snd s) \<and> deps_first tasks (snd s)"

lemma topo_all_order:
  assumes "closed tasks" "acyclic (dep_rel tasks)"
  shows "topo_inv tasks P s \<Longrightarrow> set roots \<subseteq> fst ` set tasks \<Longrightarrow>
    (\<forall>r \<in> set roots. \<forall>p \<in> P. (p, r) \<in> (dep_rel tasks)\<^sup>+) \<Longrightarrow>
    topo_inv tasks P (topo_all tasks roots s) \<and> set roots \<subseteq> set (snd (topo_all tasks roots s)) \<and>
    set (snd s) \<subseteq> set (snd (topo_all tasks roots s)) \<and>
    set (snd (topo_all tasks roots s)) \<subseteq> set (snd s) \<union> (dep_rel tasks)\<^sup>* `` set roots"
  using assms
proof (induction tasks roots s arbitrary: P rule: topo_all.induct)
  case (2 tasks root roots s)
  have noself: "root \<notin> P" using "2.prems"(3,5) by (auto simp: acyclic_def)
  show ?case
  proof (cases "root \<in> fst s")
    case True
    then have "root \<in> set (snd s)" using "2.prems"(1) noself by (auto simp: topo_inv_def)
    with "2.IH"(1) [OF True "2.prems"(1)] "2.prems"(2-5) True show ?thesis by auto
  next
    case False
    from "2.prems"(2) obtain t where t: "map_of tasks root = Some t"
      by (cases "map_of tasks root") (auto simp: map_of_eq_None_iff)
    define s1 where "s1 = topo_all tasks (dependsOn t) (insert root (fst s), snd s)"
    have k: "kids tasks root = set (dependsOn t)" using t by (simp add: kids_def)
    have edge: "(root, d) \<in> dep_rel tasks" if "d \<in> set (dependsOn t)" for d
      using that t by (auto simp: dep_rel_def)
    have "topo_inv tasks (insert root P) (insert root (fst s), snd s)"
      using "2.prems"(1) False by (auto simp: topo_inv_def)
    moreover have "set (dependsOn t) \<subseteq> fst ` set tasks" using "2.prems"(4) k unfolding closed_def by blast
    moreover have "\<forall>d \<in> set (dependsOn t). \<forall>p \<in> insert root P. (p, d) \<in> (dep_rel tasks)\<^sup>+"
      using edge "2.prems"(3) by (auto intro: trancl_into_trancl)
    ultimately have s1: "topo_inv tasks (insert root P) s1" "set (dependsOn t) \<subseteq> set (snd s1)"
        "set (snd s) \<subseteq> set (snd s1)" "set (snd s1) \<subseteq> set (snd s) \<union> (dep_rel tasks)\<^sup>* `` set (dependsOn t)"
      using "2.IH"(3) [OF False t, of "insert root P"] "2.prems"(4,5) by (simp_all add: s1_def)
    have "deps_first tasks (snd s1 @ [root])"
      using s1(1,2) k by (intro deps_first_snoc) (simp_all add: topo_inv_def)
    then have i2: "topo_inv tasks P (fst s1, snd s1 @ [root])"
      using s1(1) noself by (auto simp: topo_inv_def)
    have reach: "(dep_rel tasks)\<^sup>* `` set (dependsOn t) \<subseteq> (dep_rel tasks)\<^sup>* `` {root}"
      using edge by (auto intro: converse_rtrancl_into_rtrancl)
    have eq: "topo_all tasks (root # roots) s = topo_all tasks roots (fst s1, snd s1 @ [root])"
      using False t by (simp add: s1_def Let_def)
    have IH: "topo_inv tasks P (topo_all tasks roots (fst s1, snd s1 @ [root])) \<and>
        set roots \<subseteq> set (snd (topo_all tasks roots (fst s1, snd s1 @ [root]))) \<and>
        set (snd s1 @ [root]) \<subseteq> set (snd (topo_all tasks roots (fst s1, snd s1 @ [root]))) \<and>
        set (snd (topo_all tasks roots (fst s1, snd s1 @ [root]))) \<subseteq>
          set (snd s1 @ [root]) \<union> (dep_rel tasks)\<^sup>* `` set roots"
      using "2.IH"(4) [OF False t s1_def, of P] i2 "2.prems"(2-5) by simp
    define R where "R = (dep_rel tasks)\<^sup>* `` {root}"
    define Q where "Q = (dep_rel tasks)\<^sup>* `` set roots"
    define out where "out = topo_all tasks roots (fst s1, snd s1 @ [root])"
    have im: "(dep_rel tasks)\<^sup>* `` set (root # roots) = R \<union> Q" "root \<in> R" by (auto simp: R_def Q_def)
    have IH': "topo_inv tasks P out" "set roots \<subseteq> set (snd out)" "insert root (set (snd s1)) \<subseteq> set (snd out)"
        "set (snd out) \<subseteq> insert root (set (snd s1)) \<union> Q"
      using IH by (simp_all add: out_def Q_def)
    have "set (snd s1) \<subseteq> set (snd s) \<union> R" using s1(4) reach by (auto simp: R_def)
    with IH'(4) im(2) have "set (snd out) \<subseteq> set (snd s) \<union> (R \<union> Q)" by blast
    moreover have "set (snd s) \<subseteq> set (snd out)" "set (root # roots) \<subseteq> set (snd out)" using IH' s1(3) by auto
    ultimately show ?thesis unfolding eq im(1) out_def [symmetric] using IH'(1) by blast
  qed
qed simp

lemma topoOrder_facts:
  assumes "closed tasks" "acyclic (dep_rel tasks)" "root \<in> fst ` set tasks"
  shows "distinct (topoOrder tasks root)" "deps_first tasks (topoOrder tasks root)"
    "set (topoOrder tasks root) = (dep_rel tasks)\<^sup>* `` {root}" "last (topoOrder tasks root) = root"
proof -
  let ?s = "topo_all tasks [root] ({}, [])"
  have f: "topo_inv tasks {} ?s" "root \<in> set (snd ?s)" "set (snd ?s) \<subseteq> (dep_rel tasks)\<^sup>* `` {root}"
    using topo_all_order [OF assms(1,2), of "{}" "({}, [])" "[root]"] assms(3) by (auto simp: topo_inv_def)
  then show d: "distinct (topoOrder tasks root)" "deps_first tasks (topoOrder tasks root)"
    by (auto simp: topo_inv_def topoOrder_def)
  have "x \<in> set (snd ?s)" if "(root, x) \<in> (dep_rel tasks)\<^sup>*" for x
    using that
  proof (induction rule: rtrancl_induct)
    case (step y z)
    then obtain k where k: "k < length (snd ?s)" "snd ?s ! k = y" by (auto simp: in_set_conv_nth)
    then have "kids tasks y \<subseteq> set (take k (snd ?s))" using f(1) by (auto simp: topo_inv_def deps_first_def)
    then show ?case using step(2) set_take_subset by (fastforce simp: dep_rel_kids)
  qed (rule f(2))
  with f(3) show "set (topoOrder tasks root) = (dep_rel tasks)\<^sup>* `` {root}" by (auto simp: topoOrder_def)
  obtain t where "map_of tasks root = Some t"
    using assms(3) by (cases "map_of tasks root") (auto simp: map_of_eq_None_iff)
  then show "last (topoOrder tasks root) = root" by (simp add: topoOrder_def Let_def)
qed

subsection \<open>Examples\<close>

definition demo_task :: "string \<Rightarrow> string list \<Rightarrow> unit Task" where
  "demo_task name deps =
     \<lparr>t_name = name, t_description = None, dependsOn = deps, t_params = [], t_actions = [], t_outputs = [],
      t_workingDir = None, t_env = []\<rparr>"

definition demo_tasks :: "unit tasks" where
  "demo_tasks = [(''build'', demo_task ''build'' [''gen'']), (''gen'', demo_task ''gen'' []),
     (''test'', demo_task ''test'' [''build'', ''gen''])]"

lemma demo_tasks_map: "std_map demo_tasks"
  by (simp add: demo_tasks_def std_map_Cons)

theorem validateTaskGraph_decides_witness:
  "validateTaskGraph demo_tasks = Inr () \<and> acyclic (dep_rel demo_tasks)"
proof -
  have "validateTaskGraph demo_tasks = Inr ()" by code_simp
  then show ?thesis using validateTaskGraph_decides [OF demo_tasks_map] by simp
qed

subsection \<open>What parsing gives\<close>

text \<open>A parsed block is a map: each task under its own name, the names ascending.\<close>

definition tasks_wf :: "'o tasks \<Rightarrow> bool" where
  "tasks_wf tasks \<longleftrightarrow> std_map tasks \<and> (\<forall>(n, t) \<in> set tasks. t_name t = n \<and> std_map (t_outputs t) \<and> std_map (t_env t))"

lemma string_members_map: "string_members J complain ob = Inr m \<Longrightarrow> std_map m"
  unfolding string_members_def
  by (rule foldE_invariant [where P = std_map]) (auto split: option.splits)

lemma parseStringMap_map: "parseStringMap J name field block = Inr m \<Longrightarrow> std_map m"
  by (auto simp: parseStringMap_def string_members_map split: option.splits)

lemma parse_task_wf:
  "parse_task J B exists fuel name v = Some (Inr t) \<Longrightarrow> t_name t = name \<and> std_map (t_outputs t) \<and> std_map (t_env t)"
  by (auto simp: parse_task_def parseStringMap_map split: option.splits sum.splits elim!: bindE_Inr_cases)

lemma tasks_wf_put:
  assumes "tasks_wf m" "t_name t = n" "std_map (t_outputs t)" "std_map (t_env t)"
  shows "tasks_wf (map_put n t m)"
proof -
  have "set (map_put n t m) \<subseteq> insert (n, t) (set m)" for m :: "'a tasks"
    by (induction n t m rule: map_put.induct) auto
  with assms show ?thesis by (fastforce simp: tasks_wf_def)
qed

lemma parse_task_list_wf:
  "parse_task_list J B exists fuel ms out = Some (Inr tasks) \<Longrightarrow> tasks_wf out \<Longrightarrow> tasks_wf tasks"
proof (induction ms arbitrary: out)
  case (Cons p ms)
  obtain name v where p: "p = (name, v)" by fastforce
  with Cons.prems(1) obtain t where t: "parse_task J B exists fuel name v = Some (Inr t)"
      and r: "parse_task_list J B exists fuel ms (map_put name t out) = Some (Inr tasks)"
    by (auto split: Option.bind_splits sum.splits)
  from Cons.IH [OF r] tasks_wf_put [OF Cons.prems(2)] parse_task_wf [OF t] show ?case by blast
qed simp

lemma parseTasks_wf: "parseTasks J B exists fuel m = Some (Inr tasks) \<Longrightarrow> tasks_wf tasks"
  by (auto simp: parseTasks_def tasks_wf_def dest!: parse_task_list_wf split: option.splits)

text \<open>The fuel suffices for a document whose values are less deep.\<close>

lemma parse_entries_returns:
  "json_depth J d \<Longrightarrow> d v < fuel \<Longrightarrow> parseActionEntry J B exists taskName fuel bc v \<noteq> None"
  "json_depth J d \<Longrightarrow> \<forall>v \<in> set vs. d v < fuel \<Longrightarrow> parse_entries J B exists taskName fuel bc i vs \<noteq> None"
proof (induction J B exists taskName fuel bc v and J B exists taskName fuel bc i vs
    rule: parseActionEntry_parse_entries.induct)
  case (2 J B exists taskName fuel bc v)
  show ?case
  proof (cases "asObject J v")
    case (Some ob)
    have "\<forall>w \<in> set arr. d w < fuel" if "getArray J ob ''parallel'' = Some arr" for arr
      using that Some 2(2,3) by (fastforce simp: json_depth_def getArray_def get_def dest!: map_of_SomeD split: Option.bind_splits)
    then have "parse_entries J B exists taskName fuel (bc @ ''.parallel'') 0 arr \<noteq> None"
      if "getArray J ob ''parallel'' = Some arr" "get J ob ''parallel'' \<noteq> None" "unknown_field J [''parallel''] ob = None"
        "is_set (get J ob ''parallel'') + is_set (get J ob ''run-task'') + is_set (get J ob ''action'') = 1" for arr
      using that 2(1) [OF Some refl _ _ that(2,3,1)] 2(2) by simp
    with Some show ?thesis
      by (auto simp: Let_def split: option.splits)
  qed simp
next
  case (4 J B exists taskName fuel bc i v vs)
  then show ?case by (auto split: Option.bind_splits sum.splits)
qed simp_all

lemma parse_task_returns:
  assumes "json_depth J d" "d v \<le> fuel"
  shows "parse_task J B exists fuel name v \<noteq> None"
proof -
  have "\<forall>w \<in> set arr. d w < fuel" if "asObject J v = Some ob" "getArray J ob ''actions'' = Some arr" for ob arr
    proof -
    from that(2) obtain a where "(''actions'', a) \<in> set (members J ob)" "asArray J a = Some arr"
      by (auto simp: getArray_def get_def dest!: map_of_SomeD split: Option.bind_splits)
    with that(1) assms show ?thesis unfolding json_depth_def by (meson order_less_le_trans order_less_trans)
  qed
  with parse_entries_returns(2) [OF assms(1)] show ?thesis
    by (auto simp: parse_task_def split: option.splits sum.splits)
qed

lemma parse_task_list_returns:
  assumes "json_depth J d"
  shows "\<forall>(k, v) \<in> set ms. d v \<le> fuel \<Longrightarrow> parse_task_list J B exists fuel ms out \<noteq> None"
proof (induction ms arbitrary: out)
  case (Cons p ms)
  then obtain r where "parse_task J B exists fuel (fst p) (snd p) = Some r"
    using parse_task_returns [OF assms, of "snd p" fuel B exists "fst p"] by (cases p) auto
  with Cons show ?case by (cases p; cases r) simp_all
qed simp

lemma parseTasks_returns:
  assumes "json_depth J d" and "\<And>block k v. m_tasksRaw m = Some block \<Longrightarrow> (k, v) \<in> set (members J block) \<Longrightarrow> d v \<le> fuel"
  shows "parseTasks J B exists fuel m \<noteq> None"
proof (cases "m_tasksRaw m")
  case (Some block)
  with assms(2) have "\<forall>(k, v) \<in> set (members J block). d v \<le> fuel" by blast
  with parse_task_list_returns [OF assms(1)] Some show ?thesis by (simp add: parseTasks_def)
qed (simp add: parseTasks_def)

end
