(* ===== verification/Task_Runner.thy ===== *)
theory Task_Runner
  imports Task_Graph
begin

text \<open>
  The execution of tasks (\<open>buildtool/TaskRunner.h\<close>, \<open>TaskRunner.cpp\<close> and the
  \<open>TaskContext\<close> of \<open>Action.h\<close>, \<open>Action.cpp\<close>). What an action does is outside: the
  registry gives for a name the outcome of the action at each \<^emph>\<open>occurrence\<close>, which is the
  chain of the places in the tasks from which the run got to it. That fixes an answer for each occurrence.
  Actions of a parallel group share the file system, and an answer may depend on what the others have
  done by then; \<open>schedule\<close> is a run in which an action answers anything when its turn comes, and
  \<open>interleavings_agree\<close> shows that an occurrence happens once in it, so that a registry
  with the answers of that schedule stands for it.
\<close>

subsection \<open>The context\<close>

text \<open>The properties and the manifest of a context never change in a run and are in the
  \<open>session\<close> below.\<close>

record TaskContext =
  boundParams :: "string \<rightharpoonup> string"
  cliParams :: "(string \<times> string) list"
  actionOutputs :: "string \<rightharpoonup> (string \<rightharpoonup> string)"

text \<open>The run's surroundings: the JSON library with the parsing of numbers of
  \<open>llvm::StringRef\<close>, the properties, the bound on the depth of JSON values, and the actions with
  the parameters and the context that they get.\<close>

record ('v, 'o) session =
  sn_json :: "('v, 'o) json"
  sn_builder :: "('v, 'o) builder"
  sn_process :: process
  sn_props :: ResolvedProperties
  getAsInteger :: "string \<Rightarrow> int option"
  getAsDouble :: "string \<Rightarrow> 'v option"
  sn_depth :: nat
  registry :: "string \<Rightarrow> (string list \<Rightarrow> 'o \<Rightarrow> TaskContext \<Rightarrow> string + (string \<rightharpoonup> string)) option"

datatype run_error =
    Undefined string string
  | RequiresParam string string
  | UnknownTask string string
  | UnknownAction string string
  | DuplicateId string string
  | BuildStep string string string
  | Children "run_error list"
  | BadGraph task_error
  | NoSuchTask string

definition new_context :: TaskContext where
  "new_context = \<lparr>boundParams = Map.empty, cliParams = [], actionOutputs = Map.empty\<rparr>"

definition setParam :: "string \<Rightarrow> string \<Rightarrow> TaskContext \<Rightarrow> TaskContext" where
  "setParam name v ctx = ctx\<lparr>boundParams := (boundParams ctx)(name \<mapsto> v)\<rparr>"

definition setCliParams :: "(string \<times> string) list \<Rightarrow> TaskContext \<Rightarrow> TaskContext" where
  "setCliParams values ctx = ctx\<lparr>cliParams := values\<rparr>"

definition publishOutputs :: "string \<Rightarrow> (string \<rightharpoonup> string) \<Rightarrow> TaskContext \<Rightarrow> TaskContext" where
  "publishOutputs ident outputs ctx =
     (if ident = [] then ctx else ctx\<lparr>actionOutputs := (actionOutputs ctx)(ident \<mapsto> outputs)\<rparr>)"

definition snapshot :: "TaskContext \<Rightarrow> TaskContext" where
  "snapshot ctx = new_context\<lparr>boundParams := boundParams ctx, actionOutputs := actionOutputs ctx\<rparr>"

definition mergeOutputs :: "TaskContext \<Rightarrow> TaskContext \<Rightarrow> TaskContext" where
  "mergeOutputs other ctx = ctx\<lparr>actionOutputs := actionOutputs ctx ++ actionOutputs other\<rparr>"

definition output_field :: "TaskContext \<Rightarrow> string \<Rightarrow> string option" where
  "output_field ctx name =
     (if CHR ''.'' \<in> set name then
        Option.bind (actionOutputs ctx (takeWhile (\<lambda>c. c \<noteq> CHR ''.'') name))
          (\<lambda>outs. outs (tl (dropWhile (\<lambda>c. c \<noteq> CHR ''.'') name)))
      else None)"

definition ctx_lookup :: "('v, 'o) session \<Rightarrow> TaskContext \<Rightarrow> string \<Rightarrow> string option" where
  "ctx_lookup S ctx name =
     (if length name > 7 \<and> take 7 name = ''params.'' then boundParams ctx (drop 7 name)
      else case output_field ctx name of
        Some v \<Rightarrow> Some v
      | None \<Rightarrow> lookup (sn_process S) (sn_props S) name)"

text \<open>The file has a loop of its own that is the one of \<open>Properties.cpp\<close> character by
  character.\<close>

definition ctx_substituteOnce :: "(string \<Rightarrow> string option) \<Rightarrow> string \<Rightarrow> string + string" where
  "ctx_substituteOnce look s = substituteOnce look s"

definition ctx_substitute :: "('v, 'o) session \<Rightarrow> TaskContext \<Rightarrow> string \<Rightarrow> string \<Rightarrow> run_error + string" where
  "ctx_substitute S ctx whereContext s =
     (case ctx_substituteOnce (ctx_lookup S ctx) s of
        Inl missing \<Rightarrow> Inl (Undefined whereContext missing)
      | Inr r \<Rightarrow> Inr r)"

subsection \<open>Parameters and conditions\<close>

definition quoted_task :: "string \<Rightarrow> string" where
  "quoted_task name = ''task '' @ [CHR 0x27] @ name @ [CHR 0x27]"

definition bind_param ::
    "('v, 'o) session \<Rightarrow> string \<Rightarrow> (string \<rightharpoonup> string) \<Rightarrow> TaskParamSpec \<Rightarrow> TaskContext \<Rightarrow>
     run_error + TaskContext" where
  "bind_param S task cli spec ctx =
     (case cli (tp_name spec) of
        Some v \<Rightarrow> Inr (setParam (tp_name spec) v ctx)
      | None \<Rightarrow>
     (case defaultValue spec of
        Some d \<Rightarrow>
          bindE (ctx_substitute S ctx (quoted_task task @ '' params.'' @ tp_name spec @ '' default'') d) (\<lambda>r.
            Inr (setParam (tp_name spec) r ctx))
      | None \<Rightarrow> if tp_required spec then Inl (RequiresParam task (tp_name spec)) else Inr ctx))"

definition bindParams ::
    "('v, 'o) session \<Rightarrow> 'o Task \<Rightarrow> (string \<times> string) list \<Rightarrow> TaskContext \<Rightarrow> run_error + TaskContext" where
  "bindParams S task cli = foldE (bind_param S (t_name task) (map_of cli)) (t_params task)"

text \<open>The recursion over a JSON value; \<^term>\<open>None\<close> is one that is deeper than the fuel.\<close>

fun substituteValue ::
    "('v, 'o) session \<Rightarrow> TaskContext \<Rightarrow> nat \<Rightarrow> string \<Rightarrow> 'v \<Rightarrow> (run_error + 'v) option"
and substitute_members ::
    "('v, 'o) session \<Rightarrow> TaskContext \<Rightarrow> nat \<Rightarrow> string \<Rightarrow> (string \<times> 'v) list \<Rightarrow> 'o \<Rightarrow> (run_error + 'o) option"
and substitute_elements ::
    "('v, 'o) session \<Rightarrow> TaskContext \<Rightarrow> nat \<Rightarrow> string \<Rightarrow> nat \<Rightarrow> 'v list \<Rightarrow> (run_error + 'v list) option"
where
  "substituteValue S ctx 0 site v = None"
| "substituteValue S ctx (Suc fuel) site v =
     (case asString (sn_json S) v of
        Some s \<Rightarrow> Some (bindE (ctx_substitute S ctx site s) (\<lambda>r. Inr (ofString (sn_json S) r)))
      | None \<Rightarrow>
     (case asObject (sn_json S) v of
        Some ob \<Rightarrow>
          map_option (\<lambda>r. bindE r (\<lambda>ob'. Inr (ofObject (sn_builder S) ob')))
            (substitute_members S ctx fuel site (members (sn_json S) ob) (emptyObject (sn_builder S)))
      | None \<Rightarrow>
     (case asArray (sn_json S) v of
        Some vs \<Rightarrow>
          map_option (\<lambda>r. bindE r (\<lambda>vs'. Inr (ofArray (sn_builder S) vs')))
            (substitute_elements S ctx fuel site 0 vs)
      | None \<Rightarrow> Some (Inr v))))"
| "substitute_members S ctx fuel site [] out = Some (Inr out)"
| "substitute_members S ctx fuel site ((k, v) # rest) out =
     Option.bind (substituteValue S ctx fuel (site @ ''.'' @ k) v) (\<lambda>r.
       case r of Inl e \<Rightarrow> Some (Inl e)
               | Inr v' \<Rightarrow> substitute_members S ctx fuel site rest (objSet (sn_builder S) out k v'))"
| "substitute_elements S ctx fuel site i [] = Some (Inr [])"
| "substitute_elements S ctx fuel site i (v # vs) =
     Option.bind (substituteValue S ctx fuel (elem_crumb site i) v) (\<lambda>r.
       case r of Inl e \<Rightarrow> Some (Inl e)
               | Inr v' \<Rightarrow>
                   map_option (\<lambda>r'. bindE r' (\<lambda>vs'. Inr (v' # vs'))) (substitute_elements S ctx fuel site (i + 1) vs))"

definition substituteParams ::
    "('v, 'o) session \<Rightarrow> TaskContext \<Rightarrow> string \<Rightarrow> 'o \<Rightarrow> (run_error + 'o) option" where
  "substituteParams S ctx whereContext ps =
     substitute_members S ctx (sn_depth S) whereContext (members (sn_json S) ps) (emptyObject (sn_builder S))"

definition isTruthy :: "string \<Rightarrow> bool" where
  "isTruthy s = (s \<noteq> [] \<and> s \<noteq> ''false'' \<and> s \<noteq> ''0'' \<and> s \<noteq> ''null'')"

definition shouldSkip ::
    "('v, 'o) session \<Rightarrow> TaskContext \<Rightarrow> string \<Rightarrow> string option \<Rightarrow> string option \<Rightarrow> run_error + bool" where
  "shouldSkip S ctx bc whenExpr skipWhenExpr =
     bindE (case whenExpr of
              None \<Rightarrow> Inr False
            | Some w \<Rightarrow> bindE (ctx_substitute S ctx (bc @ '' when'') w) (\<lambda>r. Inr (\<not> isTruthy r)))
       (\<lambda>skip. if skip then Inr True
               else case skipWhenExpr of
                 None \<Rightarrow> Inr False
               | Some w \<Rightarrow> bindE (ctx_substitute S ctx (bc @ '' skip-when'') w) (\<lambda>r. Inr (isTruthy r)))"

definition coerceCliParam :: "('v, 'o) session \<Rightarrow> string \<Rightarrow> 'v" where
  "coerceCliParam S raw =
     (if raw = ''true'' then ofBool (sn_json S) True
      else if raw = ''false'' then ofBool (sn_json S) False
      else if raw = [] then ofString (sn_json S) raw
      else case getAsInteger S raw of
        Some i \<Rightarrow> ofInteger (sn_builder S) i
      | None \<Rightarrow>
          (case getAsDouble S raw of Some d \<Rightarrow> d | None \<Rightarrow> ofString (sn_json S) raw))"

definition applyCliParamOverrides :: "('v, 'o) session \<Rightarrow> TaskContext \<Rightarrow> 'o \<Rightarrow> 'o" where
  "applyCliParamOverrides S ctx ps =
     fold (\<lambda>(name, v) ps. objSet (sn_builder S) ps name (coerceCliParam S v)) (cliParams ctx) ps"

subsection \<open>Running\<close>

definition runOneInvocation ::
    "('v, 'o) session \<Rightarrow> string list \<Rightarrow> string \<Rightarrow> 'o ActionInvocation \<Rightarrow> TaskContext \<Rightarrow>
     (run_error + TaskContext) option" where
  "runOneInvocation S occ bc iv ctx =
     (case shouldSkip S ctx bc (ai_when iv) (ai_skipWhen iv) of
        Inl e \<Rightarrow> Some (Inl e)
      | Inr True \<Rightarrow> Some (Inr ctx)
      | Inr False \<Rightarrow>
     (case registry S (ai_action iv) of
        None \<Rightarrow> Some (Inl (UnknownAction bc (ai_action iv)))
      | Some action \<Rightarrow>
          map_option
            (\<lambda>r. bindE r (\<lambda>ps.
               case action (bc # occ) (applyCliParamOverrides S ctx ps) ctx of
                 Inl msg \<Rightarrow> Inl (BuildStep bc (ai_action iv) msg)
               | Inr outs \<Rightarrow> Inr (if ai_id iv \<noteq> [] then publishOutputs (ai_id iv) outs ctx else ctx)))
            (substituteParams S ctx bc (ai_params iv))))"

text \<open>The check for duplicate ids, which leaves the children of a parallel group out.\<close>

definition entry_id :: "'o ActionEntry \<Rightarrow> string" where
  "entry_id e = (case e of Invocation iv \<Rightarrow> ai_id iv | RunTask call \<Rightarrow> rt_id call | Parallel _ \<Rightarrow> [])"

fun check_ids :: "string \<Rightarrow> string set \<Rightarrow> 'o ActionEntry list \<Rightarrow> run_error + unit" where
  "check_ids task seen [] = Inr ()"
| "check_ids task seen (e # es) =
     (if entry_id e = [] then check_ids task seen es
      else if entry_id e \<in> seen then Inl (DuplicateId task (entry_id e))
      else check_ids task (insert (entry_id e) seen) es)"

definition substitute_outputs ::
    "('v, 'o) session \<Rightarrow> TaskContext \<Rightarrow> 'o Task \<Rightarrow> run_error + (string \<rightharpoonup> string)" where
  "substitute_outputs S ctx task =
     foldE (\<lambda>(k, v) out.
         bindE (ctx_substitute S ctx (quoted_task (t_name task) @ '' outputs.'' @ k) v) (\<lambda>r. Inr (out(k \<mapsto> r))))
       (t_outputs task) Map.empty"

text \<open>A \<open>run-task\<close> entry up to the actions of the task that it calls, and after them.
  \<^term>\<open>Inr None\<close> is an entry that is skipped.\<close>

definition call_params ::
    "('v, 'o) session \<Rightarrow> TaskContext \<Rightarrow> string \<Rightarrow> RunTaskCall \<Rightarrow> run_error + (string \<times> string) list" where
  "call_params S ctx bc call =
     foldE (\<lambda>(k, v) out. bindE (ctx_substitute S ctx (bc @ '' params.'' @ k) v) (\<lambda>r. Inr (map_put k r out)))
       (rt_params call) []"

definition start_call ::
    "('v, 'o) session \<Rightarrow> 'o tasks \<Rightarrow> string \<Rightarrow> RunTaskCall \<Rightarrow> TaskContext \<Rightarrow>
     run_error + ('o Task \<times> TaskContext) option" where
  "start_call S tasks bc call parentCtx =
     bindE (shouldSkip S parentCtx bc (rt_when call) (rt_skipWhen call)) (\<lambda>skip.
       if skip then Inr None
       else case map_of tasks (rt_taskName call) of
         None \<Rightarrow> Inl (UnknownTask bc (rt_taskName call))
       | Some called \<Rightarrow>
           bindE (call_params S parentCtx bc call) (\<lambda>cli.
           bindE (bindParams S called cli new_context) (\<lambda>childCtx.
           bindE (check_ids (t_name called) {} (t_actions called)) (\<lambda>_. Inr (Some (called, childCtx))))))"

definition end_call ::
    "('v, 'o) session \<Rightarrow> 'o Task \<Rightarrow> RunTaskCall \<Rightarrow> TaskContext \<Rightarrow> run_error + TaskContext \<Rightarrow>
     run_error + TaskContext" where
  "end_call S called call parentCtx result =
     bindE result (\<lambda>childCtx.
     bindE (substitute_outputs S childCtx called) (\<lambda>outs.
       Inr (if rt_id call \<noteq> [] then publishOutputs (rt_id call) outs parentCtx else parentCtx)))"

text \<open>The join of a parallel group. The source collects the texts of the errors; none is empty, as
  each names its place.\<close>

definition join_children :: "TaskContext \<Rightarrow> (run_error + TaskContext) list \<Rightarrow> run_error + TaskContext" where
  "join_children parentCtx results =
     (let errors = concat (map (\<lambda>r. case r of Inl e \<Rightarrow> [e] | Inr _ \<Rightarrow> []) results);
          ctxs = concat (map (\<lambda>r. case r of Inl _ \<Rightarrow> [] | Inr c \<Rightarrow> [c]) results)
      in if errors \<noteq> [] then Inl (Children errors) else Inr (fold mergeOutputs ctxs parentCtx))"

definition entry_crumb :: "string \<Rightarrow> nat \<Rightarrow> string" where
  "entry_crumb base i = base @ '' actions['' @ show_nat i @ '']''"

definition child_crumb :: "string \<Rightarrow> nat \<Rightarrow> string" where
  "child_crumb bc i = bc @ ''.parallel['' @ show_nat i @ '']''"

text \<open>The entries of a task, with the children of a group one after the other, each with a context of its own;
  \<open>interleavings_agree\<close> below is about the threads that the source makes of them.
  The fuel bounds the nesting of \<open>run-task\<close>; \<^term>\<open>None\<close> is a run that needs more. The set
  \<open>executedTasks\<close> that the source hands down is never read.\<close>

function runEntries ::
    "('v, 'o) session \<Rightarrow> 'o tasks \<Rightarrow> nat \<Rightarrow> string list \<Rightarrow> string \<Rightarrow> nat \<Rightarrow> 'o ActionEntry list \<Rightarrow>
     TaskContext \<Rightarrow> (run_error + TaskContext) option"
and run_children ::
    "('v, 'o) session \<Rightarrow> 'o tasks \<Rightarrow> nat \<Rightarrow> string list \<Rightarrow> string \<Rightarrow> nat \<Rightarrow> 'o ActionEntry list \<Rightarrow>
     TaskContext \<Rightarrow> (run_error + TaskContext) list option"
where
  "runEntries S tasks fuel occ base i [] ctx = Some (Inr ctx)"
| "runEntries S tasks fuel occ base i (e # es) ctx =
     Option.bind
       (case e of
          Invocation iv \<Rightarrow> runOneInvocation S occ (entry_crumb base i) iv ctx
        | Parallel children \<Rightarrow>
            if children = [] then Some (Inr ctx)
            else map_option (join_children ctx) (run_children S tasks fuel occ (entry_crumb base i) 0 children ctx)
        | RunTask call \<Rightarrow>
            (case start_call S tasks (entry_crumb base i) call ctx of
               Inl err \<Rightarrow> Some (Inl err)
             | Inr None \<Rightarrow> Some (Inr ctx)
             | Inr (Some (called, childCtx)) \<Rightarrow>
                 (case fuel of
                    0 \<Rightarrow> None
                  | Suc fuel' \<Rightarrow>
                      map_option (end_call S called call ctx)
                        (runEntries S tasks fuel' (entry_crumb base i # occ) (quoted_task (t_name called)) 0
                           (t_actions called) childCtx))))
       (\<lambda>r. case r of
          Inl err \<Rightarrow> Some (Inl err)
        | Inr ctx' \<Rightarrow> runEntries S tasks fuel occ base (Suc i) es ctx')"
| "run_children S tasks fuel occ bc i [] ctx = Some []"
| "run_children S tasks fuel occ bc i (c # cs) ctx =
     Option.bind (runEntries S tasks fuel occ (child_crumb bc i) 0 [c] (snapshot ctx)) (\<lambda>r.
       map_option (Cons r) (run_children S tasks fuel occ bc (Suc i) cs ctx))"
  by pat_completeness auto
termination
  by (relation "measures
      [\<lambda>x. case x of Inl (S, tasks, fuel, occ, base, i, es, ctx) \<Rightarrow> fuel | Inr (S, tasks, fuel, occ, bc, i, cs, ctx) \<Rightarrow> fuel,
       \<lambda>x. case x of Inl (S, tasks, fuel, occ, base, i, es, ctx) \<Rightarrow> 2 * size_list size es
            | Inr (S, tasks, fuel, occ, bc, i, cs, ctx) \<Rightarrow> 2 * size_list size cs + 1]") auto

definition runParallel ::
    "('v, 'o) session \<Rightarrow> 'o tasks \<Rightarrow> nat \<Rightarrow> string list \<Rightarrow> string \<Rightarrow> 'o ActionEntry list \<Rightarrow> TaskContext \<Rightarrow>
     (run_error + TaskContext) option" where
  "runParallel S tasks fuel occ bc children ctx =
     (if children = [] then Some (Inr ctx)
      else map_option (join_children ctx) (run_children S tasks fuel occ bc 0 children ctx))"

definition runOneRunTask ::
    "('v, 'o) session \<Rightarrow> 'o tasks \<Rightarrow> nat \<Rightarrow> string list \<Rightarrow> string \<Rightarrow> RunTaskCall \<Rightarrow> TaskContext \<Rightarrow>
     (run_error + TaskContext) option" where
  "runOneRunTask S tasks fuel occ bc call ctx =
     (case start_call S tasks bc call ctx of
        Inl err \<Rightarrow> Some (Inl err)
      | Inr None \<Rightarrow> Some (Inr ctx)
      | Inr (Some (called, childCtx)) \<Rightarrow>
          (case fuel of
             0 \<Rightarrow> None
           | Suc fuel' \<Rightarrow>
               map_option (end_call S called call ctx)
                 (runEntries S tasks fuel' (bc # occ) (quoted_task (t_name called)) 0 (t_actions called) childCtx)))"

definition run_entry ::
    "('v, 'o) session \<Rightarrow> 'o tasks \<Rightarrow> nat \<Rightarrow> string list \<Rightarrow> string \<Rightarrow> 'o ActionEntry \<Rightarrow> TaskContext \<Rightarrow>
     (run_error + TaskContext) option" where
  "run_entry S tasks fuel occ bc e ctx =
     (case e of
        Invocation iv \<Rightarrow> runOneInvocation S occ bc iv ctx
      | Parallel children \<Rightarrow> runParallel S tasks fuel occ bc children ctx
      | RunTask call \<Rightarrow> runOneRunTask S tasks fuel occ bc call ctx)"

text \<open>The loop in terms of its three cases.\<close>

lemma runEntries_Cons [simp]:
  "runEntries S tasks fuel occ base i (e # es) ctx =
     Option.bind (run_entry S tasks fuel occ (entry_crumb base i) e ctx) (\<lambda>r.
       case r of Inl err \<Rightarrow> Some (Inl err) | Inr ctx' \<Rightarrow> runEntries S tasks fuel occ base (Suc i) es ctx')"
  by (simp add: run_entry_def runParallel_def runOneRunTask_def split: ActionEntry.splits)

declare runEntries.simps(2) [simp del]

definition runOneTask ::
    "('v, 'o) session \<Rightarrow> 'o tasks \<Rightarrow> nat \<Rightarrow> 'o Task \<Rightarrow> (string \<times> string) list \<Rightarrow>
     (run_error + (string \<rightharpoonup> string)) option" where
  "runOneTask S tasks fuel task cli =
     (case bindE (bindParams S task cli new_context) (\<lambda>ctx.
           bindE (check_ids (t_name task) {} (t_actions task)) (\<lambda>_. Inr (setCliParams cli ctx))) of
        Inl e \<Rightarrow> Some (Inl e)
      | Inr ctx \<Rightarrow>
          map_option (\<lambda>r. bindE r (\<lambda>ctx'. substitute_outputs S ctx' task))
            (runEntries S tasks fuel [] (quoted_task (t_name task)) 0 (t_actions task) ctx))"

text \<open>The loop over the tasks in their order, with the tasks that were executed and the outputs of
  the target.\<close>

fun run_order ::
    "('v, 'o) session \<Rightarrow> 'o tasks \<Rightarrow> nat \<Rightarrow> string \<Rightarrow> (string \<times> string) list \<Rightarrow> string list \<Rightarrow>
     string list \<times> (string \<rightharpoonup> string) \<Rightarrow> (string list \<times> (run_error + (string \<rightharpoonup> string))) option" where
  "run_order S tasks fuel target cli [] (executed, outs) = Some (executed, Inr outs)"
| "run_order S tasks fuel target cli (name # names) (executed, outs) =
     (case map_of tasks name of
        None \<Rightarrow> Some (executed, Inl (NoSuchTask name))
      | Some task \<Rightarrow>
          Option.bind (runOneTask S tasks fuel task (if name = target then cli else [])) (\<lambda>r.
            case r of
              Inl e \<Rightarrow> Some (executed, Inl e)
            | Inr o1 \<Rightarrow>
                run_order S tasks fuel target cli names
                  (executed @ [name], if name = target then o1 else outs)))"

definition runTask ::
    "('v, 'o) session \<Rightarrow> 'o tasks \<Rightarrow> nat \<Rightarrow> string \<Rightarrow> (string \<times> string) list \<Rightarrow>
     (string list \<times> (run_error + (string \<rightharpoonup> string))) option" where
  "runTask S tasks fuel taskName cli =
     (case validateTaskGraph tasks of
        Inl e \<Rightarrow> Some ([], Inl (BadGraph e))
      | Inr _ \<Rightarrow>
          (case map_of tasks taskName of
             None \<Rightarrow> Some ([], Inl (NoSuchTask taskName))
           | Some _ \<Rightarrow> run_order S tasks fuel taskName cli (topoOrder tasks taskName) ([], Map.empty)))"

subsection \<open>Threads\<close>

text \<open>The run as the threads take it: a parallel group forks one thread for each child, any of
  which may make the next step, and the group goes on when all have ended.\<close>

datatype 'o thread =
    Running "string list" string nat "'o ActionEntry list" TaskContext
  | Joining "string list" string nat "'o ActionEntry list" TaskContext "'o thread list"
  | Calling "string list" string nat "'o ActionEntry list" TaskContext "'o Task" RunTaskCall "'o thread"
  | Done "run_error + TaskContext"

definition resume ::
    "string list \<Rightarrow> string \<Rightarrow> nat \<Rightarrow> 'o ActionEntry list \<Rightarrow> run_error + TaskContext \<Rightarrow> 'o thread" where
  "resume occ base i es r = (case r of Inl e \<Rightarrow> Done (Inl e) | Inr ctx \<Rightarrow> Running occ base i es ctx)"

fun forked :: "string list \<Rightarrow> string \<Rightarrow> nat \<Rightarrow> 'o ActionEntry list \<Rightarrow> TaskContext \<Rightarrow> 'o thread list" where
  "forked occ bc j [] ctx = []"
| "forked occ bc j (c # cs) ctx = Running occ (child_crumb bc j) 0 [c] (snapshot ctx) # forked occ bc (Suc j) cs ctx"

inductive thread_step :: "('v, 'o) session \<Rightarrow> 'o tasks \<Rightarrow> 'o thread \<Rightarrow> 'o thread \<Rightarrow> bool"
  for S :: "('v, 'o) session" and tasks :: "'o tasks"
where
  Finish: "thread_step S tasks (Running occ base i [] ctx) (Done (Inr ctx))"
| Invoke: "runOneInvocation S occ (entry_crumb base i) iv ctx = Some r \<Longrightarrow>
    thread_step S tasks (Running occ base i (Invocation iv # es) ctx) (resume occ base (Suc i) es r)"
| Empty: "thread_step S tasks (Running occ base i (Parallel [] # es) ctx) (Running occ base (Suc i) es ctx)"
| Fork: "cs \<noteq> [] \<Longrightarrow>
    thread_step S tasks (Running occ base i (Parallel cs # es) ctx)
      (Joining occ base (Suc i) es ctx (forked occ (entry_crumb base i) 0 cs ctx))"
| Child: "thread_step S tasks t t' \<Longrightarrow>
    thread_step S tasks (Joining occ base i es ctx (xs @ t # ys)) (Joining occ base i es ctx (xs @ t' # ys))"
| Join: "thread_step S tasks (Joining occ base i es ctx (map Done rs)) (resume occ base i es (join_children ctx rs))"
| Refused: "start_call S tasks (entry_crumb base i) call ctx = Inl e \<Longrightarrow>
    thread_step S tasks (Running occ base i (RunTask call # es) ctx) (Done (Inl e))"
| Skipped: "start_call S tasks (entry_crumb base i) call ctx = Inr None \<Longrightarrow>
    thread_step S tasks (Running occ base i (RunTask call # es) ctx) (Running occ base (Suc i) es ctx)"
| Call: "start_call S tasks (entry_crumb base i) call ctx = Inr (Some (called, childCtx)) \<Longrightarrow>
    thread_step S tasks (Running occ base i (RunTask call # es) ctx)
      (Calling occ base (Suc i) es ctx called call
         (Running (entry_crumb base i # occ) (quoted_task (t_name called)) 0 (t_actions called) childCtx))"
| Inner: "thread_step S tasks t t' \<Longrightarrow>
    thread_step S tasks (Calling occ base i es ctx called call t) (Calling occ base i es ctx called call t')"
| Return: "thread_step S tasks (Calling occ base i es ctx called call (Done r))
    (resume occ base i es (end_call S called call ctx r))"

abbreviation thread_steps :: "('v, 'o) session \<Rightarrow> 'o tasks \<Rightarrow> 'o thread \<Rightarrow> 'o thread \<Rightarrow> bool" where
  "thread_steps S tasks \<equiv> (thread_step S tasks)\<^sup>*\<^sup>*"

inductive_cases Done_stepE [elim!]: "thread_step S tasks (Done r) t"

subsection \<open>What a thread comes to\<close>

definition after ::
    "('v, 'o) session \<Rightarrow> 'o tasks \<Rightarrow> nat \<Rightarrow> string list \<Rightarrow> string \<Rightarrow> nat \<Rightarrow> 'o ActionEntry list \<Rightarrow>
     run_error + TaskContext \<Rightarrow> (run_error + TaskContext) option" where
  "after S tasks n occ base i es =
     (\<lambda>r. case r of Inl e \<Rightarrow> Some (Inl e) | Inr ctx \<Rightarrow> runEntries S tasks n occ base i es ctx)"

fun outcome :: "('v, 'o) session \<Rightarrow> 'o tasks \<Rightarrow> nat \<Rightarrow> 'o thread \<Rightarrow> (run_error + TaskContext) option" where
  "outcome S tasks n (Done r) = Some r"
| "outcome S tasks n (Running occ base i es ctx) = runEntries S tasks n occ base i es ctx"
| "outcome S tasks n (Joining occ base i es ctx ts) =
     Option.bind (those (map (outcome S tasks n) ts)) (\<lambda>rs. after S tasks n occ base i es (join_children ctx rs))"
| "outcome S tasks n (Calling occ base i es ctx called call t) =
     Option.bind (outcome S tasks n t) (\<lambda>r. after S tasks n occ base i es (end_call S called call ctx r))"

lemma outcome_resume [simp]: "outcome S tasks n (resume occ base i es r) = after S tasks n occ base i es r"
  by (cases r) (simp_all add: resume_def after_def)

lemma runEntries_after:
  "runEntries S tasks n occ base i (e # es) ctx =
     Option.bind (run_entry S tasks n occ (entry_crumb base i) e ctx) (after S tasks n occ base (Suc i) es)"
  by (simp add: after_def)

lemma run_mono:
  "runEntries S tasks n occ base i es ctx = Some r \<Longrightarrow> runEntries S tasks (Suc n) occ base i es ctx = Some r"
  "run_children S tasks n occ bc i cs ctx = Some rs \<Longrightarrow> run_children S tasks (Suc n) occ bc i cs ctx = Some rs"
proof (induction S tasks n occ base i es ctx and S tasks n occ bc i cs ctx
    arbitrary: r and rs rule: runEntries_run_children.induct)
  case (2 S tasks fuel occ base i e es ctx)
  from 2(4) obtain q where q: "run_entry S tasks fuel occ (entry_crumb base i) e ctx = Some q"
    and r: "(case q of Inl err \<Rightarrow> Some (Inl err) | Inr ctx' \<Rightarrow> runEntries S tasks fuel occ base (Suc i) es ctx') = Some r"
    by (auto split: Option.bind_splits)
  have "run_entry S tasks (Suc fuel) occ (entry_crumb base i) e ctx = Some q"
  proof (cases e)
    case (Parallel cs)
    then show ?thesis using 2(1) [OF Parallel] q by (auto simp: run_entry_def runParallel_def)
  next
    case (RunTask call)
    then show ?thesis using 2(2) [OF RunTask] q
      by (auto simp: run_entry_def runOneRunTask_def split: sum.splits option.splits nat.splits)
  qed (use q in \<open>simp add: run_entry_def\<close>)
  moreover have "(case q of Inl err \<Rightarrow> Some (Inl err) | Inr ctx' \<Rightarrow> runEntries S tasks (Suc fuel) occ base (Suc i) es ctx') = Some r"
    using r 2(3) [OF q [unfolded run_entry_def runParallel_def runOneRunTask_def]] by (cases q) auto
  ultimately show ?case by simp
next
  case (4 S tasks fuel occ bc i c cs ctx)
  then show ?case by (fastforce split: Option.bind_splits)
qed simp_all

lemma after_mono: "after S tasks n occ base i es q = Some r \<Longrightarrow> after S tasks (Suc n) occ base i es q = Some r"
  by (cases q) (auto simp: after_def run_mono)

lemma those_Cons_Some: "those (x # xs) = Some ys \<longleftrightarrow> (\<exists>z zs. x = Some z \<and> those xs = Some zs \<and> ys = z # zs)"
  by (auto split: option.splits)

lemma those_map_mono:
  "list_all2 (\<lambda>x y. \<forall>r. f x = Some r \<longrightarrow> g y = Some r) xs ys \<Longrightarrow> those (map f xs) = Some rs \<Longrightarrow> those (map g ys) = Some rs"
  by (induction arbitrary: rs rule: list_all2_induct) (auto simp: those_Cons_Some simp del: those.simps(2))

lemma outcome_mono: "outcome S tasks n t = Some r \<Longrightarrow> outcome S tasks (Suc n) t = Some r"
proof (induction t arbitrary: r)
  case (Joining occ base i es ctx ts)
  from Joining.prems obtain rs where rs: "those (map (outcome S tasks n) ts) = Some rs"
      "after S tasks n occ base i es (join_children ctx rs) = Some r"
    by (auto split: Option.bind_splits)
  have "list_all2 (\<lambda>x y. \<forall>r. outcome S tasks n x = Some r \<longrightarrow> outcome S tasks (Suc n) y = Some r) ts ts"
    using Joining.IH by (simp add: list_all2_same)
  from those_map_mono [OF this rs(1)] after_mono [OF rs(2)] show ?case by simp
next
  case (Calling occ base i es ctx called call t)
  then show ?case by (fastforce split: Option.bind_splits dest: after_mono)
qed (simp_all add: run_mono)

lemma outcome_forked:
  "those (map (outcome S tasks n) (forked occ bc j cs ctx)) = run_children S tasks n occ bc j cs ctx"
  by (induction occ bc j cs ctx rule: forked.induct) (auto split: option.splits Option.bind_splits)

lemma those_Done: "those (map (outcome S tasks n) (map Done rs)) = Some rs"
  by (induction rs) simp_all

text \<open>A step only defers what the thread comes to.\<close>

lemma step_outcome:
  "thread_step S tasks t t' \<Longrightarrow> outcome S tasks n t' = Some r \<Longrightarrow> outcome S tasks (Suc n) t = Some r"
proof (induction arbitrary: r rule: thread_step.induct)
  case (Invoke occ base i iv ctx q es)
  then have "after S tasks (Suc n) occ base (Suc i) es q = Some r" by (simp add: after_mono)
  then show ?case using Invoke(1) by (simp add: run_entry_def after_def)
next
  case (Fork cs occ base i es ctx)
  then have "outcome S tasks (Suc n) (Joining occ base (Suc i) es ctx (forked occ (entry_crumb base i) 0 cs ctx)) = Some r"
    by (intro outcome_mono)
  then show ?case using Fork(1)
    by (auto simp: outcome_forked run_entry_def runParallel_def after_def split: Option.bind_splits)
next
  case (Child t t' occ base i es ctx xs ys)
  from Child.prems obtain rs where rs: "those (map (outcome S tasks n) (xs @ t' # ys)) = Some rs"
      "after S tasks n occ base i es (join_children ctx rs) = Some r"
    by (auto split: Option.bind_splits)
  have "list_all2 (\<lambda>x y. \<forall>r. outcome S tasks n x = Some r \<longrightarrow> outcome S tasks (Suc n) y = Some r)
      (xs @ t' # ys) (xs @ t # ys)"
    using Child.IH by (auto intro!: list_all2_appendI simp: list_all2_same outcome_mono)
  from those_map_mono [OF this rs(1)] after_mono [OF rs(2)] show ?case by simp
next
  case (Join occ base i es ctx rs)
  then show ?case by (simp add: those_Done after_mono del: map_map)
next
  case (Empty occ base i es ctx)
  then show ?case by (simp add: run_entry_def runParallel_def run_mono)
next
  case (Skipped base i call ctx occ es)
  then show ?case by (simp add: run_entry_def runOneRunTask_def run_mono)
next
  case (Call base i call ctx called childCtx occ es)
  then show ?case
    by (auto simp: run_entry_def runOneRunTask_def after_def run_mono split: Option.bind_splits sum.splits)
next
  case (Inner t t' occ base i es ctx called call)
  then show ?case by (fastforce split: Option.bind_splits dest: after_mono)
qed (auto simp: run_entry_def runOneRunTask_def after_mono)

lemma steps_outcome: "thread_steps S tasks t (Done r) \<Longrightarrow> \<exists>n. outcome S tasks n t = Some r"
proof (induction t rule: converse_rtranclp_induct)
  case (step t t')
  then show ?case using step_outcome by blast
qed simp

subsection \<open>Every outcome has a schedule\<close>

lemma steps_head:
  "thread_steps S tasks t t' \<Longrightarrow>
   thread_steps S tasks (Joining occ base i es ctx (xs @ t # ys)) (Joining occ base i es ctx (xs @ t' # ys))"
  by (induction rule: rtranclp_induct) (auto intro: rtranclp.rtrancl_into_rtrancl thread_step.Child)

lemma steps_children:
  "list_all2 (thread_steps S tasks) ts ts' \<Longrightarrow>
   thread_steps S tasks (Joining occ base i es ctx (xs @ ts)) (Joining occ base i es ctx (xs @ ts'))"
proof (induction arbitrary: xs rule: list_all2_induct)
  case (Cons t ts t' ts')
  have "thread_steps S tasks (Joining occ base i es ctx (xs @ t' # ts)) (Joining occ base i es ctx (xs @ t' # ts'))"
    using Cons(3) [of "xs @ [t']"] by simp
  from rtranclp_trans [OF steps_head [OF Cons(1)] this] show ?case .
qed simp

lemma steps_inner:
  "thread_steps S tasks t t' \<Longrightarrow>
   thread_steps S tasks (Calling occ base i es ctx called call t) (Calling occ base i es ctx called call t')"
  by (induction rule: rtranclp_induct) (auto intro: rtranclp.rtrancl_into_rtrancl thread_step.Inner)

lemma steps_resume:
  assumes "after S tasks n occ base i es q = Some r"
    and "\<And>ctx. q = Inr ctx \<Longrightarrow> runEntries S tasks n occ base i es ctx = Some r \<Longrightarrow>
      thread_steps S tasks (Running occ base i es ctx) (Done r)"
  shows "thread_steps S tasks (resume occ base i es q) (Done r)"
  using assms by (cases q) (auto simp: after_def resume_def)

lemma run_steps:
  "runEntries S tasks n occ base i es ctx = Some r \<Longrightarrow> thread_steps S tasks (Running occ base i es ctx) (Done r)"
  "run_children S tasks n occ bc i cs ctx = Some rs \<Longrightarrow>
     list_all2 (thread_steps S tasks) (forked occ bc i cs ctx) (map Done rs)"
proof (induction S tasks n occ base i es ctx and S tasks n occ bc i cs ctx
    arbitrary: r and rs rule: runEntries_run_children.induct)
  case (1 S tasks fuel occ base i ctx)
  then show ?case by (auto intro: thread_step.Finish)
next
  case (2 S tasks fuel occ base i e es ctx)
  from 2(4) obtain q where q: "run_entry S tasks fuel occ (entry_crumb base i) e ctx = Some q"
      and r: "after S tasks fuel occ base (Suc i) es q = Some r"
    by (auto simp: after_def split: Option.bind_splits)
  have rest: "thread_steps S tasks (resume occ base (Suc i) es q) (Done r)"
    using 2(3) [OF q [unfolded run_entry_def runParallel_def runOneRunTask_def]] by (intro steps_resume [OF r]) simp
  have first: "thread_steps S tasks (Running occ base i (e # es) ctx) (resume occ base (Suc i) es q)"
  proof (cases e)
    case (Invocation iv)
    then show ?thesis using q by (auto simp: run_entry_def intro: thread_step.Invoke)
  next
    case (Parallel cs)
    show ?thesis
    proof (cases "cs = []")
      case True
      then have "q = Inr ctx" using q Parallel by (simp add: run_entry_def runParallel_def)
      then show ?thesis unfolding Parallel True resume_def by simp (rule r_into_rtranclp, rule thread_step.Empty)
    next
      case False
      with q Parallel obtain qs where qs: "run_children S tasks fuel occ (entry_crumb base i) 0 cs ctx = Some qs"
          "q = join_children ctx qs"
        by (auto simp: run_entry_def runParallel_def)
      from steps_children [OF 2(1) [OF Parallel False qs(1)], of occ base "Suc i" es ctx "[]"]
      have "thread_steps S tasks (Joining occ base (Suc i) es ctx (forked occ (entry_crumb base i) 0 cs ctx))
          (Joining occ base (Suc i) es ctx (map Done qs))" by simp
      from converse_rtranclp_into_rtranclp [OF thread_step.Fork [OF False] rtranclp.rtrancl_into_rtrancl [OF this thread_step.Join]]
      show ?thesis by (simp add: Parallel qs(2))
    qed
  next
    case (RunTask call)
    consider (refused) err where "start_call S tasks (entry_crumb base i) call ctx = Inl err"
      | (skipped) "start_call S tasks (entry_crumb base i) call ctx = Inr None"
      | (started) called childCtx where "start_call S tasks (entry_crumb base i) call ctx = Inr (Some (called, childCtx))"
      by (cases "start_call S tasks (entry_crumb base i) call ctx") (auto, metis option.exhaust surj_pair)
    then show ?thesis
    proof cases
      case refused
      then have "q = Inl err" using q RunTask by (simp add: run_entry_def runOneRunTask_def)
      then show ?thesis unfolding RunTask resume_def by simp (rule r_into_rtranclp, rule thread_step.Refused [OF refused])
    next
      case skipped
      then have "q = Inr ctx" using q RunTask by (simp add: run_entry_def runOneRunTask_def)
      then show ?thesis unfolding RunTask resume_def by simp (rule r_into_rtranclp, rule thread_step.Skipped [OF skipped])
    next
      case started
      with q RunTask obtain fuel' p where p: "fuel = Suc fuel'" "q = end_call S called call ctx p"
          "runEntries S tasks fuel' (entry_crumb base i # occ) (quoted_task (t_name called)) 0 (t_actions called) childCtx = Some p"
        by (auto simp: run_entry_def runOneRunTask_def split: nat.splits)
      from steps_inner [OF 2(2) [OF RunTask started refl refl p(1,3)]]
      have "thread_steps S tasks
          (Calling occ base (Suc i) es ctx called call
             (Running (entry_crumb base i # occ) (quoted_task (t_name called)) 0 (t_actions called) childCtx))
          (Calling occ base (Suc i) es ctx called call (Done p))" .
      from converse_rtranclp_into_rtranclp [OF thread_step.Call [OF started] rtranclp.rtrancl_into_rtrancl [OF this thread_step.Return]]
      show ?thesis by (simp add: RunTask p(2))
    qed
  qed
  from rtranclp_trans [OF first rest] show ?case .
next
  case (4 S tasks fuel occ bc i c cs ctx)
  then show ?case by (auto split: Option.bind_splits)
qed simp_all

lemma schedules_agree:
  assumes "thread_steps S tasks t (Done r)" "thread_steps S tasks t (Done r')"
  shows "r = r'"
proof -
  from assms obtain n m where "outcome S tasks n t = Some r" "outcome S tasks m t = Some r'"
    using steps_outcome by meson
  moreover have "outcome S tasks n t = Some q \<Longrightarrow> outcome S tasks (n + k) t = Some q" for n k q
    by (induction k) (auto dest: outcome_mono)
  ultimately have "outcome S tasks (n + m) t = Some r" "outcome S tasks (m + n) t = Some r'" by simp_all
  then show ?thesis by (simp add: add.commute)
qed

subsection \<open>Actions that answer as the world then is\<close>

text \<open>A session whose registered actions answer, at each occurrence, what \<open>a\<close> says.\<close>

definition answering :: "('v, 'o) session \<Rightarrow> (string list \<Rightarrow> string + (string \<rightharpoonup> string)) \<Rightarrow> ('v, 'o) session" where
  "answering S a = S\<lparr>registry := (\<lambda>name. map_option (\<lambda>act occ ps ctx. a occ) (registry S name))\<rparr>"

text \<open>A schedule: from each state to the next one thread makes a step, in which an action answers anything.
  That covers whatever the actions and the rest of the world do to the files that they share.\<close>

inductive schedule :: "('v, 'o) session \<Rightarrow> 'o tasks \<Rightarrow> 'o thread list \<Rightarrow> bool" for S tasks where
  "schedule S tasks [t]"
| "thread_step (answering S a) tasks t t' \<Longrightarrow> schedule S tasks (t' # ts) \<Longrightarrow> schedule S tasks (t # t' # ts)"

text \<open>A schedule in which the answers are those of \<open>a\<close>.\<close>

fun schedule_under :: "('v, 'o) session \<Rightarrow> 'o tasks \<Rightarrow> (string list \<Rightarrow> string + (string \<rightharpoonup> string)) \<Rightarrow> 'o thread list \<Rightarrow> bool" where
  "schedule_under S tasks a (t # t' # ts) \<longleftrightarrow> thread_step (answering S a) tasks t t' \<and> schedule_under S tasks a (t' # ts)"
| "schedule_under S tasks a ts \<longleftrightarrow> True"

text \<open>What does not look at the registry.\<close>

lemma answering_fields [simp]:
  "sn_json (answering S a) = sn_json S" "sn_builder (answering S a) = sn_builder S" "sn_process (answering S a) = sn_process S"
  "sn_props (answering S a) = sn_props S" "getAsInteger (answering S a) = getAsInteger S"
  "getAsDouble (answering S a) = getAsDouble S" "sn_depth (answering S a) = sn_depth S"
  by (simp_all add: answering_def)

lemma answering_lookup [simp]: "ctx_lookup (answering S a) = ctx_lookup S"
  unfolding ctx_lookup_def [abs_def] answering_fields by (rule refl)

lemma answering_substitute [simp]: "ctx_substitute (answering S a) = ctx_substitute S"
  unfolding ctx_substitute_def [abs_def] answering_lookup by (rule refl)

lemma answering_value:
  "substituteValue (answering S a) ctx n site v = substituteValue S ctx n site v"
  "substitute_members (answering S a) ctx n site ms out = substitute_members S ctx n site ms out"
  "substitute_elements (answering S a) ctx n site k vs = substitute_elements S ctx n site k vs"
  by (induction S ctx n site v and S ctx n site ms out and S ctx n site k vs
      rule: substituteValue_substitute_members_substitute_elements.induct)
    (simp_all cong: option.case_cong sum.case_cong Option.bind_cong)

lemma answering_params [simp]: "substituteParams (answering S a) = substituteParams S"
  by (intro ext) (simp add: substituteParams_def answering_value)

lemma answering_skip [simp]: "shouldSkip (answering S a) = shouldSkip S"
  unfolding shouldSkip_def [abs_def] answering_substitute by (rule refl)

lemma answering_overrides [simp]: "applyCliParamOverrides (answering S a) = applyCliParamOverrides S"
  unfolding applyCliParamOverrides_def [abs_def] coerceCliParam_def [abs_def] answering_fields by (rule refl)

lemma answering_start [simp]: "start_call (answering S a) = start_call S"
  unfolding start_call_def [abs_def] call_params_def [abs_def] bindParams_def [abs_def] bind_param_def [abs_def]
    answering_substitute answering_skip by (rule refl)

lemma answering_end [simp]: "end_call (answering S a) = end_call S"
  unfolding end_call_def [abs_def] substitute_outputs_def [abs_def] answering_substitute by (rule refl)

lemma answering_registry:
  "registry (answering S a) name = map_option (\<lambda>act occ ps ctx. a occ) (registry S name)"
  by (simp add: answering_def)

lemma answering_invocation:
  assumes "a (bc # occ) = a' (bc # occ)"
  shows "runOneInvocation (answering S a) occ bc iv ctx = runOneInvocation (answering S a') occ bc iv ctx"
  unfolding runOneInvocation_def answering_skip answering_params answering_overrides answering_registry
    case_map_option comp_def assms by (rule refl)

subsection \<open>Occurrences happen once\<close>

text \<open>The occurrences under a place of a chain, and those that a thread may still come to.\<close>

definition under :: "string list \<Rightarrow> string \<Rightarrow> string list \<Rightarrow> bool" where
  "under occ crumb o1 \<longleftrightarrow> (\<exists>xs z. o1 = xs @ (crumb @ z) # occ)"

fun pending :: "'o thread \<Rightarrow> string list \<Rightarrow> bool" where
  "pending (Done r) o1 \<longleftrightarrow> False"
| "pending (Running occ base i es ctx) o1 \<longleftrightarrow> (\<exists>j \<ge> i. under occ (entry_crumb base j) o1)"
| "pending (Joining occ base i es ctx ts) o1 \<longleftrightarrow> (\<exists>j \<ge> i. under occ (entry_crumb base j) o1) \<or> (\<exists>t \<in> set ts. pending t o1)"
| "pending (Calling occ base i es ctx called call t) o1 \<longleftrightarrow> (\<exists>j \<ge> i. under occ (entry_crumb base j) o1) \<or> pending t o1"

text \<open>The threads of a group and the calls of a task have occurrences of their own.\<close>

fun apart :: "'o thread \<Rightarrow> bool" where
  "apart (Done r) \<longleftrightarrow> True"
| "apart (Running occ base i es ctx) \<longleftrightarrow> True"
| "apart (Joining occ base i es ctx ts) \<longleftrightarrow>
     (\<forall>t \<in> set ts. apart t \<and> (\<forall>o1. pending t o1 \<longrightarrow> (\<exists>j < i. under occ (entry_crumb base j) o1))) \<and>
     (\<forall>k < length ts. \<forall>l < length ts. k \<noteq> l \<longrightarrow> \<not> (\<exists>o1. pending (ts ! k) o1 \<and> pending (ts ! l) o1))"
| "apart (Calling occ base i es ctx called call t) \<longleftrightarrow>
     apart t \<and> (\<forall>o1. pending t o1 \<longrightarrow> (\<exists>j < i. under occ (entry_crumb base j) o1))"

text \<open>Numerals are read back, and end at the bracket that follows them.\<close>

lemma show_nat_read: "foldl (\<lambda>k c. 10 * k + (of_char c - 48 :: nat)) 0 (show_nat n) = n"
proof (induction n rule: show_nat.induct)
  case (1 n)
  show ?case
  proof (cases "n < 10")
    case False
    then have "foldl (\<lambda>k c. 10 * k + (of_char c - 48 :: nat)) 0 (show_nat n) = 10 * (n div 10) + n mod 10"
      using 1 by (subst show_nat.simps) simp
    then show ?thesis by simp
  qed (subst show_nat.simps, simp)
qed

lemma show_nat_digits: "c \<in> set (show_nat n) \<Longrightarrow> of_char c < (58 :: nat) \<and> of_char c \<ge> (48 :: nat)"
proof (induction n rule: show_nat.induct)
  case (1 n)
  then show ?case by (subst (asm) show_nat.simps) (auto split: if_splits)
qed

lemma show_nat_bracket: "CHR '']'' \<notin> set (show_nat n)"
  using show_nat_digits [of "CHR '']''" n] by auto

lemma bracketed_numbers: "show_nat j @ CHR '']'' # r = show_nat k @ CHR '']'' # r' \<Longrightarrow> j = k"
proof -
  have t: "takeWhile (\<lambda>c. c \<noteq> CHR '']'') (show_nat n @ CHR '']'' # r) = show_nat n" for n r
    using show_nat_bracket [of n] by (subst takeWhile_append2) auto
  assume "show_nat j @ CHR '']'' # r = show_nat k @ CHR '']'' # r'"
  then have "show_nat j = show_nat k" using t by metis
  then show "j = k" using show_nat_read by metis
qed

lemma entry_crumb_inj: "entry_crumb base j @ z = entry_crumb base k @ z' \<Longrightarrow> j = k"
  using bracketed_numbers [of j z k z'] by (simp add: entry_crumb_def)

lemma child_crumb_inj: "child_crumb bc j @ z = child_crumb bc k @ z' \<Longrightarrow> j = k"
  using bracketed_numbers [of j z k z'] by (simp add: child_crumb_def)

lemma under_same: "under occ c o1 \<Longrightarrow> under occ d o1 \<Longrightarrow> \<exists>z z'. c @ z = d @ z'"
proof -
  assume "under occ c o1" "under occ d o1"
  then obtain xs z ys z' where "o1 = xs @ (c @ z) # occ" "o1 = ys @ (d @ z') # occ" unfolding under_def by blast
  then have "(xs @ [c @ z]) @ occ = (ys @ [d @ z']) @ occ" by simp
  then have "c @ z = d @ z'" by (simp only: append_same_eq append1_eq_conv)
  then show ?thesis by blast
qed

lemma under_inj: "under occ (entry_crumb base j) o1 \<Longrightarrow> under occ (entry_crumb base k) o1 \<Longrightarrow> j = k"
  using under_same entry_crumb_inj by blast

lemma under_child_inj: "under occ (child_crumb bc j) o1 \<Longrightarrow> under occ (child_crumb bc k) o1 \<Longrightarrow> j = k"
  using under_same child_crumb_inj by blast

lemma under_here: "under occ c (c # occ)"
  unfolding under_def by (intro exI [of _ "[]"]) simp

lemma under_call: "under (c # occ) d o1 \<Longrightarrow> under occ c o1"
proof -
  assume "under (c # occ) d o1"
  then obtain xs z where "o1 = (xs @ [d @ z]) @ (c @ []) # occ" by (auto simp: under_def)
  then show ?thesis unfolding under_def by blast
qed

lemma under_prefix: "under occ (c @ z) o1 \<Longrightarrow> under occ c o1"
  unfolding under_def by (metis append.assoc)

lemma forked_nth:
  "k < length cs \<Longrightarrow> forked occ bc j cs ctx ! k = Running occ (child_crumb bc (j + k)) 0 [cs ! k] (snapshot ctx)"
  "length (forked occ bc j cs ctx) = length cs"
  by (induction occ bc j cs ctx arbitrary: k rule: forked.induct) (auto simp: nth_Cons')

lemma pending_forked: "pending (Running occ (child_crumb bc k) 0 es ctx) o1 \<Longrightarrow> under occ (child_crumb bc k) o1"
  by (auto simp: entry_crumb_def dest: under_prefix)

lemma pending_child: "under occ (child_crumb bc k) o1 \<Longrightarrow> under occ bc o1"
  unfolding child_crumb_def by (rule under_prefix)

lemma pending_resume: "pending (resume occ base i es r) o1 \<Longrightarrow> \<exists>j \<ge> i. under occ (entry_crumb base j) o1"
  by (cases r) (simp_all add: resume_def)

lemma apart_resume: "apart (resume occ base i es r)"
  by (cases r) (simp_all add: resume_def)

subsection \<open>A step depends on one answer at most\<close>

text \<open>What a step uses of the answers: at most that of an occurrence that was pending and no longer is.\<close>

definition step_local :: "('v, 'o) session \<Rightarrow> 'o tasks \<Rightarrow> (string list \<Rightarrow> string + (string \<rightharpoonup> string)) \<Rightarrow> 'o thread \<Rightarrow> 'o thread \<Rightarrow> bool" where
  "step_local S tasks a t t' \<longleftrightarrow>
     apart t' \<and> (\<forall>o1. pending t' o1 \<longrightarrow> pending t o1) \<and>
     (\<exists>D. (\<forall>o1 \<in> D. pending t o1 \<and> \<not> pending t' o1) \<and>
        (\<forall>a'. (\<forall>o1 \<in> D. a' o1 = a o1) \<longrightarrow> thread_step (answering S a') tasks t t'))"

lemma step_local_silent:
  "apart t' \<Longrightarrow> (\<And>o1. pending t' o1 \<Longrightarrow> pending t o1) \<Longrightarrow> (\<And>a'. thread_step (answering S a') tasks t t') \<Longrightarrow> step_local S tasks a t t'"
  unfolding step_local_def by (intro conjI allI impI exI [of _ "{}"]) auto

lemma forked_pending: "t \<in> set (forked occ bc j cs ctx) \<Longrightarrow> apart t \<and> (pending t o1 \<longrightarrow> under occ bc o1)"
proof -
  assume "t \<in> set (forked occ bc j cs ctx)"
  then obtain k where "k < length cs" "t = forked occ bc j cs ctx ! k" by (metis in_set_conv_nth forked_nth(2))
  then have t: "t = Running occ (child_crumb bc (j + k)) 0 [cs ! k] (snapshot ctx)" by (simp add: forked_nth(1))
  show ?thesis unfolding t using pending_child [OF pending_forked] by simp
qed

lemma forked_apart:
  "apart (Joining occ base (Suc i) es ctx (forked occ (entry_crumb base i) 0 cs ctx))"
proof -
  let ?ts = "forked occ (entry_crumb base i) 0 cs ctx"
  have t: "?ts ! k = Running occ (child_crumb (entry_crumb base i) k) 0 [cs ! k] (snapshot ctx)" if "k < length ?ts" for k
    using that forked_nth(1) [of k cs occ "entry_crumb base i" 0 ctx] by (simp add: forked_nth(2))
  have p: "under occ (child_crumb (entry_crumb base i) k) o1" if "k < length ?ts" "pending (?ts ! k) o1" for k o1
    using pending_forked that(2) unfolding t [OF that(1)] by blast
  have d: "\<not> (\<exists>o1. pending (?ts ! k) o1 \<and> pending (?ts ! l) o1)" if "k < length ?ts" "l < length ?ts" "k \<noteq> l" for k l
    using p [OF that(1)] p [OF that(2)] under_child_inj that(3) by blast
  have c: "apart u \<and> (\<forall>o1. pending u o1 \<longrightarrow> (\<exists>j < Suc i. under occ (entry_crumb base j) o1))" if u: "u \<in> set ?ts" for u
    using forked_pending [OF u] by blast
  show ?thesis unfolding apart.simps using c d by blast
qed

lemma below_not_above: "\<exists>j < i. under occ (entry_crumb base j) o1 \<Longrightarrow> \<not> (\<exists>j \<ge> i. under occ (entry_crumb base j) o1)"
  by (metis under_inj not_le)

lemma apart_child:
  assumes "apart (Joining occ base i es ctx (xs @ t # ys))"
  shows "apart t" "pending t o1 \<Longrightarrow> \<exists>j < i. under occ (entry_crumb base j) o1"
    "pending t o1 \<Longrightarrow> u \<in> set xs \<union> set ys \<Longrightarrow> \<not> pending u o1"
proof -
  show "apart t" "pending t o1 \<Longrightarrow> \<exists>j < i. under occ (entry_crumb base j) o1" using assms by auto
  assume p: "pending t o1" "u \<in> set xs \<union> set ys"
  then obtain k where k: "k < length (xs @ t # ys)" "k \<noteq> length xs" "(xs @ t # ys) ! k = u"
  proof (cases "u \<in> set xs")
    case True
    then obtain k where "k < length xs" "xs ! k = u" by (auto simp: in_set_conv_nth)
    then show thesis by (intro that [of k]) (auto simp: nth_append)
  next
    case False
    with p(2) obtain k where "k < length ys" "ys ! k = u" by (auto simp: in_set_conv_nth)
    then show thesis by (intro that [of "Suc (length xs + k)"]) (auto simp: nth_append)
  qed
  have "\<not> (\<exists>o1. pending ((xs @ t # ys) ! k) o1 \<and> pending ((xs @ t # ys) ! length xs) o1)"
    using assms k(1,2) unfolding apart.simps by (metis length_append length_Cons add_Suc_right less_add_Suc1)
  with p(1) show "\<not> pending u o1" unfolding k(3) by auto
qed

lemma apart_child_step:
  assumes "apart (Joining occ base i es ctx (xs @ t # ys))" "apart t'" "\<And>o1. pending t' o1 \<Longrightarrow> pending t o1"
  shows "apart (Joining occ base i es ctx (xs @ t' # ys))"
proof -
  have n: "pending ((xs @ t # ys) ! k) o1" if "pending ((xs @ t' # ys) ! k) o1" for k o1
    using that assms(3) by (auto simp: nth_append nth_Cons')
  have l: "length (xs @ t' # ys) = length (xs @ t # ys)" by simp
  have "\<forall>k < length (xs @ t' # ys). \<forall>l < length (xs @ t' # ys). k \<noteq> l \<longrightarrow>
      \<not> (\<exists>o1. pending ((xs @ t' # ys) ! k) o1 \<and> pending ((xs @ t' # ys) ! l) o1)"
    using assms(1) n unfolding l apart.simps by blast
  moreover have "apart u \<and> (\<forall>o1. pending u o1 \<longrightarrow> (\<exists>j < i. under occ (entry_crumb base j) o1))" if "u \<in> set (xs @ t' # ys)" for u
    using that assms by auto
  ultimately show ?thesis unfolding apart.simps by blast
qed

lemma step_local:
  "thread_step (answering S a) tasks t t' \<Longrightarrow> apart t \<Longrightarrow> step_local S tasks a t t'"
proof (induction rule: thread_step.induct)
  case (Invoke occ base i iv ctx r es)
  let ?o = "entry_crumb base i # occ"
  have n: "\<not> (\<exists>j \<ge> Suc i. under occ (entry_crumb base j) ?o)" using under_inj [OF under_here] by fastforce
  show ?case
    unfolding step_local_def
  proof (intro conjI allI impI exI [of _ "{?o}"] ballI)
    show "thread_step (answering S a') tasks (Running occ base i (Invocation iv # es) ctx) (resume occ base (Suc i) es r)"
      if "\<forall>o1 \<in> {?o}. a' o1 = a o1" for a'
      using Invoke answering_invocation [of a' "entry_crumb base i" occ a S iv ctx] that
      by (intro thread_step.Invoke) simp
  qed (use n under_here apart_resume in \<open>auto dest!: pending_resume intro: Suc_leD\<close>)
next
  case (Fork cs occ base i es ctx)
  have "pending (Running occ base i (Parallel cs # es) ctx) o1"
    if "pending (Joining occ base (Suc i) es ctx (forked occ (entry_crumb base i) 0 cs ctx)) o1" for o1
    using that forked_pending [of _ occ "entry_crumb base i" 0 cs ctx o1] by (auto intro: Suc_leD)
  then show ?case by (intro step_local_silent forked_apart thread_step.Fork Fork.hyps)
next
  case (Child t t' occ base i es ctx xs ys)
  note c = apart_child [OF Child.prems]
  from Child.IH [OF c(1)] obtain D where t': "apart t'" "\<And>o1. pending t' o1 \<Longrightarrow> pending t o1"
    and D: "\<And>o1. o1 \<in> D \<Longrightarrow> pending t o1 \<and> \<not> pending t' o1"
    and st: "\<And>a'. (\<forall>o1 \<in> D. a' o1 = a o1) \<Longrightarrow> thread_step (answering S a') tasks t t'"
    unfolding step_local_def by blast
  have n: "\<not> pending (Joining occ base i es ctx (xs @ t' # ys)) o1" if "o1 \<in> D" for o1
    using below_not_above [OF c(2), of o1] c(3) [of o1] D [OF that] by auto
  show ?case
    unfolding step_local_def
    by (intro conjI allI impI exI [of _ D] ballI apart_child_step [OF Child.prems t'] thread_step.Child st)
      (use D n t'(2) in auto)
next
  case (Join occ base i es ctx rs)
  show ?case
    by (rule step_local_silent [OF apart_resume _ thread_step.Join]) (auto dest!: pending_resume)
next
  case (Call base i call ctx called childCtx occ es)
  let ?t = "Running (entry_crumb base i # occ) (quoted_task (t_name called)) 0 (t_actions called) childCtx"
  have p: "under occ (entry_crumb base i) o1" if "pending ?t o1" for o1 using that by (auto dest: under_call)
  have st: "start_call (answering S a') tasks (entry_crumb base i) call ctx = Inr (Some (called, childCtx))" for a'
    using Call.hyps by simp
  show ?case
    by (rule step_local_silent [OF _ _ thread_step.Call [OF st]]) (use p in \<open>auto intro: Suc_leD\<close>)
next
  case (Inner t t' occ base i es ctx called call)
  have c: "apart t" "\<And>o1. pending t o1 \<Longrightarrow> \<exists>j < i. under occ (entry_crumb base j) o1" using Inner.prems by auto
  from Inner.IH [OF c(1)] obtain D where t': "apart t'" "\<And>o1. pending t' o1 \<Longrightarrow> pending t o1"
    and D: "\<And>o1. o1 \<in> D \<Longrightarrow> pending t o1 \<and> \<not> pending t' o1"
    and st: "\<And>a'. (\<forall>o1 \<in> D. a' o1 = a o1) \<Longrightarrow> thread_step (answering S a') tasks t t'"
    unfolding step_local_def by blast
  have n: "\<not> pending (Calling occ base i es ctx called call t') o1" if "o1 \<in> D" for o1
    using below_not_above [OF c(2), of o1] D [OF that] by auto
  show ?case
    unfolding step_local_def
    by (intro conjI allI impI exI [of _ D] ballI thread_step.Inner st) (use D n t' c in auto)
next
  case (Return occ base i es ctx called call r)
  have st: "thread_step (answering S a') tasks (Calling occ base i es ctx called call (Done r))
      (resume occ base i es (end_call (answering S a) called call ctx r))" for a'
    using thread_step.Return [of "answering S a'" tasks occ base i es ctx called call r] by simp
  show ?case by (rule step_local_silent [OF apart_resume _ st]) (auto dest!: pending_resume)
qed (auto intro!: step_local_silent thread_step.intros, (meson Suc_leD)+)

lemma schedule_fixed:
  "schedule S tasks ts \<Longrightarrow> apart (hd ts) \<Longrightarrow>
   \<exists>a. \<forall>a'. (\<forall>o1. pending (hd ts) o1 \<longrightarrow> a' o1 = a o1) \<longrightarrow> schedule_under S tasks a' ts"
proof (induction rule: schedule.induct)
  case (2 a0 t t' ts)
  from step_local [OF "2.hyps"(1)] "2.prems" obtain D where t': "apart t'" "\<And>o1. pending t' o1 \<Longrightarrow> pending t o1"
    and D: "\<And>o1. o1 \<in> D \<Longrightarrow> pending t o1 \<and> \<not> pending t' o1"
    and st: "\<And>a'. (\<forall>o1 \<in> D. a' o1 = a0 o1) \<Longrightarrow> thread_step (answering S a') tasks t t'"
    unfolding step_local_def by auto
  from "2.IH" t'(1) obtain a1 where a1: "\<And>a'. (\<forall>o1. pending t' o1 \<longrightarrow> a' o1 = a1 o1) \<Longrightarrow> schedule_under S tasks a' (t' # ts)" by auto
  let ?a = "\<lambda>o1. if pending t' o1 then a1 o1 else a0 o1"
  have "schedule_under S tasks a' (t # t' # ts)" if a': "\<forall>o1. pending t o1 \<longrightarrow> a' o1 = ?a o1" for a'
  proof -
    have "thread_step (answering S a') tasks t t'" by (rule st) (use a' D in auto)
    moreover have "schedule_under S tasks a' (t' # ts)" by (rule a1) (use a' t'(2) in auto)
    ultimately show ?thesis by simp
  qed
  then show ?case by (intro exI [of _ ?a]) auto
qed simp

lemma schedule_under_steps: "schedule_under S tasks a (t # ts) \<Longrightarrow> thread_steps (answering S a) tasks t (last (t # ts))"
proof (induction ts arbitrary: t)
  case (Cons u ts)
  then have "thread_step (answering S a) tasks t u" "thread_steps (answering S a) tasks u (last (u # ts))" by simp_all
  then show ?case by (simp add: converse_rtranclp_into_rtranclp)
qed simp

text \<open>C25: Whatever turns the threads of parallel groups take, and whatever each action answers when it runs, also when it
  answers as files are that other actions have changed: the run is one in which each occurrence of an action has one
  answer, and its result is that of the sequential run, the children of each group one after the other, with these
  answers; every schedule with the same answers ends in the same result. So the order of the threads matters to a run only
  through what the actions answer, never through contexts, outputs and errors, which the runner keeps.\<close>

theorem interleavings_agree:
  assumes "schedule S tasks (Running occ base i es ctx # ts)" "last (Running occ base i es ctx # ts) = Done r"
  shows "\<exists>a. schedule_under S tasks a (Running occ base i es ctx # ts) \<and>
     (\<exists>n. runEntries (answering S a) tasks n occ base i es ctx = Some r) \<and>
     (\<forall>r'. thread_steps (answering S a) tasks (Running occ base i es ctx) (Done r') \<longrightarrow> r' = r)"
proof -
  let ?t = "Running occ base i es ctx"
  obtain a where a: "schedule_under S tasks a (?t # ts)" using schedule_fixed [OF assms(1)] by auto
  from schedule_under_steps [OF a] assms(2) have st: "thread_steps (answering S a) tasks ?t (Done r)" by simp
  then obtain n where "runEntries (answering S a) tasks n occ base i es ctx = Some r"
    using steps_outcome [of "answering S a" tasks ?t r] by auto
  moreover have "r' = r" if "thread_steps (answering S a) tasks ?t (Done r')" for r'
    using schedules_agree [OF that st] .
  ultimately show ?thesis using a by blast
qed

text \<open>And every result of a sequential run is that of a schedule.\<close>

lemma steps_schedule: "thread_steps (answering S a) tasks t t' \<Longrightarrow> \<exists>ts. schedule S tasks (t # ts) \<and> last (t # ts) = t'"
proof (induction rule: converse_rtranclp_induct)
  case base
  then show ?case by (intro exI [of _ "[]"]) (simp add: schedule.intros)
next
  case (step t u)
  then obtain ts where "schedule S tasks (u # ts)" "last (u # ts) = t'" by blast
  with step.hyps(1) show ?case by (intro exI [of _ "u # ts"]) (simp add: schedule.intros)
qed

theorem sequential_run_is_a_schedule:
  assumes "runEntries (answering S a) tasks n occ base i es ctx = Some r"
  shows "\<exists>ts. schedule S tasks (Running occ base i es ctx # ts) \<and> last (Running occ base i es ctx # ts) = Done r"
  by (rule steps_schedule [OF run_steps(1) [OF assms]])

subsection \<open>Prerequisites run first\<close>

definition task_succeeds ::
    "('v, 'o) session \<Rightarrow> 'o tasks \<Rightarrow> nat \<Rightarrow> string \<Rightarrow> (string \<times> string) list \<Rightarrow> string \<Rightarrow> bool" where
  "task_succeeds S tasks fuel target cli n \<longleftrightarrow>
     (\<exists>t outs. map_of tasks n = Some t \<and>
        runOneTask S tasks fuel t (if n = target then cli else []) = Some (Inr outs))"

lemma run_order_facts:
  assumes "run_order S tasks fuel target cli names (ex, outs) = Some (did, res)" "set names \<subseteq> fst ` set tasks"
  obtains (all) outs' where "did = ex @ names" "res = Inr outs'" "\<forall>n \<in> set names. task_succeeds S tasks fuel target cli n"
      "outs' = outs \<or> (\<exists>t. target \<in> set names \<and> map_of tasks target = Some t \<and> runOneTask S tasks fuel t cli = Some (Inr outs'))"
      "target \<notin> set names \<or> (\<exists>t. map_of tasks target = Some t \<and> runOneTask S tasks fuel t cli = Some (Inr outs'))"
    | (failed) before n t rest e where "names = before @ n # rest" "did = ex @ before" "res = Inl e"
      "\<forall>n \<in> set before. task_succeeds S tasks fuel target cli n" "map_of tasks n = Some t"
      "runOneTask S tasks fuel t (if n = target then cli else []) = Some (Inl e)"
  using assms
proof (induction names arbitrary: ex outs thesis)
  case Nil
  then show ?case by simp
next
  case (Cons n names)
  from Cons.prems(4) obtain t where t: "map_of tasks n = Some t"
    by (cases "map_of tasks n") (auto simp: map_of_eq_None_iff)
  with Cons.prems(3) obtain r where r: "runOneTask S tasks fuel t (if n = target then cli else []) = Some r"
    by (auto split: Option.bind_splits)
  show ?case
  proof (cases r)
    case (Inl e)
    with Cons.prems(3) t r have "did = ex @ []" "res = Inl e" by simp_all
    from Cons.prems(2) [of "[]" n names, OF _ this] t r Inl show ?thesis by simp
  next
    case (Inr o1)
    let ?outs = "if n = target then o1 else outs"
    have rest: "run_order S tasks fuel target cli names (ex @ [n], ?outs) = Some (did, res)"
      using Cons.prems(3) t r Inr by simp
    have n: "task_succeeds S tasks fuel target cli n" using t r Inr by (auto simp: task_succeeds_def)
    have sub: "set names \<subseteq> fst ` set tasks" using Cons.prems(4) by simp
    show ?thesis
    proof (rule Cons.IH [OF _ _ rest sub])
      fix outs'
      assume a: "did = (ex @ [n]) @ names" "res = Inr outs'" "\<forall>n \<in> set names. task_succeeds S tasks fuel target cli n"
        "outs' = ?outs \<or> (\<exists>t. target \<in> set names \<and> map_of tasks target = Some t \<and> runOneTask S tasks fuel t cli = Some (Inr outs'))"
        "target \<notin> set names \<or> (\<exists>t. map_of tasks target = Some t \<and> runOneTask S tasks fuel t cli = Some (Inr outs'))"
      show ?thesis
        by (rule Cons.prems(1) [of outs']) (use a n t r Inr in \<open>auto split: if_splits\<close>)
    next
      fix before m t' rest e
      assume a: "names = before @ m # rest" "did = (ex @ [n]) @ before" "res = Inl e"
        "\<forall>n \<in> set before. task_succeeds S tasks fuel target cli n" "map_of tasks m = Some t'"
        "runOneTask S tasks fuel t' (if m = target then cli else []) = Some (Inl e)"
      show ?thesis
        by (rule Cons.prems(2) [of "n # before" m rest e t']) (use a n in auto)
    qed
  qed
qed

lemma deps_first_prefix: "deps_first tasks (xs @ n # ys) \<Longrightarrow> deps_first tasks xs \<and> kids tasks n \<subseteq> set xs"
proof -
  assume d: "deps_first tasks (xs @ n # ys)"
  have "kids tasks (xs ! k) \<subseteq> set (take k xs)" if "k < length xs" for k
    using d that by (auto simp: deps_first_def nth_append split: if_splits dest!: spec [of _ k])
  moreover have "kids tasks n \<subseteq> set xs"
    using d by (auto simp: deps_first_def dest!: spec [of _ "length xs"])
  ultimately show ?thesis by (simp add: deps_first_def)
qed

text \<open>C26: Of the tasks that the target depends on by \<open>depends-on\<close>, directly or through others,
  each runs after everything that it depends on itself has run successfully, each at most once as a
  prerequisite; only the target gets the parameters of the command line. A run that fails stops at the
  first of them that fails, before any that depends on it. The runs that an action starts by \<open>run-task\<close>
  are part of the run of their caller: the prerequisites of the called task are not run for it, and it
  may run again.\<close>

theorem prerequisites_run_first:
  assumes "std_map tasks" and "validateTaskGraph tasks = Inr ()" and "target \<in> fst ` set tasks"
    and "runTask S tasks fuel target cli = Some (did, res)"
  shows "distinct did \<and> deps_first tasks did \<and> (\<forall>n \<in> set did. task_succeeds S tasks fuel target cli n) \<and>
    (case res of
       Inr outs \<Rightarrow> set did = (dep_rel tasks)\<^sup>* `` {target} \<and> last did = target \<and>
         runOneTask S tasks fuel (the (map_of tasks target)) cli = Some (Inr outs)
     | Inl e \<Rightarrow> \<exists>n t. map_of tasks n = Some t \<and> n \<notin> set did \<and> kids tasks n \<subseteq> set did \<and>
         (target, n) \<in> (dep_rel tasks)\<^sup>* \<and>
         runOneTask S tasks fuel t (if n = target then cli else []) = Some (Inl e))"
proof -
  let ?o = "topoOrder tasks target"
  have v: "closed tasks" "acyclic (dep_rel tasks)"
    using validate_cases [OF assms(1)] assms(2) by simp_all
  note o = topoOrder_facts [OF v assms(3)]
  have run: "run_order S tasks fuel target cli ?o ([], Map.empty) = Some (did, res)"
    using assms(2-4) by (auto simp: runTask_def split: option.splits simp: map_of_eq_None_iff)
  have "(target, x) \<in> (dep_rel tasks)\<^sup>* \<Longrightarrow> x \<in> fst ` set tasks" for x
    by (induction rule: rtrancl_induct) (use assms(3) v(1) in \<open>auto simp: closed_iff\<close>)
  then have "set ?o \<subseteq> fst ` set tasks" using o(3) by auto
  from run this show ?thesis
  proof (cases rule: run_order_facts)
    case (all outs')
    have "target \<in> set ?o" using o(3) by auto
    with all o show ?thesis by auto
  next
    case (failed before n t rest e)
    then have d: "distinct (before @ n # rest)" "deps_first tasks (before @ n # rest)" using o(1,2) by simp_all
    have "(target, n) \<in> (dep_rel tasks)\<^sup>*" using o(3) failed(1) by auto
    with failed d deps_first_prefix [OF d(2)]
    have "map_of tasks n = Some t \<and> n \<notin> set did \<and> kids tasks n \<subseteq> set did \<and> (target, n) \<in> (dep_rel tasks)\<^sup>* \<and>
        runOneTask S tasks fuel t (if n = target then cli else []) = Some (Inl e)"
      and "distinct did \<and> deps_first tasks did \<and> (\<forall>n \<in> set did. task_succeeds S tasks fuel target cli n)"
      by simp_all
    then show ?thesis unfolding failed(3) sum.case by blast
  qed
qed

subsection \<open>Calls that end\<close>

fun called_names :: "'o ActionEntry \<Rightarrow> string list" where
  "called_names (Invocation iv) = []"
| "called_names (Parallel cs) = concat (map called_names cs)"
| "called_names (RunTask call) = [rt_taskName call]"

fun invocations :: "'o ActionEntry \<Rightarrow> 'o ActionInvocation list" where
  "invocations (Invocation iv) = [iv]"
| "invocations (Parallel cs) = concat (map invocations cs)"
| "invocations (RunTask call) = []"

definition call_rel :: "'o tasks \<Rightarrow> (string \<times> string) set" where
  "call_rel tasks =
     {(a, b). \<exists>t. map_of tasks a = Some t \<and> b \<in> set (concat (map called_names (t_actions t)))}"

text \<open>The parameters of an action are not deeper than the bound.\<close>

definition shallow_params :: "('v, 'o) session \<Rightarrow> 'o ActionEntry list \<Rightarrow> bool" where
  "shallow_params S es \<longleftrightarrow>
     (\<forall>iv \<in> set (concat (map invocations es)). \<forall>ctx bc. substituteParams S ctx bc (ai_params iv) \<noteq> None)"

definition returns_at :: "('v, 'o) session \<Rightarrow> 'o tasks \<Rightarrow> nat \<Rightarrow> 'o Task \<Rightarrow> bool" where
  "returns_at S tasks n t \<longleftrightarrow> (\<forall>occ base ctx. runEntries S tasks n occ base 0 (t_actions t) ctx \<noteq> None)"

lemma run_mono_le: "n \<le> m \<Longrightarrow> runEntries S tasks n occ base i es ctx \<noteq> None \<Longrightarrow> runEntries S tasks m occ base i es ctx \<noteq> None"
proof (induction rule: dec_induct)
  case (step m)
  then show ?case using run_mono(1) by fastforce
qed

lemma start_call_found: "start_call S tasks bc call ctx = Inr (Some (called, c)) \<Longrightarrow> map_of tasks (rt_taskName call) = Some called"
  by (auto simp: start_call_def split: option.splits if_splits elim!: bindE_Inr_cases)

lemma runEntries_returns:
  "(\<And>b t. b \<in> set (concat (map called_names es)) \<Longrightarrow> map_of tasks b = Some t \<Longrightarrow> \<exists>k. fuel = Suc k \<and> returns_at S tasks k t) \<Longrightarrow>
     shallow_params S es \<Longrightarrow> runEntries S tasks fuel occ base i es ctx \<noteq> None"
  "(\<And>b t. b \<in> set (concat (map called_names cs)) \<Longrightarrow> map_of tasks b = Some t \<Longrightarrow> \<exists>k. fuel = Suc k \<and> returns_at S tasks k t) \<Longrightarrow>
     shallow_params S cs \<Longrightarrow> run_children S tasks fuel occ bc i cs ctx \<noteq> None"
proof (induction S tasks fuel occ base i es ctx and S tasks fuel occ bc i cs ctx rule: runEntries_run_children.induct)
  case (2 S tasks fuel occ base i e es ctx)
  have "run_entry S tasks fuel occ (entry_crumb base i) e ctx \<noteq> None"
  proof (cases e)
    case (Invocation iv)
    then show ?thesis using 2(5)
      by (auto simp: run_entry_def runOneInvocation_def shallow_params_def split: sum.splits option.splits bool.splits)
  next
    case (Parallel cs)
    have "run_children S tasks fuel occ (entry_crumb base i) 0 cs ctx \<noteq> None" if "cs \<noteq> []"
    proof (rule 2(1) [OF Parallel that])
      show "\<exists>k. fuel = Suc k \<and> returns_at S tasks k t"
        if "b \<in> set (concat (map called_names cs))" "map_of tasks b = Some t" for b t
        using 2(4) [of b t] that Parallel by simp
      show "shallow_params S cs" using 2(5) Parallel by (simp add: shallow_params_def)
    qed
    then show ?thesis using Parallel by (auto simp: run_entry_def runParallel_def)
  next
    case (RunTask call)
    have "runOneRunTask S tasks fuel occ (entry_crumb base i) call ctx \<noteq> None"
    proof (cases "\<exists>called c. start_call S tasks (entry_crumb base i) call ctx = Inr (Some (called, c))")
      case True
      then obtain called c where c: "start_call S tasks (entry_crumb base i) call ctx = Inr (Some (called, c))" by blast
      from 2(4) [of "rt_taskName call", OF _ start_call_found [OF c]] RunTask
      obtain k where "fuel = Suc k" "returns_at S tasks k called" by auto
      with c show ?thesis by (auto simp: runOneRunTask_def returns_at_def)
    qed (auto simp: runOneRunTask_def split: sum.splits option.splits)
    then show ?thesis by (simp add: RunTask run_entry_def)
  qed
  then obtain q where q: "run_entry S tasks fuel occ (entry_crumb base i) e ctx = Some q" by blast
  have "runEntries S tasks fuel occ base (Suc i) es ctx' \<noteq> None" if "q = Inr ctx'" for ctx'
  proof (rule 2(3) [OF q [unfolded run_entry_def runParallel_def runOneRunTask_def] that])
    show "\<exists>k. fuel = Suc k \<and> returns_at S tasks k t"
      if "b \<in> set (concat (map called_names es))" "map_of tasks b = Some t" for b t
      using 2(4) [of b t] that by simp
    show "shallow_params S es" using 2(5) by (simp add: shallow_params_def)
  qed
  with q show ?case by (cases q) simp_all
next
  case (4 S tasks fuel occ bc i c cs ctx)
  have sub: "shallow_params S [c]" "shallow_params S cs" using 4(4) by (simp_all add: shallow_params_def)
  have first: "runEntries S tasks fuel occ (child_crumb bc i) 0 [c] (snapshot ctx) \<noteq> None"
    by (rule 4(1)) (use 4(3) sub in auto)
  then obtain r where r: "runEntries S tasks fuel occ (child_crumb bc i) 0 [c] (snapshot ctx) = Some r" by blast
  have "run_children S tasks fuel occ bc (Suc i) cs ctx \<noteq> None"
    by (rule 4(2) [OF r]) (use 4(3) sub in auto)
  with r show ?case by (simp del: runEntries_Cons)
qed simp_all

lemma task_returns:
  assumes "finite (call_rel tasks)" "acyclic (call_rel tasks)"
    and shallow: "\<And>n t. map_of tasks n = Some t \<Longrightarrow> shallow_params S (t_actions t)"
  shows "map_of tasks n = Some t \<Longrightarrow> \<exists>k. returns_at S tasks k t"
proof -
  have "wf ((call_rel tasks)\<inverse>)" by (rule finite_acyclic_wf_converse [OF assms(1,2)])
  then show "map_of tasks n = Some t \<Longrightarrow> \<exists>k. returns_at S tasks k t"
  proof (induction n arbitrary: t rule: wf_induct_rule)
    case (less n)
    let ?C = "set (concat (map called_names (t_actions t)))"
    have "\<forall>b \<in> ?C. \<exists>k. \<forall>t'. map_of tasks b = Some t' \<longrightarrow> returns_at S tasks k t'"
    proof
      fix b assume "b \<in> ?C"
      then have "(b, n) \<in> (call_rel tasks)\<inverse>" using less.prems by (auto simp: call_rel_def)
      with less.IH show "\<exists>k. \<forall>t'. map_of tasks b = Some t' \<longrightarrow> returns_at S tasks k t'"
        by (cases "map_of tasks b") auto
    qed
    then obtain k where k: "\<And>b t'. b \<in> ?C \<Longrightarrow> map_of tasks b = Some t' \<Longrightarrow> returns_at S tasks (k b) t'" by metis
    define N where "N = Max (insert 0 (k ` ?C))"
    have ret: "returns_at S tasks N t'" if "b \<in> ?C" "map_of tasks b = Some t'" for b t'
    proof -
      have "k b \<le> N" unfolding N_def using that(1) by (intro Max_ge) auto
      with k [OF that] run_mono_le show ?thesis unfolding returns_at_def by blast
    qed
    have "runEntries S tasks (Suc N) occ base 0 (t_actions t) ctx \<noteq> None" for occ base ctx
      by (rule runEntries_returns(1)) (use ret shallow [OF less.prems] in auto)
    then show ?case unfolding returns_at_def by blast
  qed
qed

subsection \<open>Runs that end and runs that do not\<close>

lemma finite_call_rel: "finite (call_rel tasks)"
proof (rule finite_subset)
  show "call_rel tasks \<subseteq> (\<Union>(n, t) \<in> set tasks. {n} \<times> set (concat (map called_names (t_actions t))))"
    by (auto simp: call_rel_def dest!: map_of_SomeD)
qed (auto intro!: finite_UN_I)

lemma run_order_returns:
  assumes "\<And>n t. map_of tasks n = Some t \<Longrightarrow> returns_at S tasks fuel t"
  shows "run_order S tasks fuel target cli names (ex, outs) \<noteq> None"
proof (induction names arbitrary: ex outs)
  case (Cons n names)
  show ?case
  proof (cases "map_of tasks n")
    case (Some t)
    have "runOneTask S tasks fuel t c \<noteq> None" for c
      using assms [OF Some] by (auto simp: runOneTask_def returns_at_def split: sum.splits)
    then obtain r where "runOneTask S tasks fuel t (if n = target then cli else []) = Some r" by blast
    with Some Cons.IH show ?thesis by (cases r) simp_all
  qed simp
qed simp

text \<open>C27: A run ends, with outputs or an error, whenever the tasks do not call each other in a circle
  by \<open>run-task\<close> and the parameters are not deeper than the bound: some nesting is enough for every
  task and every command line.\<close>

theorem runTask_returns:
  assumes "acyclic (call_rel tasks)"
    and "\<And>n t. map_of tasks n = Some t \<Longrightarrow> shallow_params S (t_actions t)"
  shows "\<exists>enough. \<forall>more name cli. runTask S tasks (enough + more) name cli \<noteq> None"
proof -
  have "\<exists>k. \<forall>t. map_of tasks n = Some t \<longrightarrow> returns_at S tasks k t" for n
    using task_returns [OF finite_call_rel assms] by (cases "map_of tasks n") auto
  then obtain k where k: "\<And>n t. map_of tasks n = Some t \<Longrightarrow> returns_at S tasks (k n) t" by metis
  define N where "N = Max (insert 0 (k ` fst ` set tasks))"
  have "returns_at S tasks (N + more) t" if "map_of tasks n = Some t" for n t more
  proof -
    have "k n \<le> N" unfolding N_def using map_of_keys [OF that] by (intro Max_ge) auto
    then have "k n \<le> N + more" by simp
    with k [OF that] run_mono_le show ?thesis unfolding returns_at_def by blast
  qed
  then have "run_order S tasks (N + more) name cli names (did, outs) \<noteq> None" for more name cli names did outs
    using run_order_returns by blast
  then have "runTask S tasks (N + more) name cli \<noteq> None" for more name cli
    unfolding runTask_def by (simp split: sum.splits option.splits)
  then show ?thesis by blast
qed

definition plain_task :: "string \<Rightarrow> 'o ActionEntry list \<Rightarrow> (string \<times> string) list \<Rightarrow> 'o Task" where
  "plain_task name es outs =
     \<lparr>t_name = name, t_description = None, dependsOn = [], t_params = [], t_actions = es, t_outputs = outs,
      t_workingDir = None, t_env = []\<rparr>"

lemma plain_task_actions [simp]: "t_actions (plain_task name es outs) = es"
  by (simp add: plain_task_def)

definition loop_call :: RunTaskCall where
  "loop_call = \<lparr>rt_taskName = ''a'', rt_id = [], rt_params = [], rt_when = None, rt_skipWhen = None\<rparr>"

definition loop_tasks :: "'o tasks" where
  "loop_tasks = [(''a'', plain_task ''a'' [RunTask loop_call] [])]"

lemma loop_start:
  "start_call S loop_tasks bc loop_call ctx = Inr (Some (plain_task ''a'' [RunTask loop_call] [], new_context))"
  by (simp add: start_call_def loop_tasks_def loop_call_def shouldSkip_def call_params_def bindParams_def plain_task_def
      entry_id_def)

lemma loop_runs_on: "runEntries S loop_tasks fuel occ base i [RunTask loop_call] ctx = None"
proof (induction fuel arbitrary: occ base i ctx)
  case 0
  show ?case by (simp add: run_entry_def runOneRunTask_def loop_start)
next
  case (Suc fuel)
  then show ?case
    by (subst runEntries_Cons) (simp add: run_entry_def runOneRunTask_def loop_start del: runEntries_Cons)
qed

text \<open>The check for cycles looks at \<open>depends-on\<close> only. A task that calls itself by
  \<open>run-task\<close> passes it and never returns, however much nesting the run is given.\<close>

theorem run_task_recursion_not_caught:
  "validateTaskGraph (loop_tasks :: 'o tasks) = Inr () \<and> runTask S (loop_tasks :: 'o tasks) fuel ''a'' cli = None"
proof -
  have v: "validateTaskGraph (loop_tasks :: 'o tasks) = Inr ()"
    by (simp add: validateTaskGraph_def undefined_dependency_def loop_tasks_def plain_task_def detectCycle.simps)
  have m: "map_of loop_tasks ''a'' = Some (plain_task ''a'' [RunTask loop_call] [] :: 'o Task)" by (simp add: loop_tasks_def)
  have o: "topoOrder (loop_tasks :: 'o tasks) ''a'' = [''a'']"
    by (simp add: topoOrder_def Let_def loop_tasks_def plain_task_def)
  have "runOneTask S loop_tasks fuel (plain_task ''a'' [RunTask loop_call] []) cli = None"
    using loop_runs_on [of S fuel]
    by (simp add: runOneTask_def bindParams_def plain_task_def entry_id_def loop_call_def del: runEntries_Cons)
  with v m o show ?thesis by (simp add: runTask_def)
qed

subsection \<open>Contexts of parallel groups\<close>

definition demo_actions ::
    "string \<Rightarrow> (string list \<Rightarrow> (string \<times> jtree) list \<Rightarrow> TaskContext \<Rightarrow> string + (string \<rightharpoonup> string)) option" where
  "demo_actions name =
     (if name = ''build''
      then Some (\<lambda>occ ps ctx. Inr [''flavor'' \<mapsto> (case map_of ps ''flavor'' of Some (JStr s) \<Rightarrow> s | _ \<Rightarrow> [])])
      else None)"

definition demo_session :: "(jtree, (string \<times> jtree) list) session" where
  "demo_session =
     \<lparr>sn_json = tree_json Map.empty, sn_builder = tree_builder,
      sn_process = \<lparr>getenv = (\<lambda>_. None), cajetaVersion = []\<rparr>,
      sn_props = \<lparr>rp_values = Map.empty, resolutionOrder = []\<rparr>,
      getAsInteger = (\<lambda>_. None), getAsDouble = (\<lambda>_. None), sn_depth = 2, registry = demo_actions\<rparr>"

definition build_as :: "string \<Rightarrow> string \<Rightarrow> (string \<times> jtree) list ActionEntry" where
  "build_as ident flavor =
     Invocation \<lparr>ai_action = ''build'', ai_id = ident, ai_params = [(''flavor'', JStr flavor)], ai_when = None,
       ai_skipWhen = None\<rparr>"

text \<open>What the output \<open>flavor: "${b.flavor}"\<close> of a task with the given actions comes to.\<close>

definition flavor_built :: "(string \<times> jtree) list ActionEntry list \<Rightarrow> (string \<times> string) list \<Rightarrow> string option" where
  "flavor_built es cli =
     (case runOneTask demo_session [] 0 (plain_task ''t'' es [(''flavor'', ''${b.flavor}'')]) cli of
        Some (Inr outs) \<Rightarrow> outs ''flavor''
      | _ \<Rightarrow> None)"

text \<open>The children of a parallel group do not see the overrides of the command line, which every
  other action gets: \<open>snapshot\<close> leaves them out. And the join overwrites what one child published
  with what a later child had inherited, so that the order of the children decides what is seen
  afterwards, against the documents.\<close>

theorem parallel_context_defects:
  "flavor_built [build_as ''b'' ''debug''] [(''flavor'', ''release'')] = Some ''release'' \<and>
   flavor_built [Parallel [build_as ''b'' ''debug'']] [(''flavor'', ''release'')] = Some ''debug'' \<and>
   flavor_built [build_as ''b'' ''old'', Parallel [build_as ''b'' ''new'', build_as ''c'' ''x'']] [] = Some ''old'' \<and>
   flavor_built [build_as ''b'' ''old'', Parallel [build_as ''c'' ''x'', build_as ''b'' ''new'']] [] = Some ''new''"
  by (intro conjI) code_simp+

subsection \<open>Witnesses\<close>

definition run_tasks :: "(string \<times> jtree) list tasks" where
  "run_tasks =
     [(''a'', plain_task ''a'' [build_as ''b'' ''x''] [(''flavor'', ''${b.flavor}'')]),
      (''t'', (plain_task ''t'' [RunTask loop_call] [])\<lparr>dependsOn := [''a'']\<rparr>)]"

lemma run_tasks_map: "std_map run_tasks"
  by (simp add: run_tasks_def std_map_Cons)

lemma run_tasks_of: "map_of run_tasks n = Some t \<Longrightarrow>
    t = plain_task ''a'' [build_as ''b'' ''x''] [(''flavor'', ''${b.flavor}'')] \<or>
    t = (plain_task ''t'' [RunTask loop_call] [])\<lparr>dependsOn := [''a'']\<rparr>"
  by (auto simp: run_tasks_def split: if_splits)

text \<open>The second child of a group runs first, and both answer as they come: the first child then finds what the second
  one has left.\<close>

theorem interleavings_agree_witness:
  "\<exists>a ts. schedule demo_session [] (Running [] ''t'' 0 [Parallel [build_as ''b'' ''x'', build_as ''c'' ''y'']] new_context # ts) \<and>
     ts \<noteq> [] \<and> (\<exists>r n. last ts = Done r \<and>
       runEntries (answering demo_session a) [] n [] ''t'' 0 [Parallel [build_as ''b'' ''x'', build_as ''c'' ''y'']] new_context = Some r \<and>
       (case r of Inr ctx \<Rightarrow> ctx_lookup demo_session ctx ''b.flavor'' = Some ''second'' \<and> ctx_lookup demo_session ctx ''c.flavor'' = Some ''first''
        | Inl e \<Rightarrow> False))"
proof -
  let ?A = "build_as ''b'' ''x''" and ?B = "build_as ''c'' ''y''" and ?bc = "entry_crumb ''t'' 0"
  let ?first = "\<lambda>occ :: string list. Inr [''flavor'' \<mapsto> ''first''] :: string + (string \<rightharpoonup> string)"
  let ?second = "\<lambda>occ :: string list. Inr [''flavor'' \<mapsto> ''second''] :: string + (string \<rightharpoonup> string)"
  let ?sn = "snapshot new_context"
  let ?cA = "publishOutputs ''b'' [''flavor'' \<mapsto> ''second''] ?sn" and ?cB = "publishOutputs ''c'' [''flavor'' \<mapsto> ''first''] ?sn"
  let ?RA = "Running [] (child_crumb ?bc 0) 0 [?A] ?sn" and ?RB = "Running [] (child_crumb ?bc 1) 0 [?B] ?sn"
  let ?EA = "Running [] (child_crumb ?bc 0) 1 [] ?cA" and ?EB = "Running [] (child_crumb ?bc 1) 1 [] ?cB"
  let ?J = "\<lambda>x y. Joining [] ''t'' 1 [] new_context [x, y]"
  let ?r = "join_children new_context [Inr ?cA, Inr ?cB]"
  let ?fin = "mergeOutputs ?cB (mergeOutputs ?cA new_context)"
  let ?start = "Running [] ''t'' 0 [Parallel [?A, ?B]] new_context"
  let ?ts = "[?J ?RA ?RB, ?J ?RA ?EB, ?J ?EA ?EB, ?J ?EA (Done (Inr ?cB)), ?J (Done (Inr ?cA)) (Done (Inr ?cB)),
    Running [] ''t'' 1 [] ?fin, Done (Inr ?fin)]"
  have run: "runOneInvocation (answering demo_session (\<lambda>occ. Inr [''flavor'' \<mapsto> v])) [] bc
      \<lparr>ai_action = ''build'', ai_id = ident, ai_params = [(''flavor'', JStr p)], ai_when = None, ai_skipWhen = None\<rparr> ?sn =
      Some (Inr (publishOutputs ident [''flavor'' \<mapsto> v] ?sn))" if "ident = ''b'' \<or> ident = ''c''" "p = ''x'' \<or> p = ''y''" for v bc ident p
    using that by (auto simp: runOneInvocation_def shouldSkip_def answering_registry demo_session_def demo_actions_def
      substituteParams_def numeral_2_eq_2 ctx_substitute_def ctx_substituteOnce_def publishOutputs_def)
  have A: "runOneInvocation (answering demo_session ?second) [] (entry_crumb (child_crumb ?bc 0) 0)
      \<lparr>ai_action = ''build'', ai_id = ''b'', ai_params = [(''flavor'', JStr ''x'')], ai_when = None, ai_skipWhen = None\<rparr> ?sn = Some (Inr ?cA)"
    and B: "runOneInvocation (answering demo_session ?first) [] (entry_crumb (child_crumb ?bc 1) 0)
      \<lparr>ai_action = ''build'', ai_id = ''c'', ai_params = [(''flavor'', JStr ''y'')], ai_when = None, ai_skipWhen = None\<rparr> ?sn = Some (Inr ?cB)"
    by (rule run; simp)+
  have st: "thread_step (answering demo_session a) [] ?start (?J ?RA ?RB)" for a
    using thread_step.Fork [of "[?A, ?B]" "answering demo_session a" "[]" "[]" "''t''" 0 "[]" new_context] by simp
  have sB: "thread_step (answering demo_session ?first) [] (?J ?RA ?RB) (?J ?RA ?EB)"
    using thread_step.Child [OF thread_step.Invoke [OF B, of "[]" "[]"], where occ = "[]" and base = "''t''" and i = 1 and es = "[]" and ctx = new_context and xs = "[?RA]" and ys = "[]"]
    by (simp add: build_as_def resume_def)
  have sA: "thread_step (answering demo_session ?second) [] (?J ?RA ?EB) (?J ?EA ?EB)"
    using thread_step.Child [OF thread_step.Invoke [OF A, of "[]" "[]"], where occ = "[]" and base = "''t''" and i = 1 and es = "[]" and ctx = new_context and xs = "[]" and ys = "[?EB]"]
    by (simp add: build_as_def resume_def)
  have dB: "thread_step (answering demo_session a) [] (?J ?EA ?EB) (?J ?EA (Done (Inr ?cB)))" for a
    using thread_step.Child [OF thread_step.Finish [of "answering demo_session a" "[]" "[]" "child_crumb ?bc 1" 1 ?cB], where occ = "[]" and base = "''t''" and i = 1 and es = "[]" and ctx = new_context and xs = "[?EA]" and ys = "[]"] by simp
  have dA: "thread_step (answering demo_session a) [] (?J ?EA (Done (Inr ?cB))) (?J (Done (Inr ?cA)) (Done (Inr ?cB)))" for a
    using thread_step.Child [OF thread_step.Finish [of "answering demo_session a" "[]" "[]" "child_crumb ?bc 0" 1 ?cA], where occ = "[]" and base = "''t''" and i = 1 and es = "[]" and ctx = new_context and xs = "[]" and ys = "[Done (Inr ?cB)]"] by simp
  have e: "join_children new_context [Inr ?cA, Inr ?cB] = Inr ?fin" by (simp add: join_children_def)
  have jn: "thread_step (answering demo_session a) [] (?J (Done (Inr ?cA)) (Done (Inr ?cB))) (Running [] ''t'' 1 [] ?fin)" for a
    using thread_step.Join [of "answering demo_session a" "[]" "[]" "''t''" 1 "[]" new_context "[Inr ?cA, Inr ?cB]"] e by (simp add: resume_def)
  have fin: "thread_step (answering demo_session a) [] (Running [] ''t'' 1 [] ?fin) (Done (Inr ?fin))" for a
    by (rule thread_step.Finish)
  have sch: "schedule demo_session [] (?start # ?ts)"
    by (intro schedule.intros(2) [OF st] schedule.intros(2) [OF sB] schedule.intros(2) [OF sA] schedule.intros(2) [OF dB]
        schedule.intros(2) [OF dA] schedule.intros(2) [OF jn] schedule.intros(2) [OF fin] schedule.intros(1))
  have la: "last (?start # ?ts) = Done (Inr ?fin)" by simp
  from interleavings_agree [OF sch la] obtain a n where
    "runEntries (answering demo_session a) [] n [] ''t'' 0 [Parallel [?A, ?B]] new_context = Some (Inr ?fin)" by blast
  moreover have "ctx_lookup demo_session ?fin ''b.flavor'' = Some ''second''" "ctx_lookup demo_session ?fin ''c.flavor'' = Some ''first''"
    by (simp_all add: ctx_lookup_def output_field_def mergeOutputs_def publishOutputs_def new_context_def snapshot_def)
  ultimately show ?thesis
    by (intro exI [of _ a] exI [of _ ?ts] conjI exI [of _ "Inr ?fin"] exI [of _ n] sch) simp_all
qed

theorem prerequisites_run_first_witness:
  "\<exists>did res. runTask demo_session run_tasks 1 ''t'' [] = Some (did, res) \<and> distinct did \<and> deps_first run_tasks did"
proof -
  have v: "validateTaskGraph run_tasks = Inr ()" by code_simp
  have "map_option fst (runTask demo_session run_tasks 1 ''t'' []) = Some [''a'', ''t'']" by code_simp
  then obtain res where r: "runTask demo_session run_tasks 1 ''t'' [] = Some ([''a'', ''t''], res)"
    by (cases "runTask demo_session run_tasks 1 ''t'' []") auto
  have "''t'' \<in> fst ` set run_tasks" by (simp add: run_tasks_def)
  from prerequisites_run_first [OF run_tasks_map v this r] r show ?thesis by blast
qed

theorem runTask_returns_witness:
  "\<exists>enough. \<forall>more name cli. runTask demo_session run_tasks (enough + more) name cli \<noteq> None"
proof (rule runTask_returns)
  have "call_rel run_tasks = {(''t'', ''a'')}"
    by (auto simp: call_rel_def run_tasks_def build_as_def loop_call_def split: if_splits)
  then show "acyclic (call_rel run_tasks)" by (simp add: acyclic_def trancl_insert)
  have "substituteParams demo_session ctx bc [(''flavor'', JStr ''x'')] \<noteq> None" for ctx bc
    by (simp add: substituteParams_def demo_session_def numeral_2_eq_2 split: sum.splits)
  then show "shallow_params demo_session (t_actions t)" if "map_of run_tasks n = Some t" for n t
    using run_tasks_of [OF that] by (auto simp: shallow_params_def build_as_def)
qed

subsection \<open>The preview\<close>

text \<open>Substitution that leaves an unknown reference as it is written.\<close>

fun subst_safe :: "(string \<Rightarrow> string option) \<Rightarrow> string \<Rightarrow> string" where
  "subst_safe look [] = []"
| "subst_safe look [c] = [c]"
| "subst_safe look (c # d # cs) =
     (if c = CHR ''$'' \<and> d = CHR ''$'' then CHR ''$'' # subst_safe look cs
      else if c = CHR ''$'' \<and> d = CHR ''{'' then
        (case upto_brace cs of
           None \<Rightarrow> c # d # cs
         | Some (name, rest) \<Rightarrow>
             (case look name of Some v \<Rightarrow> v | None \<Rightarrow> ''${'' @ name @ ''}'') @ subst_safe look rest)
      else c # subst_safe look (d # cs))"

definition subSafe :: "('v, 'o) session \<Rightarrow> TaskContext \<Rightarrow> string \<Rightarrow> string" where
  "subSafe S ctx s = subst_safe (ctx_lookup S ctx) s"

definition in_quotes :: "string \<Rightarrow> string" where
  "in_quotes s = [CHR 0x22] @ s @ [CHR 0x22]"

definition newline :: string where
  "newline = [CHR 0x0A]"

text \<open>\<open>show\<close> is the library's printer, for numbers, booleans and null.\<close>

fun showValue :: "('v, 'o) session \<Rightarrow> ('v \<Rightarrow> string) \<Rightarrow> TaskContext \<Rightarrow> nat \<Rightarrow> 'v \<Rightarrow> string option" where
  "showValue S show ctx 0 v = None"
| "showValue S show ctx (Suc fuel) v =
     (case asString (sn_json S) v of
        Some s \<Rightarrow> Some (in_quotes (subSafe S ctx s))
      | None \<Rightarrow>
     (case asObject (sn_json S) v of
        Some ob \<Rightarrow>
          map_option (\<lambda>ms. ''{'' @ join_with '', '' ms @ ''}'')
            (those (map (\<lambda>(k, w). map_option (\<lambda>t. in_quotes k @ '': '' @ t) (showValue S show ctx fuel w))
               (members (sn_json S) ob)))
      | None \<Rightarrow>
     (case asArray (sn_json S) v of
        Some vs \<Rightarrow>
          map_option (\<lambda>ts. ''['' @ join_with '', '' ts @ '']'') (those (map (showValue S show ctx fuel) vs))
      | None \<Rightarrow> Some (show v))))"

definition show_id :: "string \<Rightarrow> string" where
  "show_id ident = (if ident \<noteq> [] then ''  (id: '' @ ident @ '')'' else [])"

definition show_condition :: "('v, 'o) session \<Rightarrow> TaskContext \<Rightarrow> string \<Rightarrow> string \<Rightarrow> string option \<Rightarrow> string" where
  "show_condition S ctx pad key w =
     (case w of None \<Rightarrow> [] | Some e \<Rightarrow> pad @ ''    '' @ key @ '': '' @ in_quotes (subSafe S ctx e) @ newline)"

definition show_invocation ::
    "('v, 'o) session \<Rightarrow> ('v \<Rightarrow> string) \<Rightarrow> TaskContext \<Rightarrow> string \<Rightarrow> 'o ActionInvocation \<Rightarrow> string option" where
  "show_invocation S show ctx pad iv =
     map_option (\<lambda>ps.
         pad @ ''- action: '' @ ai_action iv @ show_id (ai_id iv) @ newline @ concat ps @
         show_condition S ctx pad ''when'' (ai_when iv) @ show_condition S ctx pad ''skip-when'' (ai_skipWhen iv))
       (those (map (\<lambda>(k, v). map_option (\<lambda>t. pad @ ''    '' @ k @ '': '' @ t @ newline)
            (showValue S show ctx (sn_depth S) v))
          (members (sn_json S) (ai_params iv))))"

definition show_call :: "('v, 'o) session \<Rightarrow> TaskContext \<Rightarrow> string \<Rightarrow> RunTaskCall \<Rightarrow> string" where
  "show_call S ctx pad call =
     pad @ ''- run-task: '' @ rt_taskName call @ show_id (rt_id call) @ newline @
     concat (map (\<lambda>(k, v). pad @ ''    '' @ k @ '': '' @ in_quotes (subSafe S ctx v) @ newline) (rt_params call))"

text \<open>One text after the other.\<close>

definition text_then :: "string option \<Rightarrow> string option \<Rightarrow> string option" where
  "text_then a b = Option.bind a (\<lambda>s. map_option ((@) s) b)"

fun showEntries ::
    "('v, 'o) session \<Rightarrow> ('v \<Rightarrow> string) \<Rightarrow> TaskContext \<Rightarrow> nat \<Rightarrow> 'o ActionEntry list \<Rightarrow> string option" where
  "showEntries S show ctx indent [] = Some []"
| "showEntries S show ctx indent (Invocation iv # es) =
     text_then (show_invocation S show ctx (replicate indent CHR '' '') iv) (showEntries S show ctx indent es)"
| "showEntries S show ctx indent (Parallel cs # es) =
     text_then
       (map_option (\<lambda>t. replicate indent CHR '' '' @ ''- parallel:'' @ newline @ t)
          (showEntries S show ctx (indent + 4) cs))
       (showEntries S show ctx indent es)"
| "showEntries S show ctx indent (RunTask call # es) =
     text_then (Some (show_call S ctx (replicate indent CHR '' '') call)) (showEntries S show ctx indent es)"

definition show_header :: "'o Task \<Rightarrow> string \<Rightarrow> string" where
  "show_header task taskName =
     ''task: '' @ taskName @
     (case t_description task of None \<Rightarrow> [] | Some d \<Rightarrow> ''  '' @ [CHR 0xE2, CHR 0x80, CHR 0x94] @ '' '' @ d) @ newline @
     (if dependsOn task \<noteq> [] then ''  depends-on: '' @ join_with '', '' (dependsOn task) @ newline else []) @
     ''  actions:'' @ newline"

definition show_outputs :: "('v, 'o) session \<Rightarrow> TaskContext \<Rightarrow> (string \<times> string) list \<Rightarrow> string" where
  "show_outputs S ctx outs =
     (if outs = [] then []
      else ''  outputs:'' @ newline @
        concat (map (\<lambda>(k, v). ''    '' @ k @ '': '' @ in_quotes (subSafe S ctx v) @ newline) outs))"

definition showTask ::
    "('v, 'o) session \<Rightarrow> ('v \<Rightarrow> string) \<Rightarrow> 'o tasks \<Rightarrow> string \<Rightarrow> (string \<times> string) list \<Rightarrow>
     (run_error + string) option" where
  "showTask S show tasks taskName cli =
     (case validateTaskGraph tasks of
        Inl e \<Rightarrow> Some (Inl (BadGraph e))
      | Inr _ \<Rightarrow>
     (case map_of tasks taskName of
        None \<Rightarrow> Some (Inl (NoSuchTask taskName))
      | Some task \<Rightarrow>
     (case bindParams S task cli new_context of
        Inl e \<Rightarrow> Some (Inl e)
      | Inr ctx \<Rightarrow>
          map_option (\<lambda>t. Inr (show_header task taskName @ t @ show_outputs S ctx (t_outputs task)))
            (showEntries S show ctx 4 (t_actions task)))))"

text \<open>What the preview shows of a text that can be substituted is what a run would make of it.\<close>

lemma subst_safe_agrees: "substituteOnce look s = Inr r \<Longrightarrow> subst_safe look s = r"
  by (induction look s arbitrary: r rule: substituteOnce.induct)
    (auto split: if_splits option.splits elim!: bindE_Inr_cases)

lemma preview_agrees: "ctx_substitute S ctx w s = Inr r \<Longrightarrow> subSafe S ctx s = r"
  by (auto simp: ctx_substitute_def ctx_substituteOnce_def subSafe_def subst_safe_agrees split: sum.splits)

subsection \<open>Calls and prerequisites\<close>

definition calling_tasks :: "(string \<times> jtree) list tasks" where
  "calling_tasks =
     [(''a'', (plain_task ''a'' [build_as ''b'' ''x''] [])\<lparr>dependsOn := [''p'']\<rparr>),
      (''p'', plain_task ''p'' [Invocation \<lparr>ai_action = ''absent'', ai_id = [], ai_params = [], ai_when = None, ai_skipWhen = None\<rparr>] []),
      (''t'', plain_task ''t'' [RunTask loop_call, RunTask loop_call] [])]"

text \<open>The documents call a \<open>run-task\<close> entry equivalent to listing the task in \<open>depends-on\<close>. The task \<open>a\<close>
  depends on \<open>p\<close>, which fails: run as a target it never starts, and called by \<open>t\<close> it runs twice, without
  \<open>p\<close>, and \<open>t\<close> succeeds.\<close>

theorem called_task_runs_without_prerequisites:
  "validateTaskGraph calling_tasks = Inr () \<and>
   (\<exists>e. runTask demo_session calling_tasks 1 ''a'' [] = Some ([], Inl e)) \<and>
   (\<exists>outs. runTask demo_session calling_tasks 1 ''t'' [] = Some ([''t''], Inr outs))"
proof (intro conjI)
  show "validateTaskGraph calling_tasks = Inr ()" by code_simp
  have "case runTask demo_session calling_tasks 1 ''a'' [] of Some (d, Inl _) \<Rightarrow> d = [] | _ \<Rightarrow> False" by code_simp
  then show "\<exists>e. runTask demo_session calling_tasks 1 ''a'' [] = Some ([], Inl e)"
    by (auto split: option.splits prod.splits sum.splits)
  have "case runTask demo_session calling_tasks 1 ''t'' [] of Some (d, Inr _) \<Rightarrow> d = [''t''] | _ \<Rightarrow> False" by code_simp
  then show "\<exists>outs. runTask demo_session calling_tasks 1 ''t'' [] = Some ([''t''], Inr outs)"
    by (auto split: option.splits prod.splits sum.splits)
qed

end
