(* ===== verification/Melt_Import.thy ===== *)
theory Melt_Import
  imports Mvs_Resolver
begin

text \<open>
  Melts (\<open>buildtool/Melt.h\<close>, \<open>Melt.cpp\<close>): packages that export curated constraints,
  properties, actions and repositories. Their parsing, the expansion of \<open>settings.melts\<close>
  through the repositories, and the substitution of \<open>"*"\<close> constraints. Repositories and cache
  are those of the solver's environment.
\<close>

subsection \<open>Data\<close>

record MeltImport =
  mi_name :: string
  mi_version :: string

record 'o Melt =
  ml_dependencies :: "string \<rightharpoonup> string"
  ml_properties :: "string \<rightharpoonup> string"
  ml_actionsRaw :: "'o option"
  ml_repositories :: "RepositorySpec list"
  ml_melts :: "MeltImport list"

record ResolvedMelt =
  rm_name :: string
  rm_version :: string
  rm_resolvedFromRepo :: string
  rm_sha256 :: string
  rm_artifactPath :: string
  rm_transitiveMelts :: "MeltImport list"

record 'o MeltResolution =
  resolvedMelts :: "ResolvedMelt list"
  depConstraints :: "string \<rightharpoonup> string"
  depProvidedBy :: "string \<rightharpoonup> string"
  mr_properties :: "string \<rightharpoonup> string"
  propertyProvidedBy :: "string \<rightharpoonup> string"
  mr_actionsRaw :: 'o
  mr_repositories :: "RepositorySpec list"

datatype melt_error =
    BadImport string
  | ImportNotString string nat
  | InImport string nat melt_error
  | MeltRepoNotObject nat
  | MeltRepoNoName nat
  | MeltRepoNoType string
  | NotExportable string
  | MeltValueNotString string string
  | MeltCycle "string list"
  | NoMeltSidecar string string
  | MeltNotFound string "string list"
  | NotAMelt string
  | InMeltManifest manifest_error
  | FromRepository error
  | Uncurated string

subsection \<open>Parsing\<close>

definition allowedMeltFields :: "string list" where
  "allowedMeltFields = [''dependencies'', ''properties'', ''actions'', ''repositories'', ''melts'']"

text \<open>The last \<open>@\<close> separates the name from the version.\<close>

definition parseMeltImport :: "string \<Rightarrow> melt_error + MeltImport" where
  "parseMeltImport s =
     (let version = rev (takeWhile (\<lambda>c. c \<noteq> CHR ''@'') (rev s));
          name = take (length s - length version - 1) s
      in if CHR ''@'' \<notin> set s \<or> name = [] \<or> version = [] then Inl (BadImport s)
         else Inr \<lparr>mi_name = name, mi_version = version\<rparr>)"

fun parse_imports :: "('v, 'o) json \<Rightarrow> string \<Rightarrow> nat \<Rightarrow> 'v list \<Rightarrow> melt_error + MeltImport list" where
  "parse_imports J site i [] = Inr []"
| "parse_imports J site i (v # vs) =
     (case asString J v of
        None \<Rightarrow> Inl (ImportNotString site i)
      | Some s \<Rightarrow>
          (case parseMeltImport s of
             Inl e \<Rightarrow> Inl (InImport site i e)
           | Inr imp \<Rightarrow> bindE (parse_imports J site (i + 1) vs) (\<lambda>imps. Inr (imp # imps))))"

definition parseSettingsMelts :: "('v, 'o) json \<Rightarrow> 'o Manifest \<Rightarrow> melt_error + MeltImport list" where
  "parseSettingsMelts J m =
     (case Option.bind (m_settingsRaw m) (\<lambda>s. getArray J s ''melts'') of
        None \<Rightarrow> Inr []
      | Some arr \<Rightarrow> parse_imports J ''settings.melts'' 0 arr)"

definition parse_melt_repo :: "('v, 'o) json \<Rightarrow> nat \<Rightarrow> 'v \<Rightarrow> melt_error + RepositorySpec" where
  "parse_melt_repo J i v =
     (case asObject J v of
        None \<Rightarrow> Inl (MeltRepoNotObject i)
      | Some ob \<Rightarrow>
     (case getString J ob ''name'' of
        None \<Rightarrow> Inl (MeltRepoNoName i)
      | Some name \<Rightarrow>
     (case infer_type J ob of
        None \<Rightarrow> Inl (MeltRepoNoType name)
      | Some ty \<Rightarrow>
          Inr \<lparr>rs_name = name, rs_type = ty, rs_url = str_or (getString J ob ''url'') [],
               rs_path = str_or (getString J ob ''path'') [],
               rs_priority = (case getInteger J ob ''priority'' of None \<Rightarrow> 0 | Some p \<Rightarrow> cast_int32 p),
               rs_auth = no_auth, rs_gitRef = git_ref J ob,
               rs_gitSubdir = str_or (getString J ob ''subdir'') [], rs_verification = Publisher\<rparr>)))"

fun parseMeltRepos :: "('v, 'o) json \<Rightarrow> nat \<Rightarrow> 'v list \<Rightarrow> melt_error + RepositorySpec list" where
  "parseMeltRepos J i [] = Inr []"
| "parseMeltRepos J i (v # vs) =
     bindE (parse_melt_repo J i v) (\<lambda>r. bindE (parseMeltRepos J (i + 1) vs) (\<lambda>rs. Inr (r # rs)))"

definition melt_strings :: "('v, 'o) json \<Rightarrow> string \<Rightarrow> 'o \<Rightarrow> melt_error + (string \<rightharpoonup> string)" where
  "melt_strings J field ob =
     (case getObject J ob field of
        None \<Rightarrow> Inr Map.empty
      | Some ms \<Rightarrow>
          foldE (\<lambda>(k, v) out. case asString J v of
              None \<Rightarrow> Inl (MeltValueNotString field k)
            | Some s \<Rightarrow> Inr (out(k \<mapsto> s))) (members J ms) Map.empty)"

definition empty_melt :: "'o Melt" where
  "empty_melt = \<lparr>ml_dependencies = Map.empty, ml_properties = Map.empty, ml_actionsRaw = None,
     ml_repositories = [], ml_melts = []\<rparr>"

definition parseMelt :: "('v, 'o) json \<Rightarrow> 'o Manifest \<Rightarrow> melt_error + 'o Melt" where
  "parseMelt J m =
     (if \<not> m_hasMelt m then Inr empty_melt
      else case m_meltRaw m of
        None \<Rightarrow> Inr empty_melt
      | Some ob \<Rightarrow>
     (case find (\<lambda>k. k \<notin> set allowedMeltFields) (map fst (members J ob)) of
        Some k \<Rightarrow> Inl (NotExportable k)
      | None \<Rightarrow>
          bindE (melt_strings J ''dependencies'' ob) (\<lambda>deps.
          bindE (melt_strings J ''properties'' ob) (\<lambda>props.
          bindE (case getArray J ob ''repositories'' of None \<Rightarrow> Inr [] | Some arr \<Rightarrow> parseMeltRepos J 0 arr) (\<lambda>rs.
          bindE (case getArray J ob ''melts'' of None \<Rightarrow> Inr [] | Some arr \<Rightarrow> parse_imports J ''melt.melts'' 0 arr) (\<lambda>imps.
            Inr \<lparr>ml_dependencies = deps, ml_properties = props, ml_actionsRaw = getObject J ob ''actions'',
                 ml_repositories = rs, ml_melts = imps\<rparr>))))))"

subsection \<open>Expansion\<close>

definition melt_key :: "MeltImport \<Rightarrow> string" where
  "melt_key imp = mi_name imp @ ''@'' @ mi_version imp"

text \<open>An error of a repository or of the cache.\<close>

definition from_repo :: "('w, error, 'a) prog \<Rightarrow> ('w, melt_error, 'a) prog" where
  "from_repo p w = map_option (\<lambda>(r, w'). (case r of Inl e \<Rightarrow> Inl (FromRepository e) | Inr x \<Rightarrow> Inr x, w')) (p w)"

text \<open>The loop over the repositories: the first that lists the version supplies the artifact and the
  manifest.\<close>

fun find_melt ::
    "('w, 'v, 'o) env \<Rightarrow> MeltImport \<Rightarrow> 'w repository list \<Rightarrow> ('w, melt_error, ResolvedMelt \<times> string) prog" where
  "find_melt E imp [] = failP (MeltNotFound (melt_key imp) (map r_name (repos E)))"
| "find_melt E imp (repo # rs) =
     bindP (from_repo (listVersions repo (mi_name imp))) (\<lambda>versions.
     if mi_version imp \<notin> set versions then find_melt E imp rs
     else
       bindP (from_repo (fetch repo (mi_name imp) (mi_version imp))) (\<lambda>path.
       bindP (from_repo (cacheInsert E path)) (\<lambda>cached.
       bindP (from_repo (fetchManifestJson repo (mi_name imp) (mi_version imp))) (\<lambda>sidecar.
       case sidecar of
         None \<Rightarrow> failP (NoMeltSidecar (melt_key imp) (r_name repo))
       | Some manifestJson \<Rightarrow>
           bindP (readP (sha256OfFile E cached)) (\<lambda>sha.
           retP (\<lparr>rm_name = mi_name imp, rm_version = mi_version imp, rm_resolvedFromRepo = r_name repo,
                  rm_sha256 = sha, rm_artifactPath = cached, rm_transitiveMelts = []\<rparr>, manifestJson))))))"

definition load_melt :: "('w, 'v, 'o) env \<Rightarrow> string \<Rightarrow> string \<Rightarrow> melt_error + 'o Melt" where
  "load_melt E key manifestJson =
     (case loadManifestString (js E) manifestJson key of
        Inl e \<Rightarrow> Inl (InMeltManifest e)
      | Inr m \<Rightarrow> if \<not> m_hasMelt m then Inl (NotAMelt key) else parseMelt (js E) m)"

text \<open>What a melt contributes, written after what it imports.\<close>

definition contribute ::
    "('v, 'o) json \<Rightarrow> ('v, 'o) builder \<Rightarrow> string \<Rightarrow> 'o Melt \<Rightarrow> ResolvedMelt \<Rightarrow> 'o MeltResolution \<Rightarrow> 'o MeltResolution" where
  "contribute J B key melt resolved out =
     out\<lparr>depConstraints := depConstraints out ++ ml_dependencies melt,
         depProvidedBy := depProvidedBy out ++ (map_option (\<lambda>_. key) \<circ> ml_dependencies melt),
         mr_properties := mr_properties out ++ ml_properties melt,
         propertyProvidedBy := propertyProvidedBy out ++ (map_option (\<lambda>_. key) \<circ> ml_properties melt),
         mr_actionsRaw := (case ml_actionsRaw melt of
             None \<Rightarrow> mr_actionsRaw out
           | Some acts \<Rightarrow> fold (\<lambda>(k, v) ob. objSet B ob k v) (members J acts) (mr_actionsRaw out)),
         mr_repositories := mr_repositories out @ ml_repositories melt,
         resolvedMelts := resolvedMelts out @ [resolved]\<rparr>"

text \<open>The imports of a list, one after the other, each after what it imports itself. \<open>path\<close> holds
  the names that are being expanded, which are also the set \<open>visiting\<close>; the state is
  \<open>alreadyResolved\<close> and the resolution.\<close>

lemma bindP_mono_both [partial_function_mono]:
  assumes "\<And>w. mono_option (\<lambda>g. M g w)" and "\<And>x w. mono_option (\<lambda>g. C g x w)"
  shows "mono_option (\<lambda>g. bindP (M g) (C g) w)"
proof -
  have "mono_option (\<lambda>g. case r of Inl e \<Rightarrow> Some (Inl e, b) | Inr x \<Rightarrow> C g x b)" for r b
    by (cases r) (simp_all add: assms(2) option.const_mono)
  then have "mono_option (\<lambda>g. case p of (r, b) \<Rightarrow>
      case r of Inl e \<Rightarrow> Some (Inl e, b) | Inr x \<Rightarrow> C g x b)" for p
    by (cases p) simp
  then show ?thesis unfolding bindP_def by (intro bind_mono assms(1))
qed

partial_function (option) expandMelts ::
    "('w, 'v, 'o) env \<Rightarrow> ('v, 'o) builder \<Rightarrow> string list \<Rightarrow> MeltImport list \<Rightarrow> string set \<times> 'o MeltResolution \<Rightarrow> 'w \<Rightarrow>
     ((melt_error + string set \<times> 'o MeltResolution) \<times> 'w) option" where
  "expandMelts E B path imps s w =
     (case imps of
        [] \<Rightarrow> retP s w
      | imp # rest \<Rightarrow>
          if mi_name imp \<in> set path then failP (MeltCycle (path @ [mi_name imp])) w
          else if melt_key imp \<in> fst s then expandMelts E B path rest s w
          else bindP (find_melt E imp (repos E)) (\<lambda>found.
               bindP (liftE (load_melt E (melt_key imp) (snd found))) (\<lambda>melt.
               bindP (\<lambda>w. expandMelts E B (path @ [mi_name imp]) (ml_melts melt) s w) (\<lambda>s' w.
                 expandMelts E B path rest
                   (insert (melt_key imp) (fst s'),
                    contribute (js E) B (melt_key imp) melt ((fst found)\<lparr>rm_transitiveMelts := ml_melts melt\<rparr>) (snd s')) w))) w)"

definition no_melts :: "('v, 'o) builder \<Rightarrow> 'o MeltResolution" where
  "no_melts B = \<lparr>resolvedMelts = [], depConstraints = Map.empty, depProvidedBy = Map.empty,
     mr_properties = Map.empty, propertyProvidedBy = Map.empty, mr_actionsRaw = emptyObject B, mr_repositories = []\<rparr>"

definition resolveMelts ::
    "('w, 'v, 'o) env \<Rightarrow> ('v, 'o) builder \<Rightarrow> 'o Manifest \<Rightarrow> ('w, melt_error, 'o MeltResolution) prog" where
  "resolveMelts E B m =
     bindP (liftE (parseSettingsMelts (js E) m)) (\<lambda>pins.
     if pins = [] then retP (no_melts B)
     else bindP (expandMelts E B [] pins ({}, no_melts B)) (\<lambda>s. retP (snd s)))"

subsection \<open>Curated constraints\<close>

record melt_lookups =
  providedBy :: "string \<rightharpoonup> string"
  divergences :: "(string \<times> string \<times> string \<times> string) list"

definition lookup_dep ::
    "'o MeltResolution \<Rightarrow> DependencySpec \<Rightarrow> DependencySpec list \<times> melt_lookups \<Rightarrow>
     melt_error + DependencySpec list \<times> melt_lookups" where
  "lookup_dep melts dep s =
     (case s of (deps, l) \<Rightarrow>
       if versionConstraint dep = ''*'' then
         (case depConstraints melts (ds_name dep) of
            None \<Rightarrow> Inl (Uncurated (ds_name dep))
          | Some c \<Rightarrow>
              Inr (deps @ [dep\<lparr>versionConstraint := c\<rparr>],
                   case depProvidedBy melts (ds_name dep) of
                     None \<Rightarrow> l
                   | Some by1 \<Rightarrow> l\<lparr>providedBy := (providedBy l)(ds_name dep \<mapsto> by1)\<rparr>))
       else
         (case depConstraints melts (ds_name dep) of
            None \<Rightarrow> Inr (deps @ [dep], l)
          | Some c \<Rightarrow>
              Inr (deps @ [dep],
                   if c = versionConstraint dep then l
                   else l\<lparr>divergences := divergences l @
                       [(ds_name dep, versionConstraint dep, str_or (depProvidedBy melts (ds_name dep)) ''<melt>'', c)]\<rparr>)))"

definition applyMeltLookups ::
    "'o MeltResolution \<Rightarrow> DependencySpec list \<Rightarrow> melt_error + DependencySpec list \<times> melt_lookups" where
  "applyMeltLookups melts deps =
     foldE (lookup_dep melts) deps ([], \<lparr>providedBy = Map.empty, divergences = []\<rparr>)"

subsection \<open>What is resolved\<close>

definition proper_import :: "MeltImport \<Rightarrow> bool" where
  "proper_import imp \<longleftrightarrow> CHR ''@'' \<notin> set (mi_version imp) \<and> mi_name imp \<noteq> [] \<and> mi_version imp \<noteq> []"

lemma parseMeltImport_ok:
  assumes "parseMeltImport s = Inr imp"
  shows "proper_import imp \<and> melt_key imp = s"
proof -
  define ver where "ver = rev (takeWhile (\<lambda>c. c \<noteq> CHR ''@'') (rev s))"
  have at: "CHR ''@'' \<in> set s" and imp: "imp = \<lparr>mi_name = take (length s - length ver - 1) s, mi_version = ver\<rparr>"
    and ne: "take (length s - length ver - 1) s \<noteq> []" "ver \<noteq> []"
    using assms by (auto simp: parseMeltImport_def Let_def ver_def split: if_splits)
  obtain pre where pre: "rev s = takeWhile (\<lambda>c. c \<noteq> CHR ''@'') (rev s) @ CHR ''@'' # rev pre"
  proof -
    have "dropWhile (\<lambda>c. c \<noteq> CHR ''@'') (rev s) \<noteq> []" using at by (simp add: dropWhile_eq_Nil_conv)
    then obtain c rest where d: "dropWhile (\<lambda>c. c \<noteq> CHR ''@'') (rev s) = c # rest" by (meson neq_Nil_conv)
    then have "c = CHR ''@''" using hd_dropWhile [of "\<lambda>c. c \<noteq> CHR ''@''" "rev s"] by simp
    with d that [of "rev rest"] show ?thesis by (metis rev_rev_ident takeWhile_dropWhile_id)
  qed
  then have s: "s = pre @ CHR ''@'' # ver" by (metis append_Cons append_Nil append_assoc rev.simps(2) rev_append rev_rev_ident ver_def)
  then have "take (length s - length ver - 1) s = pre" by simp
  moreover have "CHR ''@'' \<notin> set ver" by (auto simp: ver_def dest: set_takeWhileD)
  ultimately show ?thesis using imp ne s by (simp add: proper_import_def melt_key_def)
qed

lemma parse_imports_proper: "parse_imports J site i vs = Inr imps \<Longrightarrow> \<forall>imp \<in> set imps. proper_import imp"
  by (induction J site i vs arbitrary: imps rule: parse_imports.induct)
    (auto split: option.splits sum.splits elim!: bindE_Inr_cases dest: parseMeltImport_ok)

lemma load_melt_proper: "load_melt E key text = Inr melt \<Longrightarrow> \<forall>imp \<in> set (ml_melts melt). proper_import imp"
  by (auto simp: load_melt_def parseMelt_def empty_melt_def dest: parse_imports_proper
      split: sum.splits if_splits option.splits elim!: bindE_Inr_cases)

lemma takeWhile_stop: "\<forall>x \<in> set xs. P x \<Longrightarrow> \<not> P c \<Longrightarrow> takeWhile P (xs @ c # ys) = xs"
  by (induction xs) simp_all

lemma melt_key_inj:
  assumes "proper_import a" "proper_import b" "melt_key a = melt_key b"
  shows "mi_name a = mi_name b"
proof -
  have key: "takeWhile (\<lambda>c. c \<noteq> CHR ''@'') (rev (melt_key x)) = rev (mi_version x)" if "proper_import x" for x
  proof -
    have "\<forall>c \<in> set (rev (mi_version x)). c \<noteq> CHR ''@''" using that by (auto simp: proper_import_def)
    from takeWhile_stop [OF this] show ?thesis by (simp add: melt_key_def)
  qed
  from key [OF assms(1)] key [OF assms(2)] assms(3) have "mi_version a = mi_version b" by simp
  with assms(3) show ?thesis by (simp add: melt_key_def)
qed

definition resolved_key :: "ResolvedMelt \<Rightarrow> string" where
  "resolved_key r = rm_name r @ ''@'' @ rm_version r"

text \<open>Post-order: each melt once, after the melts that it imports; and every constraint and property
  was supplied by a melt of the list.\<close>

definition melts_ok :: "string set \<Rightarrow> 'o MeltResolution \<Rightarrow> bool" where
  "melts_ok done1 out \<longleftrightarrow>
     done1 = resolved_key ` set (resolvedMelts out) \<and> distinct (map resolved_key (resolvedMelts out)) \<and>
     (\<forall>k < length (resolvedMelts out).
        melt_key ` set (rm_transitiveMelts (resolvedMelts out ! k)) \<subseteq> resolved_key ` set (take k (resolvedMelts out))) \<and>
     dom (depProvidedBy out) = dom (depConstraints out) \<and> ran (depProvidedBy out) \<subseteq> done1 \<and>
     dom (propertyProvidedBy out) = dom (mr_properties out) \<and> ran (propertyProvidedBy out) \<subseteq> done1"

lemma melts_ok_contribute:
  assumes "melts_ok done1 out" "key \<notin> done1" "resolved_key r = key" "melt_key ` set (rm_transitiveMelts r) \<subseteq> done1"
  shows "melts_ok (insert key done1) (contribute J B key melt r out)"
proof -
  let ?out = "contribute J B key melt r out"
  have rs: "resolvedMelts ?out = resolvedMelts out @ [r]" by (simp add: contribute_def)
  have m: "done1 = resolved_key ` set (resolvedMelts out)" "distinct (map resolved_key (resolvedMelts out))"
    "\<And>k. k < length (resolvedMelts out) \<Longrightarrow>
      melt_key ` set (rm_transitiveMelts (resolvedMelts out ! k)) \<subseteq> resolved_key ` set (take k (resolvedMelts out))"
    "dom (depProvidedBy out) = dom (depConstraints out)" "ran (depProvidedBy out) \<subseteq> done1"
    "dom (propertyProvidedBy out) = dom (mr_properties out)" "ran (propertyProvidedBy out) \<subseteq> done1"
    using assms(1) unfolding melts_ok_def by blast+
  have "\<forall>k < length (resolvedMelts ?out).
      melt_key ` set (rm_transitiveMelts (resolvedMelts ?out ! k)) \<subseteq> resolved_key ` set (take k (resolvedMelts ?out))"
    using m(1,3) assms(4) by (simp add: rs nth_append less_Suc_eq)
  moreover have "ran (f ++ (map_option (\<lambda>_. key) \<circ> g)) \<subseteq> insert key done1" if "ran f \<subseteq> done1"
    for f and g :: "string \<rightharpoonup> string"
    using that by (auto simp: ran_def map_add_Some_iff)
  then have "ran (depProvidedBy ?out) \<subseteq> insert key done1" "ran (propertyProvidedBy ?out) \<subseteq> insert key done1"
    using m(5,7) by (simp_all add: contribute_def)
  moreover have "dom (map_option (\<lambda>_. key) \<circ> g) = dom g" for g :: "string \<rightharpoonup> string"
    by (simp add: dom_def)
  then have "dom (depProvidedBy ?out) = dom (depConstraints ?out)" "dom (propertyProvidedBy ?out) = dom (mr_properties ?out)"
    using m(4,6) by (simp_all add: contribute_def)
  moreover have "insert key done1 = resolved_key ` set (resolvedMelts ?out)" "distinct (map resolved_key (resolvedMelts ?out))"
    using m(1,2) assms(2,3) by (simp_all add: rs)
  ultimately show ?thesis unfolding melts_ok_def by blast
qed

lemma find_melt_key: "find_melt E imp rs w = Some (Inr found, w') \<Longrightarrow> rm_name (fst found) = mi_name imp \<and> rm_version (fst found) = mi_version imp"
proof (induction rs arbitrary: w)
  case (Cons repo rs)
  then show ?case by (auto simp: bindP_eq_Inr split: if_splits option.splits)
qed simp

lemma expandMelts_induct [consumes 1, case_names Nil Known Fresh]:
  assumes "expandMelts E B path imps s w = Some (Inr s', w')"
    and nil: "\<And>path s w. P path [] s w s w"
    and known: "\<And>path imp rest s w s' w'. mi_name imp \<notin> set path \<Longrightarrow> melt_key imp \<in> fst s \<Longrightarrow>
      P path rest s w s' w' \<Longrightarrow> P path (imp # rest) s w s' w'"
    and fresh: "\<And>path imp rest s w found melt s1 w1 w2 s' w'. mi_name imp \<notin> set path \<Longrightarrow> melt_key imp \<notin> fst s \<Longrightarrow>
      find_melt E imp (repos E) w = Some (Inr found, w1) \<Longrightarrow> load_melt E (melt_key imp) (snd found) = Inr melt \<Longrightarrow>
      P (path @ [mi_name imp]) (ml_melts melt) s w1 s1 w2 \<Longrightarrow>
      P path rest (insert (melt_key imp) (fst s1),
          contribute (js E) B (melt_key imp) melt ((fst found)\<lparr>rm_transitiveMelts := ml_melts melt\<rparr>) (snd s1)) w2 s' w' \<Longrightarrow>
      P path (imp # rest) s w s' w'"
  shows "P path imps s w s' w'"
proof -
  have "E' = E \<longrightarrow> B' = B \<longrightarrow> (\<forall>s' w'. q = (Inr s', w') \<longrightarrow> P path imps s w s' w')"
    if "expandMelts E' B' path imps s w = Some q" for E' B' path imps s w q
    using that
  proof (induction rule: expandMelts.raw_induct [rotated, consumes 1, case_names step])
    case (step X E' B' path imps s w q)
    show ?case
    proof (intro impI allI)
      fix s' w'
      assume eq: "E' = E" "B' = B" "q = (Inr s', w')"
      have IH: "P path imps s w s' w'" if "X E B path imps s w = Some (Inr s', w')" for path imps s w s' w'
        using step(1) [OF that] by simp
      show "P path imps s w s' w'"
      proof (cases imps)
        case Nil
        with step(2) eq nil show ?thesis by (simp add: retP_def)
      next
        case (Cons imp rest)
        note body = step(2) [unfolded eq Cons list.case]
        show ?thesis
        proof (cases "mi_name imp \<in> set path \<or> melt_key imp \<in> fst s")
          case True
          with body IH known show ?thesis by (auto simp: Cons split: if_splits)
        next
          case False
          with body obtain found melt s1 w1 w2 where r: "find_melt E imp (repos E) w = Some (Inr found, w1)"
            "load_melt E (melt_key imp) (snd found) = Inr melt"
            "X E B (path @ [mi_name imp]) (ml_melts melt) s w1 = Some (Inr s1, w2)"
            "X E B path rest (insert (melt_key imp) (fst s1),
               contribute (js E) B (melt_key imp) melt ((fst found)\<lparr>rm_transitiveMelts := ml_melts melt\<rparr>) (snd s1)) w2 =
             Some (Inr s', w')"
            by (auto simp: bindP_eq_Inr)
          from fresh [OF _ _ r(1,2) IH [OF r(3)] IH [OF r(4)]] False show ?thesis by (simp add: Cons)
        qed
      qed
    qed
  qed
  from this [OF assms(1)] show ?thesis by simp
qed

definition new_keys :: "string list \<Rightarrow> string set \<Rightarrow> string set \<Rightarrow> bool" where
  "new_keys path before now \<longleftrightarrow>
     (\<forall>x \<in> now - before. \<exists>imp. proper_import imp \<and> mi_name imp \<notin> set path \<and> x = melt_key imp)"

lemma expandMelts_ok:
  assumes "expandMelts E B path imps s w = Some (Inr s', w')"
    and "\<forall>imp \<in> set imps. proper_import imp" "melts_ok (fst s) (snd s)"
  shows "melts_ok (fst s') (snd s') \<and> fst s \<subseteq> fst s' \<and> melt_key ` set imps \<subseteq> fst s' \<and> new_keys path (fst s) (fst s')"
  using assms
proof (induction rule: expandMelts_induct)
  case (Nil path s w)
  then show ?case by (simp add: new_keys_def)
next
  case (Known path imp rest s w s' w')
  then show ?case by auto
next
  case (Fresh path imp rest s w found melt s1 w1 w2 s' w')
  let ?r = "(fst found)\<lparr>rm_transitiveMelts := ml_melts melt\<rparr>" and ?k = "melt_key imp"
  have s1: "melts_ok (fst s1) (snd s1)" "fst s \<subseteq> fst s1" "melt_key ` set (ml_melts melt) \<subseteq> fst s1"
      "new_keys (path @ [mi_name imp]) (fst s) (fst s1)"
    using Fresh.IH(1) load_melt_proper [OF Fresh.hyps(4)] Fresh.prems(2) by simp_all
  have proper: "proper_import imp" using Fresh.prems(1) by simp
  have "?k \<notin> fst s1"
  proof
    assume "?k \<in> fst s1"
    with Fresh.hyps(2) s1(4) obtain b where "proper_import b" "mi_name b \<noteq> mi_name imp" "?k = melt_key b"
      by (auto simp: new_keys_def)
    with melt_key_inj [OF proper] show False by metis
  qed
  moreover have "resolved_key ?r = ?k"
    using find_melt_key [OF Fresh.hyps(3)] by (simp add: resolved_key_def melt_key_def)
  ultimately have "melts_ok (insert ?k (fst s1)) (contribute (js E) B ?k melt ?r (snd s1))"
    using s1(1,3) by (intro melts_ok_contribute) simp_all
  then have s': "melts_ok (fst s') (snd s')" "insert ?k (fst s1) \<subseteq> fst s'" "melt_key ` set rest \<subseteq> fst s'"
      "new_keys path (insert ?k (fst s1)) (fst s')"
    using Fresh.IH(2) Fresh.prems(1) by simp_all
  have "new_keys path (fst s) (fst s')"
    unfolding new_keys_def
  proof
    fix x assume x: "x \<in> fst s' - fst s"
    consider "x = ?k" | "x \<in> fst s1 - fst s" | "x \<in> fst s' - insert ?k (fst s1)" using x by blast
    then show "\<exists>imp. proper_import imp \<and> mi_name imp \<notin> set path \<and> x = melt_key imp"
    proof cases
      case 1
      with proper Fresh.hyps(1) show ?thesis by blast
    next
      case 2
      with s1(4) show ?thesis unfolding new_keys_def by fastforce
    next
      case 3
      with s'(4) show ?thesis unfolding new_keys_def by blast
    qed
  qed
  with s' s1(2) show ?case by auto
qed

lemma melts_ok_none: "melts_ok {} (no_melts B)"
  by (simp add: melts_ok_def no_melts_def)

lemma resolveMelts_Inr:
  assumes "resolveMelts E B m w = Some (Inr out, w')"
  obtains pins where "parseSettingsMelts (js E) m = Inr pins"
    "melts_ok (resolved_key ` set (resolvedMelts out)) out"
    "melt_key ` set pins \<subseteq> resolved_key ` set (resolvedMelts out)"
proof -
  obtain pins where i: "parseSettingsMelts (js E) m = Inr pins"
    and r: "(if pins = [] then retP (no_melts B)
             else bindP (expandMelts E B [] pins ({}, no_melts B)) (\<lambda>s. retP (snd s))) w = Some (Inr out, w')"
    using assms by (auto simp: resolveMelts_def bindP_eq_Inr liftE_def)
  show thesis
  proof (cases "pins = []")
    case True
    with r have "out = no_melts B" by (simp add: retP_def)
    with that [OF i] True melts_ok_none [of B] show thesis by (simp add: no_melts_def)
  next
    case False
    with r obtain s w1 where "expandMelts E B [] pins ({}, no_melts B) w = Some (Inr s, w1)" "snd s = out"
      by (auto simp: bindP_eq_Inr retP_def)
    moreover have "\<forall>imp \<in> set pins. proper_import imp"
      using i by (auto simp: parseSettingsMelts_def dest: parse_imports_proper split: option.splits)
    ultimately have "melts_ok (fst s) out" "melt_key ` set pins \<subseteq> fst s"
      using expandMelts_ok [of E B "[]" pins "({}, no_melts B)" w s w1] melts_ok_none [of B] by auto
    moreover from this have "fst s = resolved_key ` set (resolvedMelts out)" by (simp add: melts_ok_def)
    ultimately show thesis using that [OF i] by simp
  qed
qed

text \<open>C13: The melts of a resolution: every import of the settings is resolved, each melt is resolved
  once and after all the melts that it pins, and every curated constraint and every property
  is attributed to a resolved melt.\<close>

theorem resolved_melts_ok:
  assumes "resolveMelts E B m w = Some (Inr out, w')"
  shows "\<exists>pins. parseSettingsMelts (js E) m = Inr pins \<and>
    melt_key ` set pins \<subseteq> resolved_key ` set (resolvedMelts out) \<and>
    melts_ok (resolved_key ` set (resolvedMelts out)) out"
  using assms by (rule resolveMelts_Inr) blast

subsection \<open>Termination\<close>

definition melt_repos_return :: "('w, 'v, 'o) env \<Rightarrow> bool" where
  "melt_repos_return E \<longleftrightarrow> (\<forall>p. returns (cacheInsert E p)) \<and>
     (\<forall>repo \<in> set (repos E). \<forall>n v. returns (listVersions repo n) \<and> returns (fetch repo n v) \<and>
        returns (fetchManifestJson repo n v))"

text \<open>All that the melts of the repositories import is among the names \<open>N\<close>.\<close>

definition melt_names_in :: "('w, 'v, 'o) env \<Rightarrow> string set \<Rightarrow> bool" where
  "melt_names_in E N \<longleftrightarrow>
     (\<forall>imp w found w' melt. find_melt E imp (repos E) w = Some (Inr found, w') \<longrightarrow>
        load_melt E (melt_key imp) (snd found) = Inr melt \<longrightarrow> mi_name ` set (ml_melts melt) \<subseteq> N)"

lemma returns_from_repo: "returns p \<Longrightarrow> returns (from_repo p)"
  by (simp add: returns_def from_repo_def)

lemma find_melt_returns:
  assumes "melt_repos_return E" "set rs \<subseteq> set (repos E)"
  shows "returns (find_melt E imp rs)"
  using assms(2)
proof (induction rs)
  case (Cons repo rs)
  then have r: "returns (from_repo (listVersions repo n))" "returns (from_repo (fetch repo n v))"
      "returns (from_repo (fetchManifestJson repo n v))" "returns (from_repo (cacheInsert E p))" for n v p
    using assms(1) by (simp_all add: melt_repos_return_def returns_from_repo)
  from Cons show ?case
    by (auto intro!: returns_bindP r simp: returns_basic split: option.split)
qed (simp add: returns_basic)

lemma expandMelts_returns:
  assumes "finite N" and E: "melt_repos_return E" "melt_names_in E N"
  shows "mi_name ` set imps \<subseteq> N \<Longrightarrow> expandMelts E B path imps s w \<noteq> None"
proof (induction "card (N - set path)" arbitrary: path imps s w rule: less_induct)
  case less
  show ?case
    using less.prems
  proof (induction imps arbitrary: s w)
    case Nil
    then show ?case by (subst expandMelts.simps) (simp add: retP_def)
  next
    case (Cons imp rest)
    have rest: "expandMelts E B path rest s w \<noteq> None" for s w using Cons by simp
    show ?case
    proof (cases "mi_name imp \<in> set path \<or> melt_key imp \<in> fst s")
      case True
      with rest [of s w] show ?thesis by (subst expandMelts.simps) (auto simp: failP_def)
    next
      case False
      then have step: "expandMelts E B path (imp # rest) s w =
          bindP (find_melt E imp (repos E)) (\<lambda>found.
               bindP (liftE (load_melt E (melt_key imp) (snd found))) (\<lambda>melt.
               bindP (\<lambda>w. expandMelts E B (path @ [mi_name imp]) (ml_melts melt) s w) (\<lambda>s' w.
                 expandMelts E B path rest
                   (insert (melt_key imp) (fst s'),
                    contribute (js E) B (melt_key imp) melt ((fst found)\<lparr>rm_transitiveMelts := ml_melts melt\<rparr>) (snd s')) w))) w"
        by (subst expandMelts.simps) simp
      have "mi_name imp \<in> N - set path" using False Cons.prems by simp
      then have lt: "card (N - set (path @ [mi_name imp])) < card (N - set path)"
        using assms(1) by (intro psubset_card_mono) auto
      have sub: "expandMelts E B (path @ [mi_name imp]) (ml_melts melt) s w2 \<noteq> None"
        if "find_melt E imp (repos E) w = Some (Inr found, w1)" "load_melt E (melt_key imp) (snd found) = Inr melt"
        for found w1 melt w2
        using E(2) [unfolded melt_names_in_def] that by (intro less.hyps [OF lt]) blast
      obtain r w1 where f: "find_melt E imp (repos E) w = Some (r, w1)"
        using find_melt_returns [OF E(1) order.refl, of imp] by (fastforce simp: returns_def)
      show ?thesis
      proof (cases r)
        case (Inl e)
        with f show ?thesis unfolding step by (simp add: bindP_def)
      next
        case (Inr found)
        show ?thesis
        proof (cases "load_melt E (melt_key imp) (snd found)")
          case (Inl e)
          with f Inr show ?thesis unfolding step by (simp add: bindP_def liftE_def)
        next
          case l: (Inr melt)
          obtain r2 w2 where "expandMelts E B (path @ [mi_name imp]) (ml_melts melt) s w1 = Some (r2, w2)"
            using sub [OF f [unfolded Inr] l] by fastforce
          with f Inr l rest show ?thesis unfolding step
            by (cases r2) (simp_all add: bindP_def liftE_def)
        qed
      qed
    qed
  qed
qed

text \<open>The expansion ends: when the repositories and the cache return and what their melts import
  is among finitely many names, so does \<open>resolveMelts\<close>, with a resolution or an error.\<close>

theorem resolveMelts_returns:
  assumes "finite N" "melt_repos_return E" "melt_names_in E N"
    and "\<forall>pins. parseSettingsMelts (js E) m = Inr pins \<longrightarrow> mi_name ` set pins \<subseteq> N"
  shows "\<exists>r w'. resolveMelts E B m w = Some (r, w')"
proof (cases "parseSettingsMelts (js E) m")
  case (Inl e)
  then show ?thesis by (simp add: resolveMelts_def bindP_def liftE_def)
next
  case (Inr pins)
  then have "mi_name ` set pins \<subseteq> N" using assms(4) by simp
  from expandMelts_returns [OF assms(1-3) this, of B "[]" "({}, no_melts B)" w]
  obtain r w1 where "expandMelts E B [] pins ({}, no_melts B) w = Some (r, w1)" by fastforce
  with Inr show ?thesis by (cases r) (simp_all add: resolveMelts_def bindP_def liftE_def retP_def)
qed

subsection \<open>Lookups\<close>

definition uncurated :: "'o MeltResolution \<Rightarrow> DependencySpec \<Rightarrow> bool" where
  "uncurated melts d \<longleftrightarrow> versionConstraint d = ''*'' \<and> depConstraints melts (ds_name d) = None"

definition curated :: "'o MeltResolution \<Rightarrow> DependencySpec \<Rightarrow> DependencySpec" where
  "curated melts d =
     (if versionConstraint d = ''*'' then d\<lparr>versionConstraint := str_or (depConstraints melts (ds_name d)) ''*''\<rparr> else d)"

definition diverges :: "'o MeltResolution \<Rightarrow> DependencySpec \<Rightarrow> bool" where
  "diverges melts d \<longleftrightarrow> versionConstraint d \<noteq> ''*'' \<and>
     (\<exists>c. depConstraints melts (ds_name d) = Some c \<and> c \<noteq> versionConstraint d)"

definition curators :: "'o MeltResolution \<Rightarrow> DependencySpec list \<Rightarrow> string \<rightharpoonup> string" where
  "curators melts deps n =
     (if \<exists>d \<in> set deps. ds_name d = n \<and> versionConstraint d = ''*'' then depProvidedBy melts n else None)"

lemma lookups_fold:
  assumes "\<forall>n. P n = curators melts seen n"
  shows "foldE (lookup_dep melts) deps (out, \<lparr>providedBy = P, divergences = ds\<rparr>) =
    (case find (uncurated melts) deps of
       Some d \<Rightarrow> Inl (Uncurated (ds_name d))
     | None \<Rightarrow> Inr (out @ map (curated melts) deps,
         \<lparr>providedBy = curators melts (seen @ deps),
          divergences = ds @ map (\<lambda>d. (ds_name d, versionConstraint d,
            str_or (depProvidedBy melts (ds_name d)) ''<melt>'', str_or (depConstraints melts (ds_name d)) ''*''))
              (filter (diverges melts) deps)\<rparr>))"
  using assms
proof (induction deps arbitrary: out P ds seen)
  case Nil
  then have "P = curators melts seen" by auto
  then show ?case by simp
next
  case (Cons d deps)
  show ?case
  proof (cases "uncurated melts d")
    case True
    then show ?thesis by (simp add: uncurated_def lookup_dep_def)
  next
    case False
    obtain P' ds' where l: "lookup_dep melts d (out, \<lparr>providedBy = P, divergences = ds\<rparr>) =
        Inr (out @ [curated melts d], \<lparr>providedBy = P', divergences = ds'\<rparr>)"
      and P': "\<forall>n. P' n = curators melts (seen @ [d]) n"
      and ds': "ds' = ds @ map (\<lambda>d. (ds_name d, versionConstraint d,
            str_or (depProvidedBy melts (ds_name d)) ''<melt>'', str_or (depConstraints melts (ds_name d)) ''*''))
              (filter (diverges melts) [d])"
    proof (cases "versionConstraint d = ''*''")
      case True
      with False obtain c where "depConstraints melts (ds_name d) = Some c" by (auto simp: uncurated_def)
      with True Cons.prems show thesis
        by (intro that [of "(case depProvidedBy melts (ds_name d) of None \<Rightarrow> P | Some b \<Rightarrow> P(ds_name d \<mapsto> b))" ds])
          (auto simp: lookup_dep_def curated_def diverges_def curators_def str_or_def split: option.splits)
    next
      case star: False
      with Cons.prems show thesis
        by (cases "depConstraints melts (ds_name d)")
          (auto intro!: that [of P] simp: lookup_dep_def curated_def diverges_def curators_def str_or_def)
    qed
    have "filter (diverges melts) (d # deps) = filter (diverges melts) [d] @ filter (diverges melts) deps" by simp
    with False show ?thesis
      by (simp only: foldE.simps l bindE_simps Cons.IH [OF P'] ds' find.simps if_False append_assoc map_append append_Cons append_Nil list.map)
  qed
qed

text \<open>C40: \<open>applyMeltLookups\<close> as a whole: it fails on the first \<open>"*"\<close> that no melt curates, and
  otherwise replaces each \<open>"*"\<close> by the curated constraint, leaves every other dependency as it is,
  records who curated what it replaced and warns of each pin that differs from a curated one.\<close>

theorem applyMeltLookups_all:
  "applyMeltLookups melts deps =
    (case find (uncurated melts) deps of
       Some d \<Rightarrow> Inl (Uncurated (ds_name d))
     | None \<Rightarrow> Inr (map (curated melts) deps,
         \<lparr>providedBy = curators melts deps,
          divergences = map (\<lambda>d. (ds_name d, versionConstraint d,
            str_or (depProvidedBy melts (ds_name d)) ''<melt>'', str_or (depConstraints melts (ds_name d)) ''*''))
              (filter (diverges melts) deps)\<rparr>))"
proof -
  have "\<forall>n. Map.empty n = curators melts [] n" by (simp add: curators_def)
  from lookups_fold [OF this, of deps "[]" "[]"] show ?thesis
    unfolding applyMeltLookups_def append_Nil .
qed

subsection \<open>An example\<close>

text \<open>A platform melt that imports a base melt; a second base melt of another version, imported
  after it; and the settings of a consumer.\<close>

definition melt_doc :: "string \<Rightarrow> string list \<Rightarrow> (string \<times> jtree) list \<Rightarrow> jtree" where
  "melt_doc name imps deps = JObj
     [(''details'', JObj [(''name'', JStr name), (''version'', JStr ''1'')]),
      (''melt'', JObj [(''dependencies'', JObj deps), (''melts'', JArr (map JStr imps))])]"

definition melt_env :: "(unit, jtree, (string \<times> jtree) list) env" where
  "melt_env = table_env
     [(''base1'', melt_doc ''base'' [] [(''a'', JStr ''1.0.0''), (''b'', JStr ''1.0.0'')]),
      (''base2'', melt_doc ''base'' [] [(''a'', JStr ''2.0.0'')]),
      (''plat'', melt_doc ''plat'' [''base@1''] [(''b'', JStr ''1.5.0'')])]
     [table_repo ''r'' [(''base'', [''1'', ''2'']), (''plat'', [''1''])]
        [(''base@1'', ''base1''), (''base@2'', ''base2''), (''plat@1'', ''plat'')]]"

definition melt_user :: "string list \<Rightarrow> (string \<times> jtree) list Manifest" where
  "melt_user imps = (output_manifest ''x'')\<lparr>m_settingsRaw := Some [(''melts'', JArr (map JStr imps))]\<rparr>"

definition melt_pin :: "string \<Rightarrow> string \<Rightarrow> MeltImport" where
  "melt_pin n v = \<lparr>mi_name = n, mi_version = v\<rparr>"

lemma melt_settings:
  "parseSettingsMelts (js melt_env) (melt_user [''plat@1'']) = Inr [melt_pin ''plat'' ''1'']"
  "parseSettingsMelts (js melt_env) (melt_user [''base@1'', ''base@2'', ''base@1'']) =
     Inr [melt_pin ''base'' ''1'', melt_pin ''base'' ''2'', melt_pin ''base'' ''1'']"
  by code_simp+

lemma melt_loads:
  "case load_melt melt_env k ''base1'' of Inr melt \<Rightarrow> ml_melts melt = [] | _ \<Rightarrow> False"
  "case load_melt melt_env k ''base2'' of Inr melt \<Rightarrow> ml_melts melt = [] | _ \<Rightarrow> False"
  "case load_melt melt_env k ''plat'' of Inr melt \<Rightarrow> ml_melts melt = [melt_pin ''base'' ''1''] | _ \<Rightarrow> False"
  by code_simp+

declare expandMelts.simps [code]

lemma melt_resolves:
  "case resolveMelts melt_env tree_builder (melt_user [''plat@1'']) () of
     Some (Inr out, _) \<Rightarrow> map resolved_key (resolvedMelts out) = [''base@1'', ''plat@1''] \<and>
       depConstraints out ''a'' = Some ''1.0.0'' \<and> depConstraints out ''b'' = Some ''1.5.0''
   | _ \<Rightarrow> False"
  by code_simp

lemma ran_okE:
  assumes "case x of Some (Inr out, _) \<Rightarrow> P out | _ \<Rightarrow> False"
  obtains out u where "x = Some (Inr out, u)" "P out"
  using assms by (cases x) (auto split: sum.splits)

text \<open>The witness: the consumer imports the platform melt, which brings the base melt.\<close>

theorem resolved_melts_ok_witness:
  "\<exists>out. resolveMelts melt_env tree_builder (melt_user [''plat@1'']) () = Some (Inr out, ()) \<and>
     melts_ok (resolved_key ` set (resolvedMelts out)) out \<and> map resolved_key (resolvedMelts out) = [''base@1'', ''plat@1'']"
proof -
  obtain out u where r: "resolveMelts melt_env tree_builder (melt_user [''plat@1'']) () = Some (Inr out, u)"
    and o: "map resolved_key (resolvedMelts out) = [''base@1'', ''plat@1'']"
  proof (rule ran_okE [OF melt_resolves])
    fix out u
    assume r: "resolveMelts melt_env tree_builder (melt_user [''plat@1'']) () = Some (Inr out, u)"
      and o: "map resolved_key (resolvedMelts out) = [''base@1'', ''plat@1''] \<and>
        depConstraints out ''a'' = Some ''1.0.0'' \<and> depConstraints out ''b'' = Some ''1.5.0''"
    show thesis by (rule that [OF r conjunct1 [OF o]])
  qed
  have "melts_ok (resolved_key ` set (resolvedMelts out)) out"
    using resolved_melts_ok [OF r] by (elim exE conjE)
  with r o show ?thesis by (intro exI [of _ out] conjI) simp_all
qed

lemma melt_env_returns: "melt_repos_return melt_env"
  by (simp add: melt_repos_return_def melt_env_def table_env_sel table_repo_sel returns_basic)

lemma melt_env_names: "melt_names_in melt_env {''base'', ''plat''}"
  unfolding melt_names_in_def
proof (intro allI impI)
  fix imp w found w' melt
  assume f: "find_melt melt_env imp (repos melt_env) w = Some (Inr found, w')"
    and l: "load_melt melt_env (melt_key imp) (snd found) = Inr melt"
  have "snd found \<in> {''base1'', ''base2'', ''plat''}"
    using f by (auto simp: melt_env_def table_env_sel table_repo_sel bindP_def from_repo_def failP_def retP_def readP_def
        split: option.splits if_splits)
  with l melt_loads [of "melt_key imp"] show "mi_name ` set (ml_melts melt) \<subseteq> {''base'', ''plat''}"
    by (auto simp: melt_pin_def)
qed

theorem resolveMelts_returns_witness:
  "\<exists>r w'. resolveMelts melt_env tree_builder (melt_user [''plat@1'']) () = Some (r, w')"
  by (rule resolveMelts_returns [OF _ melt_env_returns melt_env_names]) (simp_all add: melt_settings melt_pin_def)

lemma melt_finds:
  "find_melt melt_env (melt_pin ''base'' ''1'') (repos melt_env) () = Some (Inr (\<lparr>rm_name = ''base'', rm_version = ''1'',
     rm_resolvedFromRepo = ''r'', rm_sha256 = ''sha256:r/base-1'', rm_artifactPath = ''r/base-1'', rm_transitiveMelts = []\<rparr>, ''base1''), ())"
  "find_melt melt_env (melt_pin ''base'' ''2'') (repos melt_env) () = Some (Inr (\<lparr>rm_name = ''base'', rm_version = ''2'',
     rm_resolvedFromRepo = ''r'', rm_sha256 = ''sha256:r/base-2'', rm_artifactPath = ''r/base-2'', rm_transitiveMelts = []\<rparr>, ''base2''), ())"
  "find_melt melt_env (melt_pin ''plat'' ''1'') (repos melt_env) () = Some (Inr (\<lparr>rm_name = ''plat'', rm_version = ''1'',
     rm_resolvedFromRepo = ''r'', rm_sha256 = ''sha256:r/plat-1'', rm_artifactPath = ''r/plat-1'', rm_transitiveMelts = []\<rparr>, ''plat''), ())"
  by code_simp+

lemma expand_known:
  "melt_key imp \<in> D \<Longrightarrow> mi_name imp \<notin> set path \<Longrightarrow>
     expandMelts E B path (imp # rest) (D, out) w = expandMelts E B path rest (D, out) w"
  by (subst expandMelts.simps) simp

lemma expand_fresh:
  "find_melt E imp (repos E) w = Some (Inr found, w1) \<Longrightarrow> load_melt E (melt_key imp) (snd found) = Inr melt \<Longrightarrow>
   melt_key imp \<notin> D \<Longrightarrow> mi_name imp \<notin> set path \<Longrightarrow>
   expandMelts E B (path @ [mi_name imp]) (ml_melts melt) (D, out) w1 = Some (Inr (D', out'), w2) \<Longrightarrow>
   expandMelts E B path (imp # rest) (D, out) w =
     expandMelts E B path rest (insert (melt_key imp) D',
       contribute (js E) B (melt_key imp) melt ((fst found)\<lparr>rm_transitiveMelts := ml_melts melt\<rparr>) out') w2"
  by (subst expandMelts.simps) (simp add: bindP_def liftE_def)

lemma expand_nil: "expandMelts E B path [] s w = Some (Inr s, w)"
  by (subst expandMelts.simps) (simp add: retP_def)

text \<open>A melt that was expanded before is skipped, so it does not win over those between: here the
  platform melt comes last, its base curates \<open>a\<close> at \<open>1.0.0\<close>, and the result is the
  \<open>2.0.0\<close> of the other base melt, before it.\<close>

theorem last_melt_does_not_win:
  "\<exists>out. resolveMelts melt_env tree_builder (melt_user [''base@1'', ''base@2'', ''plat@1'']) () = Some (Inr out, ()) \<and>
     depConstraints out ''a'' = Some ''2.0.0'' \<and>
     map resolved_key (resolvedMelts out) = [''base@1'', ''base@2'', ''plat@1'']"
proof -
  have p: "mi_name (melt_pin n v) = n" "melt_key (melt_pin n v) = n @ ''@'' @ v" for n v
    by (simp_all add: melt_pin_def melt_key_def)
  have "case load_melt melt_env ''base@1'' ''base1'' of Inr m \<Rightarrow> ml_melts m = [] | _ \<Rightarrow> False"
    "case load_melt melt_env ''base@2'' ''base2'' of Inr m \<Rightarrow> ml_melts m = [] \<and> ml_dependencies m ''a'' = Some ''2.0.0'' | _ \<Rightarrow> False"
    "case load_melt melt_env ''plat@1'' ''plat'' of Inr m \<Rightarrow> ml_melts m = [melt_pin ''base'' ''1''] \<and> ml_dependencies m ''a'' = None | _ \<Rightarrow> False"
    by code_simp+
  then obtain b1 b2 pl where b1: "load_melt melt_env ''base@1'' ''base1'' = Inr b1" "ml_melts b1 = []"
    and b2: "load_melt melt_env ''base@2'' ''base2'' = Inr b2" "ml_melts b2 = []" "ml_dependencies b2 ''a'' = Some ''2.0.0''"
    and pl: "load_melt melt_env ''plat@1'' ''plat'' = Inr pl" "ml_melts pl = [melt_pin ''base'' ''1'']" "ml_dependencies pl ''a'' = None"
    by (auto split: sum.splits)
  have "parseSettingsMelts (js melt_env) (melt_user [''base@1'', ''base@2'', ''plat@1'']) =
      Inr [melt_pin ''base'' ''1'', melt_pin ''base'' ''2'', melt_pin ''plat'' ''1'']"
    by code_simp
  then show ?thesis
    by (simp add: resolveMelts_def bindP_def liftE_def retP_def p b1 b2 pl expand_nil expand_known
        expand_fresh [OF melt_finds(1)] expand_fresh [OF melt_finds(2)] expand_fresh [OF melt_finds(3)]
        contribute_def resolved_key_def no_melts_def map_add_def)
qed

end
