(* ===== verification/Lock_File.thy ===== *)
theory Lock_File
  imports Melt_Import Workspace_Graph Std_Map
begin

text \<open>
  The lock file (\<open>buildtool/Lockfile.h\<close>, \<open>Lockfile.cpp\<close>) and the view of it that a
  workspace takes (\<open>Workspace.cpp\<close>): composition from what was resolved, writing and reading,
  and the update that leaves a file alone whose content would not change. The digest, the
  printing of a JSON value and the version of the tool are parameters.
\<close>

subsection \<open>Data\<close>

record ResolvedPackageEntry =
  pe_name :: string
  pe_version :: string
  pe_resolvedFromRepo :: string
  pe_checksum :: string
  pe_providedBy :: string
  memberOwner :: string

record ResolvedMeltEntry =
  me_name :: string
  me_version :: string
  me_resolvedFromRepo :: string
  me_checksum :: string
  me_transitiveMelts :: "string list"

record ResolvedPluginEntry =
  pg_name :: string
  pg_version :: string
  pg_resolvedFromRepo :: string
  pg_checksum :: string
  pg_capabilities :: "string list"

record WorkspaceMemberEntry =
  we_name :: string
  we_declaredPath :: string
  we_manifestChecksum :: string

text \<open>A \<open>std::map\<close> is the list of its entries, a JSON array the list of its values.\<close>

record 'v Lockfile =
  lockfileVersion :: int
  manifestChecksum :: string
  generatorTool :: string
  generatorVersion :: string
  resolvedAt :: string
  lf_properties :: "(string \<times> string) list"
  packagesTyped :: "ResolvedPackageEntry list"
  meltsTyped :: "ResolvedMeltEntry list"
  pluginsTyped :: "ResolvedPluginEntry list"
  packagesRaw :: "'v list"
  meltsRaw :: "'v list"
  pluginsRaw :: "'v list"
  lf_overrides :: "'v list"
  isWorkspace :: bool
  workspaceMembers :: "WorkspaceMemberEntry list"

text \<open>Of a plugin, what the lock file records; the capabilities in the order of the
  \<open>std::set\<close>.\<close>

record ResolvedPlugin =
  pl_name :: string
  pl_version :: string
  pl_resolvedFromRepo :: string
  pl_sha256 :: string
  pl_capabilities :: "string list"

record WorkspaceLockfileInputs =
  workspaceManifestSource :: string
  perMemberDeps :: "string \<rightharpoonup> ResolvedDependency list"
  memberManifestSources :: "string \<rightharpoonup> string"

record DriftReport =
  dr_changed :: bool
  oldChecksum :: string
  newChecksum :: string

datatype lock_error =
    CannotOpenLock string
  | LockParseError string string
  | LockNotAnObject string
  | NoLockfileVersion
  | NoManifestChecksum
  | CannotOpenForWrite string
  | ErrorWriting string

subsection \<open>Composition\<close>

text \<open>\<open>H\<close> is \<open>sha256Hex\<close>, \<open>ver\<close> is \<open>CAJETA_VERSION\<close>, \<open>props\<close> are the
  values of the resolved properties; the manifest is an argument that the code does not look at.\<close>

definition composeLockfile ::
    "(string \<Rightarrow> string) \<Rightarrow> string \<Rightarrow> string \<Rightarrow> (string \<times> string) list \<Rightarrow> string \<Rightarrow> 'v Lockfile" where
  "composeLockfile H ver manifestSource props nowIso =
     \<lparr>lockfileVersion = 1, manifestChecksum = H manifestSource, generatorTool = ''cajeta'', generatorVersion = ver,
      resolvedAt = nowIso, lf_properties = props, packagesTyped = [], meltsTyped = [], pluginsTyped = [],
      packagesRaw = [], meltsRaw = [], pluginsRaw = [], lf_overrides = [], isWorkspace = False, workspaceMembers = []\<rparr>"

definition package_entry :: "(string \<rightharpoonup> string) \<Rightarrow> ResolvedDependency \<Rightarrow> ResolvedPackageEntry" where
  "package_entry meltProvidedBy d =
     \<lparr>pe_name = rd_name d, pe_version = rd_version d, pe_resolvedFromRepo = rd_resolvedFromRepo d,
      pe_checksum = rd_sha256 d, pe_providedBy = str_or (meltProvidedBy (rd_name d)) ''explicit'', memberOwner = []\<rparr>"

definition melt_entry :: "ResolvedMelt \<Rightarrow> ResolvedMeltEntry" where
  "melt_entry m =
     \<lparr>me_name = rm_name m, me_version = rm_version m, me_resolvedFromRepo = rm_resolvedFromRepo m,
      me_checksum = rm_sha256 m, me_transitiveMelts = map melt_key (rm_transitiveMelts m)\<rparr>"

definition plugin_entry :: "ResolvedPlugin \<Rightarrow> ResolvedPluginEntry" where
  "plugin_entry rp =
     \<lparr>pg_name = pl_name rp, pg_version = pl_version rp, pg_resolvedFromRepo = pl_resolvedFromRepo rp,
      pg_checksum = pl_sha256 rp, pg_capabilities = sort (pl_capabilities rp)\<rparr>"

definition composeLockfileWithResolution ::
    "(string \<Rightarrow> string) \<Rightarrow> string \<Rightarrow> string \<Rightarrow> (string \<times> string) list \<Rightarrow> ResolvedDependency list \<Rightarrow> 'o MeltResolution \<Rightarrow>
     (string \<rightharpoonup> string) \<Rightarrow> ResolvedPlugin list \<Rightarrow> string \<Rightarrow> 'v Lockfile" where
  "composeLockfileWithResolution H ver manifestSource props resolvedDeps melts meltProvidedBy plugins nowIso =
     (composeLockfile H ver manifestSource props nowIso)
       \<lparr>packagesTyped := map (package_entry meltProvidedBy) resolvedDeps, meltsTyped := map melt_entry (resolvedMelts melts),
        pluginsTyped := map plugin_entry plugins\<rparr>"

definition member_entry ::
    "(string \<Rightarrow> string) \<Rightarrow> (string \<rightharpoonup> string) \<Rightarrow> 'o WorkspaceMember \<Rightarrow> WorkspaceMemberEntry" where
  "member_entry H sources m =
     \<lparr>we_name = memberShortName m, we_declaredPath = wm_declaredPath m,
      we_manifestChecksum = (case sources (memberShortName m) of None \<Rightarrow> [] | Some s \<Rightarrow> H s)\<rparr>"

definition member_packages ::
    "(string \<rightharpoonup> ResolvedDependency list) \<Rightarrow> 'o WorkspaceMember \<Rightarrow> ResolvedPackageEntry list" where
  "member_packages deps m =
     (case deps (memberShortName m) of
        None \<Rightarrow> []
      | Some ds \<Rightarrow> map (\<lambda>d. (package_entry Map.empty d)\<lparr>memberOwner := memberShortName m\<rparr>) ds)"

definition composeWorkspaceLockfile ::
    "(string \<Rightarrow> string) \<Rightarrow> string \<Rightarrow> 'o Workspace option \<Rightarrow> WorkspaceLockfileInputs \<Rightarrow> (string \<times> string) list \<Rightarrow>
     string \<Rightarrow> 'v Lockfile" where
  "composeWorkspaceLockfile H ver workspace inputs1 props nowIso =
     (let lf = (composeLockfile H ver (workspaceManifestSource inputs1) props nowIso)\<lparr>isWorkspace := True\<rparr>
      in case workspace of
           None \<Rightarrow> lf
         | Some ws \<Rightarrow>
             lf\<lparr>workspaceMembers := map (member_entry H (memberManifestSources inputs1)) (ws_members ws),
                packagesTyped := concat (map (member_packages (perMemberDeps inputs1)) (ws_members ws))\<rparr>)"

definition checkDrift :: "(string \<Rightarrow> string) \<Rightarrow> 'v Lockfile \<Rightarrow> string \<Rightarrow> DriftReport" where
  "checkDrift H lf currentSource =
     \<lparr>dr_changed = (manifestChecksum lf \<noteq> H currentSource), oldChecksum = manifestChecksum lf,
      newChecksum = H currentSource\<rparr>"

definition extractWorkspaceLockView :: "'v Lockfile \<Rightarrow> string \<rightharpoonup> string" where
  "extractWorkspaceLockView lf =
     (if isWorkspace lf
      then foldl (\<lambda>v m. v(we_name m \<mapsto> we_manifestChecksum m)) Map.empty (workspaceMembers lf)
      else Map.empty)"

subsection \<open>Writing\<close>

definition json_object :: "('v, 'o) builder \<Rightarrow> (string \<times> 'v) list \<Rightarrow> 'o" where
  "json_object B kvs = foldl (\<lambda>ob (k, v). objSet B ob k v) (emptyObject B) kvs"

definition strings_object :: "('v, 'o) json \<Rightarrow> ('v, 'o) builder \<Rightarrow> (string \<times> string) list \<Rightarrow> 'o" where
  "strings_object J B kvs = json_object B (map (\<lambda>(k, s). (k, ofString J s)) kvs)"

definition strings_array :: "('v, 'o) json \<Rightarrow> ('v, 'o) builder \<Rightarrow> string list \<Rightarrow> 'v" where
  "strings_array J B ss = ofArray B (map (ofString J) ss)"

definition package_json :: "('v, 'o) json \<Rightarrow> ('v, 'o) builder \<Rightarrow> ResolvedPackageEntry \<Rightarrow> 'v" where
  "package_json J B p =
     ofObject B (strings_object J B
       ([(''name'', pe_name p), (''version'', pe_version p), (''resolved-from'', pe_resolvedFromRepo p),
         (''checksum'', pe_checksum p),
         (''provided-by'', if pe_providedBy p = [] then ''explicit'' else pe_providedBy p)] @
        (if memberOwner p = [] then [] else [(''member'', memberOwner p)])))"

definition melt_json :: "('v, 'o) json \<Rightarrow> ('v, 'o) builder \<Rightarrow> ResolvedMeltEntry \<Rightarrow> 'v" where
  "melt_json J B m =
     ofObject B (objSet B (strings_object J B
       [(''name'', me_name m), (''version'', me_version m), (''resolved-from'', me_resolvedFromRepo m),
        (''checksum'', me_checksum m)])
       ''transitive-melts'' (strings_array J B (me_transitiveMelts m)))"

definition plugin_json :: "('v, 'o) json \<Rightarrow> ('v, 'o) builder \<Rightarrow> ResolvedPluginEntry \<Rightarrow> 'v" where
  "plugin_json J B p =
     ofObject B (objSet B (strings_object J B
       [(''name'', pg_name p), (''version'', pg_version p), (''resolved-from'', pg_resolvedFromRepo p),
        (''checksum'', pg_checksum p)])
       ''capabilities'' (strings_array J B (pg_capabilities p)))"

definition member_json :: "('v, 'o) json \<Rightarrow> ('v, 'o) builder \<Rightarrow> WorkspaceMemberEntry \<Rightarrow> 'v" where
  "member_json J B m =
     ofObject B (strings_object J B
       [(''name'', we_name m), (''path'', we_declaredPath m), (''manifest-checksum'', we_manifestChecksum m)])"

text \<open>Typed entries if there are any, what was read raw otherwise.\<close>

definition packages_array :: "('v, 'o) json \<Rightarrow> ('v, 'o) builder \<Rightarrow> 'v Lockfile \<Rightarrow> 'v list" where
  "packages_array J B lf = (if packagesTyped lf \<noteq> [] then map (package_json J B) (packagesTyped lf) else packagesRaw lf)"

definition melts_array :: "('v, 'o) json \<Rightarrow> ('v, 'o) builder \<Rightarrow> 'v Lockfile \<Rightarrow> 'v list" where
  "melts_array J B lf = (if meltsTyped lf \<noteq> [] then map (melt_json J B) (meltsTyped lf) else meltsRaw lf)"

definition plugins_array :: "('v, 'o) json \<Rightarrow> ('v, 'o) builder \<Rightarrow> 'v Lockfile \<Rightarrow> 'v list" where
  "plugins_array J B lf = (if pluginsTyped lf \<noteq> [] then map (plugin_json J B) (pluginsTyped lf) else pluginsRaw lf)"

definition lock_json :: "('v, 'o) json \<Rightarrow> ('v, 'o) builder \<Rightarrow> 'v Lockfile \<Rightarrow> 'v" where
  "lock_json J B lf =
     ofObject B (json_object B
       ([(''lockfile-version'', ofInteger B (lockfileVersion lf)),
         (''manifest-checksum'', ofString J (manifestChecksum lf)),
         (''generator'', ofObject B (strings_object J B [(''tool'', generatorTool lf), (''version'', generatorVersion lf)])),
         (''resolved-at'', ofString J (resolvedAt lf)),
         (''properties'', ofObject B (strings_object J B (lf_properties lf))),
         (''packages'', ofArray B (packages_array J B lf)),
         (''melts'', ofArray B (melts_array J B lf)),
         (''plugins'', ofArray B (plugins_array J B lf)),
         (''overrides'', ofArray B (lf_overrides lf))] @
        (if isWorkspace lf
         then [(''workspace'', ofObject B (json_object B
                 [(''members'', ofArray B (map (member_json J B) (workspaceMembers lf)))]))]
         else [])))"

definition lock_text :: "('v \<Rightarrow> string) \<Rightarrow> 'v \<Rightarrow> string" where
  "lock_text show1 v =
     (let text = show1 v in if text \<noteq> [] \<and> last text \<noteq> CHR 0x0A then text @ [CHR 0x0A] else text)"

text \<open>The file system. \<open>existsAt\<close> and \<open>readAt\<close> read it, \<open>opensForWrite\<close> tells whether a
  path can be opened, and \<open>stored\<close> what a file holds after \<open>text\<close> was written to it, with
  the state of the stream when the code looks at it.\<close>

record disk =
  contents :: "string \<rightharpoonup> string"
  unreadable :: "string \<Rightarrow> bool"
  opensForWrite :: "string \<Rightarrow> bool"
  stored :: "string \<Rightarrow> string \<Rightarrow> string \<times> bool"

definition existsAt :: "disk \<Rightarrow> string \<Rightarrow> bool" where
  "existsAt D path \<longleftrightarrow> unreadable D path \<or> contents D path \<noteq> None"

definition readAt :: "disk \<Rightarrow> string \<Rightarrow> string option" where
  "readAt D path = (if unreadable D path then None else contents D path)"

definition writeLockfile ::
    "('v, 'o) json \<Rightarrow> ('v, 'o) builder \<Rightarrow> ('v \<Rightarrow> string) \<Rightarrow> string \<Rightarrow> 'v Lockfile \<Rightarrow> disk \<Rightarrow> (lock_error + unit) \<times> disk" where
  "writeLockfile J B show1 path lf D =
     (if \<not> opensForWrite D path then (Inl (CannotOpenForWrite path), D)
      else case stored D path (lock_text show1 (lock_json J B lf)) of (bytes, good) \<Rightarrow>
        (if good then Inr () else Inl (ErrorWriting path), D\<lparr>contents := (contents D)(path \<mapsto> bytes)\<rparr>))"

subsection \<open>Reading\<close>

definition string_field :: "('v, 'o) json \<Rightarrow> 'o \<Rightarrow> string \<Rightarrow> string" where
  "string_field J ob k = str_or (getString J ob k) []"

definition strings_of :: "('v, 'o) json \<Rightarrow> 'o \<Rightarrow> string \<Rightarrow> string list" where
  "strings_of J ob k = (case getArray J ob k of None \<Rightarrow> [] | Some vs \<Rightarrow> List.map_filter (asString J) vs)"

definition read_package :: "('v, 'o) json \<Rightarrow> 'v \<Rightarrow> ResolvedPackageEntry option" where
  "read_package J v =
     (case asObject J v of
        None \<Rightarrow> None
      | Some ob \<Rightarrow>
          let p = \<lparr>pe_name = string_field J ob ''name'', pe_version = string_field J ob ''version'',
                   pe_resolvedFromRepo = string_field J ob ''resolved-from'', pe_checksum = string_field J ob ''checksum'',
                   pe_providedBy = string_field J ob ''provided-by'', memberOwner = string_field J ob ''member''\<rparr>
          in if pe_name p \<noteq> [] \<and> pe_version p \<noteq> [] then Some p else None)"

definition read_melt :: "('v, 'o) json \<Rightarrow> 'v \<Rightarrow> ResolvedMeltEntry option" where
  "read_melt J v =
     (case asObject J v of
        None \<Rightarrow> None
      | Some ob \<Rightarrow>
          let m = \<lparr>me_name = string_field J ob ''name'', me_version = string_field J ob ''version'',
                   me_resolvedFromRepo = string_field J ob ''resolved-from'', me_checksum = string_field J ob ''checksum'',
                   me_transitiveMelts = strings_of J ob ''transitive-melts''\<rparr>
          in if me_name m \<noteq> [] \<and> me_version m \<noteq> [] then Some m else None)"

definition read_plugin :: "('v, 'o) json \<Rightarrow> 'v \<Rightarrow> ResolvedPluginEntry option" where
  "read_plugin J v =
     (case asObject J v of
        None \<Rightarrow> None
      | Some ob \<Rightarrow>
          let p = \<lparr>pg_name = string_field J ob ''name'', pg_version = string_field J ob ''version'',
                   pg_resolvedFromRepo = string_field J ob ''resolved-from'', pg_checksum = string_field J ob ''checksum'',
                   pg_capabilities = strings_of J ob ''capabilities''\<rparr>
          in if pg_name p \<noteq> [] \<and> pg_version p \<noteq> [] then Some p else None)"

definition read_member :: "('v, 'o) json \<Rightarrow> 'v \<Rightarrow> WorkspaceMemberEntry option" where
  "read_member J v =
     (case asObject J v of
        None \<Rightarrow> None
      | Some ob \<Rightarrow> Some \<lparr>we_name = string_field J ob ''name'', we_declaredPath = string_field J ob ''path'',
                         we_manifestChecksum = string_field J ob ''manifest-checksum''\<rparr>)"

definition read_properties :: "('v, 'o) json \<Rightarrow> 'o \<Rightarrow> (string \<times> string) list" where
  "read_properties J ob =
     foldl (\<lambda>ps (k, v). case asString J v of None \<Rightarrow> ps | Some s \<Rightarrow> map_put k s ps) [] (members J ob)"

definition array_or_empty :: "('v, 'o) json \<Rightarrow> 'o \<Rightarrow> string \<Rightarrow> 'v list" where
  "array_or_empty J ob k = (case getArray J ob k of None \<Rightarrow> [] | Some vs \<Rightarrow> vs)"

definition read_root :: "('v, 'o) json \<Rightarrow> 'o \<Rightarrow> lock_error + 'v Lockfile" where
  "read_root J root =
     (case getInteger J root ''lockfile-version'' of
        None \<Rightarrow> Inl NoLockfileVersion
      | Some version \<Rightarrow>
     (case getString J root ''manifest-checksum'' of
        None \<Rightarrow> Inl NoManifestChecksum
      | Some checksum \<Rightarrow>
          Inr \<lparr>lockfileVersion = cast_int32 version, manifestChecksum = checksum,
               generatorTool = (case getObject J root ''generator'' of None \<Rightarrow> ''cajeta''
                                | Some gen \<Rightarrow> str_or (getString J gen ''tool'') ''cajeta''),
               generatorVersion = (case getObject J root ''generator'' of None \<Rightarrow> []
                                | Some gen \<Rightarrow> string_field J gen ''version''),
               resolvedAt = string_field J root ''resolved-at'',
               lf_properties = (case getObject J root ''properties'' of None \<Rightarrow> [] | Some p \<Rightarrow> read_properties J p),
               packagesTyped = List.map_filter (read_package J) (array_or_empty J root ''packages''),
               meltsTyped = List.map_filter (read_melt J) (array_or_empty J root ''melts''),
               pluginsTyped = List.map_filter (read_plugin J) (array_or_empty J root ''plugins''),
               packagesRaw = array_or_empty J root ''packages'',
               meltsRaw = array_or_empty J root ''melts'',
               pluginsRaw = array_or_empty J root ''plugins'',
               lf_overrides = array_or_empty J root ''overrides'',
               isWorkspace = (getObject J root ''workspace'' \<noteq> None),
               workspaceMembers = (case getObject J root ''workspace'' of None \<Rightarrow> []
                 | Some ws \<Rightarrow> List.map_filter (read_member J) (array_or_empty J ws ''members''))\<rparr>))"

definition readLockfile :: "('v, 'o) json \<Rightarrow> string \<Rightarrow> disk \<Rightarrow> lock_error + 'v Lockfile" where
  "readLockfile J path D =
     (case readAt D path of
        None \<Rightarrow> Inl (CannotOpenLock path)
      | Some bytes \<Rightarrow>
     (case parseJson J bytes of
        Inl e \<Rightarrow> Inl (LockParseError path e)
      | Inr v \<Rightarrow>
     (case asObject J v of
        None \<Rightarrow> Inl (LockNotAnObject path)
      | Some root \<Rightarrow> read_root J root)))"

subsection \<open>The update\<close>

definition samePackage :: "ResolvedPackageEntry \<Rightarrow> ResolvedPackageEntry \<Rightarrow> bool" where
  "samePackage a b \<longleftrightarrow> pe_name a = pe_name b \<and> pe_version a = pe_version b \<and> pe_checksum a = pe_checksum b \<and>
     pe_providedBy a = pe_providedBy b \<and> memberOwner a = memberOwner b"

definition sameLock :: "'v Lockfile \<Rightarrow> 'v Lockfile \<Rightarrow> bool" where
  "sameLock existing lf \<longleftrightarrow> manifestChecksum existing = manifestChecksum lf \<and> lf_properties existing = lf_properties lf \<and>
     length (packagesTyped existing) = length (packagesTyped lf) \<and>
     list_all (\<lambda>(a, b). samePackage a b) (zip (packagesTyped lf) (packagesTyped existing))"

definition carry_over :: "'v Lockfile \<Rightarrow> 'v Lockfile \<Rightarrow> 'v Lockfile" where
  "carry_over existing lf =
     lf\<lparr>meltsTyped := meltsTyped existing, pluginsTyped := pluginsTyped existing, meltsRaw := meltsRaw existing,
        pluginsRaw := pluginsRaw existing, lf_overrides := lf_overrides existing\<rparr>"

text \<open>What is to be written, if anything is.\<close>

definition updated_lock :: "('v, 'o) json \<Rightarrow> string \<Rightarrow> disk \<Rightarrow> 'v Lockfile \<Rightarrow> 'v Lockfile option" where
  "updated_lock J lockPath D lf =
     (if existsAt D lockPath then
        (case readLockfile J lockPath D of
           Inl _ \<Rightarrow> Some lf
         | Inr existing \<Rightarrow> if sameLock existing lf then None else Some (carry_over existing lf))
      else Some lf)"

definition updateProjectLockfile ::
    "('v, 'o) json \<Rightarrow> ('v, 'o) builder \<Rightarrow> ('v \<Rightarrow> string) \<Rightarrow> (string \<Rightarrow> string) \<Rightarrow> string \<Rightarrow> string \<Rightarrow> (string \<times> string) list \<Rightarrow>
     ResolvedDependency list \<Rightarrow> string \<Rightarrow> string \<Rightarrow> disk \<Rightarrow> (lock_error + unit) \<times> disk" where
  "updateProjectLockfile J B show1 H ver manifestSource props resolvedDeps lockPath nowIso D =
     (case updated_lock J lockPath D
             (composeLockfileWithResolution H ver manifestSource props resolvedDeps (no_melts B) Map.empty [] nowIso) of
        None \<Rightarrow> (Inr (), D)
      | Some lf \<Rightarrow> writeLockfile J B show1 lockPath lf D)"


subsection \<open>Reading back\<close>

text \<open>What the library documents of its objects: each key once.\<close>

definition objects_ok :: "('v, 'o) json \<Rightarrow> ('v, 'o) builder \<Rightarrow> bool" where
  "objects_ok J B \<longleftrightarrow> (\<forall>kvs. distinct (map fst (members J (json_object B kvs))))"

text \<open>The value that was printed is the value that is parsed.\<close>

definition prints_back :: "('v, 'o) json \<Rightarrow> ('v \<Rightarrow> string) \<Rightarrow> 'v \<Rightarrow> bool" where
  "prints_back J show1 v \<longleftrightarrow> parseJson J (lock_text show1 v) = Inr v"

lemma get_json_object:
  assumes "builder_ok J B"
  shows "get J (json_object B kvs) k = map_of (rev kvs) k"
proof (induction kvs rule: rev_induct)
  case Nil
  then show ?case using assms by (simp add: json_object_def builder_ok_simps)
next
  case (snoc kv kvs)
  then show ?case using assms by (cases kv) (simp add: json_object_def builder_ok_simps)
qed

lemma get_strings_object:
  assumes "builder_ok J B"
  shows "get J (strings_object J B kvs) k = map_option (ofString J) (map_of (rev kvs) k)"
  using map_of_map [of "ofString J" "rev kvs"]
  by (simp add: strings_object_def get_json_object [OF assms] rev_map split_def)

lemma builder_values:
  assumes "builder_ok J B"
  shows "asObject J (ofObject B ob) = Some ob" "asArray J (ofArray B vs) = Some vs" "asInteger J (ofInteger B i) = Some i"
    "asString J (ofString J s) = Some s" "get J (objSet B ob k v) k' = (if k' = k then Some v else get J ob k')"
  using assms by (simp_all add: builder_ok_def json_values_ok_def)

lemma map_filter_map_Some: "(\<And>x. x \<in> set xs \<Longrightarrow> f (g x) = Some x) \<Longrightarrow> List.map_filter f (map g xs) = xs"
  by (induction xs) (simp_all add: List.map_filter_simps)

lemmas lock_read_simps = string_field_def getString_def getArray_def getObject_def getInteger_def strings_of_def
  strings_array_def str_or_def Let_def

lemmas written = get_strings_object get_json_object builder_values

definition explicit_provider :: "ResolvedPackageEntry \<Rightarrow> ResolvedPackageEntry" where
  "explicit_provider p = p\<lparr>pe_providedBy := if pe_providedBy p = [] then ''explicit'' else pe_providedBy p\<rparr>"

lemma read_package_json:
  assumes "builder_ok J B" "pe_name p \<noteq> []" "pe_version p \<noteq> []"
  shows "read_package J (package_json J B p) = Some (explicit_provider p)"
  using assms(2,3)
  by (simp add: read_package_def package_json_def explicit_provider_def lock_read_simps written [OF assms(1)])

lemma read_melt_json:
  assumes "builder_ok J B" "me_name m \<noteq> []" "me_version m \<noteq> []"
  shows "read_melt J (melt_json J B m) = Some m"
  using assms(2,3)
  by (simp add: read_melt_def melt_json_def lock_read_simps written [OF assms(1)] map_filter_map_Some)

lemma read_plugin_json:
  assumes "builder_ok J B" "pg_name p \<noteq> []" "pg_version p \<noteq> []"
  shows "read_plugin J (plugin_json J B p) = Some p"
  using assms(2,3)
  by (simp add: read_plugin_def plugin_json_def lock_read_simps written [OF assms(1)] map_filter_map_Some)

lemma read_member_json:
  assumes "builder_ok J B"
  shows "read_member J (member_json J B m) = Some m"
  by (simp add: read_member_def member_json_def lock_read_simps written [OF assms])

text \<open>The properties: each is stored under its name, in order.\<close>

lemma read_properties_fold:
  assumes "distinct (map fst ms)" "std_map ps" "fst ` set ms \<inter> fst ` set ps = {}"
  shows "let r = foldl (\<lambda>ps (k, v). case asString J v of None \<Rightarrow> ps | Some s \<Rightarrow> map_put k s ps) ps ms
     in std_map r \<and> (\<forall>k. map_of r k = (case map_of ms k of None \<Rightarrow> map_of ps k | Some v \<Rightarrow> asString J v))"
  using assms
proof (induction ms arbitrary: ps)
  case (Cons kv ms)
  obtain k v where kv: "kv = (k, v)" by (cases kv)
  have new: "k \<notin> fst ` set ms" "map_of ms k = None" "map_of ps k = None"
    using Cons.prems(1,3) by (auto simp: kv map_of_eq_None_iff)
  show ?case
  proof (cases "asString J v")
    case None
    have "let r = foldl (\<lambda>ps (k, v). case asString J v of None \<Rightarrow> ps | Some s \<Rightarrow> map_put k s ps) ps ms
      in std_map r \<and> (\<forall>k. map_of r k = (case map_of ms k of None \<Rightarrow> map_of ps k | Some v \<Rightarrow> asString J v))"
      using Cons.prems by (intro Cons.IH) (auto simp: kv)
    with None new show ?thesis by (auto simp: kv Let_def)
  next
    case (Some s)
    have "let r = foldl (\<lambda>ps (k, v). case asString J v of None \<Rightarrow> ps | Some s \<Rightarrow> map_put k s ps) (map_put k s ps) ms
      in std_map r \<and> (\<forall>x. map_of r x = (case map_of ms x of None \<Rightarrow> map_of (map_put k s ps) x | Some v \<Rightarrow> asString J v))"
      using Cons.prems new(1) by (intro Cons.IH) (auto simp: kv)
    with Some new show ?thesis by (auto simp: kv Let_def split: option.split)
  qed
qed simp

lemma read_properties_written:
  assumes "builder_ok J B" "objects_ok J B" "std_map ps"
  shows "read_properties J (strings_object J B ps) = ps"
proof (rule std_map_eqI [OF _ assms(3)])
  let ?ob = "strings_object J B ps"
  have "distinct (map fst (members J ?ob))"
    using assms(2) by (simp add: objects_ok_def strings_object_def)
  then have r: "std_map (read_properties J ?ob)"
      "map_of (read_properties J ?ob) k = (case map_of (members J ?ob) k of None \<Rightarrow> None | Some v \<Rightarrow> asString J v)" for k
    using read_properties_fold [of "members J ?ob" "[]" J]
    by (simp_all add: read_properties_def Let_def split: option.split)
  show "std_map (read_properties J ?ob)" by (rule r)
  have "map_of (rev ps) = map_of ps" using std_map_distinct [OF assms(3)]
    by (simp add: map_of_inject_set rev_map [symmetric])
  moreover have "map_of (members J ?ob) k = map_option (ofString J) (map_of (rev ps) k)" for k
    using get_strings_object [OF assms(1), of ps k] by (simp add: get_def)
  ultimately show "map_of (read_properties J ?ob) = map_of ps"
    by (simp add: fun_eq_iff r(2) written [OF assms(1)] split: option.split)
qed

text \<open>A whole document.\<close>

lemma read_written_root:
  assumes "builder_ok J B" "objects_ok J B" "std_map (lf_properties lf)"
  shows "(case asObject J (lock_json J B lf) of None \<Rightarrow> Inl e | Some root \<Rightarrow> read_root J root) =
    Inr (lf\<lparr>lockfileVersion := cast_int32 (lockfileVersion lf),
       packagesTyped := List.map_filter (read_package J) (packages_array J B lf),
       meltsTyped := List.map_filter (read_melt J) (melts_array J B lf),
       pluginsTyped := List.map_filter (read_plugin J) (plugins_array J B lf),
       packagesRaw := packages_array J B lf, meltsRaw := melts_array J B lf, pluginsRaw := plugins_array J B lf,
       workspaceMembers := if isWorkspace lf then workspaceMembers lf else []\<rparr>)"
  by (simp add: lock_json_def read_root_def lock_read_simps array_or_empty_def written [OF assms(1)]
      read_properties_written [OF assms] map_filter_map_Some read_member_json [OF assms(1)])

subsection \<open>Round trip\<close>

text \<open>What a lock file must be like to come back unchanged from the disk: entries have a name, a
  version and a provider, the properties are a map, and what has no typed form left is also not
  read as one.\<close>

definition lock_ok :: "('v, 'o) json \<Rightarrow> 'v Lockfile \<Rightarrow> bool" where
  "lock_ok J lf \<longleftrightarrow>
     cast_int32 (lockfileVersion lf) = lockfileVersion lf \<and> std_map (lf_properties lf) \<and>
     (\<forall>p \<in> set (packagesTyped lf). pe_name p \<noteq> [] \<and> pe_version p \<noteq> [] \<and> pe_providedBy p \<noteq> []) \<and>
     (\<forall>m \<in> set (meltsTyped lf). me_name m \<noteq> [] \<and> me_version m \<noteq> []) \<and>
     (\<forall>p \<in> set (pluginsTyped lf). pg_name p \<noteq> [] \<and> pg_version p \<noteq> []) \<and>
     (packagesTyped lf = [] \<longrightarrow> List.map_filter (read_package J) (packagesRaw lf) = []) \<and>
     (meltsTyped lf = [] \<longrightarrow> List.map_filter (read_melt J) (meltsRaw lf) = []) \<and>
     (pluginsTyped lf = [] \<longrightarrow> List.map_filter (read_plugin J) (pluginsRaw lf) = []) \<and>
     (\<not> isWorkspace lf \<longrightarrow> workspaceMembers lf = [])"

lemma typed_written:
  assumes "builder_ok J B" "lock_ok J lf"
  shows "List.map_filter (read_package J) (packages_array J B lf) = packagesTyped lf"
    and "List.map_filter (read_melt J) (melts_array J B lf) = meltsTyped lf"
    and "List.map_filter (read_plugin J) (plugins_array J B lf) = pluginsTyped lf"
  using assms(2)
  by (auto simp: lock_ok_def packages_array_def melts_array_def plugins_array_def explicit_provider_def
      read_package_json [OF assms(1)] read_melt_json [OF assms(1)] read_plugin_json [OF assms(1)]
      intro!: map_filter_map_Some)

lemma read_stored:
  assumes "builder_ok J B" "objects_ok J B" "std_map (lf_properties lf)" "prints_back J show1 (lock_json J B lf)"
    and "readAt D path = Some (lock_text show1 (lock_json J B lf))"
  shows "readLockfile J path D = Inr (lf\<lparr>lockfileVersion := cast_int32 (lockfileVersion lf),
       packagesTyped := List.map_filter (read_package J) (packages_array J B lf),
       meltsTyped := List.map_filter (read_melt J) (melts_array J B lf),
       pluginsTyped := List.map_filter (read_plugin J) (plugins_array J B lf),
       packagesRaw := packages_array J B lf, meltsRaw := melts_array J B lf, pluginsRaw := plugins_array J B lf,
       workspaceMembers := if isWorkspace lf then workspaceMembers lf else []\<rparr>)"
  using assms(4,5) read_written_root [OF assms(1-3)] by (simp add: readLockfile_def prints_back_def)

lemma writeLockfile_stored:
  assumes "writeLockfile J B show1 path lf D = (Inr (), D')" "\<not> unreadable D path"
    and "stored D path (lock_text show1 (lock_json J B lf)) = (lock_text show1 (lock_json J B lf), True)"
  shows "readAt D' path = Some (lock_text show1 (lock_json J B lf))"
  using assms by (auto simp: writeLockfile_def readAt_def split: if_splits)

text \<open>C14: What is written is what is read: every field comes back, and beside the typed entries the raw
  ones are those of the document.\<close>

theorem lockfile_roundtrip:
  assumes "builder_ok J B" "objects_ok J B" "lock_ok J lf" "prints_back J show1 (lock_json J B lf)"
    and "writeLockfile J B show1 path lf D = (Inr (), D')" "\<not> unreadable D path"
    and "stored D path (lock_text show1 (lock_json J B lf)) = (lock_text show1 (lock_json J B lf), True)"
  shows "readLockfile J path D' = Inr (lf\<lparr>packagesRaw := packages_array J B lf, meltsRaw := melts_array J B lf,
    pluginsRaw := plugins_array J B lf\<rparr>)"
proof -
  have "std_map (lf_properties lf)" using assms(3) by (simp add: lock_ok_def)
  from read_stored [OF assms(1,2) this assms(4) writeLockfile_stored [OF assms(5-7)]] assms(3)
  show ?thesis by (simp add: typed_written [OF assms(1,3)] lock_ok_def)
qed

text \<open>Writing what was read changes nothing.\<close>

lemma rewrite_same:
  "lock_json J B (lf\<lparr>packagesRaw := packages_array J B lf, meltsRaw := melts_array J B lf, pluginsRaw := plugins_array J B lf\<rparr>) =
   lock_json J B lf"
  by (simp add: lock_json_def packages_array_def melts_array_def plugins_array_def)

subsection \<open>The update is idempotent\<close>

lemma sameLock_refl:
  assumes "manifestChecksum a = manifestChecksum b" "lf_properties a = lf_properties b" "packagesTyped a = packagesTyped b"
  shows "sameLock a b"
  using assms by (auto simp: sameLock_def samePackage_def list_all_iff in_set_zip)

lemma composed_fields [simp]:
  "manifestChecksum (composeLockfileWithResolution H ver src props deps melts by1 pls now) = H src"
  "lf_properties (composeLockfileWithResolution H ver src props deps melts by1 pls now) = props"
  "packagesTyped (composeLockfileWithResolution H ver src props deps melts by1 pls now) = map (package_entry by1) deps"
  "manifestChecksum (carry_over ex lf) = manifestChecksum lf" "lf_properties (carry_over ex lf) = lf_properties lf"
  "packagesTyped (carry_over ex lf) = packagesTyped lf"
  by (simp_all add: composeLockfileWithResolution_def composeLockfile_def carry_over_def)

lemma packages_written:
  assumes "builder_ok J B" "packagesTyped lf = map (package_entry Map.empty) deps"
    and "\<forall>d \<in> set deps. rd_name d \<noteq> [] \<and> rd_version d \<noteq> []" "deps = [] \<longrightarrow> packagesRaw lf = []"
  shows "List.map_filter (read_package J) (packages_array J B lf) = map (package_entry Map.empty) deps"
proof (cases "deps = []")
  case True
  with assms(2,4) show ?thesis by (simp add: packages_array_def List.map_filter_simps)
next
  case False
  with assms(2) have "packages_array J B lf = map (package_json J B) (map (package_entry Map.empty) deps)"
    by (simp add: packages_array_def)
  moreover have "read_package J (package_json J B p) = Some p" if "p \<in> set (map (package_entry Map.empty) deps)" for p
    using that assms(3) by (auto simp: read_package_json [OF assms(1)] package_entry_def explicit_provider_def str_or_def)
  ultimately show ?thesis by (simp only: map_filter_map_Some)
qed

text \<open>C15: After an update, another one with the same manifest, properties and packages leaves the file
  as it is, whenever it runs and wherever it fetched the packages from.\<close>

theorem update_idempotent:
  assumes "builder_ok J B" "objects_ok J B" "std_map props" "\<forall>d \<in> set deps. rd_name d \<noteq> [] \<and> rd_version d \<noteq> []"
    and "updateProjectLockfile J B show1 H ver src props deps path now D = (Inr (), D')" "\<not> unreadable D path"
    and "\<forall>lf. updated_lock J path D (composeLockfileWithResolution H ver src props deps (no_melts B) Map.empty [] now) = Some lf \<longrightarrow>
       prints_back J show1 (lock_json J B lf) \<and>
       stored D path (lock_text show1 (lock_json J B lf)) = (lock_text show1 (lock_json J B lf), True)"
    and "map (\<lambda>d. (rd_name d, rd_version d, rd_sha256 d)) deps' = map (\<lambda>d. (rd_name d, rd_version d, rd_sha256 d)) deps"
  shows "updateProjectLockfile J B show1 H ver' src props deps' path now' D' = (Inr (), D')"
proof -
  let ?compose = "composeLockfileWithResolution H ver src props deps (no_melts B) Map.empty [] now"
  have same: "sameLock ex (composeLockfileWithResolution H ver' src props deps' (no_melts B) Map.empty [] now')"
    if "sameLock ex ?compose" for ex :: "'a Lockfile"
  proof -
    have len: "length deps' = length deps" by (rule map_eq_imp_length_eq [OF assms(8)])
    have "samePackage (package_entry Map.empty (deps' ! i)) q \<longleftrightarrow> samePackage (package_entry Map.empty (deps ! i)) q"
      if "i < length deps" for i q
      using arg_cong [OF assms(8), of "\<lambda>l. l ! i"] that len by (simp add: samePackage_def package_entry_def)
    with that len show ?thesis
      by (simp add: sameLock_def list_all_length)
  qed
  show ?thesis
  proof (cases "updated_lock J path D ?compose")
    case None
    with assms(5) have D: "D' = D" by (simp add: updateProjectLockfile_def)
    from None obtain ex where "existsAt D path" "readLockfile J path D = Inr ex" "sameLock ex ?compose"
      by (auto simp: updated_lock_def split: if_splits sum.splits)
    with same [of ex] show ?thesis by (simp add: D updateProjectLockfile_def updated_lock_def)
  next
    case (Some lf)
    then have w: "writeLockfile J B show1 path lf D = (Inr (), D')" using assms(5) by (simp add: updateProjectLockfile_def)
    have lf: "packagesTyped lf = map (package_entry Map.empty) deps" "lf_properties lf = props" "manifestChecksum lf = H src"
        "packagesRaw lf = []"
      using Some by (auto simp: updated_lock_def carry_over_def composeLockfileWithResolution_def composeLockfile_def
          split: if_splits sum.splits)
    have held: "readAt D' path = Some (lock_text show1 (lock_json J B lf))"
      using writeLockfile_stored [OF w assms(6)] assms(7) Some by blast
    then have exs: "existsAt D' path" by (simp add: existsAt_def readAt_def split: if_splits)
    have pb: "prints_back J show1 (lock_json J B lf)" using assms(7) Some by blast
    from read_stored [OF assms(1,2) _ pb held] lf(2) assms(3) obtain ex where "readLockfile J path D' = Inr ex"
        "manifestChecksum ex = manifestChecksum lf" "lf_properties ex = lf_properties lf"
        "packagesTyped ex = List.map_filter (read_package J) (packages_array J B lf)"
      by simp
    then have ex: "readLockfile J path D' = Inr ex" "sameLock ex ?compose"
      using packages_written [OF assms(1) lf(1) assms(4)] lf by (simp_all add: sameLock_refl)
    show ?thesis using same [OF ex(2)] ex(1) exs by (simp add: updateProjectLockfile_def updated_lock_def)
  qed
qed

subsection \<open>Workspaces\<close>

lemma view_fold:
  "foldl (\<lambda>v m. v(we_name m \<mapsto> we_manifestChecksum m)) v es = v ++ map_of (rev (map (\<lambda>m. (we_name m, we_manifestChecksum m)) es))"
  by (induction es arbitrary: v) (auto simp: map_add_def fun_eq_iff split: option.splits)

lemma view_composed:
  assumes "distinct (map memberShortName (ws_members ws))" "m \<in> set (ws_members ws)"
  shows "extractWorkspaceLockView (composeWorkspaceLockfile H ver (Some ws) inp props now) (memberShortName m) =
    Some (we_manifestChecksum (member_entry H (memberManifestSources inp) m))"
proof -
  let ?es = "map (\<lambda>m. (memberShortName m, we_manifestChecksum (member_entry H (memberManifestSources inp) m))) (ws_members ws)"
  have "distinct (map fst ?es)" using assms(1) by (simp add: comp_def)
  then have "map_of (rev ?es) = map_of ?es" by (simp add: map_of_inject_set rev_map [symmetric])
  moreover have "map_of ?es (memberShortName m) = Some (we_manifestChecksum (member_entry H (memberManifestSources inp) m))"
    using assms by (intro map_of_is_SomeI) (auto simp: comp_def)
  ultimately show ?thesis
    by (simp add: extractWorkspaceLockView_def composeWorkspaceLockfile_def Let_def view_fold member_entry_def comp_def)
qed

definition member_edges :: "('v, 'o) json \<Rightarrow> 'o Workspace \<Rightarrow> (string \<times> string) set" where
  "member_edges J ws = name_edges (map memberShortName (ws_members ws)) (member_deps J (ws_members ws))"

lemma rebuild_set:
  "membersNeedingRebuild J F ws view =
     {x. \<exists>m \<in> set (ws_members ws). drifted F view m \<and> (x, memberShortName m) \<in> (member_edges J ws)\<^sup>*}"
proof -
  have "membersNeedingRebuild J F ws view =
      {x. \<exists>y \<in> memberShortName ` set (filter (drifted F view) (ws_members ws)). (x, y) \<in> (member_edges J ws)\<^sup>*}"
    using rebuild_loop_reach [of "map memberShortName (ws_members ws)" "member_deps J (ws_members ws)"]
      member_deps_less [of J "ws_members ws"]
    by (simp add: membersNeedingRebuild_def Let_def member_edges_def)
  then show ?thesis by auto
qed

lemma view_of_read:
  "extractWorkspaceLockView (lf\<lparr>lockfileVersion := a, packagesTyped := b, meltsTyped := c, pluginsTyped := d,
     packagesRaw := e, meltsRaw := f, pluginsRaw := g, workspaceMembers := if isWorkspace lf then workspaceMembers lf else []\<rparr>) =
   extractWorkspaceLockView lf"
  by (simp add: extractWorkspaceLockView_def)

text \<open>C16: The lock file of a loaded workspace, written, read back and looked at later: to be rebuilt are
  the members whose manifest has another digest than the one that was locked, and those that
  depend on one of them through a chain of members.\<close>

theorem locked_workspace_rebuild:
  assumes "builder_ok J B" "objects_ok J B" "std_map props" "loadWorkspace J0 B0 F0 p = Inr ws"
    and "lf = composeWorkspaceLockfile (sha256Hex F) ver (Some ws) inp props now"
    and "\<forall>m \<in> set (ws_members ws). memberManifestSources inp (memberShortName m) = Some (source m)"
    and "prints_back J show1 (lock_json J B lf)" "writeLockfile J B show1 path lf D = (Inr (), D')"
    and "\<not> unreadable D path" "stored D path (lock_text show1 (lock_json J B lf)) = (lock_text show1 (lock_json J B lf), True)"
  shows "\<exists>lf'. readLockfile J path D' = Inr lf' \<and>
    membersNeedingRebuild J F ws (Some (extractWorkspaceLockView lf')) =
      {x. \<exists>m \<in> set (ws_members ws). sha256Hex F (member_bytes F m) \<noteq> sha256Hex F (source m) \<and>
         (x, memberShortName m) \<in> (member_edges J ws)\<^sup>*}"
proof -
  have "std_map (lf_properties lf)"
    using assms(3) by (simp add: assms(5) composeWorkspaceLockfile_def composeLockfile_def Let_def)
  from read_stored [OF assms(1,2) this assms(7) writeLockfile_stored [OF assms(8-10)]]
  obtain lf' where r: "readLockfile J path D' = Inr lf'" "extractWorkspaceLockView lf' = extractWorkspaceLockView lf"
    using view_of_read by blast
  have d: "distinct (map memberShortName (ws_members ws))"
    using assms(4) by (rule loadWorkspace_parts) (simp add: comp_def)
  have "drifted F (Some (extractWorkspaceLockView lf')) m \<longleftrightarrow> sha256Hex F (member_bytes F m) \<noteq> sha256Hex F (source m)"
    if "m \<in> set (ws_members ws)" for m
    using that assms(6) by (auto simp: drifted_def r(2) assms(5) view_composed [OF d that] member_entry_def)
  then have "membersNeedingRebuild J F ws (Some (extractWorkspaceLockView lf')) =
      {x. \<exists>m \<in> set (ws_members ws). sha256Hex F (member_bytes F m) \<noteq> sha256Hex F (source m) \<and>
         (x, memberShortName m) \<in> (member_edges J ws)\<^sup>*}"
    unfolding rebuild_set by blast
  with r(1) show ?thesis by blast
qed

subsection \<open>Examples\<close>

lemma tree_set_distinct: "distinct (map fst ob) \<Longrightarrow> distinct (map fst (objSet tree_builder ob k v))"
proof -
  have "map fst (map (\<lambda>(k', v'). (k', if k' = k then v else v')) ob) = map fst ob" for ob :: "(string \<times> jtree) list" and k v
    by (induction ob) auto
  then show "distinct (map fst ob) \<Longrightarrow> distinct (map fst (objSet tree_builder ob k v))"
    by (simp add: tree_builder_def del: map_map)
qed

lemma tree_objects_ok: "objects_ok (tree_json docs) tree_builder"
proof -
  have "distinct (map fst (json_object tree_builder kvs))" for kvs
  proof (induction kvs rule: rev_induct)
    case (snoc kv kvs)
    then show ?case by (cases kv) (simp add: json_object_def tree_set_distinct)
  qed (simp add: json_object_def tree_builder_def)
  then show ?thesis by (simp add: objects_ok_def)
qed

text \<open>A library whose one document is the lock file; what is written does not depend on it.\<close>

definition lock_doc :: "jtree Lockfile \<Rightarrow> jtree" where
  "lock_doc lf = lock_json (tree_json Map.empty) tree_builder lf"

definition lock_docs :: "jtree Lockfile \<Rightarrow> (jtree, (string \<times> jtree) list) json" where
  "lock_docs lf = tree_json [''lock'' @ [CHR 0x0A] \<mapsto> lock_doc lf]"

lemma lock_json_docs: "lock_json (tree_json docs) tree_builder lf = lock_doc lf"
  by (simp add: lock_doc_def lock_json_def packages_array_def melts_array_def plugins_array_def package_json_def [abs_def]
      melt_json_def [abs_def] plugin_json_def [abs_def] member_json_def [abs_def] strings_array_def strings_object_def)

lemma lock_docs_print: "prints_back (lock_docs lf) (\<lambda>_. ''lock'') (lock_json (lock_docs lf) tree_builder lf)"
  by (simp add: prints_back_def lock_text_def lock_docs_def lock_json_docs)

definition empty_disk :: disk where
  "empty_disk = \<lparr>contents = Map.empty, unreadable = (\<lambda>_. False), opensForWrite = (\<lambda>_. True), stored = (\<lambda>p t. (t, True))\<rparr>"

definition demo_packages :: "ResolvedDependency list" where
  "demo_packages = [\<lparr>rd_name = ''a'', rd_version = ''1'', rd_resolvedFromRepo = ''r'', rd_artifactPath = ''p'', rd_sha256 = ''s''\<rparr>]"

definition demo_lock :: "jtree Lockfile" where
  "demo_lock = composeLockfileWithResolution (\<lambda>s. s) ''1'' ''src'' [(''x'', ''y'')] demo_packages (no_melts tree_builder)
     Map.empty [] ''now''"

lemma empty_disk_simps [simp]:
  "unreadable empty_disk p = False" "opensForWrite empty_disk p = True" "stored empty_disk p t = (t, True)"
  "contents empty_disk p = None"
  by (simp_all add: empty_disk_def)

lemma write_empty_disk:
  "\<exists>D'. writeLockfile J B show1 path lf empty_disk = (Inr (), D')"
  by (simp add: writeLockfile_def)

lemma demo_lock_ok: "lock_ok J demo_lock"
  by (simp add: lock_ok_def demo_lock_def composeLockfileWithResolution_def composeLockfile_def cast_int32_def std_map_def
      demo_packages_def package_entry_def str_or_def no_melts_def List.map_filter_simps)

theorem lockfile_roundtrip_witness:
  "\<exists>D'. writeLockfile (lock_docs demo_lock) tree_builder (\<lambda>_. ''lock'') ''cajeta.lock'' demo_lock empty_disk = (Inr (), D') \<and>
     readLockfile (lock_docs demo_lock) ''cajeta.lock'' D' =
       Inr (demo_lock\<lparr>packagesRaw := packages_array (lock_docs demo_lock) tree_builder demo_lock,
         meltsRaw := melts_array (lock_docs demo_lock) tree_builder demo_lock,
         pluginsRaw := plugins_array (lock_docs demo_lock) tree_builder demo_lock\<rparr>)"
proof -
  obtain D' where w: "writeLockfile (lock_docs demo_lock) tree_builder (\<lambda>_. ''lock'') ''cajeta.lock'' demo_lock empty_disk = (Inr (), D')"
    using write_empty_disk by blast
  have "builder_ok (lock_docs demo_lock) tree_builder" "objects_ok (lock_docs demo_lock) tree_builder"
    by (simp_all add: lock_docs_def tree_builder_ok tree_objects_ok)
  from lockfile_roundtrip [OF this demo_lock_ok lock_docs_print w] w show ?thesis by simp
qed

theorem update_idempotent_witness:
  "\<exists>D'. updateProjectLockfile (lock_docs demo_lock) tree_builder (\<lambda>_. ''lock'') (\<lambda>s. s) ''1'' ''src'' [(''x'', ''y'')] demo_packages
       ''cajeta.lock'' ''now'' empty_disk = (Inr (), D') \<and>
     updateProjectLockfile (lock_docs demo_lock) tree_builder (\<lambda>_. ''lock'') (\<lambda>s. s) ''2'' ''src'' [(''x'', ''y'')]
       (map (rd_resolvedFromRepo_update (\<lambda>_. ''olla'')) demo_packages) ''cajeta.lock'' ''later'' D' = (Inr (), D')"
proof -
  let ?J = "lock_docs demo_lock"
  have u: "updated_lock ?J ''cajeta.lock'' empty_disk demo_lock = Some demo_lock"
    by (simp add: updated_lock_def existsAt_def)
  obtain D' where w: "writeLockfile ?J tree_builder (\<lambda>_. ''lock'') ''cajeta.lock'' demo_lock empty_disk = (Inr (), D')"
    using write_empty_disk by blast
  with u have up: "updateProjectLockfile ?J tree_builder (\<lambda>_. ''lock'') (\<lambda>s. s) ''1'' ''src'' [(''x'', ''y'')] demo_packages
      ''cajeta.lock'' ''now'' empty_disk = (Inr (), D')"
    by (simp add: updateProjectLockfile_def demo_lock_def)
  have "updateProjectLockfile ?J tree_builder (\<lambda>_. ''lock'') (\<lambda>s. s) ''2'' ''src'' [(''x'', ''y'')]
      (map (rd_resolvedFromRepo_update (\<lambda>_. ''olla'')) demo_packages) ''cajeta.lock'' ''later'' D' = (Inr (), D')"
  proof (rule update_idempotent [OF _ _ _ _ up])
    show "builder_ok ?J tree_builder" "objects_ok ?J tree_builder"
      by (simp_all add: lock_docs_def tree_builder_ok tree_objects_ok)
    show "\<forall>lf. updated_lock ?J ''cajeta.lock'' empty_disk (composeLockfileWithResolution (\<lambda>s. s) ''1'' ''src'' [(''x'', ''y'')]
          demo_packages (no_melts tree_builder) Map.empty [] ''now'') = Some lf \<longrightarrow>
        prints_back ?J (\<lambda>_. ''lock'') (lock_json ?J tree_builder lf) \<and>
        stored empty_disk ''cajeta.lock'' (lock_text (\<lambda>_. ''lock'') (lock_json ?J tree_builder lf)) =
          (lock_text (\<lambda>_. ''lock'') (lock_json ?J tree_builder lf), True)"
      using u lock_docs_print [of demo_lock] unfolding demo_lock_def [symmetric] by simp
  qed (simp_all add: demo_packages_def std_map_def)
  with up show ?thesis by blast
qed

text \<open>The comment of \<open>readLockfile\<close> says that the raw copy keeps the fields that it does not know
  through a rewrite. It does not where there are typed entries: they are written instead.\<close>

theorem unknown_fields_dropped:
  "case read_root (tree_json Map.empty) [(''lockfile-version'', JInt 1), (''manifest-checksum'', JStr ''c''),
       (''packages'', JArr [JObj [(''name'', JStr ''a''), (''version'', JStr ''1''), (''license'', JStr ''MIT'')]])] of
     Inl _ \<Rightarrow> False
   | Inr lf \<Rightarrow>
       packagesRaw lf = [JObj [(''name'', JStr ''a''), (''version'', JStr ''1''), (''license'', JStr ''MIT'')]] \<and>
       packages_array (tree_json Map.empty) tree_builder lf =
         [JObj [(''name'', JStr ''a''), (''version'', JStr ''1''), (''resolved-from'', JStr ''''), (''checksum'', JStr ''''),
           (''provided-by'', JStr ''explicit'')]]"
  by code_simp

theorem locked_workspace_rebuild_witness:
  "\<exists>ws lf lf' D'. demo_load = Inr ws \<and>
     readLockfile (lock_docs lf) ''cajeta.lock'' D' = Inr lf' \<and>
     membersNeedingRebuild (lock_docs lf) demo_files ws (Some (extractWorkspaceLockView lf')) = {}"
proof -
  have "case demo_load of Inl _ \<Rightarrow> False | Inr ws \<Rightarrow>
      map (member_bytes demo_files) (ws_members ws) = map memberShortName (ws_members ws)" by code_simp
  then obtain ws where ws: "demo_load = Inr ws"
      and same: "map (member_bytes demo_files) (ws_members ws) = map memberShortName (ws_members ws)"
    by (rule case_InrE)
  define lf :: "jtree Lockfile" where "lf = composeWorkspaceLockfile (sha256Hex demo_files) ''1'' (Some ws)
    \<lparr>workspaceManifestSource = ''r'', perMemberDeps = Map.empty, memberManifestSources = Some\<rparr> [] ''now''"
  obtain D' where w: "writeLockfile (lock_docs lf) tree_builder (\<lambda>_. ''lock'') ''cajeta.lock'' lf empty_disk = (Inr (), D')"
    using write_empty_disk by blast
  have "builder_ok (lock_docs lf) tree_builder" "objects_ok (lock_docs lf) tree_builder"
    by (simp_all add: lock_docs_def tree_builder_ok tree_objects_ok)
  from locked_workspace_rebuild [OF this std_map_Nil ws lf_def _ lock_docs_print w, where source = memberShortName]
  obtain lf' where "readLockfile (lock_docs lf) ''cajeta.lock'' D' = Inr lf'"
    "membersNeedingRebuild (lock_docs lf) demo_files ws (Some (extractWorkspaceLockView lf')) =
      {x. \<exists>m \<in> set (ws_members ws). sha256Hex demo_files (member_bytes demo_files m) \<noteq> sha256Hex demo_files (memberShortName m) \<and>
         (x, memberShortName m) \<in> (member_edges (lock_docs lf) ws)\<^sup>*}"
    by auto
  with ws same show ?thesis by (intro exI [of _ ws] exI [of _ lf] exI [of _ lf'] exI [of _ D']) auto
qed

end
