(* ===== verification/Utc_Time.thy ===== *)
theory Utc_Time
  imports Cajeta_Prelude
begin

text \<open>
  The timestamps of signed documents (\<open>parseUtcTimestamp\<close> in \<open>buildtool/OrgKeyDocument.cpp\<close>):
  RFC 3339 in UTC with seconds, counted from 1970-01-01. All values fit the \<open>long long\<close> of the
  source, as a year has four digits.
\<close>

definition kDaysBeforeMonth :: "int list" where
  "kDaysBeforeMonth = [0, 31, 59, 90, 120, 151, 181, 212, 243, 273, 304, 334]"

definition isLeap :: "nat \<Rightarrow> bool" where
  "isLeap y \<longleftrightarrow> (y mod 4 = 0 \<and> y mod 100 \<noteq> 0) \<or> y mod 400 = 0"

definition daysFromEpoch :: "nat \<Rightarrow> nat \<Rightarrow> nat \<Rightarrow> int" where
  "daysFromEpoch y m d =
     (let days = fold (\<lambda>year days. days + (if isLeap year then 366 else 365)) [1970..<y] 0 + kDaysBeforeMonth ! (m - 1)
      in (if m > 2 \<and> isLeap y then days + 1 else days) + (int d - 1))"

datatype time_error = NotATimestamp string | TimeOutOfRange string

definition num_at :: "string \<Rightarrow> nat \<Rightarrow> nat \<Rightarrow> nat" where
  "num_at text at len = nat (digits_val (take len (drop at text)))"

definition parseUtcTimestamp :: "string \<Rightarrow> time_error + int" where
  "parseUtcTimestamp text =
     (if length text \<noteq> 20 \<or> text ! 4 \<noteq> CHR ''-'' \<or> text ! 7 \<noteq> CHR ''-'' \<or> text ! 10 \<noteq> CHR ''T'' \<or>
         text ! 13 \<noteq> CHR '':'' \<or> text ! 16 \<noteq> CHR '':'' \<or> text ! 19 \<noteq> CHR ''Z''
      then Inl (NotATimestamp text)
      else if \<exists>i \<in> set [0, 1, 2, 3, 5, 6, 8, 9, 11, 12, 14, 15, 17, 18]. \<not> isdigit (text ! i)
      then Inl (NotATimestamp text)
      else
        let year = num_at text 0 4; mon = num_at text 5 2; day = num_at text 8 2;
            hh = num_at text 11 2; mm = num_at text 14 2; ss = num_at text 17 2
        in if year < 1970 \<or> mon < 1 \<or> mon > 12 \<or> day < 1 \<or> day > 31 \<or> hh > 23 \<or> mm > 59 \<or> ss > 60
           then Inl (TimeOutOfRange text)
           else Inr (daysFromEpoch year mon day * 86400 + int hh * 3600 + int mm * 60 + int ss))"

subsection \<open>The calendar\<close>

definition month_length :: "nat \<Rightarrow> nat \<Rightarrow> nat" where
  "month_length y m = [31, if isLeap y then 29 else 28, 31, 30, 31, 30, 31, 31, 30, 31, 30, 31] ! (m - 1)"

definition valid_date :: "nat \<Rightarrow> nat \<Rightarrow> nat \<Rightarrow> bool" where
  "valid_date y m d \<longleftrightarrow> 1970 \<le> y \<and> 1 \<le> m \<and> m \<le> 12 \<and> 1 \<le> d \<and> d \<le> month_length y m"

definition next_date :: "nat \<times> nat \<times> nat \<Rightarrow> nat \<times> nat \<times> nat" where
  "next_date = (\<lambda>(y, m, d).
     if d < month_length y m then (y, m, d + 1) else if m < 12 then (y, m + 1, 1) else (y + 1, 1, 1))"

text \<open>The days of the calendar in their order, from the epoch on.\<close>

definition date_of :: "nat \<Rightarrow> nat \<times> nat \<times> nat" where
  "date_of n = (next_date ^^ n) (1970, 1, 1)"

lemma month_cases:
  assumes "1 \<le> m" "m \<le> (12::nat)"
  obtains "m = 1" | "m = 2" | "m = 3" | "m = 4" | "m = 5" | "m = 6" | "m = 7" | "m = 8" | "m = 9" | "m = 10" | "m = 11" | "m = 12"
proof -
  have "m \<in> {1..12}" using assms by simp
  also have "{1..12} = set [1..<13]" by auto
  finally show thesis using that by (auto simp: upt_rec)
qed

lemma next_date_counts:
  assumes "valid_date y m d"
  shows "case next_date (y, m, d) of (y', m', d') \<Rightarrow>
    valid_date y' m' d' \<and> daysFromEpoch y' m' d' = daysFromEpoch y m d + 1"
proof (cases "d < month_length y m")
  case True
  with assms show ?thesis by (simp add: next_date_def valid_date_def daysFromEpoch_def Let_def)
next
  case False
  with assms have d: "d = month_length y m" and y: "1970 \<le> y" and m: "1 \<le> m" "m \<le> 12"
    by (auto simp: valid_date_def)
  have up: "[1970..<Suc y] = [1970..<y] @ [y]" using y by simp
  have "1969 \<le> y" using y by simp
  then show ?thesis
    by - (rule month_cases [OF m],
      simp_all add: d next_date_def valid_date_def month_length_def daysFromEpoch_def kDaysBeforeMonth_def Let_def up y
        del: upt_Suc)
qed

lemma date_of_counts:
  "case date_of n of (y, m, d) \<Rightarrow> valid_date y m d \<and> daysFromEpoch y m d = int n"
proof (induction n)
  case 0
  then show ?case
    by (simp add: date_of_def valid_date_def month_length_def daysFromEpoch_def kDaysBeforeMonth_def)
next
  case (Suc n)
  obtain y m d where d: "date_of n = (y, m, d)" by (metis prod_cases3)
  with Suc next_date_counts [of y m d] show ?case
    by (auto simp: date_of_def split: prod.splits)
qed

text \<open>The count of days is that of the calendar: the \<open>n\<close>th date after 1970-01-01, following the
  lengths of the months and the leap years, is \<open>n\<close>.\<close>

theorem daysFromEpoch_counts_days:
  "case date_of n of (y, m, d) \<Rightarrow> valid_date y m d \<and> daysFromEpoch y m d = int n"
  by (rule date_of_counts)

text \<open>The source checks a day against 31, whatever the month: a day that does not exist is taken for
  one of the next month.\<close>

theorem missing_day_accepted:
  "parseUtcTimestamp ''2026-02-31T00:00:00Z'' = parseUtcTimestamp ''2026-03-03T00:00:00Z'' \<and>
   (\<exists>t. parseUtcTimestamp ''2026-03-03T00:00:00Z'' = Inr t) \<and> \<not> valid_date 2026 2 31"
proof -
  have "num_at ''2026-02-31T00:00:00Z'' 0 4 = 2026" "num_at ''2026-02-31T00:00:00Z'' 5 2 = 2"
    "num_at ''2026-02-31T00:00:00Z'' 8 2 = 31" "num_at ''2026-02-31T00:00:00Z'' 11 2 = 0"
    "num_at ''2026-02-31T00:00:00Z'' 14 2 = 0" "num_at ''2026-02-31T00:00:00Z'' 17 2 = 0"
    "num_at ''2026-03-03T00:00:00Z'' 0 4 = 2026" "num_at ''2026-03-03T00:00:00Z'' 5 2 = 3"
    "num_at ''2026-03-03T00:00:00Z'' 8 2 = 3" "num_at ''2026-03-03T00:00:00Z'' 11 2 = 0"
    "num_at ''2026-03-03T00:00:00Z'' 14 2 = 0" "num_at ''2026-03-03T00:00:00Z'' 17 2 = 0"
    by code_simp+
  then have "parseUtcTimestamp ''2026-02-31T00:00:00Z'' = Inr (daysFromEpoch 2026 2 31 * 86400)"
    "parseUtcTimestamp ''2026-03-03T00:00:00Z'' = Inr (daysFromEpoch 2026 3 3 * 86400)"
    by (simp_all add: parseUtcTimestamp_def Let_def isdigit_of_char of_char_def)
  moreover have "daysFromEpoch 2026 2 31 = daysFromEpoch 2026 3 3"
    by (simp add: daysFromEpoch_def kDaysBeforeMonth_def isLeap_def Let_def del: upt_rec_numeral)
  moreover have "\<not> valid_date 2026 2 31" by (simp add: valid_date_def month_length_def isLeap_def)
  ultimately show ?thesis by simp
qed

end
