(* ===== verification/Dotted_Paths.thy ===== *)
theory Dotted_Paths
  imports Cajeta_Prelude "HOL-Library.Sublist"
begin

text \<open>
  Dotted names and their segments. Several parts of the source compare names by a textual prefix that
  must end at a dot; here that comparison is the one of lists of segments.
\<close>

definition segments :: "string \<Rightarrow> string list" where
  "segments s = split_on CHR ''.'' s"

lemma split_from_snoc: "split_from sep (a @ cur) s = (a @ hd (split_from sep cur s)) # tl (split_from sep cur s)"
  by (induction sep cur s rule: split_from.induct) auto

lemma segments_Cons:
  "segments (c # s) = (if c = CHR ''.'' then [] # segments s else (c # hd (segments s)) # tl (segments s))"
  using split_from_snoc [of "CHR ''.''" "[c]" "[]" s] by (simp add: segments_def split_on_def)

lemma segments_Nil: "segments [] = [[]]"
  by (simp add: segments_def split_on_def)

lemma segments_not_Nil [simp]: "segments s \<noteq> []"
  by (simp add: segments_def)

lemma prefix_segments: "prefix (segments a) (segments b) \<longleftrightarrow> b = a \<or> (\<exists>r. b = a @ ''.'' @ r)"
proof (induction a arbitrary: b)
  case Nil
  show ?case by (cases b) (auto simp: segments_Nil segments_Cons)
next
  case (Cons x a)
  show ?case
  proof (cases b)
    case Nil
    then show ?thesis by (cases "segments a") (auto simp: segments_Nil segments_Cons)
  next
    case (Cons y b')
    obtain p ps q qs where s: "segments a = p # ps" "segments b' = q # qs"
      by (metis segments_not_Nil list.exhaust)
    then show ?thesis using Cons.IH [of b'] by (auto simp: segments_Cons Cons)
  qed
qed

lemma segments_prefix_iff:
  "length a < length b \<and> take (length a) b = a \<and> b ! length a = CHR ''.'' \<longleftrightarrow> (\<exists>r. b = a @ ''.'' @ r)"
  by (auto simp: nth_append) (metis append_take_drop_id Cons_nth_drop_Suc)

end
