(* ===== verification/Trust_Documents.thy ===== *)
theory Trust_Documents
  imports Json_C Utc_Time
begin

text \<open>
  The signed documents of publisher trust: the envelope (\<open>SignedEnvelope.cpp\<close>), the key
  document of an organization (\<open>OrgKeyDocument.cpp\<close>), the repository's delegation
  (\<open>RepositoryDelegation.cpp\<close>), its statement of revoked keys (\<open>KeyRevocation.cpp\<close>) and the
  metadata of a release (\<open>ReleaseMetadata.cpp\<close>). OpenSSL's ed25519, LLVM's base64 and the JSON
  library are parameters. A \<open>time_t\<close> is an \<^typ>\<open>int\<close>.
\<close>

subsection \<open>Data\<close>

text \<open>\<open>verifyPemBytes\<close> is \<open>verifyDetachedEd25519PemBytes\<close> on data, signature and PEM, with
  \<^term>\<open>None\<close> for a key that is none; \<open>printObject\<close> serializes an object.\<close>

record ('v, 'o) crypto =
  cj :: "('v, 'o) json"
  verifyPemBytes :: "string \<Rightarrow> string \<Rightarrow> string \<Rightarrow> bool option"
  decodeBase64 :: "string \<Rightarrow> string option"
  printObject :: "'o \<Rightarrow> string"

record RootKey =
  rk_id :: string
  rk_pem :: string
  rk_shipped :: bool

record SignedEnvelope =
  payload :: string
  se_rootKeyId :: string

record OrgSigningKey =
  sk_id :: string
  sk_algorithm :: string
  publicKeyPem :: string
  sk_notBefore :: int
  sk_notAfter :: int

record OrgKeyDocument =
  organization :: string
  namespaces :: "string list"
  od_keys :: "OrgSigningKey list"
  od_issuedAt :: int
  od_notAfter :: int
  od_rootKeyId :: string
  contactUri :: string
  contactLabel :: string

record RepositoryDelegation =
  del_repository :: string
  del_keys :: "OrgSigningKey list"
  del_notAfter :: int
  del_issuedAt :: int
  del_rootKeyId :: string

record RevokedKey =
  rvk_id :: string
  rvk_organization :: string
  revokedAt :: int
  rvk_reason :: string

record KeyRevocation =
  rev_repository :: string
  rev_issuedAt :: int
  rev_notAfter :: int
  revoked :: "RevokedKey list"
  signedByKeyId :: string

record ReleaseMetadata =
  md_releaseName :: string
  md_releaseVersion :: string
  md_sha256 :: string
  md_organization :: string
  signedByRoot :: bool
  md_rootKeyId :: string
  md_retracted :: bool
  md_retractedReason :: string

datatype document = KeyDocument | Delegation | Revocation | ReleaseDoc

datatype refusal =
    NotJson
  | NotAnObject
  | NoFormat
  | UnknownFormat int
  | MissingParts
  | PayloadNotBase64
  | SignatureNotBase64
  | NoRootMatches nat
  | PayloadNotJson
  | PayloadNotAnObject
  | WrongType
  | NoRepository
  | ClaimsRepository string
  | NoIssuedAt
  | BadTime time_error
  | NoNotAfter
  | Expired
  | RolledBack
  | NoKeys
  | KeyNotAnObject
  | KeyMissingField
  | UnsupportedAlgorithm string
  | NeverUsable string
  | NoOrganization
  | NoNamespaces
  | BadNamespace
  | ContactWithoutUri
  | NoRevokedList
  | EntryNotAnObject
  | EntryWithoutId
  | NoDelegatedKey
  | NoSha256

datatype doc_error = InDocument document refusal

definition usableAt :: "OrgSigningKey \<Rightarrow> int \<Rightarrow> bool" where
  "usableAt k now \<longleftrightarrow> now \<ge> sk_notBefore k \<and> now < sk_notAfter k"

definition usableKeys :: "OrgSigningKey list \<Rightarrow> int \<Rightarrow> OrgSigningKey list" where
  "usableKeys ks now = filter (\<lambda>k. usableAt k now) ks"

subsection \<open>The envelope\<close>

definition looksLikeSignedEnvelope :: "('v, 'o) json \<Rightarrow> string \<Rightarrow> bool" where
  "looksLikeSignedEnvelope J envelopeJson =
     (case parseJson J envelopeJson of
        Inl _ \<Rightarrow> False
      | Inr v \<Rightarrow>
     (case asObject J v of
        None \<Rightarrow> False
      | Some ob \<Rightarrow> get J ob ''payload'' \<noteq> None \<and> get J ob ''signature'' \<noteq> None))"

text \<open>The loop over the roots: a root that cannot be used is skipped.\<close>

definition verifying_root ::
    "('v, 'o) crypto \<Rightarrow> RootKey list \<Rightarrow> string \<Rightarrow> string \<Rightarrow> RootKey option" where
  "verifying_root C roots data sig = find (\<lambda>r. verifyPemBytes C data sig (rk_pem r) = Some True) roots"

definition openSignedEnvelope ::
    "('v, 'o) crypto \<Rightarrow> string \<Rightarrow> RootKey list \<Rightarrow> document \<Rightarrow> doc_error + SignedEnvelope" where
  "openSignedEnvelope C envelopeJson roots what =
     (case parseJson (cj C) envelopeJson of
        Inl _ \<Rightarrow> Inl (InDocument what NotJson)
      | Inr v \<Rightarrow>
     (case asObject (cj C) v of
        None \<Rightarrow> Inl (InDocument what NotAnObject)
      | Some env \<Rightarrow>
     (case getInteger (cj C) env ''format'' of
        None \<Rightarrow> Inl (InDocument what NoFormat)
      | Some format \<Rightarrow>
     if format \<noteq> 1 then Inl (InDocument what (UnknownFormat format))
     else
     (case (getString (cj C) env ''root-key-id'', getString (cj C) env ''payload'', getString (cj C) env ''signature'') of
        (Some _, Some payloadB64, Some signatureB64) \<Rightarrow>
     (case decodeBase64 C payloadB64 of
        None \<Rightarrow> Inl (InDocument what PayloadNotBase64)
      | Some data \<Rightarrow>
     (case decodeBase64 C signatureB64 of
        None \<Rightarrow> Inl (InDocument what SignatureNotBase64)
      | Some sig \<Rightarrow>
     (case verifying_root C roots data sig of
        None \<Rightarrow> Inl (InDocument what (NoRootMatches (length roots)))
      | Some root \<Rightarrow> Inr \<lparr>payload = data, se_rootKeyId = rk_id root\<rparr>)))
      | _ \<Rightarrow> Inl (InDocument what MissingParts)))))"

text \<open>The verified payload as an object.\<close>

definition open_body ::
    "('v, 'o) crypto \<Rightarrow> string \<Rightarrow> RootKey list \<Rightarrow> document \<Rightarrow> doc_error + SignedEnvelope \<times> 'o" where
  "open_body C envelopeJson roots what =
     bindE (openSignedEnvelope C envelopeJson roots what) (\<lambda>envelope.
     case parseJson (cj C) (payload envelope) of
       Inl _ \<Rightarrow> Inl (InDocument what PayloadNotJson)
     | Inr body \<Rightarrow>
     (case asObject (cj C) body of
        None \<Rightarrow> Inl (InDocument what PayloadNotAnObject)
      | Some ob \<Rightarrow> Inr (envelope, ob)))"

subsection \<open>Parts of documents\<close>

definition parse_time :: "document \<Rightarrow> string \<Rightarrow> doc_error + int" where
  "parse_time what text = (case parseUtcTimestamp text of Inl e \<Rightarrow> Inl (InDocument what (BadTime e)) | Inr t \<Rightarrow> Inr t)"

definition time_field ::
    "('v, 'o) json \<Rightarrow> document \<Rightarrow> 'o \<Rightarrow> string \<Rightarrow> refusal \<Rightarrow> doc_error + int" where
  "time_field J what ob k missing =
     (case getString J ob k of None \<Rightarrow> Inl (InDocument what missing) | Some s \<Rightarrow> parse_time what s)"

definition parse_signing_key :: "('v, 'o) json \<Rightarrow> document \<Rightarrow> 'v \<Rightarrow> doc_error + OrgSigningKey" where
  "parse_signing_key J what entry =
     (case asObject J entry of
        None \<Rightarrow> Inl (InDocument what KeyNotAnObject)
      | Some k \<Rightarrow>
     (case (getString J k ''id'', getString J k ''algorithm'', getString J k ''public-key'',
            getString J k ''not-before'', getString J k ''not-after'') of
        (Some id1, Some alg, Some pem, Some nb, Some na) \<Rightarrow>
          if alg \<noteq> ''ed25519'' then Inl (InDocument what (UnsupportedAlgorithm alg))
          else bindE (parse_time what nb) (\<lambda>from1.
               bindE (parse_time what na) (\<lambda>until.
               if until \<le> from1 then Inl (InDocument what (NeverUsable id1))
               else Inr \<lparr>sk_id = id1, sk_algorithm = alg, publicKeyPem = pem, sk_notBefore = from1, sk_notAfter = until\<rparr>))
      | _ \<Rightarrow> Inl (InDocument what KeyMissingField)))"

fun parseSigningKeys :: "('v, 'o) json \<Rightarrow> document \<Rightarrow> 'v list \<Rightarrow> doc_error + OrgSigningKey list" where
  "parseSigningKeys J what [] = Inr []"
| "parseSigningKeys J what (v # vs) =
     bindE (parse_signing_key J what v) (\<lambda>k. bindE (parseSigningKeys J what vs) (\<lambda>ks. Inr (k # ks)))"

definition keys_field :: "('v, 'o) json \<Rightarrow> document \<Rightarrow> 'o \<Rightarrow> doc_error + OrgSigningKey list" where
  "keys_field J what ob =
     (case getArray J ob ''keys'' of
        None \<Rightarrow> Inl (InDocument what NoKeys)
      | Some vs \<Rightarrow> if vs = [] then Inl (InDocument what NoKeys) else parseSigningKeys J what vs)"

text \<open>The check of the window, and of the newest document seen (\<open>0\<close> is none).\<close>

definition check_fresh :: "document \<Rightarrow> int \<Rightarrow> int \<Rightarrow> int \<Rightarrow> int \<Rightarrow> doc_error + unit" where
  "check_fresh what now notAfter issuedAt seenIssuedAt =
     (if now \<ge> notAfter then Inl (InDocument what Expired)
      else if seenIssuedAt \<noteq> 0 \<and> issuedAt < seenIssuedAt then Inl (InDocument what RolledBack)
      else Inr ())"

subsection \<open>The key document of an organization\<close>

fun parse_namespaces :: "('v, 'o) json \<Rightarrow> 'v list \<Rightarrow> doc_error + string list" where
  "parse_namespaces J [] = Inr []"
| "parse_namespaces J (v # vs) =
     (case asString J v of
        None \<Rightarrow> Inl (InDocument KeyDocument BadNamespace)
      | Some s \<Rightarrow> if s = [] then Inl (InDocument KeyDocument BadNamespace)
                  else bindE (parse_namespaces J vs) (\<lambda>ns. Inr (s # ns)))"

definition parse_contact :: "('v, 'o) json \<Rightarrow> 'o \<Rightarrow> doc_error + string \<times> string" where
  "parse_contact J ob =
     (case getObject J ob ''security-contact'' of
        None \<Rightarrow> Inr ([], [])
      | Some contact \<Rightarrow>
          let uri = (case getString J contact ''uri'' of None \<Rightarrow> [] | Some u \<Rightarrow> u)
          in if uri = [] then Inl (InDocument KeyDocument ContactWithoutUri)
             else Inr (uri, case getString J contact ''label'' of None \<Rightarrow> [] | Some l \<Rightarrow> l))"

text \<open>The organization and what it owns.\<close>

definition read_owner :: "('v, 'o) json \<Rightarrow> 'o \<Rightarrow> doc_error + string \<times> string list" where
  "read_owner J ob =
     (case getString J ob ''organization'' of
        None \<Rightarrow> Inl (InDocument KeyDocument NoOrganization)
      | Some org \<Rightarrow>
      if org = [] then Inl (InDocument KeyDocument NoOrganization)
      else case getArray J ob ''namespaces'' of
        None \<Rightarrow> Inl (InDocument KeyDocument NoNamespaces)
      | Some nvs \<Rightarrow>
      if nvs = [] then Inl (InDocument KeyDocument NoNamespaces)
      else bindE (parse_namespaces J nvs) (\<lambda>ns. Inr (org, ns)))"

definition loadOrgKeyDocument ::
    "('v, 'o) crypto \<Rightarrow> string \<Rightarrow> RootKey list \<Rightarrow> int \<Rightarrow> int \<Rightarrow> doc_error + OrgKeyDocument" where
  "loadOrgKeyDocument C envelopeJson roots now seenIssuedAt =
     (let J = cj C in
      bindE (open_body C envelopeJson roots KeyDocument) (\<lambda>(envelope, ob).
      bindE (read_owner J ob) (\<lambda>(org, ns).
      bindE (time_field J KeyDocument ob ''issued-at'' NoIssuedAt) (\<lambda>issued.
      bindE (parse_contact J ob) (\<lambda>(uri, label).
      bindE (time_field J KeyDocument ob ''not-after'' NoNotAfter) (\<lambda>notAfter.
      bindE (keys_field J KeyDocument ob) (\<lambda>ks.
      bindE (check_fresh KeyDocument now notAfter issued seenIssuedAt) (\<lambda>_.
        Inr \<lparr>organization = org, namespaces = ns, od_keys = ks, od_issuedAt = issued, od_notAfter = notAfter,
             od_rootKeyId = se_rootKeyId envelope, contactUri = uri, contactLabel = label\<rparr>))))))))"

subsection \<open>The delegation of a repository\<close>

definition check_type :: "('v, 'o) json \<Rightarrow> document \<Rightarrow> 'o \<Rightarrow> string \<Rightarrow> doc_error + unit" where
  "check_type J what ob ty =
     (if getString J ob ''type'' = Some ty then Inr () else Inl (InDocument what WrongType))"

definition check_origin :: "('v, 'o) json \<Rightarrow> document \<Rightarrow> 'o \<Rightarrow> string \<Rightarrow> doc_error + string" where
  "check_origin J what ob origin1 =
     (case getString J ob ''repository'' of
        None \<Rightarrow> Inl (InDocument what NoRepository)
      | Some repo \<Rightarrow>
          if repo = [] then Inl (InDocument what NoRepository)
          else if repo \<noteq> origin1 then Inl (InDocument what (ClaimsRepository repo))
          else Inr repo)"

definition loadRepositoryDelegation ::
    "('v, 'o) crypto \<Rightarrow> string \<Rightarrow> RootKey list \<Rightarrow> string \<Rightarrow> int \<Rightarrow> int \<Rightarrow> doc_error + RepositoryDelegation" where
  "loadRepositoryDelegation C envelopeJson roots origin1 now seenIssuedAt =
     (let J = cj C in
      bindE (open_body C envelopeJson roots Delegation) (\<lambda>(envelope, ob).
      bindE (check_type J Delegation ob ''repository-delegation'') (\<lambda>_.
      bindE (check_origin J Delegation ob origin1) (\<lambda>repo.
      bindE (time_field J Delegation ob ''issued-at'' NoIssuedAt) (\<lambda>issued.
      bindE (time_field J Delegation ob ''not-after'' NoNotAfter) (\<lambda>notAfter.
      bindE (keys_field J Delegation ob) (\<lambda>ks.
      bindE (check_fresh Delegation now notAfter issued seenIssuedAt) (\<lambda>_.
        Inr \<lparr>del_repository = repo, del_keys = ks, del_notAfter = notAfter, del_issuedAt = issued,
             del_rootKeyId = se_rootKeyId envelope\<rparr>))))))))"

text \<open>The keys that a delegation allows now, as verifiers.\<close>

definition delegated_verifiers :: "RepositoryDelegation \<Rightarrow> int \<Rightarrow> RootKey list" where
  "delegated_verifiers d now =
     map (\<lambda>k. \<lparr>rk_id = sk_id k, rk_pem = publicKeyPem k, rk_shipped = False\<rparr>) (usableKeys (del_keys d) now)"

subsection \<open>Revoked keys\<close>

definition find_revoked :: "KeyRevocation \<Rightarrow> string \<Rightarrow> string \<Rightarrow> RevokedKey option" where
  "find_revoked stmt keyId org =
     find (\<lambda>r. rvk_id r = keyId \<and> (rvk_organization r = [] \<or> rvk_organization r = org)) (revoked stmt)"

definition parse_revoked :: "('v, 'o) json \<Rightarrow> 'v \<Rightarrow> doc_error + RevokedKey" where
  "parse_revoked J v =
     (case asObject J v of
        None \<Rightarrow> Inl (InDocument Revocation EntryNotAnObject)
      | Some e \<Rightarrow>
          let id1 = (case getString J e ''id'' of None \<Rightarrow> [] | Some s \<Rightarrow> s);
              org = (case getString J e ''organization'' of None \<Rightarrow> [] | Some s \<Rightarrow> s);
              reason = (case getString J e ''reason'' of None \<Rightarrow> [] | Some s \<Rightarrow> s)
          in if id1 = [] then Inl (InDocument Revocation EntryWithoutId)
             else case getString J e ''revoked-at'' of
               None \<Rightarrow> Inr \<lparr>rvk_id = id1, rvk_organization = org, revokedAt = 0, rvk_reason = reason\<rparr>
             | Some s \<Rightarrow> bindE (parse_time Revocation s) (\<lambda>t.
                 Inr \<lparr>rvk_id = id1, rvk_organization = org, revokedAt = t, rvk_reason = reason\<rparr>))"

fun parse_revoked_list :: "('v, 'o) json \<Rightarrow> 'v list \<Rightarrow> doc_error + RevokedKey list" where
  "parse_revoked_list J [] = Inr []"
| "parse_revoked_list J (v # vs) =
     bindE (parse_revoked J v) (\<lambda>r. bindE (parse_revoked_list J vs) (\<lambda>rs. Inr (r # rs)))"

definition loadKeyRevocation ::
    "('v, 'o) crypto \<Rightarrow> string \<Rightarrow> RepositoryDelegation \<Rightarrow> string \<Rightarrow> int \<Rightarrow> int \<Rightarrow> doc_error + KeyRevocation" where
  "loadKeyRevocation C envelopeJson delegation origin1 now seenIssuedAt =
     (let J = cj C; verifiers = delegated_verifiers delegation now in
      if verifiers = [] then Inl (InDocument Revocation NoDelegatedKey)
      else
      bindE (open_body C envelopeJson verifiers Revocation) (\<lambda>(envelope, ob).
      bindE (check_type J Revocation ob ''key-revocation'') (\<lambda>_.
      bindE (check_origin J Revocation ob origin1) (\<lambda>repo.
      bindE (time_field J Revocation ob ''issued-at'' NoIssuedAt) (\<lambda>issued.
      bindE (time_field J Revocation ob ''not-after'' NoNotAfter) (\<lambda>notAfter.
      case getArray J ob ''revoked'' of
        None \<Rightarrow> Inl (InDocument Revocation NoRevokedList)
      | Some rvs \<Rightarrow>
      bindE (parse_revoked_list J rvs) (\<lambda>rs.
      bindE (check_fresh Revocation now notAfter issued seenIssuedAt) (\<lambda>_.
        Inr \<lparr>rev_repository = repo, rev_issuedAt = issued, rev_notAfter = notAfter, revoked = rs,
             signedByKeyId = se_rootKeyId envelope\<rparr>))))))))"

subsection \<open>The metadata of a release\<close>

definition normaliseDigest :: "string \<Rightarrow> string" where
  "normaliseDigest sha = (if sha \<noteq> [] \<and> take 7 sha \<noteq> ''sha256:'' then ''sha256:'' @ sha else sha)"

definition text_field :: "('v, 'o) json \<Rightarrow> 'o \<Rightarrow> string \<Rightarrow> string" where
  "text_field J ob k = (case getString J ob k of None \<Rightarrow> [] | Some s \<Rightarrow> s)"

definition readFields :: "('v, 'o) json \<Rightarrow> 'o \<Rightarrow> ReleaseMetadata" where
  "readFields J ob =
     \<lparr>md_releaseName = text_field J ob ''name'', md_releaseVersion = text_field J ob ''version'',
      md_sha256 = normaliseDigest (text_field J ob ''sha256''), md_organization = text_field J ob ''organization'',
      signedByRoot = False, md_rootKeyId = [],
      md_retracted = (case getBoolean J ob ''retracted'' of None \<Rightarrow> False | Some b \<Rightarrow> b),
      md_retractedReason = text_field J ob ''retracted-reason''\<rparr>"

definition envelope_of :: "('v, 'o) json \<Rightarrow> 'o \<Rightarrow> 'o option" where
  "envelope_of J ob =
     (if get J ob ''payload'' \<noteq> None \<and> get J ob ''signature'' \<noteq> None then Some ob else getObject J ob ''signed'')"

definition loadReleaseMetadata ::
    "('v, 'o) crypto \<Rightarrow> string \<Rightarrow> RootKey list \<Rightarrow> doc_error + ReleaseMetadata" where
  "loadReleaseMetadata C json1 verifiers =
     (let J = cj C in
      case parseJson J json1 of
        Inl _ \<Rightarrow> Inl (InDocument ReleaseDoc NotJson)
      | Inr v \<Rightarrow>
     (case asObject J v of
        None \<Rightarrow> Inl (InDocument ReleaseDoc NotAnObject)
      | Some ob \<Rightarrow>
          bindE (case envelope_of J ob of
                   None \<Rightarrow> Inr (readFields J ob)
                 | Some env \<Rightarrow>
                     bindE (open_body C (printObject C env) verifiers ReleaseDoc) (\<lambda>(envelope, inner).
                       Inr ((readFields J inner)\<lparr>signedByRoot := True, md_rootKeyId := se_rootKeyId envelope\<rparr>)))
            (\<lambda>md. if md_sha256 md = [] then Inl (InDocument ReleaseDoc NoSha256) else Inr md)))"


subsection \<open>What a loaded document is\<close>

text \<open>The bytes \<open>data\<close> carry a signature that one of the keys verifies, the one with this id.\<close>

definition authentic :: "('v, 'o) crypto \<Rightarrow> RootKey list \<Rightarrow> string \<Rightarrow> string \<Rightarrow> bool" where
  "authentic C ks data keyId \<longleftrightarrow> (\<exists>r \<in> set ks. rk_id r = keyId \<and> (\<exists>sig. verifyPemBytes C data sig (rk_pem r) = Some True))"

lemma openSignedEnvelope_authentic:
  "openSignedEnvelope C text ks what = Inr e \<Longrightarrow> authentic C ks (payload e) (se_rootKeyId e)"
  by (auto simp: openSignedEnvelope_def verifying_root_def authentic_def find_Some_iff
      split: sum.splits option.splits if_splits prod.splits) (metis nth_mem)

text \<open>The object of an authentic payload.\<close>

definition signed_object :: "('v, 'o) crypto \<Rightarrow> RootKey list \<Rightarrow> string \<Rightarrow> 'o \<Rightarrow> bool" where
  "signed_object C ks keyId ob \<longleftrightarrow>
     (\<exists>data v. authentic C ks data keyId \<and> parseJson (cj C) data = Inr v \<and> asObject (cj C) v = Some ob)"

lemma open_body_signed:
  assumes "open_body C text ks what = Inr (e, ob)"
  shows "signed_object C ks (se_rootKeyId e) ob"
proof -
  from assms obtain v where "openSignedEnvelope C text ks what = Inr e" "parseJson (cj C) (payload e) = Inr v"
    "asObject (cj C) v = Some ob"
    by (auto simp: open_body_def elim!: bindE_Inr_cases split: sum.splits option.splits)
  with openSignedEnvelope_authentic show ?thesis unfolding signed_object_def by blast
qed

lemma parse_signing_key_ok:
  "parse_signing_key J what v = Inr k \<Longrightarrow> sk_algorithm k = ''ed25519'' \<and> sk_notBefore k < sk_notAfter k"
  by (auto simp: parse_signing_key_def split: option.splits if_splits elim!: bindE_Inr_cases)

lemma parseSigningKeys_ok:
  "parseSigningKeys J what vs = Inr ks \<Longrightarrow> length ks = length vs \<and>
     (\<forall>k \<in> set ks. sk_algorithm k = ''ed25519'' \<and> sk_notBefore k < sk_notAfter k)"
proof (induction vs arbitrary: ks)
  case (Cons v vs)
  then obtain k ks' where "parse_signing_key J what v = Inr k" "parseSigningKeys J what vs = Inr ks'" "ks = k # ks'"
    by (auto simp: bindE_eq_Inr)
  with Cons.IH parse_signing_key_ok show ?case by simp
qed simp

lemma keys_field_ok:
  "keys_field J what ob = Inr ks \<Longrightarrow> ks \<noteq> [] \<and> (\<forall>k \<in> set ks. sk_algorithm k = ''ed25519'' \<and> sk_notBefore k < sk_notAfter k)"
  by (auto simp: keys_field_def split: option.splits if_splits dest: parseSigningKeys_ok)

lemma check_fresh_ok: "check_fresh what now na issued seen = Inr u \<longleftrightarrow> now < na \<and> (seen = 0 \<or> seen \<le> issued)"
  by (auto simp: check_fresh_def)

lemma parse_namespaces_ok: "parse_namespaces J vs = Inr ns \<Longrightarrow> length ns = length vs \<and> [] \<notin> set ns"
proof (induction vs arbitrary: ns)
  case (Cons v vs)
  then obtain s ns' where "s \<noteq> []" "parse_namespaces J vs = Inr ns'" "ns = s # ns'"
    by (auto simp: bindE_eq_Inr split: option.splits if_splits)
  with Cons.IH show ?case by simp
qed simp

lemma check_type_ok: "check_type J what ob ty = Inr u \<longleftrightarrow> getString J ob ''type'' = Some ty"
  by (simp add: check_type_def)

lemma check_origin_ok: "check_origin J what ob o1 = Inr r \<Longrightarrow> getString J ob ''repository'' = Some o1 \<and> r = o1 \<and> o1 \<noteq> []"
  by (auto simp: check_origin_def split: option.splits if_splits)

definition key_document_ok :: "('v, 'o) crypto \<Rightarrow> RootKey list \<Rightarrow> int \<Rightarrow> OrgKeyDocument \<Rightarrow> bool" where
  "key_document_ok C roots now doc \<longleftrightarrow>
     (\<exists>ob. signed_object C roots (od_rootKeyId doc) ob \<and> getString (cj C) ob ''organization'' = Some (organization doc)) \<and>
     organization doc \<noteq> [] \<and> namespaces doc \<noteq> [] \<and> [] \<notin> set (namespaces doc) \<and> od_keys doc \<noteq> [] \<and>
     (\<forall>k \<in> set (od_keys doc). sk_algorithm k = ''ed25519'' \<and> sk_notBefore k < sk_notAfter k) \<and> now < od_notAfter doc"

lemma read_owner_ok:
  assumes "read_owner J ob = Inr (org, ns)"
  shows "getString J ob ''organization'' = Some org \<and> org \<noteq> [] \<and> ns \<noteq> [] \<and> [] \<notin> set ns"
proof -
  from assms obtain nvs where "getString J ob ''organization'' = Some org" "org \<noteq> []" "nvs \<noteq> []" "parse_namespaces J nvs = Inr ns"
    by (auto simp: read_owner_def bindE_eq_Inr split: option.splits if_splits)
  with parse_namespaces_ok [OF this(4)] show ?thesis by auto
qed

lemma loadOrgKeyDocument_ok:
  assumes "loadOrgKeyDocument C text roots now seen = Inr doc"
  shows "key_document_ok C roots now doc \<and> (seen = 0 \<or> seen \<le> od_issuedAt doc)"
proof -
  from assms obtain env ob org ns issued cu cl na ks where
    b: "open_body C text roots KeyDocument = Inr (env, ob)"
    and ow: "read_owner (cj C) ob = Inr (org, ns)"
    and k: "keys_field (cj C) KeyDocument ob = Inr ks"
    and f: "check_fresh KeyDocument now na issued seen = Inr ()"
    and doc: "doc = \<lparr>organization = org, namespaces = ns, od_keys = ks, od_issuedAt = issued, od_notAfter = na,
             od_rootKeyId = se_rootKeyId env, contactUri = cu, contactLabel = cl\<rparr>"
    by (auto simp: loadOrgKeyDocument_def Let_def elim!: bindE_Inr_cases)
  from open_body_signed [OF b] read_owner_ok [OF ow] keys_field_ok [OF k] f show ?thesis
    unfolding key_document_ok_def check_fresh_ok doc by auto
qed

definition delegation_ok :: "('v, 'o) crypto \<Rightarrow> RootKey list \<Rightarrow> string \<Rightarrow> int \<Rightarrow> RepositoryDelegation \<Rightarrow> bool" where
  "delegation_ok C roots origin1 now d \<longleftrightarrow>
     (\<exists>ob. signed_object C roots (del_rootKeyId d) ob \<and> getString (cj C) ob ''type'' = Some ''repository-delegation'' \<and>
        getString (cj C) ob ''repository'' = Some origin1) \<and>
     del_repository d = origin1 \<and> del_keys d \<noteq> [] \<and> now < del_notAfter d"

lemma loadRepositoryDelegation_ok:
  assumes "loadRepositoryDelegation C text roots origin1 now seen = Inr d"
  shows "delegation_ok C roots origin1 now d \<and> (seen = 0 \<or> seen \<le> del_issuedAt d)"
proof -
  from assms obtain env ob repo issued na ks where
    b: "open_body C text roots Delegation = Inr (env, ob)"
    and t: "check_type (cj C) Delegation ob ''repository-delegation'' = Inr ()"
    and o1: "check_origin (cj C) Delegation ob origin1 = Inr repo"
    and k: "keys_field (cj C) Delegation ob = Inr ks"
    and f: "check_fresh Delegation now na issued seen = Inr ()"
    and d: "d = \<lparr>del_repository = repo, del_keys = ks, del_notAfter = na, del_issuedAt = issued,
             del_rootKeyId = se_rootKeyId env\<rparr>"
    by (auto simp: loadRepositoryDelegation_def Let_def elim!: bindE_Inr_cases)
  from open_body_signed [OF b] t check_origin_ok [OF o1] keys_field_ok [OF k] f show ?thesis
    unfolding delegation_ok_def check_fresh_ok check_type_ok d by auto
qed

definition revocation_ok :: "('v, 'o) crypto \<Rightarrow> RepositoryDelegation \<Rightarrow> string \<Rightarrow> int \<Rightarrow> KeyRevocation \<Rightarrow> bool" where
  "revocation_ok C d origin1 now stmt \<longleftrightarrow>
     (\<exists>ob. signed_object C (delegated_verifiers d now) (signedByKeyId stmt) ob \<and>
        getString (cj C) ob ''type'' = Some ''key-revocation'' \<and> getString (cj C) ob ''repository'' = Some origin1) \<and>
     rev_repository stmt = origin1 \<and> now < rev_notAfter stmt"

lemma loadKeyRevocation_ok:
  assumes "loadKeyRevocation C text d origin1 now seen = Inr stmt"
  shows "revocation_ok C d origin1 now stmt \<and> (seen = 0 \<or> seen \<le> rev_issuedAt stmt)"
proof -
  from assms obtain env ob repo issued na rs where
    b: "open_body C text (delegated_verifiers d now) Revocation = Inr (env, ob)"
    and t: "check_type (cj C) Revocation ob ''key-revocation'' = Inr ()"
    and o1: "check_origin (cj C) Revocation ob origin1 = Inr repo"
    and f: "check_fresh Revocation now na issued seen = Inr ()"
    and d: "stmt = \<lparr>rev_repository = repo, rev_issuedAt = issued, rev_notAfter = na, revoked = rs,
             signedByKeyId = se_rootKeyId env\<rparr>"
    by (auto simp: loadKeyRevocation_def Let_def elim!: bindE_Inr_cases split: if_splits option.splits)
  from open_body_signed [OF b] t check_origin_ok [OF o1] f show ?thesis
    unfolding revocation_ok_def check_fresh_ok check_type_ok d by auto
qed

text \<open>Metadata that is taken for signed has its digest and owner from an authentic payload.\<close>

definition metadata_signed :: "('v, 'o) crypto \<Rightarrow> RootKey list \<Rightarrow> ReleaseMetadata \<Rightarrow> bool" where
  "metadata_signed C ks md \<longleftrightarrow>
     (\<exists>ob. signed_object C ks (md_rootKeyId md) ob \<and> md_sha256 md = normaliseDigest (text_field (cj C) ob ''sha256'') \<and>
        md_organization md = text_field (cj C) ob ''organization'')"

lemma loadReleaseMetadata_ok:
  assumes "loadReleaseMetadata C text ks = Inr md"
  shows "md_sha256 md \<noteq> [] \<and> (signedByRoot md \<longrightarrow> metadata_signed C ks md)"
proof -
  let ?load = "\<lambda>ob. case envelope_of (cj C) ob of
      None \<Rightarrow> Inr (readFields (cj C) ob)
    | Some env \<Rightarrow>
        bindE (open_body C (printObject C env) ks ReleaseDoc) (\<lambda>(envelope, inner).
          Inr ((readFields (cj C) inner)\<lparr>signedByRoot := True, md_rootKeyId := se_rootKeyId envelope\<rparr>))"
  obtain v ob where "bindE (?load ob) (\<lambda>md. if md_sha256 md = [] then Inl (InDocument ReleaseDoc NoSha256) else Inr md) = Inr md"
    using assms by (simp add: loadReleaseMetadata_def Let_def split: sum.splits option.splits)
  then have m: "?load ob = Inr md" and n: "md_sha256 md \<noteq> []"
    by (auto simp only: bindE_eq_Inr split: if_splits)
  show ?thesis
  proof (cases "envelope_of (cj C) ob")
    case None
    with m n show ?thesis by (auto simp: readFields_def)
  next
    case (Some env)
    with m obtain e inner where b: "open_body C (printObject C env) ks ReleaseDoc = Inr (e, inner)"
      and md: "md = (readFields (cj C) inner)\<lparr>signedByRoot := True, md_rootKeyId := se_rootKeyId e\<rparr>"
      by (auto elim!: bindE_Inr_cases)
    from open_body_signed [OF b] n md show ?thesis by (auto simp: metadata_signed_def readFields_def)
  qed
qed

text \<open>No object is accepted both as a delegation and as a statement of revoked keys: the type that is
  signed tells them apart.\<close>

lemma types_differ:
  "check_type J w ob ''repository-delegation'' = Inr u \<Longrightarrow> check_type J w' ob ''key-revocation'' \<noteq> Inr u'"
  by (simp add: check_type_ok)

end
