(* ===== verification/Key_Trust.thy ===== *)
theory Key_Trust
  imports Trust_Documents Mvs_Resolver
begin

text \<open>
  Trust anchors and verified keys: the roots that a repository may be verified against, with pins
  (\<open>RootTrust.cpp\<close>), and the cache that turns a repository and an organization into a verified
  key document or delegation (\<open>OrgKeyCache.cpp\<close>). The shared state is the cache beside the world of the
  repositories. A mutex guards the accesses of the cache but not the request between them: a call is
  one step where calls do not overlap, and \<open>fetch_document\<close> is the part that follows the first
  access, for calls that do.
\<close>

subsection \<open>Roots and pins\<close>

text \<open>One of the \<open>searchDirs\<close>: its path, the files of \<open>pins\<close> and the files of \<open>roots\<close> in the
  order in which the directory lists them.\<close>

record tier =
  tier_dir :: string
  tier_pins :: "string \<rightharpoonup> string"
  tier_roots :: "(string \<times> string) list"

datatype root_error =
    PinnedRootMissing string string nat
  | UnusableKeyId string
  | NoTrustDirectory
  | CannotReadKey
  | NotEd25519
  | AlreadyInstalled string
  | ShippedRoot string
  | RootNotInstalled string
  | UnusableRepositoryName string

fun has_dots :: "string \<Rightarrow> bool" where
  "has_dots (a # b # s) = ((a = CHR ''.'' \<and> b = CHR ''.'') \<or> has_dots (b # s))"
| "has_dots s = False"

definition isSafeName :: "string \<Rightarrow> bool" where
  "isSafeName name \<longleftrightarrow> name \<noteq> [] \<and> name \<noteq> ''.'' \<and> name \<noteq> ''..'' \<and>
     (\<forall>c \<in> set name. isalnum c \<or> c = CHR ''-'' \<or> c = CHR ''_'' \<or> c = CHR ''.'') \<and> \<not> has_dots name"

definition strip_end :: "string \<Rightarrow> string" where
  "strip_end s = rev (dropWhile (\<lambda>c. c = CHR 0x0A \<or> c = CHR 0x0D \<or> c = CHR '' '') (rev s))"

fun pin_in :: "tier list \<Rightarrow> string \<Rightarrow> string option" where
  "pin_in [] name = None"
| "pin_in (t # ts) name =
     (if tier_dir t = [] then pin_in ts name
      else case tier_pins t name of
        None \<Rightarrow> pin_in ts name
      | Some content \<Rightarrow> if strip_end content = [] then pin_in ts name else Some (strip_end content))"

definition pinFor :: "tier list \<Rightarrow> string \<Rightarrow> string option" where
  "pinFor ts name = (if isSafeName name then pin_in ts name else None)"

definition is_pem :: "string \<Rightarrow> bool" where
  "is_pem f \<longleftrightarrow> length f > 4 \<and> drop (length f - 4) f = ''.pem''"

definition add_root :: "string \<times> string \<Rightarrow> RootKey list \<Rightarrow> RootKey list" where
  "add_root = (\<lambda>(file, pem) found.
     if \<not> is_pem file then found
     else let id1 = take (length file - 4) file
          in if \<exists>r \<in> set found. rk_id r = id1 then found
             else if pem = [] then found
             else found @ [\<lparr>rk_id = id1, rk_pem = pem, rk_shipped = False\<rparr>])"

definition all_roots :: "RootKey \<Rightarrow> tier list \<Rightarrow> RootKey list" where
  "all_roots shipped ts =
     fold add_root (concat (map tier_roots (filter (\<lambda>t. tier_dir t \<noteq> []) ts)))
       (if rk_pem shipped \<noteq> [] then [shipped] else [])"

definition rootsFor :: "RootKey \<Rightarrow> tier list \<Rightarrow> string \<Rightarrow> root_error + RootKey list" where
  "rootsFor shipped ts name =
     (let found = all_roots shipped ts
      in case pinFor ts name of
           None \<Rightarrow> Inr found
         | Some pin \<Rightarrow>
             (case find (\<lambda>r. rk_id r = pin) found of
                Some r \<Rightarrow> Inr [r]
              | None \<Rightarrow> Inl (PinnedRootMissing name pin (length found))))"

text \<open>The changes an operator makes; they land in the first directory. The files are taken to be
  writable: the source does not look at the stream that it writes.\<close>

definition first_tier :: "tier list \<Rightarrow> root_error + tier \<times> tier list" where
  "first_tier ts = (case ts of [] \<Rightarrow> Inl NoTrustDirectory
     | t # rest \<Rightarrow> if tier_dir t = [] then Inl NoTrustDirectory else Inr (t, rest))"

definition addRootKey ::
    "('v, 'o) crypto \<Rightarrow> string \<Rightarrow> string \<Rightarrow> tier list \<Rightarrow> root_error + tier list" where
  "addRootKey C keyId pem ts =
     (if \<not> isSafeName keyId then Inl (UnusableKeyId keyId)
      else bindE (first_tier ts) (\<lambda>(t, rest).
        if pem = [] then Inl CannotReadKey
        else if verifyPemBytes C ''probe'' [] pem = None then Inl NotEd25519
        else if \<exists>f \<in> set (tier_roots t). fst f = keyId @ ''.pem'' then Inl (AlreadyInstalled keyId)
        else Inr (t\<lparr>tier_roots := tier_roots t @ [(keyId @ ''.pem'', pem)]\<rparr> # rest)))"

fun remove_root :: "string \<Rightarrow> tier list \<Rightarrow> root_error + tier list" where
  "remove_root file [] = Inl (RootNotInstalled file)"
| "remove_root file (t # ts) =
     (if tier_dir t \<noteq> [] \<and> (\<exists>f \<in> set (tier_roots t). fst f = file)
      then Inr (t\<lparr>tier_roots := filter (\<lambda>f. fst f \<noteq> file) (tier_roots t)\<rparr> # ts)
      else bindE (remove_root file ts) (\<lambda>ts'. Inr (t # ts')))"

definition removeRootKey :: "string \<Rightarrow> string \<Rightarrow> tier list \<Rightarrow> root_error + tier list" where
  "removeRootKey shippedId keyId ts =
     (if \<not> isSafeName keyId then Inl (UnusableKeyId keyId)
      else if keyId = shippedId then Inl (ShippedRoot keyId)
      else remove_root (keyId @ ''.pem'') ts)"

definition pinRepository :: "string \<Rightarrow> string \<Rightarrow> tier list \<Rightarrow> root_error + tier list" where
  "pinRepository name keyId ts =
     (if \<not> isSafeName name then Inl (UnusableRepositoryName name)
      else bindE (first_tier ts) (\<lambda>(t, rest).
        if keyId = [] then Inr (t\<lparr>tier_pins := (tier_pins t)(name := None)\<rparr> # rest)
        else if \<not> isSafeName keyId then Inl (UnusableKeyId keyId)
        else Inr (t\<lparr>tier_pins := (tier_pins t)(name \<mapsto> keyId @ [CHR 0x0A])\<rparr> # rest)))"

subsection \<open>Repositories and their environment\<close>

text \<open>The trust surface of a repository, beside what the solver calls. \<open>advertisesRevocation\<close> is
  \<open>capabilities()->revocation\<close>.\<close>

record 'w trust_repository = "'w repository" +
  origin :: string
  publishedChecksum :: "string \<Rightarrow> string \<Rightarrow> ('w, error, string option) prog"
  publishedSignature :: "string \<Rightarrow> string \<Rightarrow> ('w, error, string option) prog"
  organizationKeys :: "string \<Rightarrow> ('w, error, string option) prog"
  repositoryKeys :: "('w, error, string option) prog"
  advertisesRevocation :: "('w, error, bool) prog"
  revocations :: "('w, error, string option) prog"
  isFilesystem :: bool

record LegacyRelease =
  lr_name :: string
  lr_version :: string
  lr_sha256 :: string

record ('w, 'v, 'o) trust_env =
  crypto :: "('v, 'o) crypto"
  shippedKey :: RootKey
  tiers :: "'w \<Rightarrow> tier list"
  trustedKeyFiles :: "'w \<Rightarrow> string list"
  readBytes :: "string \<Rightarrow> 'w \<Rightarrow> string option"
  digestOf :: "string \<Rightarrow> 'w \<Rightarrow> string"
  legacyReleases :: "LegacyRelease list"
  removeFile :: "string \<Rightarrow> 'w \<Rightarrow> 'w"
  clock :: "'w \<Rightarrow> int"

datatype PublisherCheck = Verified | Namespace | NoUsableKey | Signature | Revoked | Unreadable

datatype trust_error =
    OfDocument doc_error
  | OfRepository error
  | OfRoots root_error
  | NoRootTrusted string
  | OtherOrganization string string
  | NoKeyInWindow
  | RevocationWithoutDelegation
  | RevocationNotFetched error
  | NoRevocationStatement
  | NoTrustedKeys
  | NoTrustedKeyMatches nat
  | NoSignedMetadata
  | ChecksumMismatch string string
  | NoArchiveSignature string
  | NoKeyDocument string
  | RefusedVerdict PublisherCheck string

subsection \<open>The cache\<close>

record OrgKeyCache =
  oc_docs :: "string \<rightharpoonup> OrgKeyDocument"
  oc_seen :: "string \<rightharpoonup> int"
  oc_delegations :: "string \<rightharpoonup> RepositoryDelegation"
  oc_fetches :: nat

definition empty_cache :: OrgKeyCache where
  "empty_cache = \<lparr>oc_docs = Map.empty, oc_seen = Map.empty, oc_delegations = Map.empty, oc_fetches = 0\<rparr>"

definition cacheKey :: "string \<Rightarrow> string \<Rightarrow> string" where
  "cacheKey repo org = repo @ [CHR 0x1F] @ org"

text \<open>A call of the repository beside the cache; \<open>attempt\<close> makes its error a value.\<close>

definition attempt :: "('w, error, 'a) prog \<Rightarrow> ('w \<times> 'c, trust_error, error + 'a) prog" where
  "attempt p = (\<lambda>(w, c). map_option (\<lambda>(r, w'). (Inr r, (w', c))) (p w))"

definition call :: "('w, error, 'a) prog \<Rightarrow> ('w \<times> 'c, trust_error, 'a) prog" where
  "call p = bindP (attempt p) (\<lambda>r. case r of Inl e \<Rightarrow> failP (OfRepository e) | Inr x \<Rightarrow> retP x)"

definition looking :: "('w \<Rightarrow> 'a) \<Rightarrow> ('w \<times> 'c, trust_error, 'a) prog" where
  "looking f = readP (\<lambda>(w, c). f w)"

definition modifyCache :: "('c \<Rightarrow> 'c) \<Rightarrow> ('w \<times> 'c, trust_error, unit) prog" where
  "modifyCache f = (\<lambda>(w, c). Some (Inr (), (w, f c)))"

definition inDoc :: "doc_error + 'a \<Rightarrow> ('s, trust_error, 'a) prog" where
  "inDoc r = liftE (case r of Inl e \<Rightarrow> Inl (OfDocument e) | Inr x \<Rightarrow> Inr x)"

definition mark :: "OrgKeyCache \<Rightarrow> string \<Rightarrow> int" where
  "mark c key = (case oc_seen c key of None \<Rightarrow> 0 | Some t \<Rightarrow> t)"

definition raise_mark :: "string \<Rightarrow> int \<Rightarrow> OrgKeyCache \<Rightarrow> OrgKeyCache" where
  "raise_mark key issued c = c\<lparr>oc_seen := (oc_seen c)(key \<mapsto> max (mark c key) issued), oc_fetches := oc_fetches c + 1\<rparr>"

definition roots_of :: "('w, 'v, 'o) trust_env \<Rightarrow> string \<Rightarrow> ('w \<times> 'c, trust_error, RootKey list) prog" where
  "roots_of E name =
     bindP (looking (\<lambda>w. rootsFor (shippedKey E) (tiers E w) name)) (\<lambda>r.
       case r of Inl e \<Rightarrow> failP (OfRoots e) | Inr ks \<Rightarrow> retP ks)"

text \<open>What follows a miss: the document is fetched, verified against the roots, and kept together
  with the mark of the newest one.\<close>

definition fetch_document ::
    "('w, 'v, 'o) trust_env \<Rightarrow> 'w trust_repository \<Rightarrow> string \<Rightarrow> int \<Rightarrow> string \<Rightarrow> int \<Rightarrow>
     ('w \<times> OrgKeyCache, trust_error, OrgKeyDocument option) prog" where
  "fetch_document E repo org now key seen =
     bindP (call (organizationKeys repo org)) (\<lambda>bytes.
     case bytes of
       None \<Rightarrow> retP None
     | Some b \<Rightarrow>
         bindP (roots_of E (r_name repo)) (\<lambda>roots.
         if roots = [] then failP (NoRootTrusted (r_name repo))
         else
         bindP (inDoc (loadOrgKeyDocument (crypto E) b roots now seen)) (\<lambda>doc.
         if organization doc \<noteq> org then failP (OtherOrganization (organization doc) org)
         else
         bindP (modifyCache (\<lambda>c. raise_mark key (od_issuedAt doc) (c\<lparr>oc_docs := (oc_docs c)(key \<mapsto> doc)\<rparr>))) (\<lambda>_.
         retP (Some doc)))))"

definition documentFor ::
    "('w, 'v, 'o) trust_env \<Rightarrow> 'w trust_repository \<Rightarrow> string \<Rightarrow> int \<Rightarrow>
     ('w \<times> OrgKeyCache, trust_error, OrgKeyDocument option) prog" where
  "documentFor E repo org now =
     (let key = cacheKey (r_name repo) org in
      bindP (readP snd) (\<lambda>c.
      case oc_docs c key of
        Some d \<Rightarrow>
          if now < od_notAfter d then retP (Some d)
          else bindP (modifyCache (\<lambda>c. c\<lparr>oc_docs := (oc_docs c)(key := None)\<rparr>)) (\<lambda>_.
            fetch_document E repo org now key (mark c key))
      | None \<Rightarrow> fetch_document E repo org now key (mark c key)))"

definition fetch_delegation ::
    "('w, 'v, 'o) trust_env \<Rightarrow> 'w trust_repository \<Rightarrow> int \<Rightarrow> string \<Rightarrow>
     ('w \<times> OrgKeyCache, trust_error, RepositoryDelegation option) prog" where
  "fetch_delegation E repo now key =
     bindP (call (repositoryKeys repo)) (\<lambda>bytes.
     case bytes of
       None \<Rightarrow> retP None
     | Some b \<Rightarrow>
         bindP (roots_of E (r_name repo)) (\<lambda>roots.
         if roots = [] then failP (NoRootTrusted (r_name repo))
         else
         bindP (readP snd) (\<lambda>c.
         bindP (inDoc (loadRepositoryDelegation (crypto E) b roots (origin repo) now (mark c key))) (\<lambda>d.
         bindP (modifyCache (\<lambda>c. raise_mark key (del_issuedAt d) (c\<lparr>oc_delegations := (oc_delegations c)(key \<mapsto> d)\<rparr>))) (\<lambda>_.
         retP (Some d))))))"

definition delegationFor ::
    "('w, 'v, 'o) trust_env \<Rightarrow> 'w trust_repository \<Rightarrow> int \<Rightarrow>
     ('w \<times> OrgKeyCache, trust_error, RepositoryDelegation option) prog" where
  "delegationFor E repo now =
     (let key = r_name repo in
      bindP (readP snd) (\<lambda>c.
      case oc_delegations c key of
        Some d \<Rightarrow>
          if now < del_notAfter d then retP (Some d)
          else bindP (modifyCache (\<lambda>c. c\<lparr>oc_delegations := (oc_delegations c)(key := None)\<rparr>)) (\<lambda>_.
            fetch_delegation E repo now key)
      | None \<Rightarrow> fetch_delegation E repo now key))"


subsection \<open>A pin narrows\<close>

lemma isSafeName_end: "isSafeName s \<Longrightarrow> strip_end (s @ [CHR 0x0A]) = s"
proof -
  assume s: "isSafeName s"
  then have "last s \<in> set s" by (simp add: isSafeName_def)
  with s have "isalnum (last s) \<or> last s = CHR ''-'' \<or> last s = CHR ''_'' \<or> last s = CHR ''.''" by (auto simp: isSafeName_def)
  then have n: "last s \<noteq> CHR 0x0A" "last s \<noteq> CHR 0x0D" "last s \<noteq> CHR '' ''"
    by (auto simp: isalnum_def isalpha_def isdigit_def less_eq_char_def)
  then have "dropWhile (\<lambda>c. c = CHR 0x0A \<or> c = CHR 0x0D \<or> c = CHR '' '') (rev s) = rev s"
    by (simp add: dropWhile_eq_self_iff hd_rev)
  then show "strip_end (s @ [CHR 0x0A]) = s" by (simp add: strip_end_def)
qed

lemma all_roots_pins: "all_roots shipped (t\<lparr>tier_pins := p\<rparr> # ts) = all_roots shipped (t # ts)"
  by (simp add: all_roots_def)

lemma pinRepository_Inr:
  assumes "pinRepository name keyId ts = Inr ts'" "keyId \<noteq> []"
  shows "pinFor ts' name = Some keyId \<and> all_roots shipped ts' = all_roots shipped ts"
proof -
  from assms obtain t rest where ts: "ts = t # rest" "tier_dir t \<noteq> []" "isSafeName name" "isSafeName keyId"
    and ts': "ts' = t\<lparr>tier_pins := (tier_pins t)(name \<mapsto> keyId @ [CHR 0x0A])\<rparr> # rest"
    by (auto simp: pinRepository_def first_tier_def bindE_eq_Inr split: if_splits list.splits)
  have "keyId \<noteq> []" using ts(4) by (simp add: isSafeName_def)
  with ts ts' show ?thesis by (simp add: pinFor_def isSafeName_end all_roots_pins)
qed

text \<open>A pin narrows: after it is set, a repository is verified against the pinned root and no other,
  and against none at all if that root is not installed.\<close>

theorem pin_takes_effect:
  assumes "pinRepository name keyId ts = Inr ts'" "keyId \<noteq> []"
  shows "case rootsFor shipped ts' name of
      Inr ks \<Rightarrow> \<exists>r \<in> set (all_roots shipped ts). ks = [r] \<and> rk_id r = keyId
    | Inl e \<Rightarrow> e = PinnedRootMissing name keyId (length (all_roots shipped ts)) \<and>
        (\<forall>r \<in> set (all_roots shipped ts). rk_id r \<noteq> keyId)"
proof (cases "find (\<lambda>r. rk_id r = keyId) (all_roots shipped ts)")
  case None
  then have "\<forall>r \<in> set (all_roots shipped ts). rk_id r \<noteq> keyId" by (auto simp: find_None_iff)
  with None pinRepository_Inr [OF assms, of shipped] show ?thesis
    by (simp add: rootsFor_def Let_def)
next
  case (Some r)
  then have "r \<in> set (all_roots shipped ts)" "rk_id r = keyId" by (auto simp: find_Some_iff)
  with Some pinRepository_Inr [OF assms, of shipped] show ?thesis
    by (simp add: rootsFor_def Let_def)
qed

definition demo_tiers :: "tier list" where
  "demo_tiers = [\<lparr>tier_dir = ''/u'', tier_pins = Map.empty, tier_roots = [(''k.pem'', ''K'')]\<rparr>,
     \<lparr>tier_dir = ''/s'', tier_pins = [''r'' \<mapsto> ''k''], tier_roots = []\<rparr>]"

definition demo_shipped :: RootKey where
  "demo_shipped = \<lparr>rk_id = ''olla'', rk_pem = ''S'', rk_shipped = True\<rparr>"

theorem pin_takes_effect_witness:
  "\<exists>ts'. pinRepository ''q'' ''k'' demo_tiers = Inr ts' \<and>
     (case rootsFor demo_shipped ts' ''q'' of
        Inr ks \<Rightarrow> \<exists>r \<in> set (all_roots demo_shipped demo_tiers). ks = [r] \<and> rk_id r = ''k''
      | Inl e \<Rightarrow> e = PinnedRootMissing ''q'' ''k'' (length (all_roots demo_shipped demo_tiers)) \<and>
          (\<forall>r \<in> set (all_roots demo_shipped demo_tiers). rk_id r \<noteq> ''k''))"
proof -
  have "isSafeName ''q''" "isSafeName ''k''" by code_simp+
  then obtain ts' where "pinRepository ''q'' ''k'' demo_tiers = Inr ts'"
    by (simp add: pinRepository_def demo_tiers_def first_tier_def)
  with pin_takes_effect [OF this, of demo_shipped] show ?thesis by simp
qed

text \<open>Clearing a pin removes it from the first directory only: one that an administrator set in
  another directory stays in force, and the command still succeeds.\<close>

theorem cleared_pin_remains:
  "case pinRepository ''r'' [] demo_tiers of Inr ts' \<Rightarrow> pinFor ts' ''r'' = Some ''k'' | Inl _ \<Rightarrow> False"
  by code_simp

subsection \<open>No replay\<close>

lemma daysFromEpoch_nonneg:
  assumes "1 \<le> m" "m \<le> 12" "1 \<le> d"
  shows "0 \<le> daysFromEpoch y m d"
proof -
  have f: "0 \<le> c \<Longrightarrow> 0 \<le> fold (\<lambda>year days. days + (if isLeap year then 366 else 365)) ys c" for ys and c :: int
    by (induction ys arbitrary: c) auto
  have "0 \<le> kDaysBeforeMonth ! (m - 1)"
    using assms(1,2) by (rule month_cases) (simp_all add: kDaysBeforeMonth_def)
  with f [of 0 "[1970..<y]"] assms(3) show ?thesis by (simp add: daysFromEpoch_def Let_def)
qed

lemma parseUtcTimestamp_nonneg: "parseUtcTimestamp s = Inr t \<Longrightarrow> 0 \<le> t"
  by (auto simp: parseUtcTimestamp_def Let_def split: if_splits intro!: add_nonneg_nonneg mult_nonneg_nonneg daysFromEpoch_nonneg)

lemma time_field_nonneg: "time_field J what ob k e = Inr t \<Longrightarrow> 0 \<le> t"
  by (auto simp: time_field_def parse_time_def split: option.splits sum.splits dest: parseUtcTimestamp_nonneg)

lemma issued_nonneg:
  assumes "loadOrgKeyDocument C text ks now seen = Inr doc"
  shows "0 \<le> od_issuedAt doc"
proof -
  from assms obtain ob where "time_field (cj C) KeyDocument ob ''issued-at'' NoIssuedAt = Inr (od_issuedAt doc)"
    by (auto simp: loadOrgKeyDocument_def Let_def elim!: bindE_Inr_cases)
  then show ?thesis by (rule time_field_nonneg)
qed

lemma delegated_nonneg:
  assumes "loadRepositoryDelegation C text ks o1 now seen = Inr d"
  shows "0 \<le> del_issuedAt d"
proof -
  from assms obtain ob where "time_field (cj C) Delegation ob ''issued-at'' NoIssuedAt = Inr (del_issuedAt d)"
    by (auto simp: loadRepositoryDelegation_def Let_def elim!: bindE_Inr_cases)
  then show ?thesis by (rule time_field_nonneg)
qed

text \<open>What was verified against the roots of a repository, at some time.\<close>

definition trusted_document :: "('w, 'v, 'o) trust_env \<Rightarrow> string \<Rightarrow> OrgKeyDocument \<Rightarrow> bool" where
  "trusted_document E name d \<longleftrightarrow>
     (\<exists>w ks now. rootsFor (shippedKey E) (tiers E w) name = Inr ks \<and> key_document_ok (crypto E) ks now d)"

definition trusted_delegation :: "('w, 'v, 'o) trust_env \<Rightarrow> string \<Rightarrow> RepositoryDelegation \<Rightarrow> bool" where
  "trusted_delegation E name d \<longleftrightarrow>
     (\<exists>w ks origin1 now. rootsFor (shippedKey E) (tiers E w) name = Inr ks \<and> delegation_ok (crypto E) ks origin1 now d)"

text \<open>A document in the cache is verified, of the organization of its entry, and the newest one seen.\<close>

definition cache_inv :: "('w, 'v, 'o) trust_env \<Rightarrow> OrgKeyCache \<Rightarrow> bool" where
  "cache_inv E c \<longleftrightarrow>
     (\<forall>r org d. CHR 0x1F \<notin> set r \<longrightarrow> oc_docs c (cacheKey r org) = Some d \<longrightarrow>
        organization d = org \<and> oc_seen c (cacheKey r org) = Some (od_issuedAt d) \<and> trusted_document E r d) \<and>
     (\<forall>r d. oc_delegations c r = Some d \<longrightarrow> trusted_delegation E r d) \<and>
     (\<forall>key t. oc_seen c key = Some t \<longrightarrow> 0 \<le> t)"

lemma append_sep_inj: "x \<notin> set r \<Longrightarrow> x \<notin> set r' \<Longrightarrow> r @ x # s = r' @ x # s' \<longleftrightarrow> r = r' \<and> s = s'"
  by (induction r arbitrary: r') (case_tac [!] r', auto)

lemma cacheKey_inj: "CHR 0x1F \<notin> set r \<Longrightarrow> CHR 0x1F \<notin> set r' \<Longrightarrow> cacheKey r org = cacheKey r' org' \<longleftrightarrow> r = r' \<and> org = org'"
  by (simp add: cacheKey_def append_sep_inj)

lemma cacheKey_not_name: "CHR 0x1F \<notin> set r \<Longrightarrow> cacheKey r' org \<noteq> r"
  unfolding cacheKey_def by auto

lemma mark_raise: "mark (raise_mark key issued c) k = (if k = key then max (mark c key) issued else mark c k)"
  by (simp add: mark_def raise_mark_def)

lemma mark_nonneg: "cache_inv E c \<Longrightarrow> 0 \<le> mark c key"
  by (auto simp: mark_def cache_inv_def split: option.splits)

lemma cache_inv_forget: "cache_inv E c \<Longrightarrow> cache_inv E (c\<lparr>oc_docs := (oc_docs c)(key := None)\<rparr>)"
  by (simp add: cache_inv_def)

lemma cache_inv_document:
  assumes "cache_inv E c" "CHR 0x1F \<notin> set r" "organization d = org" "mark c (cacheKey r org) \<le> od_issuedAt d"
    and "trusted_document E r d"
  shows "cache_inv E (raise_mark (cacheKey r org) (od_issuedAt d) (c\<lparr>oc_docs := (oc_docs c)(cacheKey r org \<mapsto> d)\<rparr>))"
proof -
  have "0 \<le> od_issuedAt d" using mark_nonneg [OF assms(1)] assms(4) by (rule order_trans)
  then show ?thesis
    using assms by (auto simp: cache_inv_def raise_mark_def cacheKey_inj mark_def max_def split: option.splits)
qed

lemma cache_inv_delegation:
  assumes "cache_inv E c" "CHR 0x1F \<notin> set r" "0 \<le> del_issuedAt d" "trusted_delegation E r d"
  shows "cache_inv E (raise_mark r (del_issuedAt d) (c\<lparr>oc_delegations := (oc_delegations c)(r \<mapsto> d)\<rparr>))"
  using assms mark_nonneg [OF assms(1)]
  by (auto simp: cache_inv_def raise_mark_def cacheKey_not_name [OF assms(2)] max_def mark_def)

lemma call_Inr: "call p (w, c) = Some (Inr x, s') \<longleftrightarrow> (\<exists>w'. p w = Some (Inr x, w') \<and> s' = (w', c))"
proof (cases "p w")
  case (Some q)
  then show ?thesis by (cases q; cases "fst q") (auto simp: call_def attempt_def bindP_def retP_def failP_def)
qed (simp add: call_def attempt_def bindP_def)

lemma roots_of_Inr:
  "roots_of E name s = Some (Inr ks, s') \<longleftrightarrow> rootsFor (shippedKey E) (tiers E (fst s)) name = Inr ks \<and> s' = s"
  by (cases s) (auto simp: roots_of_def looking_def bindP_eq_Inr split: sum.splits)

lemma modifyCache_Inr: "modifyCache f (w, c) = Some (Inr u, s') \<longleftrightarrow> s' = (w, f c)"
  by (auto simp: modifyCache_def)

lemma inDoc_Inr: "inDoc r s = Some (Inr x, s') \<longleftrightarrow> r = Inr x \<and> s' = s"
  by (auto simp: inDoc_def liftE_def split: sum.splits)

lemmas trust_simps = bindP_eq_Inr call_Inr roots_of_Inr modifyCache_Inr inDoc_Inr

text \<open>A program that leaves the cache alone.\<close>

definition same_cache :: "('w \<times> OrgKeyCache, trust_error, 'a) prog \<Rightarrow> bool" where
  "same_cache p \<longleftrightarrow> (\<forall>w c r w' c'. p (w, c) = Some (r, (w', c')) \<longrightarrow> c' = c)"

lemma same_bindE:
  assumes "same_cache p" "bindP p f (w, c) = Some (r, (w', c'))"
  obtains (failed) e where "r = Inl e" "c' = c" | (continued) x w1 where "p (w, c) = Some (Inr x, (w1, c))" "f x (w1, c) = Some (r, (w', c'))"
proof -
  from assms(2) obtain q w1 c1 where p: "p (w, c) = Some (q, (w1, c1))" by (cases "p (w, c)") (auto simp: bindP_def)
  with assms(1) have c1: "c1 = c" unfolding same_cache_def by blast
  show thesis
  proof (cases q)
    case (Inl e)
    with assms(2) p c1 that(1) show thesis by (auto simp: bindP_def)
  next
    case (Inr x)
    with assms(2) p c1 that(2) show thesis by (simp add: bindP_def)
  qed
qed

lemma same_bind: "same_cache p \<Longrightarrow> (\<And>x. same_cache (f x)) \<Longrightarrow> same_cache (bindP p f)"
  unfolding same_cache_def by (intro allI impI) (auto elim!: same_bindE [unfolded same_cache_def, rotated] simp: same_cache_def)

lemma same_pure:
  "same_cache (retP x)" "same_cache (failP e)" "same_cache (liftE r)" "same_cache (readP g)" "same_cache (attempt p)" "same_cache (inDoc d)"
  by (auto simp: same_cache_def retP_def failP_def liftE_def readP_def attempt_def inDoc_def)

lemma same_call: "same_cache (call p)"
  unfolding call_def by (intro same_bind same_pure) (auto split: sum.splits intro: same_pure)

lemma same_roots: "same_cache (roots_of E name)"
  unfolding roots_of_def looking_def by (intro same_bind same_pure) (auto split: sum.splits intro: same_pure)

lemma fetch_document_outcome:
  assumes "fetch_document E repo org now key seen (w, c) = Some (r, (w', c'))"
  obtains "c' = c" "\<forall>d. r \<noteq> Inr (Some d)"
  | doc b ks where "r = Inr (Some doc)" "loadOrgKeyDocument (crypto E) b ks now seen = Inr doc" "organization doc = org"
      "rootsFor (shippedKey E) (tiers E w') (r_name repo) = Inr ks"
      "c' = raise_mark key (od_issuedAt doc) (c\<lparr>oc_docs := (oc_docs c)(key \<mapsto> doc)\<rparr>)"
proof (rule same_bindE [OF same_call assms [unfolded fetch_document_def]])
  fix bytes w1
  assume bytes: "(case bytes of
       None \<Rightarrow> retP None
     | Some b \<Rightarrow>
         bindP (roots_of E (r_name repo)) (\<lambda>roots.
         if roots = [] then failP (NoRootTrusted (r_name repo))
         else
         bindP (inDoc (loadOrgKeyDocument (crypto E) b roots now seen)) (\<lambda>doc.
         if organization doc \<noteq> org then failP (OtherOrganization (organization doc) org)
         else
         bindP (modifyCache (\<lambda>c. raise_mark key (od_issuedAt doc) (c\<lparr>oc_docs := (oc_docs c)(key \<mapsto> doc)\<rparr>))) (\<lambda>_.
         retP (Some doc))))) (w1, c) = Some (r, (w', c'))"
  show thesis
  proof (cases bytes)
    case None
    with bytes that(1) show ?thesis by (auto simp: retP_def)
  next
    case (Some b)
    show ?thesis
    proof (rule same_bindE [OF same_roots bytes [unfolded Some option.case]])
      fix ks w2
      assume rt: "roots_of E (r_name repo) (w1, c) = Some (Inr ks, (w2, c))"
        and rest: "(if ks = [] then failP (NoRootTrusted (r_name repo))
           else
           bindP (inDoc (loadOrgKeyDocument (crypto E) b ks now seen)) (\<lambda>doc.
           if organization doc \<noteq> org then failP (OtherOrganization (organization doc) org)
           else
           bindP (modifyCache (\<lambda>c. raise_mark key (od_issuedAt doc) (c\<lparr>oc_docs := (oc_docs c)(key \<mapsto> doc)\<rparr>))) (\<lambda>_.
           retP (Some doc)))) (w2, c) = Some (r, (w', c'))"
      have roots: "rootsFor (shippedKey E) (tiers E w2) (r_name repo) = Inr ks" using rt by (simp add: roots_of_Inr)
      from rest roots show ?thesis
        by (cases "loadOrgKeyDocument (crypto E) b ks now seen")
          (auto simp: inDoc_def liftE_def bindP_def failP_def modifyCache_def retP_def split: if_splits intro: that)
    qed (auto intro: that)
  qed
qed (auto intro: that)

lemma fetch_document_keeps:
  assumes "fetch_document E repo org now (cacheKey (r_name repo) org) (mark c (cacheKey (r_name repo) org)) (w, c) = Some (r, (w', c'))"
    and "cache_inv E c" "CHR 0x1F \<notin> set (r_name repo)"
  shows "cache_inv E c' \<and> (\<forall>k. mark c k \<le> mark c' k) \<and>
    (\<forall>d. r = Inr (Some d) \<longrightarrow> organization d = org \<and> now < od_notAfter d \<and>
       od_issuedAt d = mark c' (cacheKey (r_name repo) org) \<and> trusted_document E (r_name repo) d)"
  using assms(1)
proof (rule fetch_document_outcome)
  fix doc b ks
  assume r: "r = Inr (Some doc)" and l: "loadOrgKeyDocument (crypto E) b ks now (mark c (cacheKey (r_name repo) org)) = Inr doc"
    and org: "organization doc = org" and rt: "rootsFor (shippedKey E) (tiers E w') (r_name repo) = Inr ks"
    and c': "c' = raise_mark (cacheKey (r_name repo) org) (od_issuedAt doc) (c\<lparr>oc_docs := (oc_docs c)(cacheKey (r_name repo) org \<mapsto> doc)\<rparr>)"
  have "mark c (cacheKey (r_name repo) org) \<le> od_issuedAt doc"
    using loadOrgKeyDocument_ok [OF l] issued_nonneg [OF l] by auto
  moreover have "trusted_document E (r_name repo) doc"
    using loadOrgKeyDocument_ok [OF l] rt unfolding trusted_document_def by blast
  moreover from calculation cache_inv_document [OF assms(2,3) org] c' have "cache_inv E c'" by simp
  moreover have "mark (c\<lparr>oc_docs := m\<rparr>) k = mark c k" for m k by (simp add: mark_def)
  ultimately show ?thesis
    using loadOrgKeyDocument_ok [OF l] r org rt by (auto simp: c' mark_raise key_document_ok_def)
qed (use assms(2) in auto)

lemma documentFor_keeps:
  assumes "documentFor E repo org now (w, c) = Some (r, (w', c'))" "cache_inv E c" "CHR 0x1F \<notin> set (r_name repo)"
  shows "cache_inv E c' \<and> (\<forall>k. mark c k \<le> mark c' k) \<and>
    (\<forall>d. r = Inr (Some d) \<longrightarrow> organization d = org \<and> now < od_notAfter d \<and> od_issuedAt d = mark c' (cacheKey (r_name repo) org) \<and>
       trusted_document E (r_name repo) d)"
proof (cases "oc_docs c (cacheKey (r_name repo) org)")
  case None
  with assms(1) have "fetch_document E repo org now (cacheKey (r_name repo) org) (mark c (cacheKey (r_name repo) org)) (w, c) = Some (r, (w', c'))"
    by (simp add: documentFor_def Let_def bindP_def readP_def)
  from fetch_document_keeps [OF this assms(2,3)] show ?thesis by blast
next
  case (Some d)
  let ?c = "c\<lparr>oc_docs := (oc_docs c)(cacheKey (r_name repo) org := None)\<rparr>"
  show ?thesis
  proof (cases "now < od_notAfter d")
    case True
    with Some assms(1) have "r = Inr (Some d)" "c' = c" by (simp_all add: documentFor_def Let_def bindP_def readP_def retP_def)
    with True Some assms(2,3) show ?thesis by (auto simp: cache_inv_def mark_def)
  next
    case False
    have m: "mark ?c k = mark c k" for k by (simp add: mark_def)
    from False Some assms(1) have "fetch_document E repo org now (cacheKey (r_name repo) org) (mark ?c (cacheKey (r_name repo) org)) (w, ?c) = Some (r, (w', c'))"
      by (simp add: documentFor_def Let_def bindP_def readP_def modifyCache_def m)
    from fetch_document_keeps [OF this cache_inv_forget [OF assms(2)] assms(3)] show ?thesis unfolding m by blast
  qed
qed

lemma fetch_delegation_outcome:
  assumes "fetch_delegation E repo now key (w, c) = Some (r, (w', c'))"
  obtains "c' = c" "\<forall>d. r \<noteq> Inr (Some d)"
  | d b ks where "r = Inr (Some d)" "loadRepositoryDelegation (crypto E) b ks (origin repo) now (mark c key) = Inr d"
      "rootsFor (shippedKey E) (tiers E w') (r_name repo) = Inr ks"
      "c' = raise_mark key (del_issuedAt d) (c\<lparr>oc_delegations := (oc_delegations c)(key \<mapsto> d)\<rparr>)"
proof (rule same_bindE [OF same_call assms [unfolded fetch_delegation_def]])
  fix bytes w1
  assume bytes: "(case bytes of
       None \<Rightarrow> retP None
     | Some b \<Rightarrow>
         bindP (roots_of E (r_name repo)) (\<lambda>roots.
         if roots = [] then failP (NoRootTrusted (r_name repo))
         else
         bindP (readP snd) (\<lambda>c.
         bindP (inDoc (loadRepositoryDelegation (crypto E) b roots (origin repo) now (mark c key))) (\<lambda>d.
         bindP (modifyCache (\<lambda>c. raise_mark key (del_issuedAt d) (c\<lparr>oc_delegations := (oc_delegations c)(key \<mapsto> d)\<rparr>))) (\<lambda>_.
         retP (Some d)))))) (w1, c) = Some (r, (w', c'))"
  show thesis
  proof (cases bytes)
    case None
    with bytes that(1) show ?thesis by (auto simp: retP_def)
  next
    case (Some b)
    show ?thesis
    proof (rule same_bindE [OF same_roots bytes [unfolded Some option.case]])
      fix ks w2
      assume rt: "roots_of E (r_name repo) (w1, c) = Some (Inr ks, (w2, c))"
        and rest: "(if ks = [] then failP (NoRootTrusted (r_name repo))
           else
           bindP (readP snd) (\<lambda>c.
           bindP (inDoc (loadRepositoryDelegation (crypto E) b ks (origin repo) now (mark c key))) (\<lambda>d.
           bindP (modifyCache (\<lambda>c. raise_mark key (del_issuedAt d) (c\<lparr>oc_delegations := (oc_delegations c)(key \<mapsto> d)\<rparr>))) (\<lambda>_.
           retP (Some d))))) (w2, c) = Some (r, (w', c'))"
      have "rootsFor (shippedKey E) (tiers E w2) (r_name repo) = Inr ks" using rt by (simp add: roots_of_Inr)
      with rest show ?thesis
        by (cases "loadRepositoryDelegation (crypto E) b ks (origin repo) now (mark c key)")
          (auto simp: inDoc_def liftE_def bindP_def failP_def readP_def modifyCache_def retP_def split: if_splits intro: that)
    qed (auto intro: that)
  qed
qed (auto intro: that)

lemma delegationFor_keeps:
  assumes "delegationFor E repo now (w, c) = Some (r, (w', c'))" "cache_inv E c" "CHR 0x1F \<notin> set (r_name repo)"
  shows "cache_inv E c' \<and> (\<forall>k. mark c k \<le> mark c' k) \<and> (\<forall>d. r = Inr (Some d) \<longrightarrow> trusted_delegation E (r_name repo) d)"
proof -
  have f: "cache_inv E c' \<and> (\<forall>k. mark c k \<le> mark c' k) \<and> (\<forall>d. r = Inr (Some d) \<longrightarrow> trusted_delegation E (r_name repo) d)"
    if "fetch_delegation E repo now (r_name repo) (w, c0) = Some (r, (w', c'))" "cache_inv E c0" "\<forall>k. mark c0 k = mark c k" for c0
    using that(1)
  proof (rule fetch_delegation_outcome)
    fix d b ks
    assume r: "r = Inr (Some d)" and l: "loadRepositoryDelegation (crypto E) b ks (origin repo) now (mark c0 (r_name repo)) = Inr d"
      and rt: "rootsFor (shippedKey E) (tiers E w') (r_name repo) = Inr ks"
      and c': "c' = raise_mark (r_name repo) (del_issuedAt d) (c0\<lparr>oc_delegations := (oc_delegations c0)(r_name repo \<mapsto> d)\<rparr>)"
    have "mark (c0\<lparr>oc_delegations := m\<rparr>) k = mark c0 k" for m k by (simp add: mark_def)
    moreover have "trusted_delegation E (r_name repo) d"
      using loadRepositoryDelegation_ok [OF l] rt unfolding trusted_delegation_def by blast
    ultimately show ?thesis
      using cache_inv_delegation [OF that(2) assms(3) delegated_nonneg [OF l]] that(3) r by (auto simp: c' mark_raise)
  qed (use that(2,3) in auto)
  let ?c = "c\<lparr>oc_delegations := (oc_delegations c)(r_name repo := None)\<rparr>"
  have "cache_inv E ?c" "\<forall>k. mark ?c k = mark c k" using assms(2) by (simp_all add: cache_inv_def mark_def)
  moreover have "trusted_delegation E (r_name repo) d" if "oc_delegations c (r_name repo) = Some d" for d
    using assms(2) that by (simp add: cache_inv_def)
  ultimately show ?thesis
    using assms(1) f [of c] f [of ?c] assms(2)
    by (cases "oc_delegations c (r_name repo)")
      (auto simp: delegationFor_def Let_def bindP_def readP_def modifyCache_def retP_def split: if_splits)
qed

text \<open>The life of a cache: calls for documents and delegations of any repositories, one after the other, at
  any time, in a world that changes in between.\<close>

inductive key_step :: "('w, 'v, 'o) trust_env \<Rightarrow> 'w \<times> OrgKeyCache \<Rightarrow> 'w \<times> OrgKeyCache \<Rightarrow> bool" for E where
  Document: "CHR 0x1F \<notin> set (r_name repo) \<Longrightarrow> documentFor E repo org now s = Some (r, s') \<Longrightarrow> key_step E s s'"
| Delegated: "CHR 0x1F \<notin> set (r_name repo) \<Longrightarrow> delegationFor E repo now s = Some (r, s') \<Longrightarrow> key_step E s s'"
| World: "key_step E (w, c) (w', c)"

lemma key_step_keeps:
  "key_step E s s' \<Longrightarrow> cache_inv E (snd s) \<Longrightarrow> cache_inv E (snd s') \<and> (\<forall>k. mark (snd s) k \<le> mark (snd s') k)"
proof (induction rule: key_step.induct)
  case (Document repo org now s r s')
  then show ?case using documentFor_keeps [of E repo org now "fst s" "snd s" r "fst s'" "snd s'"] by simp
next
  case (Delegated repo now s r s')
  then show ?case using delegationFor_keeps [of E repo now "fst s" "snd s" r "fst s'" "snd s'"] by simp
qed simp

lemma key_steps_keep:
  "(key_step E)\<^sup>*\<^sup>* s s' \<Longrightarrow> cache_inv E (snd s) \<Longrightarrow> cache_inv E (snd s') \<and> (\<forall>k. mark (snd s) k \<le> mark (snd s') k)"
proof (induction rule: rtranclp_induct)
  case (step s1 s2)
  then show ?case using key_step_keeps [of E s1 s2] by (meson order_trans)
qed simp

lemma empty_cache_inv: "cache_inv E empty_cache"
  by (simp add: cache_inv_def empty_cache_def)

text \<open>C4: No replay: in the life of a cache whose calls do not overlap, the key document that a repository's name stands for is never
  followed by one that was issued before it, not even after the first expired or the world
  changed; and what is handed out is for the organization that was asked for, and not expired.\<close>

theorem documents_never_roll_back:
  assumes "(key_step E)\<^sup>*\<^sup>* (w0, empty_cache) s1" "CHR 0x1F \<notin> set (r_name repo)"
    and "documentFor E repo org now1 s1 = Some (Inr (Some d1), s1')"
    and "(key_step E)\<^sup>*\<^sup>* s1' s2" "documentFor E repo org now2 s2 = Some (Inr (Some d2), s2')"
  shows "od_issuedAt d1 \<le> od_issuedAt d2 \<and> organization d2 = org \<and> now2 < od_notAfter d2"
proof -
  let ?k = "cacheKey (r_name repo) org"
  have i1: "cache_inv E (snd s1)" using key_steps_keep [OF assms(1)] empty_cache_inv [of E] by simp
  have d1: "cache_inv E (snd s1')" "od_issuedAt d1 = mark (snd s1') ?k"
    using documentFor_keeps [of E repo org now1 "fst s1" "snd s1" "Inr (Some d1)" "fst s1'" "snd s1'"] assms(2,3) i1 by simp_all
  have s2: "cache_inv E (snd s2)" "mark (snd s1') ?k \<le> mark (snd s2) ?k" using key_steps_keep [OF assms(4)] d1(1) by simp_all
  have "organization d2 = org \<and> now2 < od_notAfter d2 \<and> od_issuedAt d2 = mark (snd s2') ?k \<and> mark (snd s2) ?k \<le> mark (snd s2') ?k"
    using documentFor_keeps [of E repo org now2 "fst s2" "snd s2" "Inr (Some d2)" "fst s2'" "snd s2'"] assms(2,5) s2(1) by simp
  with d1(2) s2(2) show ?thesis by simp
qed

end
