(* ===== verification/Release_Trust.thy ===== *)
theory Release_Trust
  imports Key_Trust Dotted_Paths
begin

text \<open>
  What a fetched release is held to: the digest it must have (\<open>ReleaseIntegrity.cpp\<close>), the
  statement of revoked keys (\<open>revocationFor\<close>), the publisher's signature
  (\<open>PublisherVerification.cpp\<close>), and the check of a fetch with the repository that wraps it
  (\<open>FetchVerification.cpp\<close>). The text of refusals, and the log line that warns of a retracted
  release, are left out.
\<close>

subsection \<open>The digest of a release\<close>

record ReleaseIntegrity =
  ri_sha256 :: string
  fromSignedMetadata :: bool
  ri_organization :: string
  ri_rootKeyId :: string
  viaDelegation :: bool
  ri_retracted :: bool
  ri_retractedReason :: string

definition no_integrity :: ReleaseIntegrity where
  "no_integrity = \<lparr>ri_sha256 = [], fromSignedMetadata = False, ri_organization = [], ri_rootKeyId = [],
     viaDelegation = False, ri_retracted = False, ri_retractedReason = []\<rparr>"

text \<open>The unsigned checksum beside the archive; a failure to ask for it is none.\<close>

definition from_sidecar ::
    "'w trust_repository \<Rightarrow> string \<Rightarrow> string \<Rightarrow> ReleaseIntegrity \<Rightarrow> ('w \<times> 'c, trust_error, ReleaseIntegrity) prog" where
  "from_sidecar repo name version out =
     bindP (attempt (publishedChecksum repo name version)) (\<lambda>sidecar.
       retP (case sidecar of Inr (Some sha) \<Rightarrow> out\<lparr>ri_sha256 := sha\<rparr> | _ \<Rightarrow> out))"

definition releaseIntegrityFor ::
    "('w, 'v, 'o) trust_env \<Rightarrow> 'w trust_repository \<Rightarrow> string \<Rightarrow> string \<Rightarrow> RootKey list \<Rightarrow>
     RepositoryDelegation option \<Rightarrow> int \<Rightarrow> ('w \<times> 'c, trust_error, ReleaseIntegrity) prog" where
  "releaseIntegrityFor E repo name version rootKeys delegation now =
     (let verifiers = (case delegation of None \<Rightarrow> rootKeys | Some d \<Rightarrow> delegated_verifiers d now);
          out = no_integrity\<lparr>viaDelegation := delegation \<noteq> None\<rparr> in
      if delegation \<noteq> None \<and> verifiers = [] then failP NoKeyInWindow
      else
      bindP (attempt (releaseMetadataJson repo name version)) (\<lambda>raw.
      case raw of
        Inr (Some json) \<Rightarrow>
          bindP (inDoc (loadReleaseMetadata (crypto E) json verifiers)) (\<lambda>md.
          if signedByRoot md \<and> md_sha256 md \<noteq> []
          then retP (out\<lparr>ri_sha256 := md_sha256 md, fromSignedMetadata := True, ri_organization := md_organization md,
                 ri_rootKeyId := md_rootKeyId md, ri_retracted := md_retracted md,
                 ri_retractedReason := md_retractedReason md\<rparr>)
          else from_sidecar repo name version
                 (out\<lparr>ri_retracted := md_retracted md, ri_retractedReason := md_retractedReason md\<rparr>))
      | _ \<Rightarrow> from_sidecar repo name version out))"

definition integrityOf ::
    "('w, 'v, 'o) trust_env \<Rightarrow> 'w trust_repository \<Rightarrow> string \<Rightarrow> string \<Rightarrow> int \<Rightarrow>
     ('w \<times> OrgKeyCache, trust_error, ReleaseIntegrity \<times> RepositoryDelegation option) prog" where
  "integrityOf E repo name version now =
     bindP (roots_of E (r_name repo)) (\<lambda>roots.
     bindP (delegationFor E repo now) (\<lambda>delegation.
     bindP (releaseIntegrityFor E repo name version roots delegation now) (\<lambda>integrity.
     retP (integrity, delegation))))"

definition expectedHashFor ::
    "('w, 'v, 'o) trust_env \<Rightarrow> 'w trust_repository \<Rightarrow> string \<Rightarrow> string \<Rightarrow> int \<Rightarrow>
     ('w \<times> OrgKeyCache, trust_error, string) prog" where
  "expectedHashFor E repo name version now =
     bindP (integrityOf E repo name version now) (\<lambda>(integrity, _). retP (ri_sha256 integrity))"

subsection \<open>Revocation\<close>

definition revocationFor ::
    "('w, 'v, 'o) trust_env \<Rightarrow> 'w trust_repository \<Rightarrow> RepositoryDelegation option \<Rightarrow> int \<Rightarrow> int \<Rightarrow>
     ('w \<times> 'c, trust_error, KeyRevocation option) prog" where
  "revocationFor E repo delegation now seenIssuedAt =
     bindP (call (advertisesRevocation repo)) (\<lambda>advertised.
     if \<not> advertised then retP None
     else case delegation of
       None \<Rightarrow> failP RevocationWithoutDelegation
     | Some d \<Rightarrow>
         bindP (attempt (revocations repo)) (\<lambda>raw.
         case raw of
           Inl e \<Rightarrow> failP (RevocationNotFetched e)
         | Inr None \<Rightarrow> failP NoRevocationStatement
         | Inr (Some json) \<Rightarrow>
             bindP (inDoc (loadKeyRevocation (crypto E) json d (origin repo) now seenIssuedAt)) (\<lambda>rev. retP (Some rev))))"

subsection \<open>The publisher's signature\<close>

definition namespaceOwns :: "string \<Rightarrow> string \<Rightarrow> bool" where
  "namespaceOwns nameSpace name \<longleftrightarrow>
     (if nameSpace = [] \<or> name = [] then False
      else if name = nameSpace then True
      else length name > length nameSpace \<and> take (length nameSpace) name = nameSpace \<and>
           name ! length nameSpace = CHR ''.'')"

text \<open>\<^term>\<open>None\<close> where the file or the key cannot be used.\<close>

definition verifyDetachedEd25519File ::
    "('w, 'v, 'o) trust_env \<Rightarrow> 'w \<Rightarrow> string \<Rightarrow> string \<Rightarrow> string \<Rightarrow> bool option" where
  "verifyDetachedEd25519File E w dataPath signature pem =
     Option.bind (readBytes E dataPath w) (\<lambda>data. verifyPemBytes (crypto E) data signature pem)"

definition verifyDetachedEd25519 ::
    "('w, 'v, 'o) trust_env \<Rightarrow> 'w \<Rightarrow> string \<Rightarrow> string \<Rightarrow> string \<Rightarrow> bool option" where
  "verifyDetachedEd25519 E w dataPath signature pemPath =
     Option.bind (readBytes E dataPath w) (\<lambda>data.
     Option.bind (readBytes E pemPath w) (\<lambda>pem. verifyPemBytes (crypto E) data signature pem))"

fun verifyAgainstAnyKey ::
    "('w, 'v, 'o) trust_env \<Rightarrow> 'w \<Rightarrow> string \<Rightarrow> string \<Rightarrow> string list \<Rightarrow> string option" where
  "verifyAgainstAnyKey E w dataPath signature [] = None"
| "verifyAgainstAnyKey E w dataPath signature (pem # pems) =
     (if verifyDetachedEd25519 E w dataPath signature pem = Some True then Some pem
      else verifyAgainstAnyKey E w dataPath signature pems)"

record PublisherVerdict =
  pv_check :: PublisherCheck
  pv_keyId :: string
  pv_organization :: string

text \<open>The loop over the usable keys. A revoked key whose signature verifies is kept, as a good key
  may stand behind it; the verdict after the loop is that of the revoked key first.\<close>

fun try_keys ::
    "(string \<Rightarrow> bool option) \<Rightarrow> (OrgSigningKey \<Rightarrow> RevokedKey option) \<Rightarrow> OrgSigningKey list \<Rightarrow> RevokedKey option \<Rightarrow>
     bool \<Rightarrow> PublisherCheck \<times> string" where
  "try_keys verifies revocation [] blockedBy unreadable =
     (case blockedBy of
        Some r \<Rightarrow> (Revoked, rvk_id r)
      | None \<Rightarrow> if unreadable then (Unreadable, []) else (Signature, []))"
| "try_keys verifies revocation (key # ks) blockedBy unreadable =
     (case revocation key of
        Some r \<Rightarrow> try_keys verifies revocation ks
          (if verifies (publicKeyPem key) = Some True then Some r else blockedBy) unreadable
      | None \<Rightarrow>
          (case verifies (publicKeyPem key) of
             None \<Rightarrow> try_keys verifies revocation ks blockedBy True
           | Some ok \<Rightarrow>
               if ok then (Verified, sk_id key) else try_keys verifies revocation ks blockedBy unreadable))"

definition verifyAgainstOrgDocument ::
    "('w, 'v, 'o) trust_env \<Rightarrow> 'w \<Rightarrow> OrgKeyDocument \<Rightarrow> string \<Rightarrow> string \<Rightarrow> string \<Rightarrow> int \<Rightarrow>
     KeyRevocation option \<Rightarrow> PublisherVerdict" where
  "verifyAgainstOrgDocument E w doc artifactName artifactPath signature now revocation =
     (let verdict = (\<lambda>(check, key). \<lparr>pv_check = check, pv_keyId = key, pv_organization = organization doc\<rparr>);
          usable = usableKeys (od_keys doc) now in
      if \<not> (\<exists>ns \<in> set (namespaces doc). namespaceOwns ns artifactName) then verdict (Namespace, [])
      else if usable = [] then verdict (NoUsableKey, [])
      else verdict (try_keys (verifyDetachedEd25519File E w artifactPath signature)
        (\<lambda>k. Option.bind revocation (\<lambda>r. find_revoked r (sk_id k) (organization doc))) usable None False))"

text \<open>With an organization whose key document the repository serves, the document decides; else the
  keys that the machine trusts do.\<close>

definition check_trusted_keys ::
    "('w, 'v, 'o) trust_env \<Rightarrow> string \<Rightarrow> string \<Rightarrow> ('w \<times> OrgKeyCache, trust_error, unit) prog" where
  "check_trusted_keys E artifactPath signature =
     bindP (looking (\<lambda>w. (trustedKeyFiles E w, verifyAgainstAnyKey E w artifactPath signature (trustedKeyFiles E w))))
       (\<lambda>(ks, verified).
       if ks = [] then failP NoTrustedKeys
       else if verified = None then failP (NoTrustedKeyMatches (length ks))
       else retP ())"

definition checkArchiveSignature ::
    "('w, 'v, 'o) trust_env \<Rightarrow> 'w trust_repository \<Rightarrow> string \<Rightarrow> string \<Rightarrow> string \<Rightarrow> string \<Rightarrow>
     RepositoryDelegation option \<Rightarrow> int \<Rightarrow> ('w \<times> OrgKeyCache, trust_error, unit) prog" where
  "checkArchiveSignature E repo name artifactPath signature org delegation now =
     bindP (if org \<noteq> [] then documentFor E repo org now else retP None) (\<lambda>doc.
     case doc of
       Some d \<Rightarrow>
         bindP (revocationFor E repo delegation now 0) (\<lambda>revocation.
         bindP (looking (\<lambda>w. verifyAgainstOrgDocument E w d name artifactPath signature now revocation)) (\<lambda>verdict.
         if pv_check verdict \<noteq> Verified then failP (RefusedVerdict (pv_check verdict) (pv_keyId verdict))
         else retP ()))
     | None \<Rightarrow> check_trusted_keys E artifactPath signature)"

subsection \<open>The check of a fetch\<close>

record VerifiedRelease =
  vr_sha256 :: string
  vr_fromSignedMetadata :: bool
  vr_organization :: string
  envelopeJson :: string

text \<open>A release without signed metadata, under the default policy: the closed list of old ones.\<close>

definition check_legacy ::
    "('w, 'v, 'o) trust_env \<Rightarrow> string \<Rightarrow> string \<Rightarrow> string \<Rightarrow> LegacyRelease list \<Rightarrow>
     ('w \<times> OrgKeyCache, trust_error, VerifiedRelease) prog" where
  "check_legacy E name version artifactPath legacy =
     bindP (looking (digestOf E artifactPath)) (\<lambda>actual.
     if \<exists>r \<in> set legacy. lr_name r = name \<and> lr_version r = version \<and> lr_sha256 r = actual
     then retP \<lparr>vr_sha256 = actual, vr_fromSignedMetadata = False, vr_organization = [], envelopeJson = []\<rparr>
     else failP NoSignedMetadata)"

text \<open>The publisher's own word beside that of the repository.\<close>

definition require_publisher ::
    "('w, 'v, 'o) trust_env \<Rightarrow> 'w trust_repository \<Rightarrow> string \<Rightarrow> string option \<Rightarrow> int \<Rightarrow>
     ('w \<times> OrgKeyCache, trust_error, unit) prog" where
  "require_publisher E repo org sig now =
     (if sig = None then failP (NoArchiveSignature org)
      else bindP (documentFor E repo org now) (\<lambda>doc.
        if doc = None then failP (NoKeyDocument org) else retP ()))"

definition check_digest ::
    "('w, 'v, 'o) trust_env \<Rightarrow> string \<Rightarrow> string \<Rightarrow> ('w \<times> OrgKeyCache, trust_error, unit) prog" where
  "check_digest E artifactPath expected =
     (if expected = [] then retP ()
      else bindP (looking (digestOf E artifactPath)) (\<lambda>actual.
        if actual \<noteq> expected then failP (ChecksumMismatch expected actual) else retP ()))"

definition verifyFetchedRelease ::
    "('w, 'v, 'o) trust_env \<Rightarrow> 'w trust_repository \<Rightarrow> string \<Rightarrow> string \<Rightarrow> string \<Rightarrow> Verification \<Rightarrow>
     LegacyRelease list \<Rightarrow> int \<Rightarrow> ('w \<times> OrgKeyCache, trust_error, VerifiedRelease) prog" where
  "verifyFetchedRelease E repo name version artifactPath policy legacy now =
     bindP (integrityOf E repo name version now) (\<lambda>(integrity, delegation).
     if \<not> fromSignedMetadata integrity \<and> policy = Publisher
     then check_legacy E name version artifactPath legacy
     else
     let org = (if fromSignedMetadata integrity then ri_organization integrity else []) in
     bindP (check_digest E artifactPath (ri_sha256 integrity)) (\<lambda>_.
     bindP (call (publishedSignature repo name version)) (\<lambda>sig.
     bindP (if policy = Publisher \<and> org \<noteq> [] then require_publisher E repo org sig now else retP ()) (\<lambda>_.
     bindP (case sig of
              None \<Rightarrow> retP ()
            | Some s \<Rightarrow> checkArchiveSignature E repo name artifactPath s org delegation now) (\<lambda>_.
     bindP (attempt (releaseMetadataJson repo name version)) (\<lambda>env.
     retP \<lparr>vr_sha256 = ri_sha256 integrity, vr_fromSignedMetadata = fromSignedMetadata integrity,
           vr_organization = org,
           envelopeJson = (case env of Inr (Some e) \<Rightarrow> e | _ \<Rightarrow> [])\<rparr>))))))"

subsection \<open>The verifying repository\<close>

text \<open>The state is the world, the shared key cache and the envelopes of this repository's fetches.\<close>

definition on_keys :: "('w \<times> 'c, 'e, 'a) prog \<Rightarrow> ('w \<times> 'c \<times> 'm, 'e, 'a) prog" where
  "on_keys p = (\<lambda>(w, c, m). map_option (\<lambda>(r, (w', c')). (r, (w', c', m))) (p (w, c)))"

definition on_world :: "('w \<Rightarrow> 'w) \<Rightarrow> ('w \<times> 'd, 'e, unit) prog" where
  "on_world f = (\<lambda>(w, d). Some (Inr (), (f w, d)))"

definition envelope_key :: "string \<Rightarrow> string \<Rightarrow> string" where
  "envelope_key name version = name @ ''@'' @ version"

definition verifying_fetch ::
    "('w, 'v, 'o) trust_env \<Rightarrow> 'w trust_repository \<Rightarrow> Verification \<Rightarrow> string \<Rightarrow> string \<Rightarrow>
     ('w \<times> OrgKeyCache \<times> (string \<rightharpoonup> string), trust_error, string) prog" where
  "verifying_fetch E inner policy depName version =
     bindP (call (fetch inner depName version)) (\<lambda>path.
     bindP (looking (clock E)) (\<lambda>now s.
     case on_keys (verifyFetchedRelease E inner depName version path policy (legacyReleases E) now) s of
       None \<Rightarrow> None
     | Some (Inl e, s') \<Rightarrow>
         bindP (if isFilesystem inner then retP () else on_world (removeFile E path)) (\<lambda>_. failP e) s'
     | Some (Inr verified, s') \<Rightarrow>
         bindP (if envelopeJson verified \<noteq> []
                then modifyCache (\<lambda>(c, m). (c, m(envelope_key depName version \<mapsto> envelopeJson verified)))
                else retP ()) (\<lambda>_. retP path) s'))"

definition verifying_releaseMetadataJson ::
    "'w trust_repository \<Rightarrow> string \<Rightarrow> string \<Rightarrow>
     ('w \<times> OrgKeyCache \<times> (string \<rightharpoonup> string), trust_error, string option) prog" where
  "verifying_releaseMetadataJson inner name version =
     bindP (readP (\<lambda>(_, _, m). m (envelope_key name version))) (\<lambda>known.
     case known of Some e \<Rightarrow> retP (Some e) | None \<Rightarrow> call (releaseMetadataJson inner name version))"

text \<open>The policy of each of the repositories that were built from the manifest.\<close>

definition wrapWithVerification :: "'r list \<Rightarrow> RepositorySpec list \<Rightarrow> ('r \<times> Verification) list" where
  "wrapWithVerification rs specs =
     map (\<lambda>i. (rs ! i, if i < length specs then rs_verification (specs ! i) else Publisher)) [0..<length rs]"


subsection \<open>Who owns a name\<close>

text \<open>A namespace owns a name when its dotted segments are the first segments of the name: it owns
  itself and what is below it, and not a name that only begins with the same characters.\<close>

theorem namespaceOwns_segments:
  "namespaceOwns ns name \<longleftrightarrow> ns \<noteq> [] \<and> name \<noteq> [] \<and> prefix (segments ns) (segments name)"
  using segments_prefix_iff [of ns name] unfolding prefix_segments namespaceOwns_def by auto

subsection \<open>The verdict on a signature\<close>

definition good_key :: "(string \<Rightarrow> bool option) \<Rightarrow> (OrgSigningKey \<Rightarrow> RevokedKey option) \<Rightarrow> OrgSigningKey \<Rightarrow> bool" where
  "good_key verifies rv k \<longleftrightarrow> rv k = None \<and> verifies (publicKeyPem k) = Some True"

lemma try_keys_verified:
  "fst (try_keys verifies rv ks b u) = Verified \<longleftrightarrow> (\<exists>k \<in> set ks. good_key verifies rv k)"
  by (induction ks arbitrary: b u) (auto simp: good_key_def split: option.splits)

lemma try_keys_key:
  "try_keys verifies rv ks b u = (Verified, i) \<Longrightarrow> \<exists>k \<in> set ks. good_key verifies rv k \<and> sk_id k = i"
  by (induction ks arbitrary: b u) (auto simp: good_key_def split: option.splits if_splits)

lemma try_keys_revoked:
  assumes "\<not> (\<exists>k \<in> set ks. good_key verifies rv k)"
  shows "fst (try_keys verifies rv ks b u) = Revoked \<longleftrightarrow>
    b \<noteq> None \<or> (\<exists>k \<in> set ks. rv k \<noteq> None \<and> verifies (publicKeyPem k) = Some True)"
  using assms by (induction ks arbitrary: b u) (auto simp: good_key_def split: option.splits)

lemma try_keys_unreadable:
  assumes "\<not> (\<exists>k \<in> set ks. good_key verifies rv k)"
  shows "fst (try_keys verifies rv ks None u) = Unreadable \<longleftrightarrow>
    \<not> (\<exists>k \<in> set ks. rv k \<noteq> None \<and> verifies (publicKeyPem k) = Some True) \<and>
    (u \<or> (\<exists>k \<in> set ks. rv k = None \<and> verifies (publicKeyPem k) = None))"
proof -
  have b: "fst (try_keys verifies rv xs (Some r) v) \<noteq> Unreadable" for xs r v
    by (induction xs arbitrary: r v) (auto split: option.splits)
  from assms show ?thesis
    by (induction ks arbitrary: u) (auto simp: good_key_def b split: option.splits)
qed

lemma try_keys_range: "fst (try_keys verifies rv ks b u) \<in> {Verified, Revoked, Unreadable, Signature}"
  by (induction ks arbitrary: b u) (auto split: option.splits)

text \<open>C18: The verdict by its meaning: the name decides first; then whether a key is inside its window;
  then a good key anywhere among them, before a revoked key whose signature is genuine, before a key
  that could not be read.\<close>

theorem verdict_spec:
  "pv_check (verifyAgainstOrgDocument E w doc name path sig now stmt) =
     (let usable = set (usableKeys (od_keys doc) now);
          verifies = verifyDetachedEd25519File E w path sig;
          rv = (\<lambda>k. Option.bind stmt (\<lambda>s. find_revoked s (sk_id k) (organization doc)));
          genuine = (\<lambda>k. verifies (publicKeyPem k) = Some True) in
      if \<not> (\<exists>ns \<in> set (namespaces doc). namespaceOwns ns name) then Namespace
      else if usable = {} then NoUsableKey
      else if \<exists>k \<in> usable. rv k = None \<and> genuine k then Verified
      else if \<exists>k \<in> usable. genuine k then Revoked
      else if \<exists>k \<in> usable. rv k = None \<and> verifies (publicKeyPem k) = None then Unreadable
      else Signature)"
proof -
  let ?v = "verifyDetachedEd25519File E w path sig"
  let ?r = "\<lambda>k. Option.bind stmt (\<lambda>s. find_revoked s (sk_id k) (organization doc))"
  let ?k = "usableKeys (od_keys doc) now"
  let ?c = "fst (try_keys ?v ?r ?k None False)"
  have c: "?c = (if \<exists>k \<in> set ?k. ?r k = None \<and> ?v (publicKeyPem k) = Some True then Verified
      else if \<exists>k \<in> set ?k. ?v (publicKeyPem k) = Some True then Revoked
      else if \<exists>k \<in> set ?k. ?r k = None \<and> ?v (publicKeyPem k) = None then Unreadable else Signature)"
  proof (cases "\<exists>k \<in> set ?k. good_key ?v ?r k")
    case True
    then show ?thesis using try_keys_verified [of ?v ?r ?k None False] by (auto simp: good_key_def)
  next
    case False
    have g: "(\<exists>k \<in> set ?k. ?v (publicKeyPem k) = Some True) \<longleftrightarrow> (\<exists>k \<in> set ?k. ?r k \<noteq> None \<and> ?v (publicKeyPem k) = Some True)"
      using False unfolding good_key_def by blast
    have n: "\<not> (\<exists>k \<in> set ?k. ?r k = None \<and> ?v (publicKeyPem k) = Some True)" using False by (simp add: good_key_def)
    show ?thesis
      unfolding if_not_P [OF n] g
      using try_keys_verified [of ?v ?r ?k None False] try_keys_revoked [OF False, of None False]
        try_keys_unreadable [OF False, of False] try_keys_range [of ?v ?r ?k None False] False by auto
  qed
  show ?thesis
    unfolding Let_def c [symmetric] by (simp add: verifyAgainstOrgDocument_def Let_def case_prod_beta)
qed



subsection \<open>What an accepted release is\<close>



















lemma attempt_Inr: "attempt p (w, c) = Some (Inr q, s') \<longleftrightarrow> (\<exists>w'. p w = Some (q, w') \<and> s' = (w', c))"
  by (cases "p w") (auto simp: attempt_def)








lemma documentFor_kept:
  assumes "documentFor E repo org now (w, c) = Some (Inr (Some d), (w', c'))"
  shows "oc_docs c' (cacheKey (r_name repo) org) = Some d"
proof -
  let ?k = "cacheKey (r_name repo) org"
  have f: "oc_docs c' ?k = Some d" if "fetch_document E repo org now ?k seen (w, c0) = Some (Inr (Some d), (w', c'))" for seen c0
    using that by (rule fetch_document_outcome) (auto simp: raise_mark_def)
  show ?thesis
  proof (cases "oc_docs c ?k")
    case None
    with assms have "fetch_document E repo org now ?k (mark c ?k) (w, c) = Some (Inr (Some d), (w', c'))"
      by (simp add: documentFor_def Let_def bindP_def readP_def)
    then show ?thesis by (rule f)
  next
    case (Some x)
    show ?thesis
    proof (cases "now < od_notAfter x")
      case True
      with Some assms show ?thesis by (auto simp: documentFor_def Let_def bindP_def readP_def retP_def)
    next
      case False
      with Some assms have "fetch_document E repo org now ?k (mark c ?k) (w, c\<lparr>oc_docs := (oc_docs c)(?k := None)\<rparr>)
          = Some (Inr (Some d), (w', c'))"
        by (simp add: documentFor_def Let_def bindP_def readP_def modifyCache_def)
      then show ?thesis by (rule f)
    qed
  qed
qed

lemma documentFor_hit:
  "oc_docs c (cacheKey (r_name repo) org) = Some d \<Longrightarrow> now < od_notAfter d \<Longrightarrow>
   documentFor E repo org now (w, c) = Some (Inr (Some d), (w, c))"
  by (simp add: documentFor_def Let_def bindP_def readP_def retP_def)









subsection \<open>A release, its documents and its repository\<close>

text \<open>A key verifies the signature that is its own PEM, and base64 is the identity; the world counts the
  requests for metadata, and the second one is answered with another text. The metadata that is signed is
  that of an older release.\<close>

definition demo_envelope :: "string \<Rightarrow> jtree" where
  "demo_envelope name =
     JObj [(''format'', JInt 1), (''root-key-id'', JStr ''olla''), (''payload'', JStr name), (''signature'', JStr ''S'')]"

definition demo_metadata :: jtree where
  "demo_metadata =
     JObj [(''name'', JStr ''acme.old''), (''version'', JStr ''0.1''), (''sha256'', JStr ''ab''), (''organization'', JStr ''acme'')]"

definition demo_keys :: "string \<Rightarrow> string \<Rightarrow> jtree" where
  "demo_keys issued until =
     JObj [(''organization'', JStr ''acme''), (''namespaces'', JArr [JStr ''acme'']),
       (''issued-at'', JStr issued), (''not-after'', JStr until),
       (''keys'', JArr [JObj [(''id'', JStr ''k1''), (''algorithm'', JStr ''ed25519''), (''public-key'', JStr ''K''),
          (''not-before'', JStr ''1970-01-01T00:00:00Z''), (''not-after'', JStr ''1970-03-01T00:00:00Z'')]])]"

definition demo_docs :: "string \<Rightarrow> jtree option" where
  "demo_docs = map_of
     [(''M'', demo_envelope ''m''), (''m'', demo_metadata),
      (''D'', demo_envelope ''d''), (''d'', demo_keys ''1970-01-01T00:00:00Z'' ''1970-02-01T00:00:00Z''),
      (''D2'', demo_envelope ''d2''), (''d2'', demo_keys ''1970-01-02T00:00:00Z'' ''1970-03-01T00:00:00Z'')]"

definition demo_crypto :: "(jtree, (string \<times> jtree) list) crypto" where
  "demo_crypto = \<lparr>cj = tree_json demo_docs, verifyPemBytes = (\<lambda>data sig pem. Some (sig = pem)),
     decodeBase64 = Some, printObject = (\<lambda>_. ''M'')\<rparr>"

definition demo_trust :: "(nat, jtree, (string \<times> jtree) list) trust_env" where
  "demo_trust = \<lparr>crypto = demo_crypto, shippedKey = demo_shipped, tiers = (\<lambda>_. []), trustedKeyFiles = (\<lambda>_. []),
     readBytes = (\<lambda>p _. Some ''bytes''), digestOf = (\<lambda>p _. ''sha256:ab''), legacyReleases = [],
     removeFile = (\<lambda>p w. w), clock = (\<lambda>_. 100)\<rparr>"

definition demo_repo :: "nat trust_repository" where
  "demo_repo = \<lparr>r_name = ''r'', listVersions = (\<lambda>n w. Some (Inr [], w)), fetch = (\<lambda>n v w. Some (Inr ''/f'', w)),
     fetchManifestJson = (\<lambda>n v w. Some (Inr None, w)),
     releaseMetadataJson = (\<lambda>n v w. Some (Inr (Some (if w = 0 then ''M'' else ''other'')), w + 1)),
     origin = ''o'', publishedChecksum = (\<lambda>n v w. Some (Inr None, w)), publishedSignature = (\<lambda>n v w. Some (Inr (Some ''K''), w)),
     organizationKeys = (\<lambda>org w. Some (Inr (Some (if w = 0 then ''D'' else ''D2'')), w)),
     repositoryKeys = (\<lambda>w. Some (Inr None, w)), advertisesRevocation = (\<lambda>w. Some (Inr False, w)),
     revocations = (\<lambda>w. Some (Inr None, w)), isFilesystem = False\<rparr>"





text \<open>The default policy asks for the publisher's own word, and the signed metadata decides whether there is one to
  ask for: without an organization in it a release is accepted with no signature on the archive.\<close>

definition demo_ownerless_trust :: "(nat, jtree, (string \<times> jtree) list) trust_env" where
  "demo_ownerless_trust = demo_trust\<lparr>crypto := demo_crypto\<lparr>cj := tree_json
     [''M'' \<mapsto> demo_envelope ''m'', ''m'' \<mapsto> JObj [(''name'', JStr ''acme.lib''), (''sha256'', JStr ''ab'')]]\<rparr>\<rparr>"

theorem ownerless_release_needs_no_publisher:
  "case verifyFetchedRelease demo_ownerless_trust (demo_repo\<lparr>publishedSignature := (\<lambda>n v w. Some (Inr None, w))\<rparr>)
       ''acme.lib'' ''1.0'' ''/f'' Publisher [] 100 (0, empty_cache) of
     Some (Inr out, _) \<Rightarrow> vr_fromSignedMetadata out \<and> vr_organization out = []
   | _ \<Rightarrow> False"
  by code_simp

subsection \<open>What the metadata decides\<close>

text \<open>C39: Nothing compares the name and the version that the signed metadata states with what was asked for:
  whatever release the repository is asked for, and whatever release the metadata it answers with is of, the digest and
  the owner that the fetch is then held to are those of that metadata, provided that a key in force signed it.\<close>

theorem metadata_of_another_release_accepted:
  assumes "roots_of E (r_name repo) s = Some (Inr ks, s1)" "delegationFor E repo now s1 = Some (Inr d, (w, c))"
    and "releaseMetadataJson repo name version w = Some (Inr (Some json), w')"
    and "loadReleaseMetadata (crypto E) json (case d of None \<Rightarrow> ks | Some x \<Rightarrow> delegated_verifiers x now) = Inr md" "signedByRoot md"
  shows "integrityOf E repo name version now s =
    Some (Inr (\<lparr>ri_sha256 = md_sha256 md, fromSignedMetadata = True, ri_organization = md_organization md,
      ri_rootKeyId = md_rootKeyId md, viaDelegation = d \<noteq> None, ri_retracted = md_retracted md,
      ri_retractedReason = md_retractedReason md\<rparr>, d), (w', c))"
proof -
  let ?ks = "case d of None \<Rightarrow> ks | Some x \<Rightarrow> delegated_verifiers x now"
  from loadReleaseMetadata_ok [OF assms(4)] assms(5) have m: "md_sha256 md \<noteq> []" "metadata_signed (crypto E) ?ks md" by simp_all
  then have "?ks \<noteq> []" by (auto simp: metadata_signed_def signed_object_def authentic_def)
  moreover have "attempt (releaseMetadataJson repo name version) (w, c) = Some (Inr (Inr (Some json)), (w', c))"
    using assms(3) by (simp add: attempt_def)
  ultimately show ?thesis
    using assms(1,2,4,5) m(1)
    by (cases d) (simp_all add: integrityOf_def releaseIntegrityFor_def Let_def bindP_def inDoc_def liftE_def retP_def no_integrity_def)
qed

lemma demo_keys_in_force:
  assumes "crypto E = C" "shippedKey E = demo_shipped" "tiers E = (\<lambda>_. [])" "r_name repo = ''r''"
    "repositoryKeys repo = (\<lambda>w. Some (Inr None, w))"
  shows "roots_of E (r_name repo) (w, c) = Some (Inr [demo_shipped], (w, c))"
    "delegationFor E repo now (w, empty_cache) = Some (Inr None, (w, empty_cache))"
proof -
  have "rootsFor (shippedKey E) (tiers E w) (r_name repo) = Inr [demo_shipped]"
    using assms by (simp add: rootsFor_def all_roots_def pinFor_def demo_shipped_def)
  then show "roots_of E (r_name repo) (w, c) = Some (Inr [demo_shipped], (w, c))"
    by (simp add: roots_of_Inr)
  show "delegationFor E repo now (w, empty_cache) = Some (Inr None, (w, empty_cache))"
    using assms by (simp add: delegationFor_def fetch_delegation_def Let_def bindP_def readP_def empty_cache_def call_def attempt_def retP_def)
qed

text \<open>The metadata of an older release is taken for that of the new one.\<close>

theorem metadata_of_another_release_accepted_witness:
  "\<exists>md i s. loadReleaseMetadata demo_crypto ''M'' [demo_shipped] = Inr md \<and> md_releaseName md = ''acme.old'' \<and>
     md_releaseVersion md = ''0.1'' \<and>
     integrityOf demo_trust demo_repo ''acme.lib'' ''1.0'' 100 (0, empty_cache) = Some (Inr (i, None), s) \<and>
     ri_sha256 i = md_sha256 md \<and> fromSignedMetadata i \<and> ri_organization i = ''acme''"
proof -
  have "case loadReleaseMetadata demo_crypto ''M'' [demo_shipped] of
      Inr md \<Rightarrow> signedByRoot md \<and> md_releaseName md = ''acme.old'' \<and> md_releaseVersion md = ''0.1'' \<and> md_organization md = ''acme''
    | Inl _ \<Rightarrow> False"
    by code_simp
  then obtain md where md: "loadReleaseMetadata demo_crypto ''M'' [demo_shipped] = Inr md" "signedByRoot md"
    "md_releaseName md = ''acme.old''" "md_releaseVersion md = ''0.1''" "md_organization md = ''acme''"
    by (auto split: sum.splits)
  have e: "crypto demo_trust = demo_crypto" "shippedKey demo_trust = demo_shipped" "tiers demo_trust = (\<lambda>_. [])"
    "r_name demo_repo = ''r''" "repositoryKeys demo_repo = (\<lambda>w. Some (Inr None, w))"
    by (simp_all add: demo_trust_def demo_repo_def)
  have j: "releaseMetadataJson demo_repo ''acme.lib'' ''1.0'' 0 = Some (Inr (Some ''M''), 1)" by (simp add: demo_repo_def)
  have l: "loadReleaseMetadata (crypto demo_trust) ''M'' (case None of None \<Rightarrow> [demo_shipped] | Some x \<Rightarrow> delegated_verifiers x 100) = Inr md"
    using md(1) e(1) by simp
  from metadata_of_another_release_accepted [OF demo_keys_in_force [OF e] j l md(2)] md show ?thesis by auto
qed

text \<open>The envelope that a verified fetch remembers comes from a second request for the metadata: what is
  stored and handed out as the checked one need not be metadata at all.\<close>

theorem remembered_envelope_unchecked:
  "(case verifying_fetch demo_trust demo_repo Publisher ''acme.lib'' ''1.0'' (0, empty_cache, Map.empty) of
      Some (Inr path, s) \<Rightarrow>
        (case verifying_releaseMetadataJson demo_repo ''acme.lib'' ''1.0'' s of
           Some (Inr (Some e), _) \<Rightarrow>
             (case loadReleaseMetadata demo_crypto e [demo_shipped] of Inl _ \<Rightarrow> True | Inr _ \<Rightarrow> False)
         | _ \<Rightarrow> False)
    | _ \<Rightarrow> False)"
  by code_simp

text \<open>The statement of revoked keys has protection against a rollback, when the caller names the newest
  one it has seen: then an older one is refused.\<close>

lemma check_fresh_rolled_back:
  "check_fresh what now na issued 0 = Inr () \<Longrightarrow> issued < seen \<Longrightarrow> 0 \<le> issued \<Longrightarrow>
   check_fresh what now na issued seen = Inl (InDocument what RolledBack)"
  by (auto simp: check_fresh_def split: if_splits)

lemma loadKeyRevocation_rolled_back:
  assumes "loadKeyRevocation C text d o1 now 0 = Inr stmt" "rev_issuedAt stmt < seen"
  shows "loadKeyRevocation C text d o1 now seen = Inl (InDocument Revocation RolledBack)"
proof -
  from assms(1) obtain env ob repo issued na rs rvs where
    v: "delegated_verifiers d now \<noteq> []"
    and b: "open_body C text (delegated_verifiers d now) Revocation = Inr (env, ob)"
    and t: "check_type (cj C) Revocation ob ''key-revocation'' = Inr ()"
    and o1: "check_origin (cj C) Revocation ob o1 = Inr repo"
    and i: "time_field (cj C) Revocation ob ''issued-at'' NoIssuedAt = Inr issued"
    and na: "time_field (cj C) Revocation ob ''not-after'' NoNotAfter = Inr na"
    and rvs: "getArray (cj C) ob ''revoked'' = Some rvs" and rs: "parse_revoked_list (cj C) rvs = Inr rs"
    and f: "check_fresh Revocation now na issued 0 = Inr ()" and s: "rev_issuedAt stmt = issued"
    by (auto simp: loadKeyRevocation_def Let_def elim!: bindE_Inr_cases split: if_splits option.splits)
  have "check_fresh Revocation now na issued seen = Inl (InDocument Revocation RolledBack)"
    using check_fresh_rolled_back [OF f] assms(2) s time_field_nonneg [OF i] by simp
  with v b t o1 i na rvs rs show ?thesis by (simp add: loadKeyRevocation_def Let_def)
qed

text \<open>A statement that was issued before the newest one seen is refused when the caller passes that
  mark; the check of an archive signature passes \<open>0\<close> and takes it.\<close>

theorem revocation_mark_decides:
  assumes "revocationFor E repo delegation now 0 s = Some (Inr (Some stmt), s')" "rev_issuedAt stmt < seen"
  shows "revocationFor E repo delegation now seen s = Some (Inl (OfDocument (InDocument Revocation RolledBack)), s')"
proof -
  obtain w c where s: "s = (w, c)" by (cases s)
  let ?rest = "\<lambda>d raw. case raw of Inl e \<Rightarrow> failP (RevocationNotFetched e) | Inr None \<Rightarrow> failP NoRevocationStatement
     | Inr (Some json) \<Rightarrow> bindP (inDoc (loadKeyRevocation (crypto E) json d (origin repo) now 0)) (\<lambda>rv. retP (Some rv))"
  from assms(1) obtain d w1 raw w2 where a: "advertisesRevocation repo w = Some (Inr True, w1)"
    and d: "delegation = Some d" and raw: "revocations repo w1 = Some (raw, w2)"
    and rest: "?rest d raw (w2, c) = Some (Inr (Some stmt), s')"
    unfolding s revocationFor_def
    by (auto simp: bindP_eq_Inr [of "call p" for p] bindP_eq_Inr [of "attempt p" for p] call_Inr attempt_Inr split: if_splits option.splits)
  from rest obtain json where j: "raw = Inr (Some json)" and l: "loadKeyRevocation (crypto E) json d (origin repo) now 0 = Inr stmt"
    and s': "s' = (w2, c)"
    by (auto simp: bindP_eq_Inr inDoc_Inr split: sum.splits option.splits)
  from raw j have r: "revocations repo w1 = Some (Inr (Some json), w2)" by simp
  from loadKeyRevocation_rolled_back [OF l assms(2)] a r show ?thesis
    by (simp add: s s' d revocationFor_def bindP_def call_def attempt_def inDoc_def liftE_def failP_def retP_def)
qed


definition demo_delegation :: RepositoryDelegation where
  "demo_delegation = \<lparr>del_repository = ''o'',
     del_keys = [\<lparr>sk_id = ''dk'', sk_algorithm = ''ed25519'', publicKeyPem = ''S'', sk_notBefore = 0, sk_notAfter = 1000\<rparr>],
     del_notAfter = 1000, del_issuedAt = 0, del_rootKeyId = ''olla''\<rparr>"

definition demo_statement_docs :: "string \<Rightarrow> jtree option" where
  "demo_statement_docs = map_of
     [(''R'', demo_envelope ''r''),
      (''r'', JObj [(''type'', JStr ''key-revocation''), (''repository'', JStr ''o''),
         (''issued-at'', JStr ''1970-01-01T00:00:00Z''), (''not-after'', JStr ''1970-02-01T00:00:00Z''), (''revoked'', JArr [])])]"

definition demo_statement_trust :: "(nat, jtree, (string \<times> jtree) list) trust_env" where
  "demo_statement_trust = demo_trust\<lparr>crypto := demo_crypto\<lparr>cj := tree_json demo_statement_docs\<rparr>\<rparr>"

definition demo_statement_repo :: "nat trust_repository" where
  "demo_statement_repo = demo_repo\<lparr>advertisesRevocation := (\<lambda>w. Some (Inr True, w)), revocations := (\<lambda>w. Some (Inr (Some ''R''), w))\<rparr>"

theorem revocation_mark_decides_witness:
  "(\<exists>stmt s. revocationFor demo_statement_trust demo_statement_repo (Some demo_delegation) 100 0 (0, empty_cache) =
      Some (Inr (Some stmt), s)) \<and>
   (\<exists>s. revocationFor demo_statement_trust demo_statement_repo (Some demo_delegation) 100 86400 (0, empty_cache) =
      Some (Inl (OfDocument (InDocument Revocation RolledBack)), s))"
proof -
  have "case revocationFor demo_statement_trust demo_statement_repo (Some demo_delegation) 100 0 (0, empty_cache) of
      Some (Inr (Some stmt), s) \<Rightarrow> rev_issuedAt stmt = 0 | _ \<Rightarrow> False"
    by code_simp
  then obtain stmt s where r: "revocationFor demo_statement_trust demo_statement_repo (Some demo_delegation) 100 0 (0, empty_cache) =
      Some (Inr (Some stmt), s)" and t: "rev_issuedAt stmt = 0"
    by (auto split: option.splits sum.splits)
  have "rev_issuedAt stmt < 86400" using t by simp
  with revocation_mark_decides [OF r this] r show ?thesis by blast
qed

text \<open>The first document expires; the second, issued a day later, replaces it.\<close>

theorem documents_never_roll_back_witness:
  "\<exists>s1 s2 d1 d2. documentFor demo_trust demo_repo ''acme'' 100 (0, empty_cache) = Some (Inr (Some d1), s1) \<and>
     documentFor demo_trust demo_repo ''acme'' 3000000 (1, snd s1) = Some (Inr (Some d2), s2) \<and>
     od_issuedAt d1 = 0 \<and> od_issuedAt d2 = 86400 \<and> od_issuedAt d1 \<le> od_issuedAt d2"
proof -
  have "case documentFor demo_trust demo_repo ''acme'' 100 (0, empty_cache) of
      Some (Inr (Some d1), s1) \<Rightarrow> od_issuedAt d1 = 0 \<and> od_notAfter d1 = 2678400
    | _ \<Rightarrow> False"
    by code_simp
  then obtain d1 w1 c1 where d1: "documentFor demo_trust demo_repo ''acme'' 100 (0, empty_cache) = Some (Inr (Some d1), (w1, c1))"
    and t1: "od_issuedAt d1 = 0" "od_notAfter d1 = 2678400"
    by (auto split: option.splits sum.splits)
  have n: "r_name demo_repo = ''r''" "CHR 0x1F \<notin> set (r_name demo_repo)" by (simp_all add: demo_repo_def)
  have k1: "oc_docs c1 (cacheKey ''r'' ''acme'') = Some d1" "mark c1 (cacheKey ''r'' ''acme'') = 0"
    using documentFor_kept [OF d1] documentFor_keeps [OF d1 empty_cache_inv n(2)] t1 n(1) by simp_all
  have "case loadOrgKeyDocument demo_crypto ''D2'' [demo_shipped] 3000000 0 of
      Inr d2 \<Rightarrow> organization d2 = ''acme'' \<and> od_issuedAt d2 = 86400 | Inl _ \<Rightarrow> False"
    by code_simp
  then obtain d2 where l2: "loadOrgKeyDocument demo_crypto ''D2'' [demo_shipped] 3000000 0 = Inr d2"
    and t2: "organization d2 = ''acme''" "od_issuedAt d2 = 86400"
    by (auto split: sum.splits)
  have e: "crypto demo_trust = demo_crypto" "rootsFor (shippedKey demo_trust) (tiers demo_trust w) ''r'' = Inr [demo_shipped]"
    "organizationKeys demo_repo ''acme'' 1 = Some (Inr (Some ''D2''), 1)" for w
    by (simp_all add: demo_trust_def demo_repo_def rootsFor_def all_roots_def pinFor_def demo_shipped_def)
  obtain s2 where d2: "documentFor demo_trust demo_repo ''acme'' 3000000 (1, c1) = Some (Inr (Some d2), s2)"
    using k1 l2 t1 t2 e by (simp add: documentFor_def fetch_document_def Let_def n(1) bindP_def readP_def modifyCache_def
      call_def attempt_def roots_of_def looking_def inDoc_def liftE_def retP_def mark_def)
  have "(key_step demo_trust)\<^sup>*\<^sup>* (w1, c1) (1, c1)" using key_step.World [of demo_trust w1 c1 1] by simp
  from documents_never_roll_back [OF rtranclp.rtrancl_refl n(2) d1 this d2] have "od_issuedAt d1 \<le> od_issuedAt d2" by simp
  with d1 d2 t1 t2 show ?thesis by (metis snd_conv)
qed

subsection \<open>The verifying repository\<close>

text \<open>C17: A fetch hands out the path of the inner repository exactly when the check accepts the file there;
  a refused download that the repository staged is removed, and nothing is remembered of it.\<close>

theorem fetch_verified_or_discarded:
  assumes "fetch inner name version w = Some (Inr path, w1)"
    and "verifying_fetch E inner policy name version (w, c, m) = Some (r, (w', c', m'))"
  shows "case r of
      Inr p \<Rightarrow> p = path \<and> (\<exists>out.
        verifyFetchedRelease E inner name version path policy (legacyReleases E) (clock E w1) (w1, c) = Some (Inr out, (w', c')) \<and>
        m' = (if envelopeJson out = [] then m else m(envelope_key name version \<mapsto> envelopeJson out)))
    | Inl e \<Rightarrow> m' = m \<and> (\<exists>w2.
        verifyFetchedRelease E inner name version path policy (legacyReleases E) (clock E w1) (w1, c) = Some (Inl e, (w2, c')) \<and>
        w' = (if isFilesystem inner then w2 else removeFile E path w2))"
proof -
  let ?v = "verifyFetchedRelease E inner name version path policy (legacyReleases E) (clock E w1) (w1, c)"
  have f: "call (fetch inner name version) (w, c, m) = Some (Inr path, (w1, c, m))"
    using assms(1) by (simp add: call_Inr)
  show ?thesis
  proof (cases ?v)
    case None
    with assms(2) f show ?thesis by (simp add: verifying_fetch_def bindP_def looking_def readP_def on_keys_def)
  next
    case (Some q)
    obtain x w2 c2 where q: "q = (x, w2, c2)" by (cases q)
    show ?thesis
    proof (cases x)
      case (Inl e)
      with assms(2) f Some q show ?thesis
        by (auto simp: verifying_fetch_def bindP_def looking_def readP_def on_keys_def on_world_def failP_def retP_def split: if_splits)
    next
      case (Inr out)
      with assms(2) f Some q show ?thesis
        by (auto simp: verifying_fetch_def bindP_def looking_def readP_def on_keys_def modifyCache_def retP_def split: if_splits)
    qed
  qed
qed

theorem fetch_verified_or_discarded_witness:
  "\<exists>out s. verifying_fetch demo_trust demo_repo Publisher ''acme.lib'' ''1.0'' (0, empty_cache, Map.empty) = Some (Inr ''/f'', s) \<and>
     verifyFetchedRelease demo_trust demo_repo ''acme.lib'' ''1.0'' ''/f'' Publisher [] 100 (0, empty_cache) =
       Some (Inr out, (fst s, fst (snd s)))"
proof -
  have "case verifying_fetch demo_trust demo_repo Publisher ''acme.lib'' ''1.0'' (0, empty_cache, Map.empty) of
      Some (Inr p, s) \<Rightarrow> p = ''/f'' | _ \<Rightarrow> False"
    by code_simp
  then obtain w' c' m' where r: "verifying_fetch demo_trust demo_repo Publisher ''acme.lib'' ''1.0'' (0, empty_cache, Map.empty) =
      Some (Inr ''/f'', (w', c', m'))"
    by (auto split: option.splits sum.splits)
  have f: "fetch demo_repo ''acme.lib'' ''1.0'' 0 = Some (Inr ''/f'', 0)" by (simp add: demo_repo_def)
  have "legacyReleases demo_trust = []" "clock demo_trust 0 = 100" by (simp_all add: demo_trust_def)
  with fetch_verified_or_discarded [OF f r] r show ?thesis by auto
qed

subsection \<open>The check answers\<close>

definition answers :: "('s, 'e, 'a) prog \<Rightarrow> bool" where
  "answers p \<longleftrightarrow> (\<forall>s. p s \<noteq> None)"

definition repository_answers :: "'w trust_repository \<Rightarrow> bool" where
  "repository_answers repo \<longleftrightarrow>
     (\<forall>n v. answers (releaseMetadataJson repo n v) \<and> answers (publishedChecksum repo n v) \<and>
        answers (publishedSignature repo n v)) \<and>
     (\<forall>org. answers (organizationKeys repo org)) \<and> answers (repositoryKeys repo) \<and>
     answers (advertisesRevocation repo) \<and> answers (revocations repo)"

lemma answers_bind [intro]: "answers p \<Longrightarrow> (\<And>x. answers (f x)) \<Longrightarrow> answers (bindP p f)"
  unfolding answers_def by (intro allI bindP_total) blast+

lemma answers_pure [intro!]:
  "answers (retP x)" "answers (failP e)" "answers (readP h)" "answers (inDoc d)" "answers (modifyCache f)" "answers (looking k)"
  by (auto simp: answers_def inDoc_def modifyCache_def looking_def)

lemma answers_attempt: "answers p \<Longrightarrow> answers (attempt p)"
  by (auto simp: answers_def attempt_def simp del: not_None_eq)

lemma answers_call: "answers p \<Longrightarrow> answers (call p)"
  unfolding call_def by (auto intro!: answers_bind answers_attempt split: sum.splits)

lemma answers_roots_of: "answers (roots_of E name)"
  unfolding roots_of_def by (auto intro!: answers_bind split: sum.splits)

lemmas answers_rules = answers_bind answers_call answers_attempt answers_roots_of

lemma answers_documentFor: "answers (organizationKeys repo org) \<Longrightarrow> answers (documentFor E repo org now)"
  unfolding documentFor_def fetch_document_def Let_def
  by (auto intro!: answers_rules split: option.splits)

lemma answers_integrityOf: "repository_answers repo \<Longrightarrow> answers (integrityOf E repo n v now)"
  unfolding integrityOf_def delegationFor_def fetch_delegation_def releaseIntegrityFor_def from_sidecar_def Let_def repository_answers_def
  by (auto intro!: answers_rules split: option.splits sum.splits)

lemma answers_checkArchiveSignature:
  "repository_answers repo \<Longrightarrow> answers (checkArchiveSignature E repo name path sig org d now)"
  unfolding checkArchiveSignature_def revocationFor_def check_trusted_keys_def repository_answers_def
  by (auto intro!: answers_rules answers_documentFor split: option.splits sum.splits prod.splits)

text \<open>The check returns an answer whenever the repository answers each request.\<close>

theorem verifyFetchedRelease_returns:
  assumes "repository_answers repo"
  shows "verifyFetchedRelease E repo name version path policy legacy now s \<noteq> None"
proof -
  have "answers (verifyFetchedRelease E repo name version path policy legacy now)"
    unfolding verifyFetchedRelease_def check_legacy_def check_digest_def require_publisher_def Let_def
    using assms
    by (auto intro!: answers_rules answers_integrityOf answers_documentFor answers_checkArchiveSignature
        simp: repository_answers_def split: option.splits prod.splits)
  then show ?thesis unfolding answers_def by blast
qed

theorem verifyFetchedRelease_returns_witness:
  "verifyFetchedRelease demo_trust demo_repo ''acme.lib'' ''1.0'' ''/f'' Checksum [] 100 (0, empty_cache) \<noteq> None"
proof -
  have "repository_answers demo_repo" by (simp add: repository_answers_def answers_def demo_repo_def)
  then show ?thesis by (rule verifyFetchedRelease_returns)
qed






text \<open>Calls that overlap: a request that began on an empty cache is answered with the first document
  after another call has stored the second one. The mark that it compares with is the one that it read
  before, so the older document replaces the newer in the cache and is handed out from then on.\<close>

theorem overlapping_fetches_roll_back:
  "\<exists>c2 d2 c1 d1.
     documentFor demo_trust demo_repo ''acme'' 100 (1, empty_cache) = Some (Inr (Some d2), (1, c2)) \<and>
     fetch_document demo_trust demo_repo ''acme'' 100 (cacheKey ''r'' ''acme'') (mark empty_cache (cacheKey ''r'' ''acme'')) (0, c2) =
       Some (Inr (Some d1), (0, c1)) \<and>
     documentFor demo_trust demo_repo ''acme'' 200 (1, c1) = Some (Inr (Some d1), (1, c1)) \<and>
     od_issuedAt d1 < od_issuedAt d2"
proof -
  have n: "r_name demo_repo = ''r''" by (simp add: demo_repo_def)
  have "case loadOrgKeyDocument demo_crypto ''D2'' [demo_shipped] 100 0 of
      Inr d2 \<Rightarrow> organization d2 = ''acme'' \<and> od_issuedAt d2 = 86400 | Inl _ \<Rightarrow> False"
    by code_simp
  then obtain d2 where l2: "loadOrgKeyDocument demo_crypto ''D2'' [demo_shipped] 100 0 = Inr d2"
    and t2: "organization d2 = ''acme''" "od_issuedAt d2 = 86400"
    by (auto split: sum.splits)
  have "case loadOrgKeyDocument demo_crypto ''D'' [demo_shipped] 100 0 of
      Inr d1 \<Rightarrow> organization d1 = ''acme'' \<and> od_issuedAt d1 = 0 \<and> od_notAfter d1 = 2678400 | Inl _ \<Rightarrow> False"
    by code_simp
  then obtain d1 where l1: "loadOrgKeyDocument demo_crypto ''D'' [demo_shipped] 100 0 = Inr d1"
    and t1: "organization d1 = ''acme''" "od_issuedAt d1 = 0" "od_notAfter d1 = 2678400"
    by (auto split: sum.splits)
  have e: "crypto demo_trust = demo_crypto" "rootsFor (shippedKey demo_trust) (tiers demo_trust w) ''r'' = Inr [demo_shipped]"
    "organizationKeys demo_repo ''acme'' 1 = Some (Inr (Some ''D2''), 1)"
    "organizationKeys demo_repo ''acme'' 0 = Some (Inr (Some ''D''), 0)" for w
    by (simp_all add: demo_trust_def demo_repo_def rootsFor_def all_roots_def pinFor_def demo_shipped_def)
  note run = documentFor_def fetch_document_def Let_def n bindP_def readP_def modifyCache_def
      call_def attempt_def roots_of_def looking_def inDoc_def liftE_def retP_def mark_def
  obtain c2 where s2: "documentFor demo_trust demo_repo ''acme'' 100 (1, empty_cache) = Some (Inr (Some d2), (1, c2))"
    using l2 t2 e by (simp add: run empty_cache_def)
  obtain c1 where s1: "fetch_document demo_trust demo_repo ''acme'' 100 (cacheKey ''r'' ''acme'')
      (mark empty_cache (cacheKey ''r'' ''acme'')) (0, c2) = Some (Inr (Some d1), (0, c1))"
    and c1: "oc_docs c1 (cacheKey ''r'' ''acme'') = Some d1"
    using l1 t1 e by (simp add: run empty_cache_def raise_mark_def)
  have "documentFor demo_trust demo_repo ''acme'' 200 (1, c1) = Some (Inr (Some d1), (1, c1))"
    using c1 t1(3) by (intro documentFor_hit) (simp_all add: n)
  with s1 s2 t1 t2 show ?thesis by auto
qed

end
