(* ===== verification/Lang_Types.thy ===== *)
theory Lang_Types
  imports Cajeta_Prelude
begin

text \<open>
  What the ownership checks of the compiler look at: the resolved type of an expression
  (\<open>type/CajetaType.h\<close> and its subclasses, as the answers of the casts and flags that the checks
  ask for), a local variable or formal (\<open>field/Field.h\<close>, \<open>field/ParameterField.h\<close>), and a method that
  a call resolves to (\<open>method/Method.h\<close>). A pointer that may be null is an \<open>option\<close>.
\<close>

record class_info =
  ci_qname :: "(string \<times> string) option"
  isInterface :: bool
  isValueType :: bool
  isSharedCapableValue :: bool

text \<open>The casts to \<open>CajetaArray\<close>, \<open>CajetaView\<close>, \<open>CajetaClass\<close> and \<open>CajetaFunctionType\<close>; of a
  function type, whether the return is \<open>#\<close> and the type of the return.\<close>

datatype ctype = CType
  (primitiveFlag: bool) (asArrayType: bool) (asView: bool) (asClass: "class_info option")
  (asFunction: "(bool \<times> ctype option) option")

text \<open>The package and the name of \<open>cajeta.lang.String\<close>.\<close>

definition isLangStringClass :: "class_info \<Rightarrow> bool" where
  "isLangStringClass cls \<longleftrightarrow> ci_qname cls = Some (''cajeta.lang'', ''String'')"

definition isLangString :: "ctype option \<Rightarrow> bool" where
  "isLangString t = (case Option.bind t asClass of None \<Rightarrow> False | Some cls \<Rightarrow> isLangStringClass cls)"

definition isOwnershipLessScalar :: "ctype option \<Rightarrow> bool" where
  "isOwnershipLessScalar t = (case t of None \<Rightarrow> False | Some ty \<Rightarrow> primitiveFlag ty \<and> \<not> asArrayType ty)"

definition isReferenceCast :: "ctype option \<Rightarrow> bool" where
  "isReferenceCast dt =
     (case dt of None \<Rightarrow> False
      | Some ty \<Rightarrow> asView ty \<or> (case asClass ty of None \<Rightarrow> False | Some dc \<Rightarrow> \<not> isValueType dc))"

text \<open>A function type returns through a slot of the caller.\<close>

definition usesSret :: "bool \<Rightarrow> ctype option \<Rightarrow> bool" where
  "usesSret returnsOwnership rt =
     (if returnsOwnership then False
      else case rt of None \<Rightarrow> False
        | Some ty \<Rightarrow>
            (case asClass ty of None \<Rightarrow> False
             | Some cls \<Rightarrow> \<not> isInterface cls \<and> \<not> asArrayType ty \<and> \<not> asView ty))"

text \<open>A local or a formal. Of a \<open>ParameterField\<close>, its formal with \<open>isTransferred\<close> and
  \<open>isBorrowOnly\<close>, when it has one; of the slots that lend a local, the index (\<open>-1\<close> if not constant).\<close>

record local =
  l_name :: string
  l_type :: "ctype option"
  dropEntry :: bool
  runtimeConditionalOwner :: bool
  entryMayBeStale :: bool
  stackInstance :: bool
  callBorrowOrigin :: string
  paramBorrowOrigin :: string
  l_formal :: "(bool \<times> bool) option option"
  slotBorrowedLocals :: "(int \<times> string) list"

definition isFormal :: "local \<Rightarrow> bool" where
  "isFormal f \<longleftrightarrow> l_formal f \<noteq> None"

definition formalTransferred :: "local \<Rightarrow> bool" where
  "formalTransferred f = (case l_formal f of Some (Some (t, b)) \<Rightarrow> t | _ \<Rightarrow> False)"

definition formalBorrowOnly :: "local \<Rightarrow> bool" where
  "formalBorrowOnly f = (case l_formal f of Some (Some (t, b)) \<Rightarrow> b | _ \<Rightarrow> False)"

text \<open>Value types copy and shared-capable values share: neither has a title.\<close>

definition titleBearing :: "local \<Rightarrow> bool" where
  "titleBearing f = (case Option.bind (l_type f) asClass of None \<Rightarrow> False
     | Some cls \<Rightarrow> \<not> isValueType cls \<and> \<not> isSharedCapableValue cls)"

end
