(* ===== verification/Scope_State.thy ===== *)
theory Scope_State
  imports Lang_Types Dotted_Paths Std_Map
begin

text \<open>
  The bookkeeping of a lexical scope while its method is compiled (\<open>type/Scope.cpp\<close>): bindings,
  the names and paths that were moved out with the log of the moves, names without an assignment,
  live borrows, lends, and the checks over them. A scope with its ancestors is the list of their
  frames, innermost first; an operation takes the list and returns it changed. The scope that a
  \<open>moveLog\<close> entry points to is its level, which is the number of its ancestors. What concerns
  the LLVM allocations of the fields is left out.
\<close>

subsection \<open>Data\<close>

text \<open>A name that is present may be bound to null, which is what a failed lookup leaves behind.\<close>

record scope_frame =
  sf_fields :: "string \<rightharpoonup> local option"
  borrowedBindings :: "string set"
  transferSites :: "string \<rightharpoonup> string"
  moveLog :: "(nat \<times> string) list"
  borrowedPaths :: "string set"
  notYetAssigned :: "string set"
  liveBorrows :: "(string \<times> string set) list"
  launchBorrows :: "string set"
  lendEdges :: "string \<rightharpoonup> string set"
  callBorrowOrigins :: "string \<rightharpoonup> string"

type_synonym scopes = "scope_frame list"

datatype scope_error =
    AlreadyTransferred string string
  | BorrowOnlyParameter string
  | BelongsTo string string
  | BorrowFromCall string string

definition new_frame :: scope_frame where
  "new_frame = \<lparr>sf_fields = Map.empty, borrowedBindings = {}, transferSites = Map.empty, moveLog = [], borrowedPaths = {},
     notYetAssigned = {}, liveBorrows = [], launchBorrows = {}, lendEdges = Map.empty, callBorrowOrigins = Map.empty\<rparr>"

definition newScope :: "scopes \<Rightarrow> scopes" where
  "newScope parents = new_frame # parents"

text \<open>A change of the innermost frame.\<close>

definition here :: "(scope_frame \<Rightarrow> scope_frame) \<Rightarrow> scopes \<Rightarrow> scopes" where
  "here g s = (case s of [] \<Rightarrow> [] | f # fs \<Rightarrow> g f # fs)"

subsection \<open>Bindings\<close>

definition bound :: "string \<Rightarrow> scope_frame \<Rightarrow> bool" where
  "bound n f \<longleftrightarrow> sf_fields f n \<noteq> None"

definition containsField :: "string \<Rightarrow> scopes \<Rightarrow> bool" where
  "containsField n s = (case s of [] \<Rightarrow> False | f # _ \<Rightarrow> bound n f)"

definition put_field :: "local \<Rightarrow> scope_frame \<Rightarrow> scope_frame" where
  "put_field x f =
     (let n = l_name x in
      f\<lparr>sf_fields := (sf_fields f)(n \<mapsto> Some x), borrowedBindings := borrowedBindings f - {n},
        transferSites := (transferSites f)(n := None), lendEdges := (lendEdges f)(n := None),
        callBorrowOrigins := (callBorrowOrigins f)(n := None),
        borrowedPaths := {p \<in> borrowedPaths f. \<not> (p = n \<or> prefix (n @ ''.'') p)}\<rparr>)"

definition putField :: "local \<Rightarrow> scopes \<Rightarrow> scopes" where
  "putField x = here (put_field x)"

text \<open>The lookup indexes the map, so it enters a null binding into every frame that it passes.\<close>

fun getField :: "string \<Rightarrow> scopes \<Rightarrow> local option \<times> scopes" where
  "getField n [] = (None, [])"
| "getField n (f # fs) =
     (case sf_fields f n of
        Some (Some x) \<Rightarrow> (Some x, f # fs)
      | _ \<Rightarrow>
          (let f' = f\<lparr>sf_fields := (sf_fields f)(n \<mapsto> None)\<rparr>; (r, fs') = getField n fs in (r, f' # fs')))"

definition lookup :: "string \<Rightarrow> scopes \<Rightarrow> local option" where
  "lookup n s = fst (getField n s)"

definition localBinding :: "string \<Rightarrow> scopes \<Rightarrow> local option" where
  "localBinding n s = (case s of [] \<Rightarrow> None | f # _ \<Rightarrow> (case sf_fields f n of Some r \<Rightarrow> r | None \<Rightarrow> None))"

definition restoreBinding :: "string \<Rightarrow> local option \<Rightarrow> scopes \<Rightarrow> scopes" where
  "restoreBinding n prior s =
     (case prior of None \<Rightarrow> s | Some x \<Rightarrow> here (\<lambda>f. f\<lparr>sf_fields := (sf_fields f)(n \<mapsto> Some x)\<rparr>) s)"

text \<open>The frame that declares a name, as the level of it, or the innermost one.\<close>

fun declaring :: "string \<Rightarrow> scopes \<Rightarrow> nat option" where
  "declaring n [] = None"
| "declaring n (f # fs) = (if bound n f then Some (length fs) else declaring n fs)"

definition target_of :: "string \<Rightarrow> scopes \<Rightarrow> nat" where
  "target_of n s = (case declaring n s of Some l \<Rightarrow> l | None \<Rightarrow> length s - 1)"

definition at_level :: "nat \<Rightarrow> (scope_frame \<Rightarrow> scope_frame) \<Rightarrow> scopes \<Rightarrow> scopes" where
  "at_level l g s = s[length s - 1 - l := g (s ! (length s - 1 - l))]"

definition frame_at :: "nat \<Rightarrow> scopes \<Rightarrow> scope_frame" where
  "frame_at l s = s ! (length s - 1 - l)"

subsection \<open>Moves\<close>

fun isBorrow :: "string \<Rightarrow> scopes \<Rightarrow> bool" where
  "isBorrow n [] = False"
| "isBorrow n (f # fs) =
     (if n \<in> borrowedBindings f then True else if bound n f then False else isBorrow n fs)"

fun transferSiteOf :: "string \<Rightarrow> scopes \<Rightarrow> string" where
  "transferSiteOf n [] = []"
| "transferSiteOf n (f # fs) = (case transferSites f n of Some t \<Rightarrow> t | None \<Rightarrow> transferSiteOf n fs)"

definition log_move :: "nat \<Rightarrow> string \<Rightarrow> scope_frame \<Rightarrow> scope_frame" where
  "log_move l n f = f\<lparr>moveLog := moveLog f @ [(l, n)]\<rparr>"

text \<open>The mark on a level, with the log in the frame that the operation is called on.\<close>

definition mark_moved :: "nat \<Rightarrow> string \<Rightarrow> string \<Rightarrow> scopes \<Rightarrow> scopes" where
  "mark_moved l n note s =
     (let s1 = (if n \<in> borrowedBindings (frame_at l s) then s
                else here (log_move l n) (at_level l (\<lambda>f. f\<lparr>borrowedBindings := insert n (borrowedBindings f)\<rparr>) s))
      in if note = [] then s1 else at_level l (\<lambda>f. f\<lparr>transferSites := (transferSites f)(n \<mapsto> note)\<rparr>) s1)"

definition demoteToBorrow :: "string \<Rightarrow> string \<Rightarrow> scopes \<Rightarrow> scopes" where
  "demoteToBorrow n note s = mark_moved (target_of n s) n note s"

definition moveLogSize :: "scopes \<Rightarrow> nat" where
  "moveLogSize s = (case s of [] \<Rightarrow> 0 | f # _ \<Rightarrow> length (moveLog f))"

definition unmark :: "string \<Rightarrow> scope_frame \<Rightarrow> scope_frame" where
  "unmark n f = f\<lparr>borrowedBindings := borrowedBindings f - {n}, transferSites := (transferSites f)(n := None)\<rparr>"

text \<open>The loop that pops the log, from its end to the mark.\<close>

definition retractMovesSince :: "nat \<Rightarrow> scopes \<Rightarrow> scopes" where
  "retractMovesSince k s =
     (case s of [] \<Rightarrow> []
      | f # _ \<Rightarrow>
          here (\<lambda>f. f\<lparr>moveLog := take k (moveLog f)\<rparr>)
            (fold (\<lambda>(l, n). at_level l (unmark n)) (rev (drop k (moveLog f))) s))"

definition snapshotMovesSince :: "nat \<Rightarrow> scopes \<Rightarrow> (nat \<times> string \<times> string) list" where
  "snapshotMovesSince k s =
     (case s of [] \<Rightarrow> []
      | f # _ \<Rightarrow> map (\<lambda>(l, n). (l, n, case transferSites (frame_at l s) n of Some t \<Rightarrow> t | None \<Rightarrow> [])) (drop k (moveLog f)))"

definition reapplyMoves :: "(nat \<times> string \<times> string) list \<Rightarrow> scopes \<Rightarrow> scopes" where
  "reapplyMoves = fold (\<lambda>(l, n, note). mark_moved l n note)"

fun restoreOwnership :: "string \<Rightarrow> scopes \<Rightarrow> scopes" where
  "restoreOwnership n [] = []"
| "restoreOwnership n (f # fs) =
     (if n \<in> borrowedBindings f then unmark n f # fs else f # restoreOwnership n fs)"

subsection \<open>Paths\<close>

definition first_segment :: "string \<Rightarrow> string" where
  "first_segment p = takeWhile (\<lambda>c. c \<noteq> CHR ''.'') p"

definition demotePathToBorrow :: "string \<Rightarrow> scopes \<Rightarrow> scopes" where
  "demotePathToBorrow path s =
     (if path = [] then s
      else at_level (target_of (first_segment path) s) (\<lambda>f. f\<lparr>borrowedPaths := insert path (borrowedPaths f)\<rparr>) s)"

text \<open>The prefixes of a path up to each dot, and the path itself.\<close>

fun path_prefixes_from :: "string \<Rightarrow> string \<Rightarrow> string list" where
  "path_prefixes_from acc [] = [acc]"
| "path_prefixes_from acc (c # cs) =
     (if c = CHR ''.'' then acc # path_prefixes_from (acc @ [c]) cs else path_prefixes_from (acc @ [c]) cs)"

definition path_prefixes :: "string \<Rightarrow> string list" where
  "path_prefixes p = path_prefixes_from [] p"

definition path_moved_in :: "string \<Rightarrow> scope_frame \<Rightarrow> bool" where
  "path_moved_in path f \<longleftrightarrow>
     (\<exists>p \<in> set (path_prefixes path). p \<in> borrowedPaths f) \<or> first_segment path \<in> borrowedBindings f"

definition isPathBorrow :: "string \<Rightarrow> scopes \<Rightarrow> bool" where
  "isPathBorrow path s \<longleftrightarrow> (\<exists>f \<in> set s. path_moved_in path f)"

subsection \<open>Definite assignment\<close>

definition markNotYetAssigned :: "string \<Rightarrow> scopes \<Rightarrow> scopes" where
  "markNotYetAssigned n = here (\<lambda>f. f\<lparr>notYetAssigned := insert n (notYetAssigned f)\<rparr>)"

fun markAssigned :: "string \<Rightarrow> scopes \<Rightarrow> scopes" where
  "markAssigned n [] = []"
| "markAssigned n (f # fs) =
     (if n \<in> notYetAssigned f then f\<lparr>notYetAssigned := notYetAssigned f - {n}\<rparr> # fs else f # markAssigned n fs)"

definition isNotYetAssigned :: "string \<Rightarrow> scopes \<Rightarrow> bool" where
  "isNotYetAssigned n s \<longleftrightarrow> (\<exists>f \<in> set s. n \<in> notYetAssigned f)"

definition snapshotNotYetAssigned :: "scopes \<Rightarrow> string set" where
  "snapshotNotYetAssigned s = (case s of [] \<Rightarrow> {} | f # _ \<Rightarrow> notYetAssigned f)"

definition restoreNotYetAssigned :: "string set \<Rightarrow> scopes \<Rightarrow> scopes" where
  "restoreNotYetAssigned a = here (\<lambda>f. f\<lparr>notYetAssigned := a\<rparr>)"

definition mergeNotYetAssigned :: "string set \<Rightarrow> scopes \<Rightarrow> scopes" where
  "mergeNotYetAssigned a = here (\<lambda>f. f\<lparr>notYetAssigned := notYetAssigned f \<union> a\<rparr>)"

subsection \<open>Borrows and lends\<close>

definition recordLiveBorrow :: "string \<Rightarrow> string \<Rightarrow> scopes \<Rightarrow> scopes" where
  "recordLiveBorrow borrower path s =
     (if path = [] \<or> borrower = [] then s
      else here (\<lambda>f. f\<lparr>liveBorrows := map_put path
        (insert borrower (case map_of (liveBorrows f) path of Some b \<Rightarrow> b | None \<Rightarrow> {})) (liveBorrows f)\<rparr>) s)"

definition invalidates :: "string \<Rightarrow> string \<Rightarrow> bool" where
  "invalidates writePath borrowed \<longleftrightarrow>
     borrowed = writePath \<or>
     (length writePath < length borrowed \<and> take (length writePath) borrowed = writePath \<and> borrowed ! length writePath = CHR ''.'') \<or>
     (length borrowed < length writePath \<and> take (length borrowed) writePath = borrowed \<and> writePath ! length borrowed = CHR ''.'')"

fun find_borrow :: "string \<Rightarrow> scopes \<Rightarrow> string" where
  "find_borrow w [] = []"
| "find_borrow w (f # fs) =
     (case find (invalidates w) (map fst (liveBorrows f)) of Some b \<Rightarrow> b | None \<Rightarrow> find_borrow w fs)"

definition findInvalidatingBorrow :: "string \<Rightarrow> scopes \<Rightarrow> string" where
  "findInvalidatingBorrow w s = (if w = [] then [] else find_borrow w s)"

fun borrowSourceOf :: "string \<Rightarrow> scopes \<Rightarrow> string" where
  "borrowSourceOf n [] = []"
| "borrowSourceOf n (f # fs) =
     (case find (\<lambda>(path, borrowers). n \<in> borrowers) (liveBorrows f) of
        Some (path, _) \<Rightarrow> path | None \<Rightarrow> borrowSourceOf n fs)"

definition recordLaunchBorrow :: "string \<Rightarrow> scopes \<Rightarrow> scopes" where
  "recordLaunchBorrow n s = (if n = [] then s else here (\<lambda>f. f\<lparr>launchBorrows := insert n (launchBorrows f)\<rparr>) s)"

definition isLaunchBorrowed :: "string \<Rightarrow> scopes \<Rightarrow> bool" where
  "isLaunchBorrowed n s \<longleftrightarrow> n \<noteq> [] \<and> (\<exists>f \<in> set s. n \<in> launchBorrows f)"

definition releaseLaunchBorrows :: "scopes \<Rightarrow> scopes" where
  "releaseLaunchBorrows = map (\<lambda>f. f\<lparr>launchBorrows := {}\<rparr>)"

definition recordLend :: "string \<Rightarrow> string \<Rightarrow> scopes \<Rightarrow> scopes" where
  "recordLend holder src s =
     at_level (target_of holder s)
       (\<lambda>f. f\<lparr>lendEdges := (lendEdges f)(holder \<mapsto> insert src (case lendEdges f holder of Some e \<Rightarrow> e | None \<Rightarrow> {}))\<rparr>) s"

fun lendsOf :: "string \<Rightarrow> scopes \<Rightarrow> string set" where
  "lendsOf holder [] = {}"
| "lendsOf holder (f # fs) = (case lendEdges f holder of Some e \<Rightarrow> e | None \<Rightarrow> lendsOf holder fs)"

definition recordCallBorrow :: "string \<Rightarrow> string \<Rightarrow> scopes \<Rightarrow> scopes" where
  "recordCallBorrow n origin s =
     at_level (target_of n s) (\<lambda>f. f\<lparr>callBorrowOrigins := (callBorrowOrigins f)(n \<mapsto> origin)\<rparr>) s"

fun callBorrowOriginOf :: "string \<Rightarrow> scopes \<Rightarrow> string" where
  "callBorrowOriginOf n [] = []"
| "callBorrowOriginOf n (f # fs) = (case callBorrowOrigins f n of Some t \<Rightarrow> t | None \<Rightarrow> callBorrowOriginOf n fs)"

subsection \<open>The checks\<close>

text \<open>Of a name that is marked as moved, transferred or a borrow with a known owner, \<open>#\<close> takes
  no title; \<open>#=\<close> (\<open>modeCarrying\<close>) claims none.\<close>

definition rejectTransferOfBorrow :: "string \<Rightarrow> bool \<Rightarrow> scopes \<Rightarrow> scope_error option \<times> scopes" where
  "rejectTransferOfBorrow n modeCarrying s =
     (case getField n s of
        (None, s') \<Rightarrow> (None, s')
      | (Some x, s') \<Rightarrow>
          if \<not> titleBearing x \<or> modeCarrying then (None, s')
          else if isBorrow n s' then (Some (AlreadyTransferred n (transferSiteOf n s')), s')
          else if isFormal x then (if formalBorrowOnly x then Some (BorrowOnlyParameter n) else None, s')
          else if \<not> dropEntry x \<and> borrowSourceOf n s' \<noteq> [] then (Some (BelongsTo n (borrowSourceOf n s')), s')
          else if callBorrowOrigin x \<noteq> [] then (Some (BorrowFromCall n (callBorrowOrigin x)), s')
          else (None, s'))"

definition holdsStaticTitle :: "string \<Rightarrow> scopes \<Rightarrow> bool" where
  "holdsStaticTitle n s =
     (case getField n s of
        (None, _) \<Rightarrow> False
      | (Some x, s') \<Rightarrow>
          \<not> isFormal x \<and> titleBearing x \<and> \<not> isBorrow n s' \<and> dropEntry x \<and> callBorrowOrigin x = [])"

section \<open>Frames by their level\<close>

definition moved_at :: "scopes \<Rightarrow> nat \<Rightarrow> string set" where
  "moved_at s l = borrowedBindings (frame_at l s)"

definition move_log :: "scopes \<Rightarrow> (nat \<times> string) list" where
  "move_log s = moveLog (frame_at (length s - 1) s)"

lemma here_at_level: "here g s = at_level (length s - 1) g s"
  by (cases s) (auto simp: here_def at_level_def)

lemma length_at_level [simp]: "length (at_level l g s) = length s"
  by (simp add: at_level_def)

lemma length_here [simp]: "length (here g s) = length s"
  by (simp add: here_at_level)

lemma frame_at_level:
  "l < length s \<Longrightarrow> l' < length s \<Longrightarrow> frame_at l' (at_level l g s) = (if l' = l then g (frame_at l s) else frame_at l' s)"
  by (auto simp: frame_at_def at_level_def nth_list_update)

lemma frame_at_here:
  "l' < length s \<Longrightarrow> frame_at l' (here g s) = (if l' = length s - 1 then g (frame_at l' s) else frame_at l' s)"
  by (auto simp: here_at_level frame_at_level)

lemma at_level_fields: "(\<And>f. p (g f) = p f) \<Longrightarrow> map p (at_level l g s) = map p s"
  unfolding at_level_def map_update by (metis length_map list_update_beyond list_update_id not_le nth_map)

lemma set_frames: "set s = (\<lambda>l. frame_at l s) ` {..<length s}"
proof -
  have "set s = (\<lambda>i. s ! i) ` {..<length s}" by (auto simp: in_set_conv_nth)
  also have "{..<length s} = (\<lambda>l. length s - 1 - l) ` {..<length s}"
    by (rule set_eqI, rule iffI, rule_tac x = "length s - 1 - x" in image_eqI) auto
  finally show ?thesis by (simp add: frame_at_def image_image)
qed

lemma move_log_size: "moveLogSize s = (if s = [] then 0 else length (move_log s))"
  by (auto simp: moveLogSize_def move_log_def frame_at_def split: list.splits)

lemma declaring_level: "declaring n s = Some l \<Longrightarrow> l < length s"
  by (induction s) (auto split: if_splits)

lemma target_level: "s \<noteq> [] \<Longrightarrow> target_of n s < length s"
  by (auto simp: target_of_def dest: declaring_level split: option.splits)

lemma declaring_cong: "map sf_fields s = map sf_fields s' \<Longrightarrow> declaring n s = declaring n s'"
  by (induction s s' rule: list_induct2') (auto simp: bound_def dest: map_eq_imp_length_eq)

lemma target_cong: "map sf_fields s = map sf_fields s' \<Longrightarrow> target_of n s = target_of n s'"
  using declaring_cong [of s s' n] map_eq_imp_length_eq [of sf_fields s sf_fields s'] by (simp add: target_of_def split: option.splits)

text \<open>What \<open>isBorrow\<close> answers depends on the bindings and on the marks of each level.\<close>

lemma isBorrow_cong:
  "map sf_fields s = map sf_fields s' \<Longrightarrow> map borrowedBindings s = map borrowedBindings s' \<Longrightarrow> isBorrow n s = isBorrow n s'"
  by (induction s s' rule: list_induct2') (auto simp: bound_def)

lemma isBorrow_levels:
  "isBorrow n s \<longleftrightarrow> (\<exists>l < length s. n \<in> moved_at s l \<and> \<not> (\<exists>l' < length s. l < l' \<and> bound n (frame_at l' s)))"
proof (induction s)
  case (Cons f fs)
  have up: "l < length fs \<Longrightarrow> frame_at l (f # fs) = frame_at l fs" for l
    by (simp add: frame_at_def nth_Cons')
  have top: "frame_at (length fs) (f # fs) = f" by (simp add: frame_at_def)
  have ex: "(\<exists>l < length (f # fs). P l) \<longleftrightarrow> P (length fs) \<or> (\<exists>l < length fs. P l)" for P
    by (auto simp: less_Suc_eq)
  show ?case
    unfolding ex moved_at_def using Cons.IH by (auto simp: up top moved_at_def)
qed simp

section \<open>Marks, their log and the retraction\<close>

lemma mark_length [simp]: "length (mark_moved l n w s) = length s"
  by (simp add: mark_moved_def Let_def)

lemma mark_fields [simp]: "map sf_fields (mark_moved l n w s) = map sf_fields s"
  by (simp add: mark_moved_def Let_def here_at_level at_level_fields log_move_def)

lemma mark_moved_at:
  "l < length s \<Longrightarrow> l' < length s \<Longrightarrow>
   moved_at (mark_moved l n w s) l' = (if l' = l then insert n (moved_at s l') else moved_at s l')"
  by (auto simp: moved_at_def mark_moved_def Let_def frame_at_level frame_at_here log_move_def)

lemma mark_log:
  "l < length s \<Longrightarrow> move_log (mark_moved l n w s) = move_log s @ (if n \<in> moved_at s l then [] else [(l, n)])"
  by (auto simp: moved_at_def move_log_def mark_moved_def Let_def frame_at_level frame_at_here log_move_def)

text \<open>The marks of \<open>s\<close> are those of \<open>b\<close> and the ones that the log of \<open>s\<close> has after \<open>k\<close> entries.\<close>

definition logged_since :: "nat \<Rightarrow> scopes \<Rightarrow> scopes \<Rightarrow> bool" where
  "logged_since k b s \<longleftrightarrow>
     s \<noteq> [] \<and> map sf_fields s = map sf_fields b \<and> k \<le> length (move_log s) \<and> take k (move_log s) = take k (move_log b) \<and>
     (\<forall>(l, n) \<in> set (drop k (move_log s)). l < length s \<and> n \<notin> moved_at b l) \<and>
     (\<forall>l < length s. moved_at s l = moved_at b l \<union> {n. (l, n) \<in> set (drop k (move_log s))})"

lemma logged_since_length: "logged_since k b s \<Longrightarrow> length s = length b"
  by (auto simp: logged_since_def dest: map_eq_imp_length_eq)

lemma logged_since_start: "b \<noteq> [] \<Longrightarrow> logged_since (moveLogSize b) b b"
  by (simp add: logged_since_def move_log_size)

lemma logged_since_mark:
  assumes s: "logged_since k b s" and l: "l < length s"
  shows "logged_since k b (mark_moved l n w s)"
proof -
  have nb: "(l, n) \<in> set (drop k (move_log s)) \<or> n \<notin> moved_at b l \<or> n \<in> moved_at s l"
    using s l by (auto simp: logged_since_def)
  have "mark_moved l n w s \<noteq> []" using l mark_length [of l n w s] by (metis length_greater_0_conv less_nat_zero_code list.size(3))
  moreover have "drop k (move_log (mark_moved l n w s)) = drop k (move_log s) @ (if n \<in> moved_at s l then [] else [(l, n)])"
    using s by (simp add: mark_log [OF l] logged_since_def)
  moreover have "take k (move_log (mark_moved l n w s)) = take k (move_log b)"
    using s by (simp add: mark_log [OF l] logged_since_def)
  moreover have "k \<le> length (move_log (mark_moved l n w s))"
    using s by (simp add: mark_log [OF l] logged_since_def)
  moreover have "n \<notin> moved_at s l \<Longrightarrow> n \<notin> moved_at b l"
    using s l by (auto simp: logged_since_def)
  ultimately show ?thesis
    using s l unfolding logged_since_def by (auto simp: mark_moved_at split: if_splits)
qed

definition demotes :: "(string \<times> string) list \<Rightarrow> scopes \<Rightarrow> scopes" where
  "demotes ms s = fold (\<lambda>(n, w). demoteToBorrow n w) ms s"

lemma demotes_simps [simp]:
  "demotes [] s = s" "demotes ((n, w) # ms) s = demotes ms (demoteToBorrow n w s)"
  by (simp_all add: demotes_def)

lemma logged_since_demotes: "logged_since k b s \<Longrightarrow> logged_since k b (demotes ms s)"
proof (induction ms arbitrary: s)
  case (Cons m ms)
  obtain n w where m: "m = (n, w)" by (cases m)
  have "s \<noteq> []" using Cons.prems by (simp add: logged_since_def)
  then have "logged_since k b (demoteToBorrow n w s)"
    unfolding demoteToBorrow_def by (intro logged_since_mark Cons.prems target_level)
  then show ?case using Cons.IH by (simp add: m)
qed simp

lemma moved_at_unmarks:
  "(\<forall>(l, n) \<in> set xs. l < length s) \<Longrightarrow> l' < length s \<Longrightarrow>
   moved_at (fold (\<lambda>(l, n). at_level l (unmark n)) xs s) l' = moved_at s l' - {n. (l', n) \<in> set xs}"
proof (induction xs arbitrary: s)
  case (Cons x xs)
  then show ?case
    by (cases x) (auto simp: moved_at_def frame_at_level unmark_def)
qed simp

lemma unmarks_fields [simp]: "map sf_fields (fold (\<lambda>(l, n). at_level l (unmark n)) xs s) = map sf_fields s"
  by (induction xs arbitrary: s) (auto simp: at_level_fields unmark_def)

lemma unmarks_length [simp]: "length (fold (\<lambda>(l, n). at_level l (unmark n)) xs s) = length s"
  by (induction xs arbitrary: s) auto

lemma retract_eq:
  "s \<noteq> [] \<Longrightarrow> retractMovesSince k s = here (\<lambda>f. f\<lparr>moveLog := take k (moveLog f)\<rparr>)
     (fold (\<lambda>(l, n). at_level l (unmark n)) (rev (drop k (move_log s))) s)"
  by (cases s) (simp_all add: retractMovesSince_def move_log_def frame_at_def)

lemma retract_fields [simp]: "map sf_fields (retractMovesSince k s) = map sf_fields s"
  by (cases "s = []") (simp_all add: retract_eq here_at_level at_level_fields, simp add: retractMovesSince_def)

lemma retract_length [simp]: "length (retractMovesSince k s) = length s"
  using retract_fields [of k s] map_eq_imp_length_eq by blast

lemma levels_eq:
  "length s = length s' \<Longrightarrow> (\<And>l. l < length s' \<Longrightarrow> moved_at s l = moved_at s' l) \<Longrightarrow> map borrowedBindings s = map borrowedBindings s'"
proof (rule nth_equalityI)
  fix i assume e: "length s = length s'" "\<And>l. l < length s' \<Longrightarrow> moved_at s l = moved_at s' l" and "i < length (map borrowedBindings s)"
  then show "map borrowedBindings s ! i = map borrowedBindings s' ! i"
    using e(2) [of "length s' - 1 - i"] by (simp add: moved_at_def frame_at_def)
qed simp

lemma retract_logged:
  assumes s: "logged_since k b s"
  shows "map borrowedBindings (retractMovesSince k s) = map borrowedBindings b"
proof (rule levels_eq)
  show "length (retractMovesSince k s) = length b" using logged_since_length [OF s] by simp
  fix l assume l: "l < length b"
  have "s \<noteq> []" "\<forall>(l, n) \<in> set (rev (drop k (move_log s))). l < length s" using s by (auto simp: logged_since_def)
  with l show "moved_at (retractMovesSince k s) l = moved_at b l"
    using s logged_since_length [OF s]
    by (auto simp: retract_eq moved_at_def frame_at_here moved_at_unmarks [unfolded moved_at_def] logged_since_def [unfolded moved_at_def])
qed

lemma demote_fields [simp]: "map sf_fields (demoteToBorrow n w s) = map sf_fields s"
  by (simp add: demoteToBorrow_def)

lemma demotes_fields [simp]: "map sf_fields (demotes ms s) = map sf_fields s"
  by (induction ms arbitrary: s) auto

lemma demotes_length [simp]: "length (demotes ms s) = length s"
  using demotes_fields [of ms s] map_eq_imp_length_eq by blast

lemma demotes_Nil [simp]: "demotes ms [] = []"
  by (metis demotes_length length_0_conv)

lemma demotes_moved_at:
  "l < length s \<Longrightarrow> moved_at (demotes ms s) l = moved_at s l \<union> {n \<in> fst ` set ms. target_of n s = l}"
proof (induction ms arbitrary: s)
  case (Cons m ms)
  obtain n w where m: "m = (n, w)" by (cases m)
  have t: "target_of n' (demoteToBorrow n w s) = target_of n' s" for n'
    by (rule target_cong) simp
  have l: "length (demoteToBorrow n w s) = length s" by (simp add: demoteToBorrow_def)
  have "target_of n s < length s" using Cons.prems by (intro target_level) auto
  then have "moved_at (demoteToBorrow n w s) l = (if l = target_of n s then insert n (moved_at s l) else moved_at s l)"
    unfolding demoteToBorrow_def using Cons.prems by (rule mark_moved_at)
  then show ?case using Cons.IH [of "demoteToBorrow n w s"] Cons.prems by (auto simp: m t l)
qed simp

lemma reapply_fields [simp]: "map sf_fields (reapplyMoves xs s) = map sf_fields s"
  unfolding reapplyMoves_def by (induction xs arbitrary: s) auto

lemma reapply_moved_at:
  "(\<forall>(l, n, w) \<in> set xs. l < length s) \<Longrightarrow> l' < length s \<Longrightarrow>
   moved_at (reapplyMoves xs s) l' = moved_at s l' \<union> {n. \<exists>w. (l', n, w) \<in> set xs}"
  unfolding reapplyMoves_def
proof (induction xs arbitrary: s)
  case (Cons x xs)
  then show ?case by (cases x) (auto simp: mark_moved_at)
qed simp

lemma snapshot_log:
  "s \<noteq> [] \<Longrightarrow> (\<exists>w. (l, n, w) \<in> set (snapshotMovesSince k s)) \<longleftrightarrow> (l, n) \<in> set (drop k (move_log s))"
  by (cases s) (force simp: snapshotMovesSince_def move_log_def frame_at_def)+

text \<open>An arm that ends its path with a return takes back every move it made: after the retraction to
  the mark that was taken before it, each scope has the moved names that it had then.\<close>

theorem retract_undoes_moves:
  "map borrowedBindings (retractMovesSince (moveLogSize s) (demotes moves s)) = map borrowedBindings s"
proof (cases "s = []")
  case True
  then show ?thesis by (simp add: retractMovesSince_def)
next
  case False
  then show ?thesis by (intro retract_logged logged_since_demotes logged_since_start)
qed

text \<open>The join of two arms that only move, in any number of scopes: with the moves of the first arm taken,
  retracted, and applied again after the second, a name is moved exactly if it is after one of the arms.\<close>

theorem moves_of_arms_joined:
  "isBorrow n (reapplyMoves (snapshotMovesSince (moveLogSize s) (demotes ts s))
       (demotes es (retractMovesSince (moveLogSize s) (demotes ts s)))) \<longleftrightarrow>
   isBorrow n (demotes ts s) \<or> isBorrow n (demotes es s)"
proof (cases "s = []")
  case True
  then show ?thesis by (simp add: retractMovesSince_def snapshotMovesSince_def reapplyMoves_def)
next
  case False
  let ?t = "demotes ts s" and ?k = "moveLogSize s"
  let ?r = "retractMovesSince ?k ?t" and ?x = "snapshotMovesSince ?k ?t"
  let ?j = "reapplyMoves ?x (demotes es ?r)"
  have ls: "logged_since ?k s ?t" by (intro logged_since_demotes logged_since_start False)
  have ne: "?t \<noteq> []" using False by (metis demotes_length length_0_conv)
  have len: "length ?j = length s" using reapply_fields [of ?x "demotes es ?r"] map_eq_imp_length_eq by fastforce
  have lv: "\<forall>(l, n, w) \<in> set ?x. l < length (demotes es ?r)"
    using ls snapshot_log [OF ne, of _ _ ?k] by (fastforce simp: logged_since_def)
  have m: "moved_at ?j l = moved_at ?t l \<union> moved_at (demotes es s) l" if l: "l < length s" for l
  proof -
    have "map borrowedBindings ?r = map borrowedBindings s" by (rule retract_logged [OF ls])
    then have r: "moved_at ?r l = moved_at s l"
      using l map_eq_imp_length_eq [of borrowedBindings ?r borrowedBindings s] unfolding moved_at_def frame_at_def
      by (metis diff_less length_greater_0_conv length_pos_if_in_set less_imp_diff_less list.size(3) nth_map not_less_zero zero_less_Suc diff_Suc_eq_diff_pred)
    have "target_of n' ?r = target_of n' s" for n' by (rule target_cong) simp
    then have "moved_at (demotes es ?r) l = moved_at (demotes es s) l"
      using l r by (simp add: demotes_moved_at)
    moreover have "moved_at ?t l = moved_at s l \<union> {n. (l, n) \<in> set (drop ?k (move_log ?t))}"
      using ls l by (simp add: logged_since_def)
    moreover have "moved_at s l \<subseteq> moved_at (demotes es s) l" using l by (auto simp: demotes_moved_at)
    ultimately show ?thesis using l reapply_moved_at [OF lv, of l] by (auto simp: snapshot_log [OF ne])
  qed
  have b: "bound n (frame_at l ?j) = bound n (frame_at l s)" "bound n (frame_at l ?t) = bound n (frame_at l s)"
       "bound n (frame_at l (demotes es s)) = bound n (frame_at l s)" if "l < length s" for l
  proof -
    have *: "bound n (frame_at l a) = bound n (frame_at l s)" if "map sf_fields a = map sf_fields s" for a
      using arg_cong [OF that, of "\<lambda>xs. xs ! (length s - 1 - l)"] map_eq_imp_length_eq [OF that] \<open>l < length s\<close>
      by (simp add: bound_def frame_at_def)
    show "bound n (frame_at l ?j) = bound n (frame_at l s)" "bound n (frame_at l ?t) = bound n (frame_at l s)"
       "bound n (frame_at l (demotes es s)) = bound n (frame_at l s)"
      by (rule *, simp)+
  qed
  show ?thesis
    unfolding isBorrow_levels len demotes_length by (simp add: m b cong: conj_cong) blast
qed

text \<open>An assignment gives a moved name its title back, and that is not in the log. So what is moved
  when the other arm starts is not what was moved before the first arm, and the join misses it too.\<close>

theorem restore_is_not_retracted:
  "\<exists>s n. let s0 = demoteToBorrow n [] s; k = moveLogSize s0; s1 = restoreOwnership n s0
     in isBorrow n s0 \<and> \<not> isBorrow n (retractMovesSince k s1) \<and>
        \<not> isBorrow n (reapplyMoves (snapshotMovesSince k s1) (retractMovesSince k s1))"
proof -
  let ?x = "\<lparr>l_name = ''x'', l_type = None, dropEntry = True, runtimeConditionalOwner = False, entryMayBeStale = False,
    stackInstance = False, callBorrowOrigin = [], paramBorrowOrigin = [], l_formal = None, slotBorrowedLocals = []\<rparr>"
  show ?thesis
    by (rule exI [of _ "putField ?x (newScope [])"], rule exI [of _ "''x''"])
      (simp add: Let_def demoteToBorrow_def target_of_def mark_moved_def bound_def putField_def put_field_def newScope_def
        new_frame_def here_def frame_at_def at_level_def log_move_def moveLogSize_def unmark_def retractMovesSince_def
        snapshotMovesSince_def reapplyMoves_def)
qed

text \<open>C36: A second \<open>#x\<close> is rejected, in the scope that declares \<open>x\<close>, with the site of the first one.\<close>

theorem second_transfer_rejected:
  assumes "sf_fields f n = Some (Some x)" "titleBearing x"
  shows "fst (rejectTransferOfBorrow n False (demoteToBorrow n site (f # fs))) =
     Some (AlreadyTransferred n (if site = [] then transferSiteOf n (f # fs) else site))"
  using assms
  by (auto simp: rejectTransferOfBorrow_def demoteToBorrow_def target_of_def mark_moved_def bound_def here_def
      frame_at_def at_level_def log_move_def Let_def)

theorem second_transfer_rejected_witness:
  "\<exists>f x. sf_fields f ''x'' = Some (Some x) \<and> titleBearing x \<and>
     fst (rejectTransferOfBorrow ''x'' False (demoteToBorrow ''x'' ''line 3'' [f])) = Some (AlreadyTransferred ''x'' ''line 3'')"
proof -
  let ?c = "\<lparr>ci_qname = None, isInterface = False, isValueType = False, isSharedCapableValue = False\<rparr>"
  let ?x = "\<lparr>l_name = ''x'', l_type = Some (CType False False False (Some ?c) None), dropEntry = True,
    runtimeConditionalOwner = False, entryMayBeStale = False, stackInstance = False, callBorrowOrigin = [],
    paramBorrowOrigin = [], l_formal = None, slotBorrowedLocals = []\<rparr>"
  have "sf_fields (put_field ?x new_frame) ''x'' = Some (Some ?x)" "titleBearing ?x"
    by (simp_all add: put_field_def new_frame_def titleBearing_def)
  with second_transfer_rejected [OF this, of "''line 3''" "[]"] show ?thesis by (intro exI conjI) auto
qed

text \<open>From a scope inside the one that declares \<open>x\<close> it is not: the lookup that the check begins with enters
  a null binding of \<open>x\<close> into the inner scope, where the search for the mark then stops.\<close>

theorem inner_scope_transfers_twice:
  "\<exists>s n x. getField n s = (Some x, s) \<and> titleBearing x \<and>
     (let inner = demoteToBorrow n ''line 3'' (newScope s)
      in isBorrow n inner \<and> fst (rejectTransferOfBorrow n False inner) = None)"
proof -
  let ?c = "\<lparr>ci_qname = None, isInterface = False, isValueType = False, isSharedCapableValue = False\<rparr>"
  let ?x = "\<lparr>l_name = ''x'', l_type = Some (CType False False False (Some ?c) None), dropEntry = True,
    runtimeConditionalOwner = False, entryMayBeStale = False, stackInstance = False, callBorrowOrigin = [],
    paramBorrowOrigin = [], l_formal = None, slotBorrowedLocals = []\<rparr>"
  show ?thesis
    by (rule exI [of _ "[put_field ?x new_frame]"], rule exI [of _ "''x''"], rule exI [of _ ?x])
      (simp add: put_field_def new_frame_def newScope_def titleBearing_def demoteToBorrow_def target_of_def mark_moved_def
        bound_def here_def frame_at_def at_level_def log_move_def rejectTransferOfBorrow_def isFormal_def Let_def)
qed

section \<open>Paths as lists of segments\<close>

lemma first_segment_hd: "first_segment p = hd (segments p)"
  by (induction p) (auto simp: first_segment_def segments_Nil segments_Cons)

lemma path_prefixes_from_set:
  "set (path_prefixes_from acc p) = insert (acc @ p) {acc @ a |a. \<exists>r. p = a @ ''.'' @ r}"
proof (induction p arbitrary: acc)
  case (Cons c cs)
  have "{acc @ a |a. \<exists>r. c # cs = a @ ''.'' @ r} =
     (if c = CHR ''.'' then {acc} else {}) \<union> {(acc @ [c]) @ a |a. \<exists>r. cs = a @ ''.'' @ r}"
    by (auto simp: Cons_eq_append_conv)
  then show ?case using Cons.IH [of "acc @ [c]"] by auto
qed simp

lemma path_prefixes_set: "p \<in> set (path_prefixes path) \<longleftrightarrow> prefix (segments p) (segments path)"
  unfolding path_prefixes_def path_prefixes_from_set prefix_segments by auto

text \<open>C37: A path is moved exactly if one of the moved paths is a prefix of it, segment by segment, or its
  root is a moved name.\<close>

theorem isPathBorrow_segments:
  "isPathBorrow path s \<longleftrightarrow>
     (\<exists>f \<in> set s. hd (segments path) \<in> borrowedBindings f \<or>
        (\<exists>p \<in> borrowedPaths f. prefix (segments p) (segments path)))"
  unfolding isPathBorrow_def path_moved_in_def first_segment_hd Bex_def path_prefixes_set by blast

lemma invalidates_segments:
  "invalidates w b \<longleftrightarrow> prefix (segments w) (segments b) \<or> prefix (segments b) (segments w)"
  unfolding invalidates_def segments_prefix_iff prefix_segments by auto

definition borrowed_paths :: "scopes \<Rightarrow> string set" where
  "borrowed_paths s = (\<Union>f \<in> set s. fst ` set (liveBorrows f))"

lemma find_borrow_overlap:
  "[] \<notin> borrowed_paths s \<Longrightarrow>
   (if find_borrow w s = [] then \<not> (\<exists>b \<in> borrowed_paths s. invalidates w b)
    else find_borrow w s \<in> borrowed_paths s \<and> invalidates w (find_borrow w s))"
proof (induction s)
  case (Cons f fs)
  then have IH: "if find_borrow w fs = [] then \<not> (\<exists>b \<in> borrowed_paths fs. invalidates w b)
    else find_borrow w fs \<in> borrowed_paths fs \<and> invalidates w (find_borrow w fs)"
    and ne: "[] \<notin> fst ` set (liveBorrows f)"
    by (auto simp: borrowed_paths_def)
  show ?case
  proof (cases "find (invalidates w) (map fst (liveBorrows f))")
    case None
    then have "find_borrow w (f # fs) = find_borrow w fs" by simp
    moreover have "\<not> (\<exists>b \<in> fst ` set (liveBorrows f). invalidates w b)" using None by (auto simp: find_None_iff)
    ultimately show ?thesis using IH by (auto simp: borrowed_paths_def split: if_splits)
  next
    case (Some b)
    then have b: "b \<in> fst ` set (liveBorrows f)" "invalidates w b" by (auto simp: find_Some_iff in_set_conv_nth intro!: image_eqI)
    then have "b \<noteq> []" using ne by metis
    moreover have "find_borrow w (f # fs) = b" using Some by simp
    ultimately show ?thesis using b by (auto simp: borrowed_paths_def)
  qed
qed (simp add: borrowed_paths_def)

lemma borrowed_paths_record:
  "borrowed_paths (recordLiveBorrow borrower path s) \<subseteq> borrowed_paths s \<union> ({path} - {[]})"
  by (cases s) (simp_all add: recordLiveBorrow_def here_def borrowed_paths_def)

text \<open>The scopes that come about while methods are compiled: every operation of a scope, in any order, with
  entering and leaving one.\<close>

inductive scope_reached :: "scopes \<Rightarrow> bool" where
  "scope_reached []"
| "scope_reached s \<Longrightarrow> scope_reached (newScope s)"
| "scope_reached (f # s) \<Longrightarrow> scope_reached s"
| "scope_reached s \<Longrightarrow> scope_reached (putField x s)"
| "scope_reached s \<Longrightarrow> scope_reached (snd (getField n s))"
| "scope_reached s \<Longrightarrow> scope_reached (restoreBinding n prior s)"
| "scope_reached s \<Longrightarrow> scope_reached (demoteToBorrow n site s)"
| "scope_reached s \<Longrightarrow> scope_reached (retractMovesSince k s)"
| "scope_reached s \<Longrightarrow> scope_reached (reapplyMoves ms s)"
| "scope_reached s \<Longrightarrow> scope_reached (restoreOwnership n s)"
| "scope_reached s \<Longrightarrow> scope_reached (demotePathToBorrow path s)"
| "scope_reached s \<Longrightarrow> scope_reached (markNotYetAssigned n s)"
| "scope_reached s \<Longrightarrow> scope_reached (markAssigned n s)"
| "scope_reached s \<Longrightarrow> scope_reached (restoreNotYetAssigned A s)"
| "scope_reached s \<Longrightarrow> scope_reached (mergeNotYetAssigned A s)"
| "scope_reached s \<Longrightarrow> scope_reached (recordLiveBorrow borrower path s)"
| "scope_reached s \<Longrightarrow> scope_reached (recordLaunchBorrow n s)"
| "scope_reached s \<Longrightarrow> scope_reached (releaseLaunchBorrows s)"
| "scope_reached s \<Longrightarrow> scope_reached (recordLend n src s)"
| "scope_reached s \<Longrightarrow> scope_reached (recordCallBorrow n origin s)"
| "scope_reached s \<Longrightarrow> scope_reached (snd (rejectTransferOfBorrow n carrying s))"

text \<open>All but the recording keep the borrows of each frame.\<close>

lemma borrowed_paths_cong: "map liveBorrows s = map liveBorrows s' \<Longrightarrow> borrowed_paths s = borrowed_paths s'"
proof -
  have "borrowed_paths s = (\<Union>b \<in> set (map liveBorrows s). fst ` set b)" for s by (simp add: borrowed_paths_def)
  then show "map liveBorrows s = map liveBorrows s' \<Longrightarrow> borrowed_paths s = borrowed_paths s'" by (simp only:)
qed

lemma borrows_mark [simp]: "map liveBorrows (mark_moved l n w s) = map liveBorrows s"
  by (simp add: mark_moved_def Let_def here_at_level at_level_fields log_move_def)

lemma borrows_reapply [simp]: "map liveBorrows (reapplyMoves xs s) = map liveBorrows s"
  unfolding reapplyMoves_def by (induction xs arbitrary: s) auto

lemma borrows_unmarks [simp]: "map liveBorrows (fold (\<lambda>(l, n). at_level l (unmark n)) xs s) = map liveBorrows s"
  by (induction xs arbitrary: s) (auto simp: at_level_fields unmark_def)

lemma borrows_retract [simp]: "map liveBorrows (retractMovesSince k s) = map liveBorrows s"
  by (cases "s = []") (simp_all add: retract_eq here_at_level at_level_fields, simp add: retractMovesSince_def)

lemma borrows_getField [simp]: "map liveBorrows (snd (getField n s)) = map liveBorrows s"
  by (induction s) (auto simp: Let_def split: option.splits prod.splits)

lemma borrows_reject [simp]: "map liveBorrows (snd (rejectTransferOfBorrow n m s)) = map liveBorrows s"
proof -
  have "snd (rejectTransferOfBorrow n m s) = snd (getField n s)"
    by (cases "getField n s") (simp add: rejectTransferOfBorrow_def split: option.split)
  then show ?thesis by simp
qed

lemma borrows_kept:
  "map liveBorrows (putField x s) = map liveBorrows s" "map liveBorrows (restoreBinding n prior s) = map liveBorrows s"
  "map liveBorrows (demoteToBorrow n site s) = map liveBorrows s" "map liveBorrows (restoreOwnership n s) = map liveBorrows s"
  "map liveBorrows (demotePathToBorrow path s) = map liveBorrows s" "map liveBorrows (markNotYetAssigned n s) = map liveBorrows s"
  "map liveBorrows (markAssigned n s) = map liveBorrows s" "map liveBorrows (restoreNotYetAssigned A s) = map liveBorrows s"
  "map liveBorrows (mergeNotYetAssigned A s) = map liveBorrows s" "map liveBorrows (recordLaunchBorrow n s) = map liveBorrows s"
  "map liveBorrows (releaseLaunchBorrows s) = map liveBorrows s" "map liveBorrows (recordLend n src s) = map liveBorrows s"
  "map liveBorrows (recordCallBorrow n origin s) = map liveBorrows s"
proof -
  show "map liveBorrows (restoreOwnership n s) = map liveBorrows s" "map liveBorrows (markAssigned n s) = map liveBorrows s"
    by (induction s) (auto simp: unmark_def)
qed (simp_all add: putField_def put_field_def Let_def restoreBinding_def demoteToBorrow_def demotePathToBorrow_def
    markNotYetAssigned_def restoreNotYetAssigned_def mergeNotYetAssigned_def recordLaunchBorrow_def releaseLaunchBorrows_def
    recordLend_def recordCallBorrow_def here_at_level at_level_fields split: option.split)

lemmas kept_paths = borrows_kept [THEN borrowed_paths_cong] borrows_getField [THEN borrowed_paths_cong]
  borrows_retract [THEN borrowed_paths_cong] borrows_reapply [THEN borrowed_paths_cong] borrows_reject [THEN borrowed_paths_cong]

lemma reached_not_empty: "scope_reached s \<Longrightarrow> [] \<notin> borrowed_paths s"
proof (induction rule: scope_reached.induct)
  case (16 s borrower path)
  then show ?case using borrowed_paths_record [of borrower path s] by blast
next
  case (3 f s)
  then show ?case by (simp add: borrowed_paths_def)
next
  case 1
  then show ?case by (simp add: borrowed_paths_def)
next
  case 2
  then show ?case by (simp add: borrowed_paths_def newScope_def new_frame_def)
qed (simp_all only: kept_paths not_False_eq_True)

text \<open>C12: In every scope that comes about while methods are compiled, whatever was bound, moved, assigned or
  borrowed, a write to a path is reported exactly if the path and a borrowed one overlap, one being a prefix of the
  other segment by segment, and what is reported is such a path.\<close>

theorem findInvalidatingBorrow_overlap:
  assumes "scope_reached s" "w \<noteq> []"
  shows "if findInvalidatingBorrow w s = []
     then \<not> (\<exists>b \<in> borrowed_paths s. prefix (segments w) (segments b) \<or> prefix (segments b) (segments w))
     else findInvalidatingBorrow w s \<in> borrowed_paths s \<and>
       (prefix (segments w) (segments (findInvalidatingBorrow w s)) \<or> prefix (segments (findInvalidatingBorrow w s)) (segments w))"
  using find_borrow_overlap [OF reached_not_empty [OF assms(1)], of w] assms(2)
  by (auto simp: findInvalidatingBorrow_def invalidates_segments split: if_splits)

theorem findInvalidatingBorrow_overlap_witness:
  "\<exists>s. scope_reached s \<and> findInvalidatingBorrow ''p'' s = ''p.name'' \<and> isBorrow ''q'' s \<and>
     prefix (segments ''p'') (segments ''p.name'')"
proof -
  let ?x = "\<lparr>l_name = ''p'', l_type = None, dropEntry = True, runtimeConditionalOwner = False, entryMayBeStale = False,
    stackInstance = False, callBorrowOrigin = [], paramBorrowOrigin = [], l_formal = None, slotBorrowedLocals = []\<rparr>"
  let ?s = "demoteToBorrow ''q'' [] (recordLiveBorrow ''n'' ''p.name'' (putField ?x (newScope [])))"
  have r: "scope_reached ?s" by (intro scope_reached.intros(1,2,4,7,16))
  have f: "findInvalidatingBorrow ''p'' ?s = ''p.name''" "isBorrow ''q'' ?s"
    by (simp_all add: findInvalidatingBorrow_def recordLiveBorrow_def newScope_def new_frame_def here_def invalidates_def
        putField_def put_field_def Let_def demoteToBorrow_def target_of_def mark_moved_def bound_def frame_at_def at_level_def log_move_def)
  have "\<not> prefix (segments ''p.name'') (segments ''p'')" by (simp add: prefix_segments)
  with findInvalidatingBorrow_overlap [OF r, of "''p''"] r f show ?thesis by (intro exI [of _ ?s]) auto
qed

end
