(* ===== verification/Title_Classifier.thy ===== *)
theory Title_Classifier
  imports Scope_State "HOL-Library.Word"
begin

text \<open>
  The ownership classifier of the compiler (\<open>ownership/TitleClassifier.cpp\<close>): what title the value of
  an expression carries, and what each position that consumes a value says to it. An expression is what
  the classifier reads of its node: the kind, the type after \<open>resolveTypes\<close>, the flags and the children
  that it looks at; a child that is missing or is no expression is \<^const>\<open>None\<close>. Of a call it is the facts
  about the callee that are asked for. \<open>title_env\<close> is the scope on the stack and the current method; the
  null bindings that lookups leave in the scope are dropped, which \<open>lookups_unobservable\<close> permits for
  scopes of one frame, the only ones that methods open. The code of a flag is a parameter: it is LLVM
  code, or one of two constants. Texts of diagnostics are left out.
\<close>

subsection \<open>Data\<close>

datatype title_answer = Ans_Borrow | Ans_Owned | Ans_StackBound | Ans_Runtime | Ans_Scalar

datatype title_source = Src_None | Src_DropEntry | Src_TransferWord | Src_ReturnFlag | Src_ArmPhi | Src_Slot

datatype title_family =
    Fam_Literal | Fam_LocalRead | Fam_ThisRead | Fam_FieldRead | Fam_ElementRead
  | Fam_Fresh | Fam_Concat | Fam_Move | Fam_CallResult | Fam_ClosureCall | Fam_Conditional | Fam_Closure
  | Fam_Scalar | Fam_Unsupported | Fam_Count

datatype consumer_role =
    Role_Bind | Role_StoreString | Role_StoreSlot | Role_Reassign | Role_ReturnOwned | Role_ReturnPlain
  | Role_ArgPlain | Role_ArgOwned | Role_Arm | Role_Count

datatype title_flag =
    kArena | kStack | kShared | kHasEntry | kIsParam | kTransferredParam | kBorrowOrigin | kString | kValue
  | kInterface | kArray | kView | kSharpStore | kOwnedDecl | kStaticTitle | kRuntimeOwner | kFunction

datatype title_error =
    STACK_TRANSFER | ARRAY_SLOT_BORROWS_LOCAL | STACK_RETURN_ESCAPES | OWNED_RETURN_OF_BORROWED_THIS
  | OWNED_RETURN_OF_BORROW | BORROW_PARAM_ESCAPES | FRESH_RETURN_NEEDS_TRANSFER | TRANSFER_REQUIRED

text \<open>A method, by the answers that \<open>callResult\<close> asks of it.\<close>

record callee =
  returnType :: "ctype option"
  transientAccessor :: bool
  returnsStackValue :: bool
  isStaticMethod :: bool
  hasPrivate :: bool
  hasFinal :: bool
  parentFinal :: bool
  isReturnsView :: bool
  isReturnsOwnership :: bool
  calleeReturnsInteriorView :: bool
  calleeReturnsStaticTitle :: bool
  emitsReturnFlag :: bool
  returnsTitledPointer :: bool
  hasNative :: bool
  hasBlock :: bool
  isAbstractMethod :: bool

text \<open>A method call. The receiver is \<^const>\<open>None\<close> when there are no children, and has no properties when it
  is not of a class type; \<open>shallowCallee\<close> is the answer of \<open>resolveArgCalleeShallow\<close>.\<close>

record call_node =
  methodCallName :: string
  resolvedMethod :: "callee option"
  receiverProps :: "(string \<rightharpoonup> ctype) option option"
  shallowCallee :: "callee option"
  hasGenerated :: bool
  flaggedTitleValue :: bool
  bindingTakesTitle :: bool

datatype binary_op = Op_Add | Op_Assign | Op_Other

datatype literal_type = LITERAL_TYPE_STRING | LITERAL_TYPE_TEXT_BLOCK | LITERAL_TYPE_NULL | LITERAL_TYPE_OTHER

datatype texpr =
    EUnsupported "ctype option"
  | EPrimary "ctype option" "texpr option"
  | ELiteral "ctype option"
  | EClassLiteral "ctype option"
  | EThis "ctype option"
  | ESuper "ctype option"
  | ETextLiteral "ctype option" literal_type
  | EScalarKind "ctype option"
  | EIdentifier "ctype option" string
  | EDot "ctype option" bool "texpr option"
  | EArrayIndex "ctype option" "texpr option"
  | EArraySlice "ctype option"
  | EArrayLiteral "ctype option" bool bool
  | EMapLiteral "ctype option"
  | EAggregate "ctype option" bool
  | ENew "ctype option" bool bool
  | ECast "ctype option" "ctype option" "texpr option"
  | EBinaryOp "ctype option" binary_op bool "texpr option" "texpr option"
  | EBooleanSwitch "ctype option" "texpr option" "texpr option" "texpr option"
  | ESwitch "ctype option" "texpr option list"
  | EMethodCall "ctype option" call_node
  | ECall "ctype option" "ctype option option"
  | EFunctionValue "ctype option"
  | EMove "ctype option" bool bool "texpr option"
  | EAwait "ctype option"
  | ESpawn "ctype option"

text \<open>\<open>EScalarKind\<close> stands for the kinds that are scalars whatever they hold: number literals,
  \<open>instanceof\<close>, prefix and postfix operators and \<open>detach\<close>; \<open>EFunctionValue\<close> for lambdas and method references. The
  flag of a dot says that it materializes a view field, and what it holds is its receiver, as with an
  index; the flags of an array literal \<open>stack\<close> and arena eligible, of an aggregate \<open>stack\<close>, of \<open>new\<close>
  \<open>stack\<close> and \<open>shared\<close>, of a binary operation arena eligible, of a move capture marker and \<open>#=\<close>.\<close>

fun resolvedType :: "texpr \<Rightarrow> ctype option" where
  "resolvedType (EUnsupported t) = t" | "resolvedType (EPrimary t c) = t" | "resolvedType (ELiteral t) = t"
| "resolvedType (EClassLiteral t) = t" | "resolvedType (EThis t) = t" | "resolvedType (ESuper t) = t"
| "resolvedType (ETextLiteral t b) = t" | "resolvedType (EScalarKind t) = t" | "resolvedType (EIdentifier t n) = t"
| "resolvedType (EDot t b x) = t" | "resolvedType (EArrayIndex t x) = t" | "resolvedType (EArraySlice t) = t"
| "resolvedType (EArrayLiteral t b d) = t" | "resolvedType (EMapLiteral t) = t" | "resolvedType (EAggregate t b) = t"
| "resolvedType (ENew t b d) = t" | "resolvedType (ECast t d c) = t" | "resolvedType (EBinaryOp t p b l r) = t"
| "resolvedType (EBooleanSwitch t c l r) = t" | "resolvedType (ESwitch t bs) = t" | "resolvedType (EMethodCall t c) = t"
| "resolvedType (ECall t f) = t" | "resolvedType (EFunctionValue t) = t" | "resolvedType (EMove t b d i) = t"
| "resolvedType (EAwait t) = t" | "resolvedType (ESpawn t) = t"

record title_shape =
  family :: title_family
  answer :: title_answer
  source :: title_source
  flags :: "title_flag set"
  paramIndex :: int
  label :: string
  leaf :: "texpr option"
  local_of :: "local option"
  callee_of :: "callee option"

record title_verdict =
  v_answer :: title_answer
  v_source :: title_source
  v_error :: "title_error option"
  v_label :: string

record method_ctx =
  parameterList :: "string option list"
  arenaEligibleLocals :: "string set"

record title_env =
  scopeStackTop :: scopes
  currentMethod :: "method_ctx option"

fun labelOfFamily :: "title_family \<Rightarrow> string" where
  "labelOfFamily Fam_Literal = ''a literal''"
| "labelOfFamily Fam_LocalRead = ''a bare local or formal (no `#`)''"
| "labelOfFamily Fam_ThisRead = ''`this`''"
| "labelOfFamily Fam_FieldRead = ''a field read''"
| "labelOfFamily Fam_ElementRead = ''an element read''"
| "labelOfFamily Fam_Fresh = ''a fresh value''"
| "labelOfFamily Fam_Concat = ''a String concatenation''"
| "labelOfFamily Fam_Move = ''a `#` move''"
| "labelOfFamily Fam_CallResult = ''a call result''"
| "labelOfFamily Fam_ClosureCall = ''a closure call result''"
| "labelOfFamily Fam_Conditional = ''a conditional''"
| "labelOfFamily Fam_Closure = ''a closure''"
| "labelOfFamily Fam_Scalar = ''a scalar''"
| "labelOfFamily Fam_Unsupported = ''an unsupported construct''"
| "labelOfFamily Fam_Count = []"

subsection \<open>The shapes of the leaves\<close>

definition typeFlags :: "ctype option \<Rightarrow> title_flag set" where
  "typeFlags t =
     (case t of None \<Rightarrow> {}
      | Some ty \<Rightarrow>
          (if isLangString t then {kString} else {}) \<union> (if asArrayType ty then {kArray} else {}) \<union>
          (if asView ty then {kView} else {}) \<union>
          (case asClass ty of None \<Rightarrow> {}
           | Some cls \<Rightarrow> (if isInterface cls then {kInterface} else {}) \<union> (if isValueType cls then {kValue} else {})) \<union>
          (if asFunction ty \<noteq> None then {kFunction} else {}))"

definition make :: "title_family \<Rightarrow> title_answer \<Rightarrow> title_source \<Rightarrow> texpr option \<Rightarrow> title_flag set \<Rightarrow> title_shape" where
  "make fam ans src e fs =
     \<lparr>family = fam, answer = ans, source = src, flags = fs, paramIndex = -1, label = labelOfFamily fam, leaf = e,
      local_of = None, callee_of = None\<rparr>"

definition hasTitle :: "title_answer \<Rightarrow> bool" where
  "hasTitle a \<longleftrightarrow> a = Ans_Owned \<or> a = Ans_Runtime"

definition join :: "title_shape \<Rightarrow> title_shape \<Rightarrow> texpr \<Rightarrow> title_shape" where
  "join a b e =
     (let s = make Fam_Conditional Ans_Runtime Src_ArmPhi (Some e)
            ((flags a \<union> flags b) \<inter> {kString, kArray, kInterface, kValue, kView}) in
      if \<not> hasTitle (answer a) \<and> \<not> hasTitle (answer b) then s\<lparr>answer := Ans_Borrow, source := Src_None\<rparr>
      else if answer a = Ans_Owned \<and> answer b = Ans_Owned then s\<lparr>answer := Ans_Owned, source := Src_None\<rparr>
      else s)"

definition read_shape :: "title_family \<Rightarrow> texpr \<Rightarrow> title_shape" where
  "read_shape fam e = make fam Ans_Borrow Src_None (Some e) (typeFlags (resolvedType e))"

definition scalar :: "texpr \<Rightarrow> title_shape" where
  "scalar e = make Fam_Scalar Ans_Scalar Src_None (Some e) {}"

text \<open>The index of a formal among those that are not \<open>this\<close>, before its cast to eight bits.\<close>

fun param_index :: "string \<Rightarrow> int \<Rightarrow> string option list \<Rightarrow> int option" where
  "param_index n k [] = None"
| "param_index n k (p # ps) =
     (case p of None \<Rightarrow> param_index n k ps
      | Some m \<Rightarrow> if m = ''this'' then param_index n k ps else if m = n then Some k else param_index n (k + 1) ps)"

definition int8 :: "int \<Rightarrow> int" where
  "int8 k = sint (word_of_int k :: 8 word)"

definition localRead :: "title_env \<Rightarrow> ctype option \<Rightarrow> string \<Rightarrow> title_shape" where
  "localRead E t name =
     (let e = EIdentifier t name in
      if name = ''this'' then read_shape Fam_ThisRead e
      else
        let s = make Fam_LocalRead Ans_Borrow Src_None (Some e) {} in
        case lookup name (scopeStackTop E) of
          None \<Rightarrow> s\<lparr>flags := typeFlags t\<rparr>
        | Some f \<Rightarrow>
            let isParam = isFormal f in
            s\<lparr>local_of := Some f,
              flags := typeFlags (l_type f) \<union>
                (if dropEntry f then {kHasEntry} else {}) \<union>
                (if runtimeConditionalOwner f then {kRuntimeOwner} else {}) \<union>
                (if stackInstance f then {kStack} else {}) \<union>
                (if callBorrowOrigin f \<noteq> [] \<or> paramBorrowOrigin f \<noteq> [] then {kBorrowOrigin} else {}) \<union>
                (if isParam then {kIsParam} else {}) \<union>
                (if isParam \<and> formalTransferred f then {kTransferredParam} else {}) \<union>
                (case currentMethod E of None \<Rightarrow> {}
                 | Some m \<Rightarrow> if \<not> isParam \<and> name \<in> arenaEligibleLocals m then {kArena} else {}) \<union>
                (if holdsStaticTitle name (scopeStackTop E) then {kStaticTitle} else {}),
              paramIndex :=
                (if isParam
                 then (case Option.bind (currentMethod E) (\<lambda>m. param_index name 0 (parameterList m)) of
                         Some k \<Rightarrow> int8 k | None \<Rightarrow> -1)
                 else -1)\<rparr>)"

definition closureCallShape :: "(bool \<times> ctype option) option \<Rightarrow> texpr \<Rightarrow> title_shape" where
  "closureCallShape fnTy e =
     (let fs = typeFlags (resolvedType e) in
      case fnTy of
        Some (owns, rt) \<Rightarrow>
          if usesSret owns rt then make Fam_ClosureCall Ans_StackBound Src_None (Some e) (fs \<union> {kStack})
          else if Option.bind rt asClass = None then scalar e
          else make Fam_ClosureCall Ans_Runtime Src_ReturnFlag (Some e) fs
      | None \<Rightarrow> make Fam_ClosureCall Ans_Runtime Src_ReturnFlag (Some e) fs)"

definition functionTypeOfCall :: "title_env \<Rightarrow> call_node \<Rightarrow> (bool \<times> ctype option) option" where
  "functionTypeOfCall E c =
     (case receiverProps c of
        None \<Rightarrow> (case lookup (methodCallName c) (scopeStackTop E) of None \<Rightarrow> None | Some f \<Rightarrow> Option.bind (l_type f) asFunction)
      | Some None \<Rightarrow> None
      | Some (Some props) \<Rightarrow> Option.bind (props (methodCallName c)) asFunction)"

text \<open>The shape of a call of a known callee.\<close>

definition callee_shape :: "texpr \<Rightarrow> title_flag set \<Rightarrow> callee \<Rightarrow> title_shape" where
  "callee_shape e fs0 rm =
     (let fs = fs0 \<union> typeFlags (returnType rm);
          withCallee = (\<lambda>s. s\<lparr>callee_of := Some rm\<rparr>);
          staticDispatch = (isStaticMethod rm \<or> hasPrivate rm \<or> hasFinal rm \<or> parentFinal rm);
          ownedDecl = isReturnsOwnership rm;
          fo = fs \<union> (if ownedDecl then {kOwnedDecl} else {}) in
      if isOwnershipLessScalar (returnType rm) then scalar e
      else if returnsStackValue rm then withCallee (make Fam_CallResult Ans_StackBound Src_None (Some e) (fs \<union> {kStack}))
      else if isReturnsView rm \<or> (\<not> ownedDecl \<and> staticDispatch \<and> calleeReturnsInteriorView rm)
      then withCallee (make Fam_CallResult Ans_Borrow Src_None (Some e) (fs \<union> {kView}))
      else if ownedDecl \<and> calleeReturnsStaticTitle rm
      then withCallee (make Fam_CallResult Ans_Owned Src_None (Some e) fo)
      else if emitsReturnFlag rm \<and> returnsTitledPointer rm \<and> \<not> hasNative rm \<and> (hasBlock rm \<or> isAbstractMethod rm)
      then withCallee (make Fam_CallResult Ans_Runtime Src_ReturnFlag (Some e) fo)
      else withCallee (make Fam_CallResult (if ownedDecl then Ans_Owned else Ans_Borrow) Src_None (Some e) fo))"

definition callResult :: "title_env \<Rightarrow> ctype option \<Rightarrow> call_node \<Rightarrow> title_shape" where
  "callResult E t c =
     (let e = EMethodCall t c; fs = typeFlags t;
          unknown = make Fam_CallResult Ans_Runtime Src_ReturnFlag (Some e) fs in
      if methodCallName c = ''__cajeta_inject''
      then make Fam_CallResult
             (case resolvedMethod c of Some m \<Rightarrow> if transientAccessor m then Ans_Owned else Ans_Borrow | None \<Rightarrow> Ans_Borrow)
             Src_None (Some e) fs
      else case resolvedMethod c of
        Some rm \<Rightarrow> callee_shape e fs rm
      | None \<Rightarrow>
          (case functionTypeOfCall E c of
             Some fnTy \<Rightarrow> closureCallShape (Some fnTy) e
           | None \<Rightarrow>
               if hasGenerated c \<and> \<not> flaggedTitleValue c
               then
                 let owned = bindingTakesTitle c in
                 case shallowCallee c of
                   Some decl \<Rightarrow>
                     if isOwnershipLessScalar (returnType decl) then scalar e
                     else (make Fam_CallResult (if owned then Ans_Owned else Ans_Borrow) Src_None (Some e)
                             (fs \<union> typeFlags (returnType decl) \<union> (if owned then {kOwnedDecl} else {})))\<lparr>callee_of := Some decl\<rparr>
                 | None \<Rightarrow> make Fam_CallResult (if owned then Ans_Owned else Ans_Borrow) Src_None (Some e)
                             (fs \<union> (if owned then {kOwnedDecl} else {}))
               else if \<not> hasGenerated c
               then (case shallowCallee c of Some rm \<Rightarrow> callee_shape e fs rm | None \<Rightarrow> unknown)
               else unknown))"

subsection \<open>Moves\<close>

definition moveFrom :: "title_shape \<Rightarrow> bool \<Rightarrow> title_shape" where
  "moveFrom i sharpStore =
     (let s = (make Fam_Move Ans_Owned Src_None (leaf i) ((if sharpStore then {kSharpStore} else {}) \<union> flags i))
                \<lparr>paramIndex := paramIndex i, local_of := local_of i\<rparr>;
          has = (\<lambda>k. k \<in> flags i) in
      case family i of
        Fam_LocalRead \<Rightarrow>
          if has kStack then s\<lparr>answer := Ans_StackBound\<rparr>
          else if has kHasEntry
          then (if has kStaticTitle \<and> \<not> has kRuntimeOwner then s\<lparr>answer := Ans_Owned\<rparr>
                else s\<lparr>answer := Ans_Runtime, source := Src_DropEntry\<rparr>)
          else if has kIsParam
          then (if has kTransferredParam then s\<lparr>answer := Ans_Owned\<rparr>
                else s\<lparr>answer := Ans_Runtime, source := Src_TransferWord\<rparr>)
          else if has kStaticTitle then s\<lparr>answer := Ans_Owned\<rparr>
          else s\<lparr>answer := Ans_Borrow\<rparr>
      | Fam_FieldRead \<Rightarrow> s\<lparr>answer := Ans_Runtime, source := Src_Slot\<rparr>
      | Fam_ElementRead \<Rightarrow> s\<lparr>answer := Ans_Runtime, source := Src_Slot\<rparr>
      | Fam_Literal \<Rightarrow> s\<lparr>answer := Ans_Borrow\<rparr>
      | Fam_ThisRead \<Rightarrow> s\<lparr>answer := Ans_Borrow\<rparr>
      | _ \<Rightarrow> s\<lparr>answer := answer i, source := source i\<rparr>)"

subsection \<open>The classifier\<close>

text \<open>The kinds whose shape does not depend on a child.\<close>

definition leaf_shape :: "title_env \<Rightarrow> texpr \<Rightarrow> title_shape" where
  "leaf_shape E e =
     (let fs = typeFlags (resolvedType e) in
      case e of
        EUnsupported t \<Rightarrow> make Fam_Unsupported Ans_Scalar Src_None (Some e) {}
      | ELiteral t \<Rightarrow> read_shape Fam_Literal e
      | EClassLiteral t \<Rightarrow> read_shape Fam_Literal e
      | EThis t \<Rightarrow> read_shape Fam_ThisRead e
      | ESuper t \<Rightarrow> read_shape Fam_ThisRead e
      | ETextLiteral t lt \<Rightarrow>
          if lt = LITERAL_TYPE_STRING \<or> lt = LITERAL_TYPE_TEXT_BLOCK then (read_shape Fam_Literal e)\<lparr>flags := fs \<union> {kString}\<rparr> else scalar e
      | EIdentifier t n \<Rightarrow> localRead E t n
      | EDot t materializes x \<Rightarrow>
          if materializes then (make Fam_Fresh Ans_Owned Src_None (Some e) fs)\<lparr>label := ''a view field read''\<rparr>
          else read_shape Fam_FieldRead e
      | EArrayIndex t x \<Rightarrow> read_shape Fam_ElementRead e
      | EArraySlice t \<Rightarrow> (read_shape Fam_ElementRead e)\<lparr>label := ''an array slice''\<rparr>
      | EArrayLiteral t stackAlloc arenaEligible \<Rightarrow>
          let s = make Fam_Fresh (if stackAlloc \<or> arenaEligible then Ans_StackBound else Ans_Owned) Src_None (Some e)
                    (fs \<union> {kArray} \<union> (if stackAlloc then {kStack} else {}) \<union> (if arenaEligible then {kArena} else {})) in
          if stackAlloc then s\<lparr>label := ''a `stack` construction''\<rparr> else s
      | EMapLiteral t \<Rightarrow> make Fam_Fresh Ans_Owned Src_None (Some e) fs
      | EAggregate t stackAlloc \<Rightarrow>
          if stackAlloc
          then (make Fam_Fresh Ans_StackBound Src_None (Some e) (fs \<union> {kStack}))\<lparr>label := ''a `stack` construction''\<rparr>
          else make Fam_Fresh Ans_Owned Src_None (Some e) fs
      | ENew t stackAlloc sharedAlloc \<Rightarrow>
          if stackAlloc
          then (make Fam_Fresh Ans_StackBound Src_None (Some e) (fs \<union> {kStack}))\<lparr>label := ''a `stack` construction''\<rparr>
          else if sharedAlloc then make Fam_Fresh Ans_Borrow Src_None (Some e) (fs \<union> {kShared})
          else make Fam_Fresh Ans_Owned Src_None (Some e) fs
      | EMethodCall t c \<Rightarrow> callResult E t c
      | ECall t calleeType \<Rightarrow>
          closureCallShape (Option.bind (Option.bind calleeType id) asFunction) e
      | EFunctionValue t \<Rightarrow> make Fam_Closure Ans_Owned Src_None (Some e) {}
      | EAwait t \<Rightarrow> make Fam_Fresh Ans_Owned Src_None (Some e) fs
      | ESpawn t \<Rightarrow> make Fam_Fresh Ans_Owned Src_None (Some e) fs
      | _ \<Rightarrow> scalar e)"

text \<open>The loop over the cases of a switch: the first shape, joined with each later one.\<close>

fun join_cases :: "texpr \<Rightarrow> title_shape option \<Rightarrow> title_shape option list \<Rightarrow> title_shape option" where
  "join_cases e acc [] = acc"
| "join_cases e acc (None # bs) = join_cases e acc bs"
| "join_cases e acc (Some s # bs) = join_cases e (case acc of None \<Rightarrow> Some s | Some a \<Rightarrow> Some (join a s e)) bs"

fun classify :: "title_env \<Rightarrow> texpr \<Rightarrow> title_shape" where
  "classify E (EPrimary t (Some c)) = classify E c"
| "classify E (ECast t dest (Some c)) =
     (if isReferenceCast dest then classify E c else scalar (ECast t dest (Some c)))"
| "classify E (EBinaryOp t p arenaEligible l r) =
     (let e = EBinaryOp t p arenaEligible l r in
      if isOwnershipLessScalar t then scalar e
      else if p = Op_Add \<and> isLangString t
      then (if arenaEligible then make Fam_Concat Ans_StackBound Src_None (Some e) {kString, kArena}
            else make Fam_Concat Ans_Owned Src_None (Some e) {kString})
      else if p = Op_Assign then (case r of Some x \<Rightarrow> classify E x | None \<Rightarrow> scalar e)
      else scalar e)"
| "classify E (EBooleanSwitch t c a b) =
     (let e = EBooleanSwitch t c a b in
      if isOwnershipLessScalar t then scalar e
      else case a of None \<Rightarrow> scalar e
        | Some x \<Rightarrow> (case b of None \<Rightarrow> scalar e | Some y \<Rightarrow> join (classify E x) (classify E y) e))"
| "classify E (ESwitch t bodies) =
     (let e = ESwitch t bodies in
      if isOwnershipLessScalar t then scalar e
      else case join_cases e None (map (\<lambda>b. case b of None \<Rightarrow> None | Some x \<Rightarrow> Some (classify E x)) bodies) of
             None \<Rightarrow> scalar e
           | Some acc \<Rightarrow> if family acc \<noteq> Fam_Conditional then join acc acc e else acc)"
| "classify E (EMove t captureMarker sharpStore inner) =
     (let e = EMove t captureMarker sharpStore inner in
      if isOwnershipLessScalar t then scalar e
      else case inner of
          None \<Rightarrow> make Fam_Move Ans_Owned Src_None (Some e) (if sharpStore then {kSharpStore} else {})
        | Some x \<Rightarrow>
            if captureMarker then classify E x
            else (moveFrom (classify E x) sharpStore)\<lparr>leaf := Some e\<rparr>)"
| "classify E e = (if isOwnershipLessScalar (resolvedType e) then scalar e else leaf_shape E e)"

definition classifyOpt :: "title_env \<Rightarrow> texpr option \<Rightarrow> title_shape" where
  "classifyOpt E e = (case e of None \<Rightarrow> make Fam_Unsupported Ans_Scalar Src_None None {} | Some x \<Rightarrow> classify E x)"

fun peelReferenceCasts :: "texpr \<Rightarrow> texpr" where
  "peelReferenceCasts (ECast t dest (Some c)) =
     (if isReferenceCast dest then peelReferenceCasts c else ECast t dest (Some c))"
| "peelReferenceCasts e = e"

subsection \<open>The positions that consume a value\<close>

definition escapesBorrowedSlots :: "title_shape \<Rightarrow> bool" where
  "escapesBorrowedSlots s \<longleftrightarrow>
     family s = Fam_Move \<and> (case local_of s of None \<Rightarrow> False | Some f \<Rightarrow> slotBorrowedLocals f \<noteq> [])"

definition policy :: "title_shape \<Rightarrow> consumer_role \<Rightarrow> title_verdict" where
  "policy s role =
     (let v = \<lparr>v_answer = answer s, v_source = source s, v_error = None, v_label = label s\<rparr>;
          fail = (\<lambda>er. v\<lparr>v_error := Some er\<rparr>);
          owned = v\<lparr>v_answer := Ans_Owned, v_source := Src_None\<rparr>;
          entry = v\<lparr>v_answer := Ans_Runtime, v_source := Src_DropEntry\<rparr>;
          has = (\<lambda>k. k \<in> flags s);
          store =
            (if family s = Fam_Move \<and> answer s = Ans_StackBound then fail STACK_TRANSFER
             else if escapesBorrowedSlots s then fail ARRAY_SLOT_BORROWS_LOCAL
             else if family s = Fam_LocalRead \<and> has kIsParam \<and> has kTransferredParam
             then (if role = Role_StoreString \<and> has kHasEntry then entry else owned)
             else v) in
      if answer s = Ans_Scalar then v
      else case role of
        Role_StoreString \<Rightarrow> store
      | Role_StoreSlot \<Rightarrow> store
      | Role_ReturnOwned \<Rightarrow>
          if answer s = Ans_StackBound \<or> (family s = Fam_LocalRead \<and> has kStack) then fail STACK_RETURN_ESCAPES
          else if escapesBorrowedSlots s then fail ARRAY_SLOT_BORROWS_LOCAL
          else if family s = Fam_ThisRead then fail OWNED_RETURN_OF_BORROWED_THIS
          else if family s = Fam_Move then v
          else if family s = Fam_LocalRead
          then (if has kBorrowOrigin then fail OWNED_RETURN_OF_BORROW
                else if has kHasEntry then (if has kRuntimeOwner then entry else owned)
                else if has kIsParam
                then (if has kTransferredParam \<or> has kInterface then owned else fail BORROW_PARAM_ESCAPES)
                else fail OWNED_RETURN_OF_BORROW)
          else if family s = Fam_Literal \<and> has kString then owned
          else if answer s = Ans_Borrow then fail OWNED_RETURN_OF_BORROW
          else v
      | Role_ReturnPlain \<Rightarrow>
          if family s = Fam_Fresh
          then (if answer s = Ans_StackBound then fail STACK_RETURN_ESCAPES
                else if answer s = Ans_Owned then fail FRESH_RETURN_NEEDS_TRANSFER else v)
          else if family s = Fam_LocalRead
          then (if has kIsParam then (if has kHasEntry then entry else v)
                else if has kStack then fail STACK_RETURN_ESCAPES
                else if has kHasEntry \<and> \<not> has kValue \<and> \<not> has kFunction \<and> \<not> has kInterface
                then fail FRESH_RETURN_NEEDS_TRANSFER
                else v)
          else v
      | Role_ArgOwned \<Rightarrow>
          if answer s = Ans_StackBound \<and> \<not> has kValue then fail STACK_TRANSFER
          else if escapesBorrowedSlots s then fail ARRAY_SLOT_BORROWS_LOCAL
          else if family s = Fam_Literal \<and> has kString then owned
          else (case family s of
              Fam_FieldRead \<Rightarrow> fail TRANSFER_REQUIRED
            | Fam_ElementRead \<Rightarrow> fail TRANSFER_REQUIRED
            | Fam_Literal \<Rightarrow> fail TRANSFER_REQUIRED
            | Fam_CallResult \<Rightarrow> if answer s = Ans_Borrow then fail TRANSFER_REQUIRED else v
            | Fam_ClosureCall \<Rightarrow> if answer s = Ans_Borrow then fail TRANSFER_REQUIRED else v
            | Fam_LocalRead \<Rightarrow>
                if has kIsParam \<and> \<not> has kTransferredParam then fail TRANSFER_REQUIRED
                else if \<not> has kHasEntry \<and> \<not> has kIsParam \<and> \<not> has kArena then fail TRANSFER_REQUIRED
                else if has kHasEntry then fail TRANSFER_REQUIRED
                else v
            | _ \<Rightarrow> v)
      | _ \<Rightarrow> v)"

definition rejectEscape :: "title_env \<Rightarrow> texpr option \<Rightarrow> title_error option" where
  "rejectEscape E e =
     (case e of None \<Rightarrow> None
      | Some x \<Rightarrow>
          let s = classify E x in
          if (family s = Fam_Move \<or> family s = Fam_LocalRead) \<and>
             (case local_of s of None \<Rightarrow> False | Some f \<Rightarrow> slotBorrowedLocals f \<noteq> [])
          then Some ARRAY_SLOT_BORROWS_LOCAL else None)"

subsection \<open>The flag of a value\<close>

text \<open>The code of a flag: a constant, what a move node has stashed, or a read that is emitted for a
  source. \<open>stash\<close> is what \<open>getRuntimeTitleFlag\<close> answers, \<open>emit\<close> the code of a read, when there is one.\<close>

datatype 'v flag_value = Const_Flag int | Emitted 'v

definition is_move :: "texpr option \<Rightarrow> bool" where
  "is_move e = (case e of Some (EMove t c sh i) \<Rightarrow> True | _ \<Rightarrow> False)"

definition titleFlag ::
    "(texpr \<Rightarrow> 'v option) \<Rightarrow> (title_shape \<Rightarrow> 'v option) \<Rightarrow> title_shape \<Rightarrow> 'v flag_value option" where
  "titleFlag stash emit s =
     (case answer s of
        Ans_Owned \<Rightarrow> Some (Const_Flag 1)
      | Ans_Runtime \<Rightarrow>
          if family s = Fam_Move \<and> is_move (leaf s)
          then (case Option.bind (leaf s) stash of Some mf \<Rightarrow> Some (Emitted mf) | None \<Rightarrow> Some (Const_Flag 1))
          else map_option Emitted (emit s)
      | _ \<Rightarrow> Some (Const_Flag 0))"

definition verdictFlag ::
    "(title_shape \<Rightarrow> 'v flag_value option) \<Rightarrow> title_shape \<Rightarrow> title_verdict \<Rightarrow> 'v flag_value option" where
  "verdictFlag flag s v =
     (if v_error v \<noteq> None \<or> v_answer v = Ans_Scalar then None
      else flag (s\<lparr>answer := v_answer v, source := v_source v\<rparr>))"

definition verdictFlagAfterCodegen ::
    "(title_shape \<Rightarrow> 'v flag_value option) \<Rightarrow> title_shape \<Rightarrow> title_verdict \<Rightarrow> 'v flag_value option" where
  "verdictFlagAfterCodegen flag s v =
     (if v_answer v = Ans_Runtime \<and> v_source v = Src_ReturnFlag \<and> family s = Fam_CallResult \<and> callee_of s = None
      then None else verdictFlag flag s v)"

text \<open>The flag of a store, and the local whose entry the store deactivates.\<close>

definition storeTitleFlagOf ::
    "(title_shape \<Rightarrow> 'v flag_value option) \<Rightarrow> title_shape \<Rightarrow> consumer_role \<Rightarrow>
       title_error + 'v flag_value option \<times> local option" where
  "storeTitleFlagOf flag s role =
     (let v = policy s role in
      case v_error v of
        Some er \<Rightarrow> Inl er
      | None \<Rightarrow>
          (case v_answer v of
             Ans_Owned \<Rightarrow> Inr (Some (Const_Flag 1), None)
           | Ans_Runtime \<Rightarrow>
               if role = Role_StoreString \<and> family s = Fam_LocalRead \<and> kTransferredParam \<in> flags s \<and> kHasEntry \<in> flags s
               then Inr (verdictFlag flag s v, local_of s)
               else Inr (flag s, None)
           | _ \<Rightarrow> Inr (None, None)))"

definition storeTitleFlag ::
    "(title_shape \<Rightarrow> 'v flag_value option) \<Rightarrow> title_env \<Rightarrow> texpr option \<Rightarrow> consumer_role \<Rightarrow>
       title_error + 'v flag_value option \<times> local option" where
  "storeTitleFlag flag E e role =
     (case e of None \<Rightarrow> Inr (None, None) | Some x \<Rightarrow> storeTitleFlagOf flag (classify E x) role)"

text \<open>What deactivating a local's entry emits: a mark on the entry, on the condition that it still
  describes the value if it may be stale and the local has an allocation. \<open>runtime\<close> says which functions
  of the runtime are found.\<close>

datatype deactivation = Mark_Inactive_If | Mark_Inactive

definition deactivateLocalEntry :: "(deactivation \<Rightarrow> bool) \<Rightarrow> bool \<Rightarrow> local option \<Rightarrow> deactivation option" where
  "deactivateLocalEntry runtime allocated f =
     (case f of None \<Rightarrow> None
      | Some x \<Rightarrow>
          if \<not> dropEntry x then None
          else if entryMayBeStale x \<and> allocated \<and> runtime Mark_Inactive_If then Some Mark_Inactive_If
          else if runtime Mark_Inactive then Some Mark_Inactive
          else None)"

definition classifyArgument ::
    "(title_shape \<Rightarrow> 'v flag_value option) \<Rightarrow> title_env \<Rightarrow> texpr option \<Rightarrow> bool \<Rightarrow>
       title_error + title_shape \<times> 'v flag_value option" where
  "classifyArgument flag E e callerTransferred =
     (let s = (if callerTransferred then moveFrom (classifyOpt E e) False else classifyOpt E e);
          v = policy s Role_ArgPlain;
          fl = verdictFlagAfterCodegen flag s v in
      if callerTransferred \<and> answer s = Ans_StackBound \<and> kValue \<notin> flags s then Inl STACK_TRANSFER
      else if callerTransferred \<and> fl = None \<and> family s = Fam_Move \<and> source s = Src_TransferWord \<and> local_of s \<noteq> None
      then (if kValue \<in> flags s \<or> kInterface \<in> flags s then Inr (s, Some (Const_Flag 1)) else Inl BORROW_PARAM_ESCAPES)
      else Inr (s, fl))"

subsection \<open>Arms\<close>

text \<open>\<open>forEachLeafArm\<close>: the arms that are visited, in their order.\<close>

fun leafArms :: "texpr \<Rightarrow> texpr list" where
  "leafArms (EBooleanSwitch t c a b) =
     (case a of None \<Rightarrow> [] | Some x \<Rightarrow> leafArms x) @ (case b of None \<Rightarrow> [] | Some y \<Rightarrow> leafArms y)"
| "leafArms (ESwitch t bodies) = concat (map (\<lambda>b. case b of None \<Rightarrow> [] | Some x \<Rightarrow> leafArms x) bodies)"
| "leafArms e = [e]"

text \<open>The first error of a list of checks.\<close>

fun first_error :: "title_error option list \<Rightarrow> title_error option" where
  "first_error [] = None"
| "first_error (Some er # es) = Some er"
| "first_error (None # es) = first_error es"

definition rejectOwnedFormalArgument :: "title_env \<Rightarrow> texpr option \<Rightarrow> bool \<Rightarrow> title_error option" where
  "rejectOwnedFormalArgument E e callerTransferred =
     (case e of None \<Rightarrow> None
      | Some x \<Rightarrow>
          let top = classify E x;
              viaConditional = (family top = Fam_Conditional \<and> \<not> callerTransferred);
              oneArm = (\<lambda>arm.
                let sh = (if viaConditional then classify E arm else top) in
                v_error (policy (if callerTransferred then moveFrom sh False else sh) Role_ArgOwned)) in
          if viaConditional
          then first_error (map oneArm (case leaf top of None \<Rightarrow> [] | Some l \<Rightarrow> leafArms l))
          else oneArm (case leaf top of None \<Rightarrow> x | Some l \<Rightarrow> l))"

text \<open>The first child of the nodes that can have the shape of a move.\<close>

fun first_child :: "texpr \<Rightarrow> texpr option" where
  "first_child (EPrimary t c) = c"
| "first_child (ECast t d c) = c"
| "first_child (EBinaryOp t p b l r) = l"
| "first_child (EMove t c sh i) = i"
| "first_child e = None"

text \<open>The checks of a \<open>return\<close> (\<open>asn/Statement.cpp\<close>) under a \<open>#\<close> return type and under a plain one.\<close>

definition checkOwnedReturnShapes :: "title_env \<Rightarrow> texpr \<Rightarrow> bool \<Rightarrow> title_error option" where
  "checkOwnedReturnShapes E e modeCarrying =
     (case rejectEscape E (Some e) of
        Some er \<Rightarrow> Some er
      | None \<Rightarrow>
          let sh = classify E e; v = policy sh Role_ReturnOwned in
          if family sh = Fam_Move \<and>
             (case first_child e of None \<Rightarrow> False | Some i \<Rightarrow> family (classify E i) = Fam_ThisRead)
          then Some OWNED_RETURN_OF_BORROWED_THIS
          else if family sh = Fam_Conditional
          then (if modeCarrying then None
                else if \<exists>arm \<in> set (case leaf sh of None \<Rightarrow> [] | Some l \<Rightarrow> leafArms l).
                    v_answer (policy (classify E arm) Role_Arm) \<in> {Ans_Borrow, Ans_StackBound}
                then Some OWNED_RETURN_OF_BORROW else None)
          else case v_error v of None \<Rightarrow> None
            | Some er \<Rightarrow>
                if modeCarrying \<and> er \<noteq> STACK_RETURN_ESCAPES \<and> er \<noteq> OWNED_RETURN_OF_BORROWED_THIS then None
                else Some er)"

definition checkPlainReturnShapes :: "title_env \<Rightarrow> texpr \<Rightarrow> title_error option" where
  "checkPlainReturnShapes E e =
     (let top = classify E e; viaConditional = (family top = Fam_Conditional) in
      first_error
        (map (\<lambda>arm. v_error (policy (if viaConditional then classify E arm else top) Role_ReturnPlain))
          (case leaf top of None \<Rightarrow> [] | Some l \<Rightarrow> leafArms l)))"


section \<open>Lookups in a scope of one frame\<close>

text \<open>The binding that a failed lookup enters changes no later answer.\<close>

lemma lookups_unobservable:
  "lookup m (snd (getField n [f])) = lookup m [f]"
  "isBorrow m (snd (getField n [f])) = isBorrow m [f]"
  "holdsStaticTitle m (snd (getField n [f])) = holdsStaticTitle m [f]"
  by (auto simp: lookup_def holdsStaticTitle_def bound_def split: option.splits)

section \<open>Shapes\<close>

lemma make_simps [simp]:
  "family (make fam ans src e fs) = fam" "answer (make fam ans src e fs) = ans" "source (make fam ans src e fs) = src"
  "flags (make fam ans src e fs) = fs" "paramIndex (make fam ans src e fs) = -1" "leaf (make fam ans src e fs) = e"
  "local_of (make fam ans src e fs) = None" "callee_of (make fam ans src e fs) = None"
  "label (make fam ans src e fs) = labelOfFamily fam"
  by (simp_all add: make_def)

lemma join_simps [simp]:
  "family (join a b e) = Fam_Conditional" "leaf (join a b e) = Some e" "local_of (join a b e) = None"
  "paramIndex (join a b e) = -1"
  by (simp_all add: join_def Let_def)

lemma int8_range: "-128 \<le> int8 k \<and> int8 k < 128"
  using sint_ge [of "word_of_int k :: 8 word"] sint_lt [of "word_of_int k :: 8 word"] by (simp add: int8_def)

lemma int8_small: "0 \<le> k \<Longrightarrow> k < 128 \<Longrightarrow> int8 k = k"
  by (simp add: int8_def sint_sbintrunc' signed_take_bit_int_eq_self)

lemma typeFlags_kinds [simp]:
  "kHasEntry \<notin> typeFlags t" "kIsParam \<notin> typeFlags t" "kTransferredParam \<notin> typeFlags t" "kStack \<notin> typeFlags t"
  "kRuntimeOwner \<notin> typeFlags t" "kStaticTitle \<notin> typeFlags t" "kBorrowOrigin \<notin> typeFlags t" "kArena \<notin> typeFlags t"
  by (auto simp: typeFlags_def split: option.splits)

definition is_conditional :: "texpr \<Rightarrow> bool" where
  "is_conditional e = (case e of EBooleanSwitch t c a b \<Rightarrow> True | ESwitch t bs \<Rightarrow> True | _ \<Rightarrow> False)"

text \<open>Whether \<open>titleFlag\<close> gets to a read of the flag of a shape that is no move: for the entry of a local, the bit
  of the transfer word, the flag that a call returned, or the arms of a conditional. The word's argument and
  the runtime function that returns the flag are taken to be there, as the code takes the slot of a local to be.\<close>

fun under_moves :: "texpr \<Rightarrow> texpr" where
  "under_moves (EMove t c sh (Some x)) = under_moves x"
| "under_moves e = e"

definition flagReadable :: "title_shape \<Rightarrow> bool" where
  "flagReadable s =
     (case source s of
        Src_DropEntry \<Rightarrow> (case local_of s of Some f \<Rightarrow> dropEntry f | None \<Rightarrow> False)
      | Src_TransferWord \<Rightarrow> 0 \<le> paramIndex s
      | Src_ReturnFlag \<Rightarrow> \<not> (family s = Fam_CallResult \<and> callee_of s = None)
      | Src_ArmPhi \<Rightarrow> (case leaf s of Some e \<Rightarrow> is_conditional (under_moves e) | None \<Rightarrow> False)
      | Src_Slot \<Rightarrow> is_move (leaf s)
      | Src_None \<Rightarrow> False)"

text \<open>A call whose callee is not known, before or after its code is generated.\<close>

definition unresolved_call :: "texpr option \<Rightarrow> bool" where
  "unresolved_call e =
     (case e of
        Some (EMethodCall t c) \<Rightarrow> resolvedMethod c = None \<and> (if hasGenerated c then flaggedTitleValue c else shallowCallee c = None)
      | _ \<Rightarrow> False)"

text \<open>An answer is left to run time exactly if a source is named. Then a move is one by its node, and its source
  is the entry of a local that has one, the transfer bit of a formal, or that of what is moved; and any
  other shape is the result of a call or a conditional whose flag \<open>titleFlag\<close> gets to read, or a call whose callee is not
  known, of which it reads none.\<close>

definition source_supplied :: "title_shape \<Rightarrow> bool" where
  "source_supplied s \<longleftrightarrow>
     (answer s = Ans_Runtime \<longleftrightarrow> source s \<noteq> Src_None) \<and>
     (family s = Fam_Move \<longrightarrow> is_move (leaf s) \<and>
        (source s = Src_DropEntry \<longrightarrow> (\<exists>f. local_of s = Some f \<and> dropEntry f)) \<and>
        (source s = Src_TransferWord \<longrightarrow> (\<exists>f. local_of s = Some f \<and> isFormal f))) \<and>
     (family s \<noteq> Fam_Move \<and> answer s = Ans_Runtime \<longrightarrow>
        (source s, family s) \<in> {(Src_ReturnFlag, Fam_CallResult), (Src_ReturnFlag, Fam_ClosureCall), (Src_ArmPhi, Fam_Conditional)} \<and>
        (flagReadable s \<or> unresolved_call (leaf s)))"

text \<open>The flags of a local read that speak of its entry and of a formal are the local's.\<close>

definition local_flags :: "title_shape \<Rightarrow> bool" where
  "local_flags s \<longleftrightarrow> family s = Fam_LocalRead \<longrightarrow>
     (kHasEntry \<in> flags s \<longrightarrow> (\<exists>f. local_of s = Some f \<and> dropEntry f)) \<and>
     (kIsParam \<in> flags s \<longrightarrow> (\<exists>f. local_of s = Some f \<and> isFormal f)) \<and>
     (kStaticTitle \<in> flags s \<longrightarrow> (\<exists>f. local_of s = Some f \<and> dropEntry f))"

text \<open>The index is that of a formal of the current method, cut to eight bits, or -1.\<close>

definition index_of_formal :: "title_env \<Rightarrow> title_shape \<Rightarrow> bool" where
  "index_of_formal E s \<longleftrightarrow>
     paramIndex s = -1 \<or>
     (\<exists>m n k. currentMethod E = Some m \<and> param_index n 0 (parameterList m) = Some k \<and> paramIndex s = int8 k)"

definition wf_shape :: "title_env \<Rightarrow> title_shape \<Rightarrow> bool" where
  "wf_shape E s \<longleftrightarrow> source_supplied s \<and> local_flags s \<and> index_of_formal E s"

lemma flagReadable_update [simp]:
  "flagReadable (s\<lparr>label := t\<rparr>) = flagReadable s" "flagReadable (s\<lparr>flags := fs\<rparr>) = flagReadable s"
  by (cases "source s"; simp add: flagReadable_def)+

lemma wf_make [simp]:
  "fam \<noteq> Fam_LocalRead \<Longrightarrow> fam \<noteq> Fam_Move \<Longrightarrow> ans \<noteq> Ans_Runtime \<Longrightarrow> wf_shape E (make fam ans Src_None e fs)"
  "wf_shape E (make Fam_ClosureCall Ans_Runtime Src_ReturnFlag e fs)"
  "unresolved_call e \<Longrightarrow> wf_shape E (make Fam_CallResult Ans_Runtime Src_ReturnFlag e fs)"
  "wf_shape E ((make Fam_CallResult Ans_Runtime Src_ReturnFlag e fs)\<lparr>callee_of := Some c\<rparr>)"
  by (auto simp: wf_shape_def source_supplied_def local_flags_def index_of_formal_def flagReadable_def)

lemma wf_update [simp]:
  "wf_shape E (s\<lparr>label := t\<rparr>) = wf_shape E s"
  "answer s \<noteq> Ans_Runtime \<Longrightarrow> wf_shape E (s\<lparr>callee_of := c\<rparr>) = wf_shape E s"
  "family s \<noteq> Fam_LocalRead \<Longrightarrow> wf_shape E (s\<lparr>flags := fs\<rparr>) = wf_shape E s"
  by (simp_all add: wf_shape_def source_supplied_def local_flags_def index_of_formal_def)

lemma wf_scalar [simp]: "wf_shape E (scalar e)"
  by (simp add: scalar_def)

lemma wf_read [simp]: "fam \<noteq> Fam_LocalRead \<Longrightarrow> fam \<noteq> Fam_Move \<Longrightarrow> wf_shape E (read_shape fam e)"
  by (simp add: read_shape_def)

lemma wf_join [simp]: "is_conditional e \<Longrightarrow> wf_shape E (join a b e)"
  by (cases e) (auto simp: wf_shape_def source_supplied_def local_flags_def index_of_formal_def flagReadable_def
    is_conditional_def join_def Let_def)

lemma static_title_entry: "lookup n s = Some x \<Longrightarrow> holdsStaticTitle n s \<Longrightarrow> dropEntry x"
  by (auto simp: holdsStaticTitle_def lookup_def split: prod.splits option.splits)

lemma wf_localRead [simp]: "wf_shape E (localRead E t n)"
proof (cases "n = ''this''")
  case True
  then show ?thesis by (simp add: localRead_def)
next
  case n: False
  let ?s = "localRead E t n"
  show ?thesis
  proof (cases "lookup n (scopeStackTop E)")
    case None
    then show ?thesis
      using n by (simp add: localRead_def Let_def wf_shape_def source_supplied_def local_flags_def index_of_formal_def)
  next
    case (Some f)
    have s: "family ?s = Fam_LocalRead" "answer ?s = Ans_Borrow" "source ?s = Src_None" "local_of ?s = Some f"
      "kHasEntry \<in> flags ?s \<longleftrightarrow> dropEntry f" "kIsParam \<in> flags ?s \<longleftrightarrow> isFormal f"
      "kStaticTitle \<in> flags ?s \<longleftrightarrow> holdsStaticTitle n (scopeStackTop E)"
      using n Some by (simp_all add: localRead_def Let_def split: option.split)
    have i: "index_of_formal E ?s"
      using n Some by (auto simp: localRead_def Let_def index_of_formal_def Option.bind_eq_Some_conv split: option.split)
    show ?thesis using s i static_title_entry [OF Some] by (simp add: wf_shape_def source_supplied_def local_flags_def)
  qed
qed

lemma wf_closure [simp]: "wf_shape E (closureCallShape fnTy e)"
  by (simp add: closureCallShape_def Let_def split: option.split prod.split)

lemma wf_callee [simp]: "wf_shape E (callee_shape e fs rm)"
  by (simp add: callee_shape_def Let_def)

lemma wf_callResult [simp]: "wf_shape E (callResult E' t c)"
proof -
  have "unresolved_call (Some (EMethodCall t c))"
    if "resolvedMethod c = None" "\<not> (hasGenerated c \<and> \<not> flaggedTitleValue c)" "\<not> hasGenerated c \<longrightarrow> shallowCallee c = None"
    using that by (simp add: unresolved_call_def)
  then show ?thesis by (simp add: callResult_def Let_def split: option.split)
qed

lemma wf_leaf_shape [simp]: "wf_shape E (leaf_shape E e)"
  by (cases e) (simp_all add: leaf_shape_def Let_def read_shape_def)

lemma wf_moveFrom [simp]: "wf_shape E s \<Longrightarrow> is_move (Some e) \<Longrightarrow> wf_shape E ((moveFrom s sh)\<lparr>leaf := Some e\<rparr>)"
  by (cases "family s"; cases "source s")
    (auto simp: moveFrom_def Let_def wf_shape_def source_supplied_def local_flags_def index_of_formal_def flagReadable_def)



section \<open>Conditionals by their arms\<close>

text \<open>The conditionals in the arms have a type with titles, and arms.\<close>

fun proper_arms :: "texpr \<Rightarrow> bool" where
  "proper_arms (EBooleanSwitch t c a b) \<longleftrightarrow> \<not> isOwnershipLessScalar t \<and>
     (case a of None \<Rightarrow> False | Some x \<Rightarrow> proper_arms x) \<and> (case b of None \<Rightarrow> False | Some y \<Rightarrow> proper_arms y)"
| "proper_arms (ESwitch t bodies) \<longleftrightarrow> \<not> isOwnershipLessScalar t \<and> (\<exists>b \<in> set bodies. b \<noteq> None) \<and>
     list_all id (map (\<lambda>b. case b of None \<Rightarrow> True | Some x \<Rightarrow> proper_arms x) bodies)"
| "proper_arms e \<longleftrightarrow> True"

text \<open>The answer that a list of arms comes to.\<close>

definition arms_answer :: "title_answer list \<Rightarrow> title_answer" where
  "arms_answer as =
     (if set as = {Ans_Owned} then Ans_Owned
      else if \<not> (\<exists>a \<in> set as. hasTitle a) then Ans_Borrow
      else Ans_Runtime)"

definition summarises :: "title_answer \<Rightarrow> title_answer list \<Rightarrow> bool" where
  "summarises a as \<longleftrightarrow> as \<noteq> [] \<and> (a = Ans_Owned \<longleftrightarrow> set as = {Ans_Owned}) \<and> (hasTitle a \<longleftrightarrow> (\<exists>x \<in> set as. hasTitle x))"

lemma summarises_single [simp]: "summarises a [a]"
  by (auto simp: summarises_def)

text \<open>The answers of a join.\<close>

definition joined :: "title_answer \<Rightarrow> bool" where
  "joined a \<longleftrightarrow> a \<in> {Ans_Owned, Ans_Borrow, Ans_Runtime}"

lemma join_answer [simp]: "joined (answer (join a b e))"
  by (simp add: joined_def join_def Let_def)

lemma summarises_arms: "summarises a as \<Longrightarrow> joined a \<Longrightarrow> a = arms_answer as"
  unfolding joined_def summarises_def arms_answer_def hasTitle_def by (cases a) simp_all

lemma summarises_join:
  assumes "summarises (answer a) as" "summarises (answer b) bs"
  shows "summarises (answer (join a b e)) (as @ bs)"
proof -
  have n: "set as \<noteq> {}" "set bs \<noteq> {}" using assms by (auto simp: summarises_def)
  have o: "set (as @ bs) = {Ans_Owned} \<longleftrightarrow> set as = {Ans_Owned} \<and> set bs = {Ans_Owned}"
    using n unfolding set_append Un_singleton_iff by blast
  have t: "(\<exists>x \<in> set (as @ bs). hasTitle x) \<longleftrightarrow> hasTitle (answer a) \<or> hasTitle (answer b)"
    using assms by (auto simp: summarises_def)
  have a: "answer a = Ans_Owned \<longleftrightarrow> set as = {Ans_Owned}" "answer b = Ans_Owned \<longleftrightarrow> set bs = {Ans_Owned}"
    using assms by (simp_all add: summarises_def)
  have "answer (join a b e) = Ans_Owned \<longleftrightarrow> answer a = Ans_Owned \<and> answer b = Ans_Owned"
    "hasTitle (answer (join a b e)) \<longleftrightarrow> hasTitle (answer a) \<or> hasTitle (answer b)"
    by (simp_all add: join_def Let_def hasTitle_def)
  then show ?thesis unfolding summarises_def o t using a n by simp
qed

definition arm_answers :: "title_env \<Rightarrow> texpr \<Rightarrow> title_answer list" where
  "arm_answers E e = map (\<lambda>x. answer (classify E x)) (leafArms e)"

lemma summarises_cases:
  assumes "\<And>x. Some x \<in> set bs \<Longrightarrow> summarises (answer (f x)) (g x)"
    and "\<And>a. acc = Some a \<Longrightarrow> summarises (answer a) as" and "acc = None \<Longrightarrow> as = []"
    and "acc \<noteq> None \<or> (\<exists>b \<in> set bs. b \<noteq> None)"
  shows "\<exists>r. join_cases e acc (map (\<lambda>b. case b of None \<Rightarrow> None | Some x \<Rightarrow> Some (f x)) bs) = Some r \<and>
     summarises (answer r) (as @ concat (map (\<lambda>b. case b of None \<Rightarrow> [] | Some x \<Rightarrow> g x) bs))"
  using assms
proof (induction bs arbitrary: acc as)
  case (Cons b bs)
  show ?case
  proof (cases b)
    case None
    then show ?thesis using Cons.IH [of acc as] Cons.prems by auto
  next
    case (Some x)
    have x: "summarises (answer (f x)) (g x)" using Cons.prems(1) Some by simp
    show ?thesis
    proof (cases acc)
      case None
      then show ?thesis using Cons.IH [of "Some (f x)" "g x"] Cons.prems x Some by auto
    next
      case (Some a)
      then have "summarises (answer (join a (f x) e)) (as @ g x)" using Cons.prems(2) x by (intro summarises_join) auto
      then show ?thesis using Cons.IH [of "Some (join a (f x) e)" "as @ g x"] Cons.prems(1) Some \<open>b = Some x\<close> by auto
    qed
  qed
qed auto

lemma summarises_self_join: "summarises (answer a) as \<Longrightarrow> summarises (answer (join a a e)) as"
  by (auto simp: summarises_def join_def Let_def hasTitle_def)

lemma join_cases_conditional:
  "join_cases e acc bs = Some r \<Longrightarrow> (\<And>a. acc = Some a \<Longrightarrow> family a = Fam_Conditional \<Longrightarrow> P (answer a)) \<Longrightarrow>
   (\<And>s. Some s \<in> set bs \<Longrightarrow> family s = Fam_Conditional \<Longrightarrow> P (answer s)) \<Longrightarrow>
   (\<And>a b. P (answer (join a b e))) \<Longrightarrow> family r = Fam_Conditional \<Longrightarrow> P (answer r)"
proof (induction e acc bs rule: join_cases.induct)
  case (3 e acc s bs)
  show ?case
    by (rule "3.IH" [OF _ _ _ "3.prems"(4) "3.prems"(5)]) (use "3.prems" in \<open>auto split: option.splits\<close>)
qed auto

lemma leaf_not_conditional [simp]:
  "family (scalar e) \<noteq> Fam_Conditional" "fam \<noteq> Fam_Conditional \<Longrightarrow> family (read_shape fam e) \<noteq> Fam_Conditional"
  "family (moveFrom s sh) = Fam_Move" "family (localRead E t n) \<noteq> Fam_Conditional"
  "family (closureCallShape fnTy e) \<noteq> Fam_Conditional" "family (callee_shape e fs rm) \<noteq> Fam_Conditional"
  by (simp_all add: scalar_def read_shape_def moveFrom_def localRead_def closureCallShape_def callee_shape_def Let_def
    split: option.split prod.split title_family.split)

lemma callResult_not_conditional [simp]: "family (callResult E t c) \<noteq> Fam_Conditional"
  by (simp add: callResult_def Let_def split: option.split)

lemma leaf_shape_not_conditional [simp]: "family (leaf_shape E e) \<noteq> Fam_Conditional"
  by (cases e) (simp_all add: leaf_shape_def Let_def)

lemma conditional_answer: "family (classify E e) = Fam_Conditional \<Longrightarrow> joined (answer (classify E e))"
proof (induction E e rule: classify.induct)
  case (5 E t bodies)
  let ?bs = "map (\<lambda>b. case b of None \<Rightarrow> None | Some x \<Rightarrow> Some (classify E x)) bodies"
  show ?case
  proof (cases "isOwnershipLessScalar t \<or> join_cases (ESwitch t bodies) None ?bs = None")
    case True
    then show ?thesis using "5.prems" by (auto simp: scalar_def Let_def)
  next
    case False
    then obtain r where r: "join_cases (ESwitch t bodies) None ?bs = Some r" "\<not> isOwnershipLessScalar t" by auto
    have "family r = Fam_Conditional \<Longrightarrow> joined (answer r)"
      by (rule join_cases_conditional [OF r(1)]) (use "5.IH" r(2) in \<open>auto split: option.splits\<close>)
    then show ?thesis using r by (simp add: Let_def)
  qed
qed (auto simp: Let_def split: option.splits if_splits)

lemma classify_summarises:
  "proper_arms e \<Longrightarrow> summarises (answer (classify E e)) (arm_answers E e)"
proof (induction e rule: leafArms.induct)
  case (1 t c a b)
  then obtain x y where "a = Some x" "b = Some y" by (auto split: option.splits)
  with 1 show ?case by (simp add: arm_answers_def Let_def summarises_join)
next
  case (2 t bodies)
  let ?e = "ESwitch t bodies"
  let ?bs = "map (\<lambda>b. case b of None \<Rightarrow> None | Some x \<Rightarrow> Some (classify E x)) bodies"
  have p: "\<not> isOwnershipLessScalar t" "\<exists>b \<in> set bodies. b \<noteq> None" "\<And>x. Some x \<in> set bodies \<Longrightarrow> proper_arms x"
    using "2.prems" by (auto simp: list_all_iff split: option.splits)
  have "\<exists>r. join_cases ?e None ?bs = Some r \<and>
     summarises (answer r) ([] @ concat (map (\<lambda>b. case b of None \<Rightarrow> [] | Some x \<Rightarrow> arm_answers E x) bodies))"
    by (rule summarises_cases) (use "2.IH" p in auto)
  then obtain r where r: "join_cases ?e None ?bs = Some r"
    "summarises (answer r) (concat (map (\<lambda>b. case b of None \<Rightarrow> [] | Some x \<Rightarrow> arm_answers E x) bodies))"
    by auto
  have "arm_answers E ?e = concat (map (\<lambda>b. case b of None \<Rightarrow> [] | Some x \<Rightarrow> arm_answers E x) bodies)"
    by (simp add: arm_answers_def map_concat comp_def option.case_distrib cong: option.case_cong)
  with r p(1) show ?case by (simp add: Let_def summarises_self_join)
qed (simp_all add: arm_answers_def)

lemma conditional_family: "is_conditional e \<Longrightarrow> proper_arms e \<Longrightarrow> family (classify E e) = Fam_Conditional"
proof (cases e)
  case (ESwitch t bodies)
  assume "proper_arms e"
  then have p: "\<not> isOwnershipLessScalar t" "\<exists>b \<in> set bodies. b \<noteq> None" by (auto simp: ESwitch)
  have "\<exists>r. join_cases e None (map (\<lambda>b. case b of None \<Rightarrow> None | Some x \<Rightarrow> Some (classify E x)) bodies) = Some r \<and>
     summarises (answer r) ([] @ concat (map (\<lambda>b. case b of None \<Rightarrow> [] | Some x \<Rightarrow> [answer (classify E x)]) bodies))"
    by (rule summarises_cases) (use p in auto)
  then show ?thesis using p by (auto simp: ESwitch Let_def)
qed (auto simp: is_conditional_def Let_def split: option.splits)

text \<open>C6: A conditional of either kind, however its arms nest, answers what its leaf arms come to: a title
  if all of them have one for certain, a borrow if none can have one, and otherwise the flag that the taken
  arm leaves.\<close>

theorem conditional_by_arms:
  assumes "is_conditional e" "proper_arms e"
  shows "family (classify E e) = Fam_Conditional \<and> answer (classify E e) = arms_answer (arm_answers E e)"
  using conditional_family [OF assms] classify_summarises [OF assms(2), of E]
  by (auto intro!: summarises_arms conditional_answer)

text \<open>\<open>c ? heap A() : (switch (x) { case 1 -> this; default -> heap A() })\<close>.\<close>

theorem conditional_by_arms_witness:
  "let e = EBooleanSwitch None None (Some (ENew None False False))
             (Some (ESwitch None [Some (EThis None), None, Some (ENew None False False)]));
       E = \<lparr>scopeStackTop = [], currentMethod = None\<rparr>
   in is_conditional e \<and> arm_answers E e = [Ans_Owned, Ans_Borrow, Ans_Owned] \<and> answer (classify E e) = Ans_Runtime"
proof -
  let ?e = "EBooleanSwitch None None (Some (ENew None False False))
             (Some (ESwitch None [Some (EThis None), None, Some (ENew None False False)]))"
  let ?E = "\<lparr>scopeStackTop = [], currentMethod = None\<rparr>"
  have c: "is_conditional ?e" "proper_arms ?e" by (simp_all add: is_conditional_def isOwnershipLessScalar_def)
  have a: "arm_answers ?E ?e = [Ans_Owned, Ans_Borrow, Ans_Owned]"
    by (simp add: arm_answers_def isOwnershipLessScalar_def leaf_shape_def read_shape_def Let_def)
  have "answer (classify ?E ?e) = arms_answer (arm_answers ?E ?e)" using conditional_by_arms [OF c, of ?E] by simp
  also have "\<dots> = Ans_Runtime" unfolding a by (simp add: arms_answer_def hasTitle_def doubleton_eq_iff)
  finally show ?thesis using c(1) a by simp
qed

lemma arm_answers_cases:
  "set (arm_answers E (ESwitch t bodies)) = (\<Union>x \<in> {x. Some x \<in> set bodies}. set (arm_answers E x))"
  by (auto simp: arm_answers_def split: option.splits)

text \<open>The order of the cases of a switch does not matter to its answer.\<close>

theorem switch_order:
  assumes "mset bodies = mset bodies'" "proper_arms (ESwitch t bodies)"
  shows "answer (classify E (ESwitch t bodies')) = answer (classify E (ESwitch t bodies))"
proof -
  have s: "set bodies = set bodies'" using assms(1) by (rule mset_eq_setD)
  have p: "proper_arms (ESwitch t bodies')" using assms(2) s by (simp add: list_all_iff)
  have a: "set (arm_answers E (ESwitch t bodies')) = set (arm_answers E (ESwitch t bodies))"
    unfolding arm_answers_cases s ..
  have *: "answer (classify E (ESwitch t bs)) = arms_answer (arm_answers E (ESwitch t bs))" if "proper_arms (ESwitch t bs)" for bs
    using conditional_family [OF _ that, of E] classify_summarises [OF that, of E]
    by (intro summarises_arms conditional_answer) (simp_all add: is_conditional_def)
  show ?thesis unfolding * [OF p] * [OF assms(2)] arms_answer_def a ..
qed

theorem switch_order_witness:
  "answer (classify \<lparr>scopeStackTop = [], currentMethod = None\<rparr> (ESwitch None [Some (ENew None False False), Some (EThis None)])) =
   answer (classify \<lparr>scopeStackTop = [], currentMethod = None\<rparr> (ESwitch None [Some (EThis None), Some (ENew None False False)]))"
  by (rule switch_order) (simp_all add: isOwnershipLessScalar_def)

section \<open>What the consumers accept\<close>

lemma join_cases_origin:
  "join_cases e acc bs = Some r \<Longrightarrow> acc = Some r \<or> Some r \<in> set bs \<or> (\<exists>a b. r = join a b e)"
proof (induction e acc bs rule: join_cases.induct)
  case (3 e acc s bs)
  then show ?case by (auto split: option.splits)
qed auto

lemma conditional_leaf:
  "family (classify E e) = Fam_Conditional \<Longrightarrow> \<exists>l. leaf (classify E e) = Some l \<and> is_conditional l \<and> classify E l = classify E e"
proof (induction E e rule: classify.induct)
  case (5 E t bodies)
  let ?e = "ESwitch t bodies"
  let ?bs = "map (\<lambda>b. case b of None \<Rightarrow> None | Some x \<Rightarrow> Some (classify E x)) bodies"
  show ?case
  proof (cases "leaf (classify E ?e) = Some ?e")
    case True
    then show ?thesis by (simp add: is_conditional_def)
  next
    case False
    then obtain r where r: "join_cases ?e None ?bs = Some r" and n: "\<not> isOwnershipLessScalar t"
      by (auto simp: Let_def scalar_def split: if_splits option.splits)
    with False have c: "classify E ?e = r" "family r = Fam_Conditional" "\<not> (\<exists>a b. r = join a b ?e)"
      by (auto simp: Let_def split: if_splits)
    then obtain x where x: "Some x \<in> set bodies" "r = classify E x"
      using join_cases_origin [OF r] by (auto split: option.splits)
    show ?thesis unfolding c(1) x(2) by (rule "5.IH" [OF refl n x(1) refl]) (use c x in simp)
  qed
qed (auto simp: Let_def is_conditional_def split: option.splits if_splits)

lemma arm_verdict [simp]: "v_answer (policy s Role_Arm) = answer s"
  by (simp add: policy_def Let_def)

text \<open>Under a \<open>#\<close> return type, apart from moves, what the policy lets pass has a title or the flag of one.\<close>

lemma returned_has_title:
  assumes "v_error (policy s Role_ReturnOwned) = None" "answer s \<noteq> Ans_Scalar" "family s \<noteq> Fam_Move"
  shows "hasTitle (v_answer (policy s Role_ReturnOwned))"
  using assms by (cases "answer s") (auto simp: policy_def Let_def hasTitle_def split: if_splits)

lemma conditional_arms_answer:
  "is_conditional e \<Longrightarrow> proper_arms e \<Longrightarrow> answer (classify E e) = arms_answer (arm_answers E e)"
  using conditional_family classify_summarises by (auto intro!: summarises_arms conditional_answer)

text \<open>C5: What is accepted under a \<open>#\<close> return type, and is not spelled as a move, is a scalar such as \<open>null\<close>, or hands
  the caller a title or the flag of one. Of a conditional no arm is a borrow or dies with the frame: each has a
  title, leaves a flag, or is a scalar; and with arms that can have titles it hands over a title or a flag exactly
  if one of them has one.\<close>

theorem accepted_return_has_title:
  assumes "checkOwnedReturnShapes E e False = None" "family (classify E e) \<noteq> Fam_Move"
  shows "if family (classify E e) = Fam_Conditional
     then \<exists>l. leaf (classify E e) = Some l \<and> set (arm_answers E l) \<subseteq> {Ans_Owned, Ans_Runtime, Ans_Scalar} \<and>
       (proper_arms l \<longrightarrow>
         (hasTitle (v_answer (policy (classify E e) Role_ReturnOwned)) \<longleftrightarrow> (\<exists>a \<in> set (arm_answers E l). hasTitle a)))
     else answer (classify E e) = Ans_Scalar \<or> hasTitle (v_answer (policy (classify E e) Role_ReturnOwned))"
proof (cases "family (classify E e) = Fam_Conditional")
  case True
  obtain l where l: "leaf (classify E e) = Some l" "is_conditional l" "classify E l = classify E e"
    using conditional_leaf [OF True] by blast
  have no: "\<not> (\<exists>a \<in> set (arm_answers E l). a \<in> {Ans_Borrow, Ans_StackBound})"
    using assms(1) l(1) True unfolding checkOwnedReturnShapes_def arm_answers_def
    by (auto simp: Let_def split: option.splits if_splits)
  have "a \<in> {Ans_Owned, Ans_Runtime, Ans_Scalar}" if "a \<in> set (arm_answers E l)" for a
    using no that by (cases a) auto
  moreover have "hasTitle (v_answer (policy (classify E e) Role_ReturnOwned)) \<longleftrightarrow> (\<exists>a \<in> set (arm_answers E l). hasTitle a)"
    if p: "proper_arms l"
  proof -
    have "hasTitle (v_answer (policy (classify E e) Role_ReturnOwned)) \<longleftrightarrow> hasTitle (answer (classify E l))"
      using True unfolding l(3) by (auto simp: policy_def Let_def hasTitle_def)
    then show ?thesis using classify_summarises [OF p, of E] by (simp add: summarises_def)
  qed
  ultimately show ?thesis using True l(1) by auto
next
  case False
  have "v_error (policy (classify E e) Role_ReturnOwned) = None"
    using assms False unfolding checkOwnedReturnShapes_def by (auto simp: Let_def split: option.splits if_splits)
  then show ?thesis using returned_has_title assms(2) False by auto
qed

text \<open>\<open>return c ? (d ? heap A() : null) : b.fresh()\<close>, of a call with an unknown callee.\<close>

theorem accepted_return_has_title_witness:
  "\<exists>E e. is_conditional e \<and> checkOwnedReturnShapes E e False = None \<and>
     arm_answers E e = [Ans_Owned, Ans_Scalar, Ans_Runtime] \<and>
     hasTitle (v_answer (policy (classify E e) Role_ReturnOwned))"
proof -
  let ?c = "\<lparr>methodCallName = ''fresh'', resolvedMethod = None, receiverProps = Some None, shallowCallee = None,
    hasGenerated = False, flaggedTitleValue = False, bindingTakesTitle = False\<rparr>"
  let ?n = "EBooleanSwitch None None (Some (ENew None False False)) (Some (ETextLiteral None LITERAL_TYPE_NULL))"
  let ?e = "EBooleanSwitch None None (Some ?n) (Some (EMethodCall None ?c))"
  let ?E = "\<lparr>scopeStackTop = [], currentMethod = None\<rparr>"
  have c: "is_conditional ?e" "proper_arms ?e" by (simp_all add: is_conditional_def isOwnershipLessScalar_def)
  have arms: "arm_answers ?E ?e = [Ans_Owned, Ans_Scalar, Ans_Runtime]"
    by (simp add: arm_answers_def isOwnershipLessScalar_def leaf_shape_def scalar_def callResult_def functionTypeOfCall_def Let_def)
  have f: "family (classify ?E ?e) = Fam_Conditional" "leaf (classify ?E ?e) = Some ?e" "local_of (classify ?E ?e) = None"
    by (simp_all add: isOwnershipLessScalar_def Let_def)
  have ok: "checkOwnedReturnShapes ?E ?e False = None"
    using arms f by (simp add: checkOwnedReturnShapes_def rejectEscape_def Let_def arm_answers_def)
  have "family (classify ?E ?e) \<noteq> Fam_Move" unfolding f(1) by simp
  from accepted_return_has_title [OF ok this]
  have "hasTitle (v_answer (policy (classify ?E ?e) Role_ReturnOwned)) \<longleftrightarrow> (\<exists>a \<in> set (arm_answers ?E ?e). hasTitle a)"
    unfolding f(2) using f(1) c(2) by (simp del: classify.simps proper_arms.simps split: if_splits)
  then have "hasTitle (v_answer (policy (classify ?E ?e) Role_ReturnOwned))" unfolding arms by (simp add: hasTitle_def)
  with ok arms c(1) show ?thesis by (intro exI [of _ ?E] exI [of _ ?e]) auto
qed

text \<open>A conditional forgets that its arms die with the frame, and the \<open>#\<close> in front of it passes the checks of a
  return, of a \<open>#\<close> formal and of a store: \<open>#(c ? stack A() : stack A())\<close>.\<close>

theorem moved_stack_arms_accepted:
  "\<exists>E e. leafArms e = [ENew None True False, ENew None True False] \<and>
     arm_answers E e = [Ans_StackBound, Ans_StackBound] \<and>
     (let moved = EMove None False False (Some e)
      in checkOwnedReturnShapes E moved False = None \<and> rejectOwnedFormalArgument E (Some moved) False = None \<and>
         v_error (policy (classify E moved) Role_StoreSlot) = None)"
proof -
  let ?e = "EBooleanSwitch None None (Some (ENew None True False)) (Some (ENew None True False))"
  let ?E = "\<lparr>scopeStackTop = [], currentMethod = None\<rparr>"
  let ?m = "EMove None False False (Some ?e)"
  have arms: "leafArms ?e = [ENew None True False, ENew None True False]" "arm_answers ?E ?e = [Ans_StackBound, Ans_StackBound]"
    by (simp_all add: arm_answers_def isOwnershipLessScalar_def leaf_shape_def Let_def)
  have c: "answer (classify ?E ?e) = Ans_Borrow" "source (classify ?E ?e) = Src_None" "family (classify ?E ?e) = Fam_Conditional"
    "local_of (classify ?E ?e) = None"
    by (simp_all add: isOwnershipLessScalar_def leaf_shape_def Let_def join_def hasTitle_def)
  then have m: "family (classify ?E ?m) = Fam_Move" "answer (classify ?E ?m) = Ans_Borrow" "local_of (classify ?E ?m) = None"
    by (simp_all add: isOwnershipLessScalar_def moveFrom_def Let_def del: classify.simps(4))
  then have "checkOwnedReturnShapes ?E ?m False = None \<and> rejectOwnedFormalArgument ?E (Some ?m) False = None \<and>
         v_error (policy (classify ?E ?m) Role_StoreSlot) = None"
    using c(3) by (simp add: checkOwnedReturnShapes_def rejectOwnedFormalArgument_def rejectEscape_def policy_def
        escapesBorrowedSlots_def Let_def split: option.split del: classify.simps)
  then show ?thesis using arms by (intro exI [of _ ?E] exI [of _ ?e]) (simp add: Let_def del: classify.simps)
qed

text \<open>The receiver is taken for a \<open>#\<close> formal, though it is a borrow.\<close>

theorem this_passes_as_owned:
  "rejectOwnedFormalArgument E (Some (EThis None)) False = None \<and> answer (classify E (EThis None)) = Ans_Borrow"
  by (simp add: rejectOwnedFormalArgument_def isOwnershipLessScalar_def leaf_shape_def read_shape_def policy_def
      escapesBorrowedSlots_def Let_def)

section \<open>A name that was moved\<close>

lemma demoted_here:
  assumes "sf_fields f n = Some (Some x)"
  shows "lookup n (demoteToBorrow n w (f # fs)) = Some x" "\<not> holdsStaticTitle n (demoteToBorrow n w (f # fs))"
  using assms
  by (auto simp: demoteToBorrow_def target_of_def mark_moved_def bound_def here_def frame_at_def at_level_def log_move_def
      lookup_def holdsStaticTitle_def Let_def)

text \<open>C10: After \<open>#x\<close> of a local, no second \<open>#x\<close> is answered to hold a title for certain: at most the flag of
  the entry of \<open>x\<close>, which the first one has cleared.\<close>

theorem moved_local_has_no_static_title:
  assumes "sf_fields f n = Some (Some x)" "\<not> isFormal x"
  shows "answer (classify (E\<lparr>scopeStackTop := demoteToBorrow n site (f # fs)\<rparr>) (EMove t False sharp (Some (EIdentifier t' n)))) \<noteq> Ans_Owned"
proof -
  let ?E = "E\<lparr>scopeStackTop := demoteToBorrow n site (f # fs)\<rparr>"
  let ?s = "localRead ?E t' n"
  have "answer (moveFrom ?s sharp) \<noteq> Ans_Owned"
  proof (cases "n = ''this''")
    case True
    then show ?thesis by (simp add: localRead_def read_shape_def moveFrom_def Let_def)
  next
    case False
    then have "family ?s = Fam_LocalRead" "kStaticTitle \<notin> flags ?s" "kIsParam \<notin> flags ?s"
      using demoted_here [OF assms(1)] assms(2) by (simp_all add: localRead_def Let_def split: option.split)
    then show ?thesis by (simp add: moveFrom_def Let_def)
  qed
  then show ?thesis by (simp add: Let_def leaf_shape_def) (simp add: scalar_def moveFrom_def Let_def)
qed

theorem moved_local_has_no_static_title_witness:
  "\<exists>f E. answer (classify (E\<lparr>scopeStackTop := [f]\<rparr>) (EMove None False False (Some (EIdentifier None ''x'')))) = Ans_Owned \<and>
     answer (classify (E\<lparr>scopeStackTop := demoteToBorrow ''x'' [] [f]\<rparr>) (EMove None False False (Some (EIdentifier None ''x'')))) \<noteq> Ans_Owned"
proof -
  let ?c = "\<lparr>ci_qname = None, isInterface = False, isValueType = False, isSharedCapableValue = False\<rparr>"
  let ?x = "\<lparr>l_name = ''x'', l_type = Some (CType False False False (Some ?c) None), dropEntry = True,
    runtimeConditionalOwner = False, entryMayBeStale = False, stackInstance = False, callBorrowOrigin = [],
    paramBorrowOrigin = [], l_formal = None, slotBorrowedLocals = []\<rparr>"
  let ?f = "put_field ?x new_frame" and ?E = "\<lparr>scopeStackTop = [], currentMethod = None\<rparr>"
  have f: "sf_fields ?f ''x'' = Some (Some ?x)" "\<not> isFormal ?x" by (simp_all add: put_field_def new_frame_def isFormal_def)
  have b: "isBorrow ''x'' [?f] = False" by (simp add: put_field_def new_frame_def bound_def)
  have "holdsStaticTitle ''x'' [?f]" "lookup ''x'' [?f] = Some ?x"
    using f b by (simp_all add: holdsStaticTitle_def lookup_def titleBearing_def)
  then have "answer (classify (?E\<lparr>scopeStackTop := [?f]\<rparr>) (EMove None False False (Some (EIdentifier None ''x'')))) = Ans_Owned"
    by (simp add: isOwnershipLessScalar_def leaf_shape_def localRead_def moveFrom_def isFormal_def Let_def)
  with moved_local_has_no_static_title [OF f, where E = ?E and site = "[]" and fs = "[]" and t = None and sharp = False and t' = None] show ?thesis
    by (intro exI [of _ ?f] exI [of _ ?E]) simp
qed

section \<open>The index of a formal\<close>

lemma param_index_after:
  "m \<noteq> n \<Longrightarrow> m \<noteq> ''this'' \<Longrightarrow> param_index n k (replicate i (Some m) @ ps) = param_index n (k + int i) ps"
  by (induction i arbitrary: k) (simp_all add: algebra_simps)

text \<open>Of more than 128 formals the later ones have a negative index, as if they were none.\<close>

theorem formal_index_wraps:
  "\<exists>E f. formalTransferred f \<and> lookup ''p'' (scopeStackTop E) = Some f \<and> paramIndex (localRead E None ''p'') = -128"
proof -
  let ?x = "\<lparr>l_name = ''p'', l_type = None, dropEntry = False, runtimeConditionalOwner = False, entryMayBeStale = False,
    stackInstance = False, callBorrowOrigin = [], paramBorrowOrigin = [], l_formal = Some (Some (True, False)),
    slotBorrowedLocals = []\<rparr>"
  let ?E = "\<lparr>scopeStackTop = [put_field ?x new_frame],
    currentMethod = Some \<lparr>parameterList = replicate 128 (Some ''a'') @ [Some ''p''], arenaEligibleLocals = {}\<rparr>\<rparr>"
  have l: "lookup ''p'' (scopeStackTop ?E) = Some ?x" by (simp add: lookup_def put_field_def new_frame_def)
  have "param_index ''p'' 0 (replicate 128 (Some ''a'') @ [Some ''p'']) = Some 128" by (subst param_index_after) simp_all
  moreover have "int8 128 = -128" by (simp add: int8_def sint_sbintrunc' signed_take_bit_eq_if_negative)
  ultimately have "paramIndex (localRead ?E None ''p'') = -128"
    using l by (simp add: localRead_def isFormal_def Let_def)
  with l show ?thesis by (intro exI [of _ ?E] exI [of _ ?x]) (simp add: formalTransferred_def)
qed

end
