(* ===== verification/Return_Scans.thy ===== *)
theory Return_Scans
  imports Title_Classifier
begin

text \<open>
  The scans of a method's body that decide what its callers are told of its results without a flag
  (\<open>method/Method.cpp\<close>): whether every return is a fresh value, whether every return is a read of the
  receiver's interior, and whether one returns a \<open>stack\<close> construction. A statement is what the scans see
  of its node; the blocks of \<open>try\<close>, the groups of \<open>switch\<close> and the statement behind a label are held
  beside \<open>children\<close>, which is empty for them (\<open>asn/Statement.h\<close>).
\<close>

subsection \<open>Statements\<close>

datatype loop_kind = Loop_While | Loop_For | Loop_EnhancedFor | Loop_Do

datatype node =
    NReturn "texpr option" bool
  | NLabel "node option"
  | NScope "node option"
  | NIf "node option" "node option"
  | NLoop loop_kind "node option"
  | NTry "node option" "node option list" "node option"
  | NSwitch "node list list"
  | NIdentifierLabel "node option"
  | NNode "node option list"

subsection \<open>Expressions\<close>

definition exprIsStackConstruction :: "texpr option \<Rightarrow> bool" where
  "exprIsStackConstruction e =
     (case e of Some (ENew t stackAlloc sh) \<Rightarrow> stackAlloc | Some (EAggregate t stackAlloc) \<Rightarrow> stackAlloc | _ \<Rightarrow> False)"

fun exprIsInteriorRead :: "texpr \<Rightarrow> bool" where
  "exprIsInteriorRead (EArrayIndex t x) = (case x of None \<Rightarrow> False | Some y \<Rightarrow> exprIsInteriorRead y)"
| "exprIsInteriorRead (EDot t m x) =
     (case x of Some (EThis t') \<Rightarrow> True | Some (EIdentifier t' n) \<Rightarrow> n = ''this'' | _ \<Rightarrow> False)"
| "exprIsInteriorRead e = False"

definition exprIsStaticTitle :: "texpr \<Rightarrow> bool" where
  "exprIsStaticTitle e =
     (case e of
        ENew t stackAlloc sharedAlloc \<Rightarrow> \<not> stackAlloc \<and> \<not> sharedAlloc
      | EAggregate t stackAlloc \<Rightarrow> \<not> stackAlloc
      | EArrayLiteral t stackAlloc arenaEligible \<Rightarrow> \<not> stackAlloc \<and> \<not> arenaEligible
      | EBinaryOp t p arenaEligible l r \<Rightarrow> p = Op_Add \<and> \<not> arenaEligible \<and> isLangString t
      | ETextLiteral t lt \<Rightarrow> lt = LITERAL_TYPE_STRING \<or> lt = LITERAL_TYPE_TEXT_BLOCK
      | _ \<Rightarrow> False)"

subsection \<open>The scans\<close>

text \<open>The walk that the two scans of all returns share. A check of a return takes the expression, whether the return is
  spelled \<open>#=\<close>, and whether a return was seen before; the walk stops at the first check that fails.\<close>

type_synonym return_check = "texpr \<Rightarrow> bool \<Rightarrow> bool \<Rightarrow> bool \<times> bool"

fun scan_returns :: "return_check \<Rightarrow> node \<Rightarrow> bool \<Rightarrow> bool \<times> bool"
  and scan_option :: "return_check \<Rightarrow> node option \<Rightarrow> bool \<Rightarrow> bool \<times> bool"
  and scan_children :: "return_check \<Rightarrow> node option list \<Rightarrow> bool \<Rightarrow> bool \<times> bool" where
  "scan_returns c (NReturn e mode) saw = (case e of None \<Rightarrow> (True, saw) | Some x \<Rightarrow> c x mode saw)"
| "scan_returns c (NLabel b) saw = scan_option c b saw"
| "scan_returns c (NScope b) saw = scan_option c b saw"
| "scan_returns c (NIf t e) saw =
     (case scan_option c t saw of (True, saw') \<Rightarrow> scan_option c e saw' | (False, saw') \<Rightarrow> (False, saw'))"
| "scan_returns c (NLoop k b) saw = scan_option c b saw"
| "scan_returns c (NTry b cs f) saw = (True, saw)"
| "scan_returns c (NSwitch gs) saw = (True, saw)"
| "scan_returns c (NIdentifierLabel b) saw = (True, saw)"
| "scan_returns c (NNode ns) saw = scan_children c ns saw"
| "scan_option c None saw = (True, saw)"
| "scan_option c (Some n) saw = scan_returns c n saw"
| "scan_children c [] saw = (True, saw)"
| "scan_children c (n # ns) saw =
     (case scan_option c n saw of (True, saw') \<Rightarrow> scan_children c ns saw' | (False, saw') \<Rightarrow> (False, saw'))"

definition nodeReturnsOnlyStaticTitles :: "node \<Rightarrow> bool \<Rightarrow> bool \<times> bool" where
  "nodeReturnsOnlyStaticTitles =
     scan_returns (\<lambda>e mode saw. if mode then (False, saw) else if \<not> exprIsStaticTitle e then (False, saw) else (True, True))"

definition returnsStaticTitle :: "bool \<Rightarrow> node option \<Rightarrow> bool" where
  "returnsStaticTitle owns block =
     (case block of None \<Rightarrow> False
      | Some b \<Rightarrow> owns \<and> (let (ok, saw) = nodeReturnsOnlyStaticTitles b False in ok \<and> saw))"

definition nodeReturnsOnlyInteriorViews :: "node \<Rightarrow> bool \<Rightarrow> bool \<times> bool" where
  "nodeReturnsOnlyInteriorViews =
     scan_returns (\<lambda>e mode saw.
       if (case e of ETextLiteral t lt \<Rightarrow> lt = LITERAL_TYPE_NULL | _ \<Rightarrow> False) then (True, saw)
       else if \<not> exprIsInteriorRead e then (False, saw) else (True, True))"

definition returnsInteriorView :: "bool \<Rightarrow> node option \<Rightarrow> bool" where
  "returnsInteriorView owns block =
     (case block of None \<Rightarrow> False
      | Some b \<Rightarrow> \<not> owns \<and> (let (ok, saw) = nodeReturnsOnlyInteriorViews b False in ok \<and> saw))"

fun nodeHasStackReturn :: "node \<Rightarrow> bool"
  and optionHasStackReturn :: "node option \<Rightarrow> bool"
  and childrenHaveStackReturn :: "node option list \<Rightarrow> bool" where
  "nodeHasStackReturn (NReturn e mode) = exprIsStackConstruction e"
| "nodeHasStackReturn (NLabel b) = optionHasStackReturn b"
| "nodeHasStackReturn (NScope b) = optionHasStackReturn b"
| "nodeHasStackReturn (NIf t e) = (optionHasStackReturn t \<or> optionHasStackReturn e)"
| "nodeHasStackReturn (NLoop k b) = optionHasStackReturn b"
| "nodeHasStackReturn (NTry b cs f) = False"
| "nodeHasStackReturn (NSwitch gs) = False"
| "nodeHasStackReturn (NIdentifierLabel b) = False"
| "nodeHasStackReturn (NNode ns) = childrenHaveStackReturn ns"
| "optionHasStackReturn None = False"
| "optionHasStackReturn (Some n) = nodeHasStackReturn n"
| "childrenHaveStackReturn [] = False"
| "childrenHaveStackReturn (n # ns) = (optionHasStackReturn n \<or> childrenHaveStackReturn ns)"

section \<open>Every return of a body\<close>

text \<open>The reference: the returns of a body, wherever they stand, and the bodies without the statements that the
  scans do not enter.\<close>

fun returns_of :: "node \<Rightarrow> (texpr option \<times> bool) list" where
  "returns_of (NReturn e mode) = [(e, mode)]"
| "returns_of (NLabel b) = (case b of None \<Rightarrow> [] | Some n \<Rightarrow> returns_of n)"
| "returns_of (NScope b) = (case b of None \<Rightarrow> [] | Some n \<Rightarrow> returns_of n)"
| "returns_of (NIf t e) =
     (case t of None \<Rightarrow> [] | Some n \<Rightarrow> returns_of n) @ (case e of None \<Rightarrow> [] | Some n \<Rightarrow> returns_of n)"
| "returns_of (NLoop k b) = (case b of None \<Rightarrow> [] | Some n \<Rightarrow> returns_of n)"
| "returns_of (NTry b cs f) =
     (case b of None \<Rightarrow> [] | Some n \<Rightarrow> returns_of n) @
     concat (map (\<lambda>c. case c of None \<Rightarrow> [] | Some n \<Rightarrow> returns_of n) cs) @
     (case f of None \<Rightarrow> [] | Some n \<Rightarrow> returns_of n)"
| "returns_of (NSwitch gs) = concat (map (\<lambda>g. concat (map returns_of g)) gs)"
| "returns_of (NIdentifierLabel b) = (case b of None \<Rightarrow> [] | Some n \<Rightarrow> returns_of n)"
| "returns_of (NNode ns) = concat (map (\<lambda>c. case c of None \<Rightarrow> [] | Some n \<Rightarrow> returns_of n) ns)"

fun scanned :: "node \<Rightarrow> bool" where
  "scanned (NReturn e mode) = True"
| "scanned (NLabel b) = (case b of None \<Rightarrow> True | Some n \<Rightarrow> scanned n)"
| "scanned (NScope b) = (case b of None \<Rightarrow> True | Some n \<Rightarrow> scanned n)"
| "scanned (NIf t e) = ((case t of None \<Rightarrow> True | Some n \<Rightarrow> scanned n) \<and> (case e of None \<Rightarrow> True | Some n \<Rightarrow> scanned n))"
| "scanned (NLoop k b) = (case b of None \<Rightarrow> True | Some n \<Rightarrow> scanned n)"
| "scanned (NTry b cs f) = False"
| "scanned (NSwitch gs) = False"
| "scanned (NIdentifierLabel b) = False"
| "scanned (NNode ns) = list_all id (map (\<lambda>c. case c of None \<Rightarrow> True | Some n \<Rightarrow> scanned n) ns)"

subsection \<open>What a scan finds\<close>

definition returned :: "node \<Rightarrow> (texpr \<times> bool) set" where
  "returned n = {(e, mode). (Some e, mode) \<in> set (returns_of n)}"

definition returned_option :: "node option \<Rightarrow> (texpr \<times> bool) set" where
  "returned_option n = (case n of None \<Rightarrow> {} | Some m \<Rightarrow> returned m)"

definition scanned_option :: "node option \<Rightarrow> bool" where
  "scanned_option n = (case n of None \<Rightarrow> True | Some m \<Rightarrow> scanned m)"

lemma returned_option_in: "(Some e, mode) \<in> set (case n of None \<Rightarrow> [] | Some m \<Rightarrow> returns_of m) \<longleftrightarrow> (e, mode) \<in> returned_option n"
  by (simp add: returned_option_def returned_def split: option.split)

lemma returned_simps [simp]:
  "returned (NReturn re mode) = (case re of None \<Rightarrow> {} | Some x \<Rightarrow> {(x, mode)})"
  "returned (NLabel b) = returned_option b" "returned (NScope b) = returned_option b"
  "returned (NIf t e) = returned_option t \<union> returned_option e" "returned (NLoop k b) = returned_option b"
  "returned (NIdentifierLabel b) = returned_option b"
  "returned (NNode ns) = (\<Union>n \<in> set ns. returned_option n)"
  "returned (NTry b cs f) = returned_option b \<union> (\<Union>n \<in> set cs. returned_option n) \<union> returned_option f"
  "returned (NSwitch gs) = (\<Union>g \<in> set gs. \<Union>n \<in> set g. returned n)"
  unfolding returned_def returns_of.simps set_append Un_iff set_concat set_map image_image UN_iff returned_option_in
  by (auto split: option.split)

lemma scanned_simps [simp]:
  "scanned (NLabel b) = scanned_option b" "scanned (NScope b) = scanned_option b"
  "scanned (NIf t e) = (scanned_option t \<and> scanned_option e)" "scanned (NLoop k b) = scanned_option b"
  "scanned (NNode ns) = list_all scanned_option ns"
  by (simp_all add: scanned_option_def list_all_iff)

lemma option_simps [simp]:
  "returned_option None = {}" "returned_option (Some n) = returned n" "scanned_option None" "scanned_option (Some n) = scanned n"
  by (simp_all add: returned_option_def scanned_option_def)

declare scanned.simps(2-5,9) [simp del]

definition check :: "(texpr \<Rightarrow> bool \<Rightarrow> bool) \<Rightarrow> (texpr \<Rightarrow> bool) \<Rightarrow> return_check" where
  "check ok mark = (\<lambda>e mode saw. if ok e mode then (True, saw \<or> mark e) else (False, saw))"

definition finds :: "(texpr \<Rightarrow> bool \<Rightarrow> bool) \<Rightarrow> (texpr \<Rightarrow> bool) \<Rightarrow> (texpr \<times> bool) set \<Rightarrow> bool \<Rightarrow> bool \<times> bool \<Rightarrow> bool" where
  "finds ok mark R saw r \<longleftrightarrow>
     (fst r \<longleftrightarrow> \<not> (\<exists>(e, mode) \<in> R. \<not> ok e mode)) \<and> (fst r \<longrightarrow> snd r = (saw \<or> (\<exists>(e, mode) \<in> R. mark e)))"

lemma finds_empty [simp]: "finds ok mark {} saw (True, saw)"
  by (simp add: finds_def)

lemma finds_seq:
  assumes "finds ok mark A saw r" "fst r \<Longrightarrow> finds ok mark B (snd r) (f (snd r))"
  shows "finds ok mark (A \<union> B) saw (case r of (True, saw') \<Rightarrow> f saw' | (False, saw') \<Rightarrow> (False, saw'))"
proof (cases r)
  case (Pair b s')
  then show ?thesis using assms by (cases b) (simp_all add: finds_def bex_Un ball_Un disj_assoc)
qed

lemma scan_finds:
  "scanned n \<Longrightarrow> finds ok mark (returned n) saw (scan_returns (check ok mark) n saw)"
  "scanned_option o' \<Longrightarrow> finds ok mark (returned_option o') saw (scan_option (check ok mark) o' saw)"
  "list_all scanned_option ns \<Longrightarrow> finds ok mark (\<Union>n \<in> set ns. returned_option n) saw (scan_children (check ok mark) ns saw)"
proof (induction "check ok mark" n saw and "check ok mark" o' saw and "check ok mark" ns saw
    rule: scan_returns_scan_option_scan_children.induct)
  case (1 e mode saw)
  then show ?case by (auto simp: check_def finds_def split: option.splits)
next
  case (4 t e saw)
  show ?case unfolding returned_simps scan_returns.simps
    by (rule finds_seq) (use 4(1,3) in simp, use 4(2) [OF prod.collapse] 4(3) in simp)
next
  case (13 n ns saw)
  show ?case unfolding list.set UN_insert scan_children.simps
    by (rule finds_seq) (use 13(1,3) in simp, use 13(2) [OF prod.collapse] 13(3) in simp)
qed simp_all

lemma stack_return_found:
  "scanned n \<Longrightarrow> nodeHasStackReturn n \<longleftrightarrow> (\<exists>e mode. (e, mode) \<in> returned n \<and> exprIsStackConstruction (Some e))"
  "scanned_option o' \<Longrightarrow> optionHasStackReturn o' \<longleftrightarrow> (\<exists>e mode. (e, mode) \<in> returned_option o' \<and> exprIsStackConstruction (Some e))"
  "list_all scanned_option ns \<Longrightarrow>
     childrenHaveStackReturn ns \<longleftrightarrow> (\<exists>e mode. (\<exists>n \<in> set ns. (e, mode) \<in> returned_option n) \<and> exprIsStackConstruction (Some e))"
proof (induction n and o' and ns rule: nodeHasStackReturn_optionHasStackReturn_childrenHaveStackReturn.induct)
  case (1 e mode)
  then show ?case by (cases e) (auto simp: exprIsStackConstruction_def)
next
  case (13 n ns)
  then show ?case by simp blast
qed auto

lemma static_titles_check: "nodeReturnsOnlyStaticTitles = scan_returns (check (\<lambda>e mode. \<not> mode \<and> exprIsStaticTitle e) (\<lambda>e. True))"
  unfolding nodeReturnsOnlyStaticTitles_def check_def by (rule arg_cong [where f = scan_returns]) (auto simp: fun_eq_iff)

definition null_literal :: "texpr \<Rightarrow> bool" where
  "null_literal e = (case e of ETextLiteral t lt \<Rightarrow> lt = LITERAL_TYPE_NULL | _ \<Rightarrow> False)"

lemma interior_views_check:
  "nodeReturnsOnlyInteriorViews =
     scan_returns (check (\<lambda>e mode. null_literal e \<or> exprIsInteriorRead e) (\<lambda>e. \<not> null_literal e))"
  unfolding nodeReturnsOnlyInteriorViews_def check_def null_literal_def [symmetric]
  by (rule arg_cong [where f = scan_returns]) (auto simp: fun_eq_iff)

section \<open>What callers are told\<close>

lemma static_title_owned:
  "exprIsStaticTitle e \<Longrightarrow> \<not> isOwnershipLessScalar (resolvedType e) \<Longrightarrow>
   v_error (policy (classify E e) Role_ReturnOwned) = None \<and> v_answer (policy (classify E e) Role_ReturnOwned) = Ans_Owned"
  by (cases e) (auto simp: exprIsStaticTitle_def leaf_shape_def read_shape_def policy_def escapesBorrowedSlots_def Let_def)

text \<open>C7: When callers are told that every result carries a title, without a flag, it does: in a body that the
  scan enters wholly, each return is a plain one of an expression that is accepted under the \<open>#\<close> return type
  and answered to be owned, and there is one.\<close>

theorem static_title_callee_owns:
  assumes "scanned body" "returnsStaticTitle owns (Some body)"
  shows "returned body \<noteq> {} \<and>
    returned body \<subseteq> {(e, mode). \<not> mode \<and> (isOwnershipLessScalar (resolvedType e) \<or>
      (v_error (policy (classify E e) Role_ReturnOwned) = None \<and> v_answer (policy (classify E e) Role_ReturnOwned) = Ans_Owned))}"
proof -
  from assms(2) have r: "fst (nodeReturnsOnlyStaticTitles body False)" "snd (nodeReturnsOnlyStaticTitles body False)"
    by (auto simp: returnsStaticTitle_def split: prod.splits)
  have f: "finds (\<lambda>e mode. \<not> mode \<and> exprIsStaticTitle e) (\<lambda>e. True) (returned body) False (nodeReturnsOnlyStaticTitles body False)"
    unfolding static_titles_check by (rule scan_finds(1) [OF assms(1)])
  then have "returned body \<noteq> {}" "\<And>e mode. (e, mode) \<in> returned body \<Longrightarrow> \<not> mode \<and> exprIsStaticTitle e"
    using r by (auto simp: finds_def)
  then show ?thesis using static_title_owned by blast
qed

theorem static_title_callee_owns_witness:
  "let body = NNode [Some (NIf (Some (NReturn (Some (ENew None False False)) False)) None),
                     Some (NReturn (Some (ETextLiteral None LITERAL_TYPE_STRING)) False)]
   in scanned body \<and> returnsStaticTitle True (Some body) \<and> returned body \<noteq> {}"
proof -
  let ?b = "NNode [Some (NIf (Some (NReturn (Some (ENew None False False)) False)) None),
                     Some (NReturn (Some (ETextLiteral None LITERAL_TYPE_STRING)) False)]"
  have "scanned ?b" "returnsStaticTitle True (Some ?b)"
    by (simp_all add: returnsStaticTitle_def nodeReturnsOnlyStaticTitles_def exprIsStaticTitle_def)
  with static_title_callee_owns [OF this] show ?thesis by simp
qed

text \<open>A \<open>return #= x\<close> inside a \<open>try\<close> is not seen, so a method that may hand out a borrow there counts as one
  whose every result is owned.\<close>

theorem return_in_try_unseen:
  "\<exists>body e. (e, True) \<in> returned body \<and> \<not> exprIsStaticTitle e \<and> returnsStaticTitle True (Some body)"
  by (rule exI [of _ "NNode [Some (NTry (Some (NNode [Some (NReturn (Some (EIdentifier None ''x'')) True)])) [] None),
        Some (NReturn (Some (ENew None False False)) False)]"], rule exI [of _ "EIdentifier None ''x''"])
    (simp add: returnsStaticTitle_def nodeReturnsOnlyStaticTitles_def exprIsStaticTitle_def)

text \<open>When callers are told that a result is a view, each return of the body is a read of the receiver's
  interior or \<open>null\<close>, and one is a read.\<close>

theorem interior_view_callee_lends:
  assumes "scanned body" "returnsInteriorView owns (Some body)"
  shows "\<not> owns \<and> fst ` returned body \<subseteq> {e. null_literal e \<or> exprIsInteriorRead e} \<and>
    (\<exists>e \<in> fst ` returned body. exprIsInteriorRead e)"
proof -
  from assms(2) have r: "fst (nodeReturnsOnlyInteriorViews body False)" "snd (nodeReturnsOnlyInteriorViews body False)" "\<not> owns"
    by (auto simp: returnsInteriorView_def split: prod.splits)
  have f: "finds (\<lambda>e mode. null_literal e \<or> exprIsInteriorRead e) (\<lambda>e. \<not> null_literal e) (returned body) False
      (nodeReturnsOnlyInteriorViews body False)"
    unfolding interior_views_check by (rule scan_finds(1) [OF assms(1)])
  then have *: "\<And>e mode. (e, mode) \<in> returned body \<Longrightarrow> null_literal e \<or> exprIsInteriorRead e"
    "\<exists>(e, mode) \<in> returned body. \<not> null_literal e"
    using r by (auto simp: finds_def)
  then show ?thesis using r(3) by force
qed

theorem interior_view_callee_lends_witness:
  "let body = NNode [Some (NIf (Some (NReturn (Some (ETextLiteral None LITERAL_TYPE_NULL)) False)) None),
                     Some (NReturn (Some (EArrayIndex None (Some (EDot None False (Some (EThis None)))))) False)]
   in scanned body \<and> returnsInteriorView False (Some body) \<and> (\<exists>e \<in> fst ` returned body. exprIsInteriorRead e)"
proof -
  let ?b = "NNode [Some (NIf (Some (NReturn (Some (ETextLiteral None LITERAL_TYPE_NULL)) False)) None),
                     Some (NReturn (Some (EArrayIndex None (Some (EDot None False (Some (EThis None)))))) False)]"
  have "scanned ?b" "returnsInteriorView False (Some ?b)"
    by (simp_all add: returnsInteriorView_def nodeReturnsOnlyInteriorViews_def)
  with interior_view_callee_lends [OF this] show ?thesis unfolding Let_def by blast
qed

end
