(* ===== verification/Move_Flow.thy ===== *)
theory Move_Flow
  imports Scope_State
begin

text \<open>
  What generating the code of a statement does to the scope of its method: the order in which marks are
  set, saved, restored and joined at \<open>if\<close>, \<open>while\<close> and \<open>do\<close> (\<open>asn/Statement.cpp\<close>), at blocks
  (\<open>asn/Block.cpp\<close>), at assignments (\<open>asn/expression/BinaryOpExpression.cpp\<close>), at reads and at moves. A flow
  is a statement or an expression with what matters here. Against it stands \<open>run\<close>, what may happen when the
  code runs: which names have no value yet. LLVM code, \<open>for\<close>, \<open>switch\<close> and \<open>try\<close>, and the units of scripts are
  left out.
\<close>

subsection \<open>Flows\<close>

datatype flow =
    F_Read string
  | F_Move string string
  | F_Declare "local"
  | F_Assign string flow
  | F_Seq "flow list"
  | F_Block "flow list"
  | F_If flow flow "flow option"
  | F_While flow flow
  | F_Do flow flow
  | F_Return flow
  | F_Throw flow
  | F_Break
  | F_Continue

text \<open>\<open>F_Move\<close> has the note of the site; \<open>F_Declare\<close> is a declaration without an initializer, of a type that needs
  one; \<open>F_Seq\<close> is the parts of an expression in their order. How the insertion block ends after a flow: open,
  with a return, or open and empty with nothing that leads to it, as after \<open>throw\<close>, \<open>break\<close>, \<open>continue\<close> and after an
  \<open>if\<close> whose arms both end with a return. The flow after such a block is taken to emit code into it.\<close>

datatype ending = Falls | Returned | Parked

definition terminated :: "ending \<Rightarrow> bool" where
  "terminated st \<longleftrightarrow> st = Returned"

datatype flow_error = NotAssigned string | Transfer scope_error

definition read_name :: "string \<Rightarrow> scopes \<Rightarrow> flow_error + scopes" where
  "read_name n s = (if isNotYetAssigned n s then Inl (NotAssigned n) else Inr (snd (getField n s)))"

definition move_name :: "string \<Rightarrow> string \<Rightarrow> scopes \<Rightarrow> flow_error + scopes" where
  "move_name n site s =
     bindE (read_name n s) (\<lambda>s1.
       (case rejectTransferOfBorrow n False s1 of
          (Some er, s2) \<Rightarrow> Inl (Transfer er)
        | (None, s2) \<Rightarrow> Inr (snd (getField n (demoteToBorrow n site s2)))))"

text \<open>What an assignment to a name does before its sides are generated.\<close>

definition assign_target :: "string \<Rightarrow> scopes \<Rightarrow> scopes" where
  "assign_target n s =
     (let s1 = markAssigned n s in if isBorrow n s1 then restoreOwnership n s1 else s1)"

text \<open>The names that a block declares over a binding of the same name, with these bindings.\<close>

definition shadowed :: "flow list \<Rightarrow> scopes \<Rightarrow> (string \<times> local option) list" where
  "shadowed bs s =
     List.map_filter
       (\<lambda>b. case b of
          F_Declare x \<Rightarrow> (case localBinding (l_name x) s of None \<Rightarrow> None | Some p \<Rightarrow> Some (l_name x, Some p))
        | _ \<Rightarrow> None) bs"

definition close_block :: "(string \<times> local option) list \<Rightarrow> nat \<Rightarrow> ending \<Rightarrow> scopes \<Rightarrow> scopes" where
  "close_block sh mark e s =
     fold (\<lambda>(n, prior). restoreBinding n prior) (rev sh) (if e = Returned \<or> e = Parked then retractMovesSince mark s else s)"

fun gen :: "flow \<Rightarrow> scopes \<Rightarrow> flow_error + scopes \<times> ending"
  and gen_all :: "flow list \<Rightarrow> scopes \<Rightarrow> flow_error + scopes \<times> ending"
  and gen_block :: "flow list \<Rightarrow> scopes \<Rightarrow> flow_error + scopes \<times> ending" where
  "gen (F_Read n) s = bindE (read_name n s) (\<lambda>s1. Inr (s1, Falls))"
| "gen (F_Move n site) s = bindE (move_name n site s) (\<lambda>s1. Inr (s1, Falls))"
| "gen (F_Declare x) s = Inr (markNotYetAssigned (l_name x) (putField x s), Falls)"
| "gen (F_Assign n e) s =
     bindE (read_name n (assign_target n s)) (\<lambda>s1.
     bindE (gen e s1) (\<lambda>(s2, st). Inr (markAssigned n s2, Falls)))"
| "gen (F_Seq es) s = gen_all es s"
| "gen (F_Block bs) s =
     bindE (gen_block bs s) (\<lambda>(s1, st). Inr (close_block (shadowed bs s) (moveLogSize s) st s1, st))"
| "gen (F_If c t e) s =
     bindE (gen c s) (\<lambda>(s1, st1).
     let preIfNYA = snapshotNotYetAssigned s1; preIfMoves = moveLogSize s1 in
     bindE (gen t s1) (\<lambda>(s2, st2).
     let postThenNYA = snapshotNotYetAssigned s2 in
     case e of
       None \<Rightarrow> Inr (mergeNotYetAssigned preIfNYA (restoreNotYetAssigned postThenNYA s2), Falls)
     | Some el \<Rightarrow>
         let thenMoves = snapshotMovesSince preIfMoves s2 in
         bindE (gen el (restoreNotYetAssigned preIfNYA (retractMovesSince preIfMoves s2))) (\<lambda>(s3, st3).
         let postElseNYA = snapshotNotYetAssigned s3 in
         Inr (mergeNotYetAssigned postElseNYA (restoreNotYetAssigned postThenNYA (reapplyMoves thenMoves s3)),
           if terminated st2 \<and> terminated st3 then Parked else Falls))))"
| "gen (F_While c b) s =
     bindE (gen c s) (\<lambda>(s1, st1).
     let preBodyNYA = snapshotNotYetAssigned s1 in
     bindE (gen b s1) (\<lambda>(s2, st2). Inr (restoreNotYetAssigned preBodyNYA s2, Falls)))"
| "gen (F_Do b c) s =
     bindE (gen b s) (\<lambda>(s1, st1). bindE (gen c s1) (\<lambda>(s2, st2). Inr (s2, Falls)))"
| "gen (F_Return e) s = bindE (gen e s) (\<lambda>(s1, st). Inr (s1, Returned))"
| "gen (F_Throw e) s = bindE (gen e s) (\<lambda>(s1, st). Inr (s1, Parked))"
| "gen F_Break s = Inr (s, Parked)"
| "gen F_Continue s = Inr (s, Parked)"
| "gen_all [] s = Inr (s, Falls)"
| "gen_all (e # es) s = bindE (gen e s) (\<lambda>(s1, st). gen_all es s1)"
| "gen_block [] s = Inr (s, Falls)"
| "gen_block (b # bs) s = bindE (gen b s) (\<lambda>(s1, st). if terminated st \<or> bs = [] then Inr (s1, st) else gen_block bs s1)"

subsection \<open>Runs\<close>

text \<open>The outcome of a run from the set of names without a value: it goes on, returns, breaks or continues
  with the names that then have none, or it reads one of them.\<close>

datatype outcome = Done "string set" | Left "string set" | Brk "string set" | Cnt "string set" | Bad

definition is_done :: "outcome \<Rightarrow> bool" where
  "is_done r = (case r of Done U \<Rightarrow> True | _ \<Rightarrow> False)"

fun declared :: "flow list \<Rightarrow> string set" where
  "declared [] = {}"
| "declared (F_Declare x # bs) = insert (l_name x) (declared bs)"
| "declared (b # bs) = declared bs"

text \<open>At the end of a block the names that it declared mean again what they meant before it.\<close>

fun leave_block :: "string set \<Rightarrow> string set \<Rightarrow> outcome \<Rightarrow> outcome" where
  "leave_block D U (Done U') = Done (U' - D \<union> U \<inter> D)"
| "leave_block D U (Left U') = Left (U' - D \<union> U \<inter> D)"
| "leave_block D U (Brk U') = Brk (U' - D \<union> U \<inter> D)"
| "leave_block D U (Cnt U') = Cnt (U' - D \<union> U \<inter> D)"
| "leave_block D U Bad = Bad"

inductive run :: "flow \<Rightarrow> string set \<Rightarrow> outcome \<Rightarrow> bool"
  and run_all :: "flow list \<Rightarrow> string set \<Rightarrow> outcome \<Rightarrow> bool" where
  run_read: "run (F_Read n) U (if n \<in> U then Bad else Done U)"
| run_move: "run (F_Move n site) U (if n \<in> U then Bad else Done U)"
| run_declare: "run (F_Declare x) U (Done (insert (l_name x) U))"
| run_assign: "run e U (Done U') \<Longrightarrow> run (F_Assign n e) U (Done (U' - {n}))"
| run_assign_stop: "run e U r \<Longrightarrow> \<not> is_done r \<Longrightarrow> run (F_Assign n e) U r"
| run_seq: "run_all es U r \<Longrightarrow> run (F_Seq es) U r"
| run_block: "run_all bs U r \<Longrightarrow> run (F_Block bs) U (leave_block (declared bs) U r)"
| run_then: "run c U (Done U1) \<Longrightarrow> run t U1 r \<Longrightarrow> run (F_If c t e) U r"
| run_else: "run c U (Done U1) \<Longrightarrow> run el U1 r \<Longrightarrow> run (F_If c t (Some el)) U r"
| run_skip: "run c U (Done U1) \<Longrightarrow> run (F_If c t None) U (Done U1)"
| run_if_stop: "run c U r \<Longrightarrow> \<not> is_done r \<Longrightarrow> run (F_If c t e) U r"
| run_while_exit: "run c U (Done U1) \<Longrightarrow> run (F_While c b) U (Done U1)"
| run_while_stop: "run c U r \<Longrightarrow> \<not> is_done r \<Longrightarrow> run (F_While c b) U r"
| run_while_left: "run c U (Done U1) \<Longrightarrow> run b U1 (Left U2) \<Longrightarrow> run (F_While c b) U (Left U2)"
| run_while_bad: "run c U (Done U1) \<Longrightarrow> run b U1 Bad \<Longrightarrow> run (F_While c b) U Bad"
| run_while_break: "run c U (Done U1) \<Longrightarrow> run b U1 (Brk U2) \<Longrightarrow> run (F_While c b) U (Done U2)"
| run_while_again: "run c U (Done U1) \<Longrightarrow> run b U1 r1 \<Longrightarrow> r1 = Done U2 \<or> r1 = Cnt U2 \<Longrightarrow> run (F_While c b) U2 r \<Longrightarrow>
     run (F_While c b) U r"
| run_do_left: "run b U (Left U1) \<Longrightarrow> run (F_Do b c) U (Left U1)"
| run_do_bad: "run b U Bad \<Longrightarrow> run (F_Do b c) U Bad"
| run_do_break: "run b U (Brk U1) \<Longrightarrow> run (F_Do b c) U (Done U1)"
| run_do_exit: "run b U r1 \<Longrightarrow> r1 = Done U1 \<or> r1 = Cnt U1 \<Longrightarrow> run c U1 r \<Longrightarrow> run (F_Do b c) U r"
| run_do_again: "run b U r1 \<Longrightarrow> r1 = Done U1 \<or> r1 = Cnt U1 \<Longrightarrow> run c U1 (Done U2) \<Longrightarrow> run (F_Do b c) U2 r \<Longrightarrow>
     run (F_Do b c) U r"
| run_return: "run e U (Done U1) \<Longrightarrow> run (F_Return e) U (Left U1)"
| run_return_stop: "run e U r \<Longrightarrow> \<not> is_done r \<Longrightarrow> run (F_Return e) U r"
| run_throw: "run e U (Done U1) \<Longrightarrow> run (F_Throw e) U (Left U1)"
| run_throw_stop: "run e U r \<Longrightarrow> \<not> is_done r \<Longrightarrow> run (F_Throw e) U r"
| run_break: "run F_Break U (Brk U)"
| run_continue: "run F_Continue U (Cnt U)"
| run_nil: "run_all [] U (Done U)"
| run_cons: "run b U (Done U1) \<Longrightarrow> run_all bs U1 r \<Longrightarrow> run_all (b # bs) U r"
| run_cons_stop: "run b U r \<Longrightarrow> \<not> is_done r \<Longrightarrow> run_all (b # bs) U r"

section \<open>Definite assignment\<close>





subsection \<open>What the operations keep of the marks\<close>

lemma snapshot_eq: "snapshotNotYetAssigned s = (case map notYetAssigned s of [] \<Rightarrow> {} | A # _ \<Rightarrow> A)"
  by (cases s) (simp_all add: snapshotNotYetAssigned_def)

lemma nya_at_level: "(\<And>f. notYetAssigned (g f) = notYetAssigned f) \<Longrightarrow> map notYetAssigned (at_level l g s) = map notYetAssigned s"
  by (rule at_level_fields)

lemma nya_mark [simp]: "map notYetAssigned (mark_moved l n w s) = map notYetAssigned s"
  by (simp add: mark_moved_def Let_def here_at_level at_level_fields log_move_def)

lemma nya_demote [simp]: "map notYetAssigned (demoteToBorrow n w s) = map notYetAssigned s"
  by (simp add: demoteToBorrow_def)

lemma nya_putField [simp]: "map notYetAssigned (putField x s) = map notYetAssigned s"
  by (simp add: putField_def here_at_level at_level_fields put_field_def Let_def)

lemma nya_unmarks [simp]: "map notYetAssigned (fold (\<lambda>(l, n). at_level l (unmark n)) xs s) = map notYetAssigned s"
  by (induction xs arbitrary: s) (auto simp: at_level_fields unmark_def)

lemma nya_retract [simp]: "map notYetAssigned (retractMovesSince k s) = map notYetAssigned s"
  by (cases "s = []") (simp_all add: retract_eq here_at_level at_level_fields, simp add: retractMovesSince_def)

lemma nya_reapply [simp]: "map notYetAssigned (reapplyMoves xs s) = map notYetAssigned s"
  unfolding reapplyMoves_def by (induction xs arbitrary: s) auto

lemma nya_restoreOwnership [simp]: "map notYetAssigned (restoreOwnership n s) = map notYetAssigned s"
  by (induction s) (auto simp: unmark_def)

lemma nya_getField [simp]: "map notYetAssigned (snd (getField n s)) = map notYetAssigned s"
  by (induction s) (auto simp: Let_def split: option.splits prod.splits)

lemma nya_restoreBinding [simp]: "map notYetAssigned (restoreBinding n p s) = map notYetAssigned s"
  by (simp add: restoreBinding_def here_at_level at_level_fields split: option.split)

lemma nya_restoreBindings [simp]:
  "map notYetAssigned (fold (\<lambda>(n, prior). restoreBinding n prior) xs s) = map notYetAssigned s"
  by (induction xs arbitrary: s) auto

lemma nya_close [simp]: "map notYetAssigned (close_block sh k e s) = map notYetAssigned s"
  by (simp add: close_block_def)

lemma nya_reject [simp]: "map notYetAssigned (snd (rejectTransferOfBorrow n m s)) = map notYetAssigned s"
proof (cases "getField n s")
  case (Pair x s')
  then have "map notYetAssigned s' = map notYetAssigned s" using nya_getField [of n s] by simp
  with Pair show ?thesis by (simp add: rejectTransferOfBorrow_def split: option.split)
qed

text \<open>In the one scope of a method the marks are a set.\<close>

definition nya :: "scopes \<Rightarrow> string set \<Rightarrow> bool" where
  "nya s A \<longleftrightarrow> map notYetAssigned s = [A]"

lemma nya_length: "nya s A \<Longrightarrow> \<exists>f. s = [f] \<and> notYetAssigned f = A"
  by (auto simp: nya_def)






subsection \<open>What runs leave\<close>

definition left_names :: "outcome \<Rightarrow> string set" where
  "left_names r = (case r of Done U \<Rightarrow> U | Left U \<Rightarrow> U | Brk U \<Rightarrow> U | Cnt U \<Rightarrow> U | Bad \<Rightarrow> {})"

lemma left_names_simps [simp]:
  "left_names (Done U) = U" "left_names (Left U) = U" "left_names (Brk U) = U" "left_names (Cnt U) = U" "left_names Bad = {}"
  by (simp_all add: left_names_def)

lemma is_done_simps [simp]: "is_done (Done U)" "\<not> is_done (Left U)" "\<not> is_done (Brk U)" "\<not> is_done (Cnt U)" "\<not> is_done Bad"
  by (simp_all add: is_done_def)







subsection \<open>Soundness\<close>


lemma terminated_simps [simp]: "terminated Returned" "\<not> terminated Falls" "\<not> terminated Parked"
  by (simp_all add: terminated_def)

definition ok_after :: "string set \<Rightarrow> outcome \<Rightarrow> scopes \<Rightarrow> ending \<Rightarrow> bool" where
  "ok_after X r s' st \<longleftrightarrow> r \<noteq> Bad \<and> (\<forall>U'. r = Done U' \<longrightarrow> \<not> terminated st \<and> U' - X \<subseteq> snapshotNotYetAssigned s')"

lemma ok_after_simps [simp]:
  "ok_after X (Done U) s' st \<longleftrightarrow> \<not> terminated st \<and> U - X \<subseteq> snapshotNotYetAssigned s'"
  "ok_after X (Left U) s' st" "ok_after X (Brk U) s' st" "ok_after X (Cnt U) s' st" "\<not> ok_after X Bad s' st"
  by (simp_all add: ok_after_def)







text \<open>\<open>T x; if (..) x = ..; else { while (..) { x = ..; break; } return; } x\<close>\<close>

definition named_local :: "string \<Rightarrow> local" where
  "named_local n = \<lparr>l_name = n, l_type = None, dropEntry = True, runtimeConditionalOwner = False, entryMayBeStale = False,
     stackInstance = False, callBorrowOrigin = [], paramBorrowOrigin = [], l_formal = None, slotBorrowedLocals = []\<rparr>"

lemma name_of_named_local [simp]: "l_name (named_local n) = n"
  by (simp add: named_local_def)

lemmas scope_evals = read_name_def assign_target_def isNotYetAssigned_def markNotYetAssigned_def putField_def put_field_def
  here_def new_frame_def snapshotNotYetAssigned_def restoreNotYetAssigned_def mergeNotYetAssigned_def moveLogSize_def
  retractMovesSince_def snapshotMovesSince_def reapplyMoves_def close_block_def shadowed_def localBinding_def
  restoreBinding_def bound_def List.map_filter_simps Let_def

lemma run_declared: "run (F_Declare (named_local n)) U (Done (insert n U))"
  using run_declare [of "named_local n" U] by simp

lemma run_unassigned: "run (F_Read n) (insert n U) Bad"
  using run_read [of n "insert n U"] by simp


text \<open>Each of the three conditions is needed. The target of an assignment counts as assigned while its right side is
  generated, so \<open>T x; x = x\<close> is accepted.\<close>

theorem own_target_read_accepted:
  "\<exists>b s' st. gen b [new_frame] = Inr (s', st) \<and> run b {} Bad \<and>
     b = F_Block [F_Declare (named_local ''x''), F_Assign ''x'' (F_Read ''x'')]"
proof -
  let ?b = "F_Block [F_Declare (named_local ''x''), F_Assign ''x'' (F_Read ''x'')]"
  have g: "\<exists>s' st. gen ?b [new_frame] = Inr (s', st)"
    by (simp add: scope_evals)
  have "run (F_Assign ''x'' (F_Read ''x'')) {''x''} Bad"
    by (rule run_assign_stop [OF run_unassigned]) simp
  then have "run_all [F_Declare (named_local ''x''), F_Assign ''x'' (F_Read ''x'')] {} Bad"
    by (intro run_cons [OF run_declared] run_cons_stop) simp_all
  then have "run ?b {} (leave_block (declared [F_Declare (named_local ''x''), F_Assign ''x'' (F_Read ''x'')]) {} Bad)"
    by (rule run_block)
  with g show ?thesis by auto
qed

text \<open>A \<open>break\<close> out of a \<open>do\<close> skips the assignments that count at its end: \<open>T x; do { break; x = ..; } while (..); x\<close> with
  the \<open>break\<close> under a condition.\<close>

theorem break_out_of_do_accepted:
  "\<exists>b s' st. gen b [new_frame] = Inr (s', st) \<and> run b {} Bad \<and>
     b = F_Block [F_Declare (named_local ''x''),
       F_Do (F_Block [F_If (F_Seq []) F_Break None, F_Assign ''x'' (F_Seq [])]) (F_Seq []), F_Read ''x'']"
proof -
  let ?d = "F_Do (F_Block [F_If (F_Seq []) F_Break None, F_Assign ''x'' (F_Seq [])]) (F_Seq [])"
  let ?b = "F_Block [F_Declare (named_local ''x''), ?d, F_Read ''x'']"
  have g: "\<exists>s' st. gen ?b [new_frame] = Inr (s', st)"
    by (simp add: scope_evals)
  have i: "run (F_If (F_Seq []) F_Break None) {''x''} (Brk {''x''})"
    by (rule run_then [OF run_seq [OF run_nil] run_break])
  have "run_all [F_If (F_Seq []) F_Break None, F_Assign ''x'' (F_Seq [])] {''x''} (Brk {''x''})"
    by (rule run_cons_stop [OF i]) simp
  from run_block [OF this] have d: "run ?d {''x''} (Done {''x''})"
    by (intro run_do_break) simp
  have "run (F_Read ''x'') {''x''} Bad" by (rule run_unassigned)
  then have "run_all [?d, F_Read ''x''] {''x''} Bad" by (intro run_cons [OF d] run_cons_stop) simp_all
  then have "run_all [F_Declare (named_local ''x''), ?d, F_Read ''x''] {} Bad"
    by (rule run_cons [OF run_declared])
  from run_block [OF this] g show ?thesis by auto
qed

text \<open>The marks go by the name, so that an assignment to a local of a block counts for one that it hides:
  \<open>T x; { T x; x = ..; } x\<close>.\<close>

theorem hidden_local_counts_as_assigned:
  "\<exists>b s' st. gen b [new_frame] = Inr (s', st) \<and> run b {} Bad \<and>
     b = F_Block [F_Declare (named_local ''x''),
       F_Block [F_Declare (named_local ''x''), F_Assign ''x'' (F_Seq [])], F_Read ''x'']"
proof -
  let ?i = "[F_Declare (named_local ''x''), F_Assign ''x'' (F_Seq [])]"
  let ?b = "F_Block [F_Declare (named_local ''x''), F_Block ?i, F_Read ''x'']"
  have g: "\<exists>s' st. gen ?b [new_frame] = Inr (s', st)"
    by (simp add: scope_evals)
  have "run (F_Assign ''x'' (F_Seq [])) {''x''} (Done {})"
    using run_assign [OF run_seq [OF run_nil], of "''x''" "{''x''}"] by simp
  then have "run_all ?i {''x''} (Done {})"
    by (intro run_cons [OF run_declared] run_cons [OF _ run_nil]) simp
  from run_block [OF this] have d: "run (F_Block ?i) {''x''} (Done {''x''})" by simp
  have "run (F_Read ''x'') {''x''} Bad" by (rule run_unassigned)
  then have "run_all [F_Block ?i, F_Read ''x''] {''x''} Bad" by (intro run_cons [OF d] run_cons_stop) simp_all
  then have "run_all [F_Declare (named_local ''x''), F_Block ?i, F_Read ''x''] {} Bad"
    by (rule run_cons [OF run_declared])
  from run_block [OF this] g show ?thesis by auto
qed

section \<open>Moves under a break\<close>

text \<open>A block that ends with \<open>break\<close> takes its moves back as if its path went nowhere, although the path goes on
  after the loop: \<open>while (..) { take(#x); break; } take(#x)\<close> is accepted.\<close>

theorem move_before_break_forgotten:
  "\<exists>f x. sf_fields f ''x'' = Some (Some x) \<and> titleBearing x \<and>
     (\<exists>s' st. gen (F_Seq [F_While (F_Seq []) (F_Block [F_Move ''x'' ''line 1'', F_Break]), F_Move ''x'' ''line 2'']) [f] = Inr (s', st)) \<and>
     (\<exists>er. gen (F_Seq [F_Move ''x'' ''line 1'', F_Move ''x'' ''line 2'']) [f] = Inl er)"
proof -
  let ?c = "\<lparr>ci_qname = None, isInterface = False, isValueType = False, isSharedCapableValue = False\<rparr>"
  let ?x = "\<lparr>l_name = ''x'', l_type = Some (CType False False False (Some ?c) None), dropEntry = True,
    runtimeConditionalOwner = False, entryMayBeStale = False, stackInstance = False, callBorrowOrigin = [],
    paramBorrowOrigin = [], l_formal = None, slotBorrowedLocals = []\<rparr>"
  let ?f = "put_field ?x new_frame"
  have "sf_fields ?f ''x'' = Some (Some ?x)" "titleBearing ?x" by (simp_all add: put_field_def new_frame_def titleBearing_def)
  moreover have "\<exists>s' st. gen (F_Seq [F_While (F_Seq []) (F_Block [F_Move ''x'' ''line 1'', F_Break]), F_Move ''x'' ''line 2'']) [?f] = Inr (s', st)"
    "\<exists>er. gen (F_Seq [F_Move ''x'' ''line 1'', F_Move ''x'' ''line 2'']) [?f] = Inl er"
    by (simp_all add: scope_evals move_name_def rejectTransferOfBorrow_def titleBearing_def isFormal_def demoteToBorrow_def
        target_of_def mark_moved_def frame_at_def at_level_def log_move_def unmark_def)
  ultimately show ?thesis by blast
qed

section \<open>Moves at the join of two arms\<close>

text \<open>The names that a flow moves, assigns and declares somewhere.\<close>

fun moves :: "flow \<Rightarrow> string set" where
  "moves (F_Read n) = {}"
| "moves (F_Move n site) = {n}"
| "moves (F_Declare x) = {}"
| "moves (F_Assign n e) = moves e"
| "moves (F_Seq es) = (\<Union>e \<in> set es. moves e)"
| "moves (F_Block bs) = (\<Union>b \<in> set bs. moves b)"
| "moves (F_If c t e) = moves c \<union> moves t \<union> (case e of None \<Rightarrow> {} | Some el \<Rightarrow> moves el)"
| "moves (F_While c b) = moves c \<union> moves b"
| "moves (F_Do b c) = moves b \<union> moves c"
| "moves (F_Return e) = moves e"
| "moves (F_Throw e) = moves e"
| "moves F_Break = {}"
| "moves F_Continue = {}"

fun assigns :: "flow \<Rightarrow> string set" where
  "assigns (F_Read n) = {}"
| "assigns (F_Move n site) = {}"
| "assigns (F_Declare x) = {}"
| "assigns (F_Assign n e) = insert n (assigns e)"
| "assigns (F_Seq es) = (\<Union>e \<in> set es. assigns e)"
| "assigns (F_Block bs) = (\<Union>b \<in> set bs. assigns b)"
| "assigns (F_If c t e) = assigns c \<union> assigns t \<union> (case e of None \<Rightarrow> {} | Some el \<Rightarrow> assigns el)"
| "assigns (F_While c b) = assigns c \<union> assigns b"
| "assigns (F_Do b c) = assigns b \<union> assigns c"
| "assigns (F_Return e) = assigns e"
| "assigns (F_Throw e) = assigns e"
| "assigns F_Break = {}"
| "assigns F_Continue = {}"

fun declares :: "flow \<Rightarrow> string set" where
  "declares (F_Read n) = {}"
| "declares (F_Move n site) = {}"
| "declares (F_Declare x) = {l_name x}"
| "declares (F_Assign n e) = declares e"
| "declares (F_Seq es) = (\<Union>e \<in> set es. declares e)"
| "declares (F_Block bs) = (\<Union>b \<in> set bs. declares b)"
| "declares (F_If c t e) = declares c \<union> declares t \<union> (case e of None \<Rightarrow> {} | Some el \<Rightarrow> declares el)"
| "declares (F_While c b) = declares c \<union> declares b"
| "declares (F_Do b c) = declares b \<union> declares c"
| "declares (F_Return e) = declares e"
| "declares (F_Throw e) = declares e"
| "declares F_Break = {}"
| "declares F_Continue = {}"

subsection \<open>One name in the one scope of a method\<close>

lemma one_scope [simp]: "at_level l g [f] = [g f]" "frame_at l [f] = f" "here g [f] = [g f]"
  by (simp_all add: at_level_def frame_at_def here_def)

lemma isBorrow_one [simp]: "isBorrow n [f] \<longleftrightarrow> n \<in> borrowedBindings f"
  by simp

text \<open>From one state to a later one the log has grown. A name that is moved at the end was so before or is
  in the new part; unless it is assigned between (\<open>a\<close>), also the other way around, and a name that was moved before is
  not logged again. The new part has the name only if it is moved between (\<open>m\<close>).\<close>

definition tracks :: "string \<Rightarrow> bool \<Rightarrow> bool \<Rightarrow> scopes \<Rightarrow> scopes \<Rightarrow> bool" where
  "tracks n a m s s' \<longleftrightarrow>
     (\<exists>f f' new. s = [f] \<and> s' = [f'] \<and> moveLog f' = moveLog f @ new \<and>
        (n \<in> borrowedBindings f' \<longrightarrow> n \<in> borrowedBindings f \<or> n \<in> snd ` set new) \<and>
        (\<not> a \<longrightarrow> (n \<in> borrowedBindings f \<or> n \<in> snd ` set new \<longrightarrow> n \<in> borrowedBindings f') \<and>
          (n \<in> borrowedBindings f \<longrightarrow> n \<notin> snd ` set new)) \<and>
        (n \<in> snd ` set new \<longrightarrow> m))"

lemma tracks_intro:
  assumes "moveLog f' = moveLog f @ new"
    "n \<in> borrowedBindings f' \<Longrightarrow> n \<in> borrowedBindings f \<or> n \<in> snd ` set new"
    "\<not> a \<Longrightarrow> n \<in> borrowedBindings f \<Longrightarrow> n \<in> borrowedBindings f' \<and> n \<notin> snd ` set new"
    "\<not> a \<Longrightarrow> n \<in> snd ` set new \<Longrightarrow> n \<in> borrowedBindings f'"
    "n \<in> snd ` set new \<Longrightarrow> m"
  shows "tracks n a m [f] [f']"
  unfolding tracks_def using assms by blast

lemma tracks_trans:
  assumes "tracks n a m s1 s2" "tracks n a' m' s2 s3"
  shows "tracks n (a \<or> a') (m \<or> m') s1 s3"
proof -
  obtain f1 f2 x where 1: "s1 = [f1]" "s2 = [f2]" "moveLog f2 = moveLog f1 @ x"
    "n \<in> borrowedBindings f2 \<longrightarrow> n \<in> borrowedBindings f1 \<or> n \<in> snd ` set x"
    "\<not> a \<longrightarrow> (n \<in> borrowedBindings f1 \<or> n \<in> snd ` set x \<longrightarrow> n \<in> borrowedBindings f2) \<and> (n \<in> borrowedBindings f1 \<longrightarrow> n \<notin> snd ` set x)"
    "n \<in> snd ` set x \<longrightarrow> m"
    using assms(1) unfolding tracks_def by blast
  obtain f3 y where 2: "s3 = [f3]" "moveLog f3 = moveLog f2 @ y"
    "n \<in> borrowedBindings f3 \<longrightarrow> n \<in> borrowedBindings f2 \<or> n \<in> snd ` set y"
    "\<not> a' \<longrightarrow> (n \<in> borrowedBindings f2 \<or> n \<in> snd ` set y \<longrightarrow> n \<in> borrowedBindings f3) \<and> (n \<in> borrowedBindings f2 \<longrightarrow> n \<notin> snd ` set y)"
    "n \<in> snd ` set y \<longrightarrow> m'"
    using assms(2) 1(2) unfolding tracks_def by blast
  show ?thesis
    unfolding 1(1) 2(1)
    by (rule tracks_intro [where new = "x @ y"]) (use 1(3-6) 2(2-5) in \<open>auto simp: image_Un\<close>)
qed

lemma tracks_mono: "tracks n a m s s' \<Longrightarrow> (a \<Longrightarrow> a') \<Longrightarrow> (m \<Longrightarrow> m') \<Longrightarrow> tracks n a' m' s s'"
  unfolding tracks_def by blast

lemma tracks_same:
  "map moveLog s' = map moveLog s \<Longrightarrow> length s = 1 \<Longrightarrow>
   (\<And>f f'. s = [f] \<Longrightarrow> s' = [f'] \<Longrightarrow> n \<in> borrowedBindings f' \<longleftrightarrow> n \<in> borrowedBindings f) \<Longrightarrow> tracks n a m s s'"
proof -
  assume l: "map moveLog s' = map moveLog s" "length s = 1"
    and b: "\<And>f f'. s = [f] \<Longrightarrow> s' = [f'] \<Longrightarrow> n \<in> borrowedBindings f' \<longleftrightarrow> n \<in> borrowedBindings f"
  then obtain f f' where s: "s = [f]" "s' = [f']" "moveLog f' = moveLog f" by (auto simp: length_Suc_conv)
  show ?thesis unfolding s(1,2) by (rule tracks_intro [where new = "[]"]) (use b [OF s(1,2)] s(3) in auto)
qed

lemma tracks_length: "tracks n a m s s' \<Longrightarrow> length s = 1 \<and> length s' = 1"
  unfolding tracks_def by auto

lemma tracks_keep:
  "map moveLog s' = map moveLog s \<Longrightarrow> map borrowedBindings s' = map borrowedBindings s \<Longrightarrow> length s = 1 \<Longrightarrow> tracks n a m s s'"
  by (rule tracks_same) (auto simp: length_Suc_conv)

lemma tracks_kept: "tracks n a m s s' \<Longrightarrow> \<not> a \<Longrightarrow> isBorrow n s \<Longrightarrow> isBorrow n s'"
  unfolding tracks_def by (auto simp del: isBorrow.simps)

subsection \<open>The operations\<close>

lemma keep_getField [simp]:
  "map moveLog (snd (getField n s)) = map moveLog s" "map borrowedBindings (snd (getField n s)) = map borrowedBindings s"
  by (induction s) (auto simp: Let_def split: option.splits prod.splits)

lemma keep_reject [simp]:
  "map moveLog (snd (rejectTransferOfBorrow n m s)) = map moveLog s"
  "map borrowedBindings (snd (rejectTransferOfBorrow n m s)) = map borrowedBindings s"
proof -
  have "snd (rejectTransferOfBorrow n m s) = snd (getField n s)"
    by (cases "getField n s") (simp add: rejectTransferOfBorrow_def split: option.split)
  then show "map moveLog (snd (rejectTransferOfBorrow n m s)) = map moveLog s"
    "map borrowedBindings (snd (rejectTransferOfBorrow n m s)) = map borrowedBindings s" by simp_all
qed

lemma tracks_refl: "length s = 1 \<Longrightarrow> tracks n a m s s"
  by (rule tracks_keep) simp_all

lemma tracks_read: "read_name k s = Inr s' \<Longrightarrow> length s = 1 \<Longrightarrow> tracks n a m s s'"
  by (rule tracks_keep) (auto simp: read_name_def split: if_splits)

lemma tracks_demote: "length s = 1 \<Longrightarrow> tracks n a (n = k) s (demoteToBorrow k w s)"
proof -
  assume "length s = 1"
  then obtain f where s: "s = [f]" by (auto simp: length_Suc_conv)
  show ?thesis
    unfolding s tracks_def by (auto simp: demoteToBorrow_def mark_moved_def log_move_def Let_def)
qed

lemma tracks_move: "move_name k w s = Inr s' \<Longrightarrow> length s = 1 \<Longrightarrow> tracks n a (n = k) s s'"
proof -
  assume "move_name k w s = Inr s'" and s: "length s = 1"
  then obtain s1 where r: "read_name k s = Inr s1"
    and m: "(case rejectTransferOfBorrow k False s1 of (Some er, s2) \<Rightarrow> Inl (Transfer er)
        | (None, s2) \<Rightarrow> Inr (snd (getField k (demoteToBorrow k w s2)))) = Inr s'"
    by (auto simp: move_name_def bindE_eq_Inr)
  let ?s2 = "snd (rejectTransferOfBorrow k False s1)" and ?d = "demoteToBorrow k w (snd (rejectTransferOfBorrow k False s1))"
  have s': "s' = snd (getField k ?d)" using m by (auto split: prod.splits option.splits)
  have 1: "tracks n a False s s1" by (rule tracks_read [OF r s])
  have 2: "tracks n a False s1 ?s2" by (rule tracks_keep) (use tracks_length [OF 1] in simp_all)
  have 3: "tracks n a (n = k) ?s2 ?d" by (rule tracks_demote) (use tracks_length [OF 2] in simp)
  have 4: "tracks n a False ?d s'" unfolding s' by (rule tracks_keep) (use tracks_length [OF 3] in simp_all)
  from tracks_trans [OF tracks_trans [OF tracks_trans [OF 1 2] 3] 4] show ?thesis by simp
qed

lemma tracks_target: "length s = 1 \<Longrightarrow> tracks n (n = k) m s (assign_target k s)"
proof -
  assume "length s = 1"
  then obtain f where s: "s = [f]" by (auto simp: length_Suc_conv)
  show ?thesis
    unfolding s tracks_def by (auto simp: assign_target_def unmark_def Let_def)
qed

lemma tracks_declare: "length s = 1 \<Longrightarrow> n \<noteq> l_name x \<Longrightarrow> tracks n a m s (markNotYetAssigned (l_name x) (putField x s))"
  by (rule tracks_same) (auto simp: length_Suc_conv markNotYetAssigned_def putField_def put_field_def Let_def)

lemma tracks_marks:
  "length s = 1 \<Longrightarrow> tracks n a m s (markAssigned k s)"
  "length s = 1 \<Longrightarrow> tracks n a m s (restoreNotYetAssigned A s)"
  "length s = 1 \<Longrightarrow> tracks n a m s (mergeNotYetAssigned A s)"
  by (rule tracks_keep; auto simp: length_Suc_conv restoreNotYetAssigned_def mergeNotYetAssigned_def)+

lemma one_frame: "length s = 1 \<Longrightarrow> \<exists>f. s = [f]"
  by (simp add: length_Suc_conv)

text \<open>A retraction to where the log then ended.\<close>

lemma retract_one:
  "retractMovesSince k [f] = [f'] \<Longrightarrow> moveLog f' = take k (moveLog f) \<and>
     borrowedBindings f' = borrowedBindings f - snd ` set (drop k (moveLog f))"
proof -
  have "\<exists>g. fold (\<lambda>(l, n). at_level l (unmark n)) xs [f] = [g] \<and> moveLog g = moveLog f \<and>
      borrowedBindings g = borrowedBindings f - snd ` set xs" for xs :: "(nat \<times> string) list"
  proof (induction xs arbitrary: f)
    case (Cons x xs)
    obtain l m where x: "x = (l, m)" by (cases x)
    from Cons.IH [of "unmark m f"] show ?case by (auto simp: x unmark_def)
  qed simp
  then obtain g where "fold (\<lambda>(l, n). at_level l (unmark n)) (rev (drop k (moveLog f))) [f] = [g]" "moveLog g = moveLog f"
    "borrowedBindings g = borrowedBindings f - snd ` set (rev (drop k (moveLog f)))" by blast
  moreover assume "retractMovesSince k [f] = [f']"
  ultimately show ?thesis by (auto simp: retractMovesSince_def)
qed

lemma tracks_retract:
  assumes "tracks n a m s s2"
  shows "tracks n a False s (retractMovesSince (moveLogSize s) s2)"
    "\<not> isBorrow n s \<or> \<not> a \<Longrightarrow> isBorrow n (retractMovesSince (moveLogSize s) s2) = isBorrow n s"
proof -
  obtain f f2 new where s: "s = [f]" "s2 = [f2]" "moveLog f2 = moveLog f @ new"
    "n \<in> borrowedBindings f2 \<longrightarrow> n \<in> borrowedBindings f \<or> n \<in> snd ` set new"
    "\<not> a \<longrightarrow> (n \<in> borrowedBindings f \<or> n \<in> snd ` set new \<longrightarrow> n \<in> borrowedBindings f2) \<and> (n \<in> borrowedBindings f \<longrightarrow> n \<notin> snd ` set new)"
    using assms unfolding tracks_def by blast
  obtain f' where r: "retractMovesSince (moveLogSize s) [f2] = [f']"
    using one_frame [of "retractMovesSince (moveLogSize s) [f2]"] by auto
  have f': "moveLog f' = moveLog f" "borrowedBindings f' = borrowedBindings f2 - snd ` set new"
    using retract_one [OF r] s(1,3) by (simp_all add: moveLogSize_def)
  show "tracks n a False s (retractMovesSince (moveLogSize s) s2)"
    unfolding s(1,2) r [unfolded s(1)] by (rule tracks_intro [where new = "[]"]) (use f' s(4,5) in auto)
  show "isBorrow n (retractMovesSince (moveLogSize s) s2) = isBorrow n s" if "\<not> isBorrow n s \<or> \<not> a"
    using that f' s(4,5) unfolding s(1,2) r [unfolded s(1)] isBorrow_one by blast
qed

text \<open>The moves of the first arm, applied after the second.\<close>

lemma mark_one:
  "\<exists>g. mark_moved l m w [f] = [g] \<and> moveLog g = moveLog f @ (if m \<in> borrowedBindings f then [] else [(l, m)]) \<and>
     borrowedBindings g = insert m (borrowedBindings f)"
  by (auto simp: mark_moved_def log_move_def Let_def)

lemma reapply_one:
  "\<exists>f' new. reapplyMoves xs [f] = [f'] \<and> moveLog f' = moveLog f @ new \<and>
     borrowedBindings f' = borrowedBindings f \<union> (fst \<circ> snd) ` set xs \<and> snd ` set new = (fst \<circ> snd) ` set xs - borrowedBindings f"
proof (induction xs arbitrary: f)
  case Nil
  then show ?case by (auto simp: reapplyMoves_def intro: exI [of _ "[]"])
next
  case (Cons x xs)
  obtain l m w where x: "x = (l, m, w)" by (cases x)
  obtain g new1 where g: "mark_moved l m w [f] = [g]" "moveLog g = moveLog f @ new1"
    "borrowedBindings g = insert m (borrowedBindings f)" "snd ` set new1 = {m} - borrowedBindings f"
  proof -
    obtain g where "mark_moved l m w [f] = [g]" "moveLog g = moveLog f @ (if m \<in> borrowedBindings f then [] else [(l, m)])"
      "borrowedBindings g = insert m (borrowedBindings f)" using mark_one [of l m w f] by blast
    then show thesis by (rule that) auto
  qed
  from Cons.IH [of g] obtain f' new2 where h: "reapplyMoves xs [g] = [f']" "moveLog f' = moveLog g @ new2"
    "borrowedBindings f' = borrowedBindings g \<union> (fst \<circ> snd) ` set xs" "snd ` set new2 = (fst \<circ> snd) ` set xs - borrowedBindings g"
    by blast
  have "reapplyMoves (x # xs) [f] = [f']" using h(1) g(1) by (simp add: reapplyMoves_def x)
  moreover have "moveLog f' = moveLog f @ (new1 @ new2)" using g(2) h(2) by simp
  moreover have "borrowedBindings f' = borrowedBindings f \<union> (fst \<circ> snd) ` set (x # xs)" using g(3) h(3) x by auto
  moreover have "snd ` set (new1 @ new2) = (fst \<circ> snd) ` set (x # xs) - borrowedBindings f"
    using g(3,4) h(4) x by (auto simp: image_Un)
  ultimately show ?case by blast
qed

lemma snapshot_one: "(fst \<circ> snd) ` set (snapshotMovesSince k [f]) = snd ` set (drop k (moveLog f))"
  by (force simp: snapshotMovesSince_def)

lemma tracks_reapply:
  assumes "tracks n a m s s2" "length s3 = 1"
  shows "tracks n b m s3 (reapplyMoves (snapshotMovesSince (moveLogSize s) s2) s3)"
    "isBorrow n s3 \<Longrightarrow> isBorrow n (reapplyMoves (snapshotMovesSince (moveLogSize s) s2) s3)"
    "isBorrow n s2 \<Longrightarrow> isBorrow n s \<or> isBorrow n (reapplyMoves (snapshotMovesSince (moveLogSize s) s2) s3)"
    "isBorrow n (reapplyMoves (snapshotMovesSince (moveLogSize s) s2) s3) \<Longrightarrow> \<not> isBorrow n s3 \<Longrightarrow> m \<and> (isBorrow n s2 \<or> a)"
proof -
  obtain f f2 new where s: "s = [f]" "s2 = [f2]" "moveLog f2 = moveLog f @ new"
    "n \<in> borrowedBindings f2 \<longrightarrow> n \<in> borrowedBindings f \<or> n \<in> snd ` set new"
    "\<not> a \<longrightarrow> (n \<in> borrowedBindings f \<or> n \<in> snd ` set new \<longrightarrow> n \<in> borrowedBindings f2) \<and> (n \<in> borrowedBindings f \<longrightarrow> n \<notin> snd ` set new)"
    "n \<in> snd ` set new \<longrightarrow> m"
    using assms(1) unfolding tracks_def by blast
  obtain f3 where s3: "s3 = [f3]" using assms(2) by (auto simp: length_Suc_conv)
  let ?x = "snapshotMovesSince (moveLogSize s) s2"
  have x: "(fst \<circ> snd) ` set ?x = snd ` set new" unfolding s(2) snapshot_one by (simp add: s(1,3) moveLogSize_def)
  from reapply_one [of ?x f3] obtain f' new' where r: "reapplyMoves ?x [f3] = [f']" "moveLog f' = moveLog f3 @ new'"
    "borrowedBindings f' = borrowedBindings f3 \<union> snd ` set new" "snd ` set new' = snd ` set new - borrowedBindings f3"
    unfolding x by blast
  show "tracks n b m s3 (reapplyMoves ?x s3)"
    unfolding s3 r(1) by (rule tracks_intro [where new = new']) (use r s(6) in auto)
  show "isBorrow n s3 \<Longrightarrow> isBorrow n (reapplyMoves ?x s3)"
    "isBorrow n s2 \<Longrightarrow> isBorrow n s \<or> isBorrow n (reapplyMoves ?x s3)"
    "isBorrow n (reapplyMoves ?x s3) \<Longrightarrow> \<not> isBorrow n s3 \<Longrightarrow> m \<and> (isBorrow n s2 \<or> a)"
    using s(4-6) r(3) unfolding s3 r(1) unfolding s(1,2) isBorrow_one by blast+
qed

lemma tracks_close:
  assumes "tracks n a m s s1"
  shows "tracks n a m s (close_block sh (moveLogSize s) e s1)"
proof -
  let ?r = "if e = Returned \<or> e = Parked then retractMovesSince (moveLogSize s) s1 else s1"
  have r: "tracks n a m s ?r" using assms tracks_mono [OF tracks_retract(1) [OF assms], of a m] by simp
  have "map moveLog (restoreBinding k p s') = map moveLog s' \<and> map borrowedBindings (restoreBinding k p s') = map borrowedBindings s'"
    for k p s' by (simp add: restoreBinding_def here_at_level at_level_fields split: option.split)
  then have "map moveLog (fold (\<lambda>(k, prior). restoreBinding k prior) xs s') = map moveLog s' \<and>
      map borrowedBindings (fold (\<lambda>(k, prior). restoreBinding k prior) xs s') = map borrowedBindings s'" for xs s'
    by (induction xs arbitrary: s') auto
  then have "tracks n False False ?r (close_block sh (moveLogSize s) e s1)"
    unfolding close_block_def by (intro tracks_keep) (use tracks_length [OF r] in simp_all)
  from tracks_trans [OF r this] show ?thesis by simp
qed

subsection \<open>Flows\<close>

lemma tracks_step:
  "tracks n a m s1 s2 \<Longrightarrow> tracks n a' m' s2 s3 \<Longrightarrow> (a \<or> a' \<Longrightarrow> b) \<Longrightarrow> (m \<or> m' \<Longrightarrow> k) \<Longrightarrow> tracks n b k s1 s3"
  using tracks_trans tracks_mono by blast

lemma gen_tracks:
  "gen b s = Inr (s', st) \<Longrightarrow> length s = 1 \<Longrightarrow> n \<notin> declares b \<Longrightarrow> tracks n (n \<in> assigns b) (n \<in> moves b) s s'"
  "gen_all bs s = Inr (s', st) \<Longrightarrow> length s = 1 \<Longrightarrow> \<forall>b \<in> set bs. n \<notin> declares b \<Longrightarrow>
     tracks n (\<exists>b \<in> set bs. n \<in> assigns b) (\<exists>b \<in> set bs. n \<in> moves b) s s'"
  "gen_block bs s = Inr (s', st) \<Longrightarrow> length s = 1 \<Longrightarrow> \<forall>b \<in> set bs. n \<notin> declares b \<Longrightarrow>
     tracks n (\<exists>b \<in> set bs. n \<in> assigns b) (\<exists>b \<in> set bs. n \<in> moves b) s s'"
proof (induction b s and bs s and bs s arbitrary: s' st and s' st and s' st rule: gen_gen_all_gen_block.induct)
  case (1 k s)
  then show ?case by (auto simp: bindE_eq_Inr intro: tracks_read)
next
  case (2 k site s)
  then show ?case using tracks_move [of k site s s' n False] by (auto simp: bindE_eq_Inr)
next
  case (3 x s)
  then show ?case using tracks_declare [of s n x] by auto
next
  case (4 k e s)
  then obtain s1 s2 st2 where g: "read_name k (assign_target k s) = Inr s1" "gen e s1 = Inr (s2, st2)" "s' = markAssigned k s2"
    by (auto simp: bindE_eq_Inr)
  have 1: "tracks n (n = k) False s (assign_target k s)" by (rule tracks_target [OF "4.prems"(2)])
  have 2: "tracks n False False (assign_target k s) s1" by (rule tracks_read [OF g(1)]) (use tracks_length [OF 1] in simp)
  have 3: "tracks n (n \<in> assigns e) (n \<in> moves e) s1 s2"
    by (rule "4.IH" [OF g(1) g(2)]) (use tracks_length [OF 2] "4.prems"(3) in simp_all)
  have 4: "tracks n False False s2 s'" unfolding g(3) by (rule tracks_marks(1)) (use tracks_length [OF 3] in simp)
  show ?case by (rule tracks_step [OF tracks_trans [OF tracks_trans [OF 1 2] 3] 4]) auto
next
  case (6 bs s)
  then obtain s1 st1 where g: "gen_block bs s = Inr (s1, st1)" "s' = close_block (shadowed bs s) (moveLogSize s) st1 s1"
    by (auto simp: bindE_eq_Inr)
  show ?case
    unfolding g(2) by (rule tracks_close) (use "6.IH" [OF g(1)] "6.prems" in simp)
next
  case (7 c t e s)
  then obtain s1 st1 s2 st2 where g: "gen c s = Inr (s1, st1)" "gen t s1 = Inr (s2, st2)"
    by (auto simp: bindE_eq_Inr Let_def)
  have 1: "tracks n (n \<in> assigns c) (n \<in> moves c) s s1"
    by (rule "7.IH"(1) [OF g(1)]) (use "7.prems" in simp_all)
  have 2: "tracks n (n \<in> assigns t) (n \<in> moves t) s1 s2"
    by (rule "7.IH"(2) [OF g(1) refl refl refl g(2)]) (use tracks_length [OF 1] "7.prems" in simp_all)
  show ?case
  proof (cases e)
    case None
    let ?r = "restoreNotYetAssigned (snapshotNotYetAssigned s2) s2"
    have 3: "tracks n False False s2 ?r" by (rule tracks_marks) (use tracks_length [OF 2] in simp)
    have 4: "tracks n False False ?r s'"
      using "7.prems"(1) g None tracks_marks(3) [of ?r n False False] tracks_length [OF 3] by (auto simp: Let_def)
    show ?thesis by (rule tracks_step [OF tracks_trans [OF tracks_trans [OF 1 2] 3] 4]) auto
  next
    case (Some el)
    let ?r = "retractMovesSince (moveLogSize s1) s2" and ?x = "snapshotMovesSince (moveLogSize s1) s2"
    let ?s = "restoreNotYetAssigned (snapshotNotYetAssigned s1) ?r"
    obtain s3 st3 where g3: "gen el ?s = Inr (s3, st3)" using "7.prems"(1) g Some by (auto simp: Let_def bindE_eq_Inr)
    let ?j = "reapplyMoves ?x s3"
    let ?k = "restoreNotYetAssigned (snapshotNotYetAssigned s2) ?j"
    have r: "tracks n (n \<in> assigns t) False s1 ?r" by (rule tracks_retract(1) [OF 2])
    have s: "tracks n False False ?r ?s" by (rule tracks_marks) (use tracks_length [OF r] in simp)
    have 3: "tracks n (n \<in> assigns el) (n \<in> moves el) ?s s3"
      by (rule "7.IH"(3) [OF g(1) refl refl refl g(2) refl refl Some refl g3])
        (use tracks_length [OF s] "7.prems" Some in simp_all)
    have j: "tracks n False (n \<in> moves t) s3 ?j" by (rule tracks_reapply(1) [OF 2]) (use tracks_length [OF 3] in simp)
    have k: "tracks n False False ?j ?k" by (rule tracks_marks) (use tracks_length [OF j] in simp)
    have l: "tracks n False False ?k s'"
      using "7.prems"(1) g g3 Some tracks_marks(3) [of ?k n False False] tracks_length [OF k] by (auto simp: Let_def)
    show ?thesis
      by (rule tracks_step [OF tracks_trans [OF tracks_trans [OF tracks_trans [OF 1 r] s] 3]
            tracks_trans [OF tracks_trans [OF j k] l]]) (use Some in auto)
  qed
next
  case (8 c b s)
  then obtain s1 st1 s2 st2 where g: "gen c s = Inr (s1, st1)" "gen b s1 = Inr (s2, st2)"
    "s' = restoreNotYetAssigned (snapshotNotYetAssigned s1) s2"
    by (auto simp: bindE_eq_Inr Let_def)
  have 1: "tracks n (n \<in> assigns c) (n \<in> moves c) s s1"
    by (rule "8.IH"(1) [OF g(1)]) (use "8.prems" in simp_all)
  have 2: "tracks n (n \<in> assigns b) (n \<in> moves b) s1 s2"
    by (rule "8.IH"(2) [OF g(1) refl refl g(2)]) (use tracks_length [OF 1] "8.prems" in simp_all)
  have 3: "tracks n False False s2 s'" unfolding g(3) by (rule tracks_marks) (use tracks_length [OF 2] in simp)
  show ?case by (rule tracks_step [OF tracks_trans [OF 1 2] 3]) auto
next
  case (9 b c s)
  then obtain s1 st1 st2 where g: "gen b s = Inr (s1, st1)" "gen c s1 = Inr (s', st2)"
    by (auto simp: bindE_eq_Inr)
  have 1: "tracks n (n \<in> assigns b) (n \<in> moves b) s s1"
    by (rule "9.IH"(1) [OF g(1)]) (use "9.prems" in simp_all)
  have 2: "tracks n (n \<in> assigns c) (n \<in> moves c) s1 s'"
    by (rule "9.IH"(2) [OF g(1) refl g(2)]) (use tracks_length [OF 1] "9.prems" in simp_all)
  show ?case by (rule tracks_step [OF 1 2]) auto
next
  case (15 e es s)
  then obtain s1 st1 where g: "gen e s = Inr (s1, st1)" "gen_all es s1 = Inr (s', st)"
    by (auto simp: bindE_eq_Inr)
  have 1: "tracks n (n \<in> assigns e) (n \<in> moves e) s s1"
    by (rule "15.IH"(1) [OF g(1)]) (use "15.prems" in simp_all)
  show ?case
    by (rule tracks_step [OF 1 "15.IH"(2) [OF g(1) refl g(2)]]) (use tracks_length [OF 1] "15.prems" in auto)
next
  case (17 b bs s)
  then obtain s1 st1 where g: "gen b s = Inr (s1, st1)"
    and r: "(if terminated st1 \<or> bs = [] then Inr (s1, st1) else gen_block bs s1) = Inr (s', st)"
    by (auto simp: bindE_eq_Inr)
  have 1: "tracks n (n \<in> assigns b) (n \<in> moves b) s s1"
    by (rule "17.IH"(1) [OF g]) (use "17.prems" in simp_all)
  show ?case
  proof (cases "terminated st1 \<or> bs = []")
    case True
    then have "s1 = s'" using r by (simp split: if_splits)
    then show ?thesis using tracks_mono [OF 1] by simp
  next
    case False
    then have g2: "gen_block bs s1 = Inr (s', st)" using r by simp
    show ?thesis
      by (rule tracks_step [OF 1 "17.IH"(2) [OF g refl False g2]]) (use tracks_length [OF 1] "17.prems" in auto)
  qed
qed (auto simp: bindE_eq_Inr tracks_refl)

text \<open>C11: The move state at an \<open>if\<close> with two arms, in the one scope of a method, for a name that neither arm declares and that
  is not both moved before the arms and assigned in one: the second arm starts with the name moved exactly if it was
  before the first, and after the \<open>if\<close> it is moved if it is at the end of one of the arms, and otherwise only if the
  first arm both moves and assigns it. Arms are any flows, with blocks, loops and \<open>if\<close>s in them.\<close>

theorem join_unites_moves:
  assumes "gen (F_If c t (Some e)) [f] = Inr (s', st)" "gen c [f] = Inr (s1, st1)"
    and "n \<notin> declares c \<union> declares t \<union> declares e" "\<not> isBorrow n s1 \<or> n \<notin> assigns t \<union> assigns e"
  shows "\<exists>s2 st2 r s3 st3. gen t s1 = Inr (s2, st2) \<and>
     r = restoreNotYetAssigned (snapshotNotYetAssigned s1) (retractMovesSince (moveLogSize s1) s2) \<and>
     gen e r = Inr (s3, st3) \<and> (isBorrow n r \<longleftrightarrow> isBorrow n s1) \<and>
     (isBorrow n s2 \<or> isBorrow n s3 \<longrightarrow> isBorrow n s') \<and>
     (isBorrow n s' \<longrightarrow> isBorrow n s2 \<or> isBorrow n s3 \<or> n \<in> moves t \<and> n \<in> assigns t)"
proof -
  obtain s2 st2 where g2: "gen t s1 = Inr (s2, st2)" using assms(1,2) by (auto simp: bindE_eq_Inr Let_def)
  let ?q = "retractMovesSince (moveLogSize s1) s2" and ?x = "snapshotMovesSince (moveLogSize s1) s2"
  let ?r = "restoreNotYetAssigned (snapshotNotYetAssigned s1) ?q"
  obtain s3 st3 where g3: "gen e ?r = Inr (s3, st3)" using assms(1,2) g2 by (auto simp: Let_def bindE_eq_Inr)
  let ?j = "reapplyMoves ?x s3"
  have s': "s' = mergeNotYetAssigned (snapshotNotYetAssigned s3) (restoreNotYetAssigned (snapshotNotYetAssigned s2) ?j)"
    using assms(1,2) g2 g3 by (auto simp: Let_def)
  have 1: "tracks n (n \<in> assigns c) (n \<in> moves c) [f] s1"
    by (rule gen_tracks(1) [OF assms(2)]) (use assms(3) in simp_all)
  have 2: "tracks n (n \<in> assigns t) (n \<in> moves t) s1 s2"
    by (rule gen_tracks(1) [OF g2]) (use tracks_length [OF 1] assms(3) in simp_all)
  have marks: "isBorrow n (restoreNotYetAssigned A s) = isBorrow n s" "isBorrow n (mergeNotYetAssigned A s) = isBorrow n s" for A s
    by (rule isBorrow_cong; simp add: restoreNotYetAssigned_def mergeNotYetAssigned_def here_at_level at_level_fields)+
  have q: "tracks n (n \<in> assigns t) False s1 ?q" by (rule tracks_retract(1) [OF 2])
  have r: "isBorrow n ?r = isBorrow n s1" using tracks_retract(2) [OF 2] assms(4) by (auto simp: marks)
  have 3: "tracks n (n \<in> assigns e) (n \<in> moves e) ?r s3"
    by (rule gen_tracks(1) [OF g3]) (use tracks_length [OF q] assms(3) in \<open>simp_all add: restoreNotYetAssigned_def\<close>)
  have l3: "length s3 = 1" using tracks_length [OF 3] by simp
  have i: "isBorrow n s' = isBorrow n ?j" unfolding s' marks by (rule refl)
  have kept: "isBorrow n s1 \<Longrightarrow> isBorrow n s3"
    by (rule tracks_kept [OF 3]) (use r assms(4) in auto)
  have "isBorrow n s2 \<or> isBorrow n s3 \<Longrightarrow> isBorrow n s'"
    unfolding i using tracks_reapply(2,3) [OF 2 l3] kept by blast
  moreover have "isBorrow n s' \<Longrightarrow> isBorrow n s2 \<or> isBorrow n s3 \<or> n \<in> moves t \<and> n \<in> assigns t"
    unfolding i using tracks_reapply(4) [OF 2 l3] by blast
  ultimately show ?thesis using g2 g3 r by blast
qed

theorem join_unites_moves_witness:
  "\<exists>f s'. (let t = F_Block [F_If (F_Seq []) (F_Block [F_Move ''x'' ''line 1'']) None]; e = F_Block [F_Assign ''y'' (F_Read ''x'')]
     in (\<exists>st. gen (F_If (F_Seq []) t (Some e)) [f] = Inr (s', st)) \<and> isBorrow ''x'' s')"
proof -
  let ?c = "\<lparr>ci_qname = None, isInterface = False, isValueType = False, isSharedCapableValue = False\<rparr>"
  let ?x = "\<lparr>l_name = ''x'', l_type = Some (CType False False False (Some ?c) None), dropEntry = True,
    runtimeConditionalOwner = False, entryMayBeStale = False, stackInstance = False, callBorrowOrigin = [],
    paramBorrowOrigin = [], l_formal = None, slotBorrowedLocals = []\<rparr>"
  let ?f = "put_field ?x new_frame"
  let ?t = "F_Block [F_If (F_Seq []) (F_Block [F_Move ''x'' ''line 1'']) None]" and ?e = "F_Block [F_Assign ''y'' (F_Read ''x'')]"
  note ev = scope_evals move_name_def rejectTransferOfBorrow_def titleBearing_def isFormal_def demoteToBorrow_def
    target_of_def mark_moved_def frame_at_def at_level_def log_move_def unmark_def
  obtain s' st where g: "gen (F_If (F_Seq []) ?t (Some ?e)) [?f] = Inr (s', st)"
    by (simp add: ev)
  have c: "gen (F_Seq []) [?f] = Inr ([?f], Falls)" by simp
  have b: "\<not> isBorrow ''x'' [?f] \<or> ''x'' \<notin> assigns ?t \<union> assigns ?e" by simp
  have d: "''x'' \<notin> declares (F_Seq []) \<union> declares ?t \<union> declares ?e" by simp
  have t: "\<exists>s2. (\<exists>st2. gen ?t [?f] = Inr (s2, st2)) \<and> isBorrow ''x'' s2"
    by (simp add: ev)
  from join_unites_moves [OF g c d b] t have "isBorrow ''x'' s'" by fastforce
  with g show ?thesis unfolding Let_def by blast
qed

text \<open>The name that is left out: moved before the \<open>if\<close> and assigned in one arm. It counts as not moved after both, so
  \<open>take(#x); if (..) {} else { x = ..; } take(#x)\<close> is accepted.\<close>

theorem assigned_in_one_arm_counts_for_both:
  "\<exists>f x. sf_fields f ''x'' = Some (Some x) \<and> titleBearing x \<and>
     (\<exists>s' st. gen (F_Seq [F_Move ''x'' ''line 1'', F_If (F_Seq []) (F_Block []) (Some (F_Block [F_Assign ''x'' (F_Seq [])])),
        F_Move ''x'' ''line 2'']) [f] = Inr (s', st))"
proof -
  let ?c = "\<lparr>ci_qname = None, isInterface = False, isValueType = False, isSharedCapableValue = False\<rparr>"
  let ?x = "\<lparr>l_name = ''x'', l_type = Some (CType False False False (Some ?c) None), dropEntry = True,
    runtimeConditionalOwner = False, entryMayBeStale = False, stackInstance = False, callBorrowOrigin = [],
    paramBorrowOrigin = [], l_formal = None, slotBorrowedLocals = []\<rparr>"
  let ?f = "put_field ?x new_frame"
  have "sf_fields ?f ''x'' = Some (Some ?x)" "titleBearing ?x" by (simp_all add: put_field_def new_frame_def titleBearing_def)
  moreover have "\<exists>s' st. gen (F_Seq [F_Move ''x'' ''line 1'', F_If (F_Seq []) (F_Block []) (Some (F_Block [F_Assign ''x'' (F_Seq [])])),
        F_Move ''x'' ''line 2'']) [?f] = Inr (s', st)"
    by (simp add: scope_evals move_name_def rejectTransferOfBorrow_def titleBearing_def isFormal_def demoteToBorrow_def
        target_of_def mark_moved_def frame_at_def at_level_def log_move_def unmark_def)
  ultimately show ?thesis by blast
qed

end
